(* ===== verification/Promxy_Prelude.thy ===== *)
theory Promxy_Prelude
  imports
    Main
    "HOL-Library.Word"
    "HOL-Library.Multiset"
    "HOL-Library.Char_ord"
    "HOL-Library.List_Lexorder"
    "HOL-Library.Product_Lexorder"
    "HOL-Library.Signed_Division"
begin

text \<open>
  Shared vocabulary of the development: the parts of Go and of its standard library
  that promxy's code rests on (64-bit signed integers with their wrap-around,
  \<open>time.Time\<close> and \<open>time.Duration\<close>, \<open>float64\<close> comparison, string prefixes, maps with a
  canonical order), with the generic lemmas every component theory uses.
\<close>

named_theorems go_arith \<open>when 64-bit Go arithmetic is exact\<close>
named_theorems label_simps \<open>lookup and update laws of label maps\<close>

section \<open>Panics\<close>

text \<open>A Go call returns a value or panics; \<open>obind\<close> sequences two calls.\<close>

datatype 'a outcome = Ret 'a | Panic string

fun obind :: "'a outcome \<Rightarrow> ('a \<Rightarrow> 'b outcome) \<Rightarrow> 'b outcome" where
  "obind (Ret x) f = f x"
| "obind (Panic p) f = Panic p"

lemma obind_eq_Ret: "obind x f = Ret y \<longleftrightarrow> (\<exists>a. x = Ret a \<and> f a = Ret y)"
  by (cases x) auto

lemma obind_assoc: "obind (obind x f) g = obind x (\<lambda>a. obind (f a) g)"
  by (cases x) auto

lemma obind_Ret [simp]: "obind x Ret = x"
  by (cases x) auto

section \<open>Signed 64-bit integers\<close>

text \<open>
  \<open>int64\<close> values are integers kept in range by \<open>i64\<close>, which is the two's-complement
  wrap-around of Go's \<open>+\<close>, \<open>-\<close> and \<open>*\<close>.
\<close>

definition i64 :: "int \<Rightarrow> int" where
  "i64 x = (x + 2 ^ 63) mod 2 ^ 64 - 2 ^ 63"

definition in_i64 :: "int \<Rightarrow> bool" where
  "in_i64 x \<longleftrightarrow> - (2 ^ 63) \<le> x \<and> x < 2 ^ 63"

lemma i64_id [go_arith]: "- (2 ^ 63) \<le> x \<Longrightarrow> x < 2 ^ 63 \<Longrightarrow> i64 x = x"
  by (simp add: i64_def)

lemma in_i64_i64 [simp]: "in_i64 (i64 x)"
  by (simp add: in_i64_def i64_def)

lemma i64_idem [simp]: "i64 (i64 x) = i64 x"
  using in_i64_i64 [of x] unfolding in_i64_def by (intro i64_id) auto

section \<open>Times and durations\<close>

text \<open>
  A \<open>time.Time\<close> is its number of nanoseconds since the Unix epoch, a \<open>time.Duration\<close> an
  \<open>int64\<close> number of nanoseconds. The zero \<open>time.Time\<close> is January 1 of year 1.
\<close>

type_synonym time = int
type_synonym duration = int

definition nanos_per_milli :: int where
  "nanos_per_milli = 1000000"

definition nanos_per_second :: int where
  "nanos_per_second = 1000000000"

definition zero_time :: time where
  "zero_time = - 62135596800 * 1000000000"

definition IsZero :: "time \<Rightarrow> bool" where
  "IsZero t \<longleftrightarrow> t = zero_time"

definition Before :: "time \<Rightarrow> time \<Rightarrow> bool" where
  "Before t u \<longleftrightarrow> t < u"

definition After :: "time \<Rightarrow> time \<Rightarrow> bool" where
  "After t u \<longleftrightarrow> u < t"

text \<open>\<open>Time.Sub\<close> saturates at the ends of the \<open>int64\<close> range instead of wrapping.\<close>

definition time_Sub :: "time \<Rightarrow> time \<Rightarrow> duration" where
  "time_Sub t u = max (- (2 ^ 63)) (min (2 ^ 63 - 1) (t - u))"

text \<open>
  \<open>Time.Truncate\<close> rounds down to a multiple of the duration counted from the zero time;
  a non-positive duration leaves the time alone.
\<close>

definition time_Truncate :: "time \<Rightarrow> duration \<Rightarrow> time" where
  "time_Truncate t d = (if d \<le> 0 then t else t - (t - zero_time) mod d)"

text \<open>\<open>timestamp.FromTime\<close> and \<open>timestamp.Time\<close>: milliseconds since the epoch.\<close>

definition FromTime :: "time \<Rightarrow> int" where
  "FromTime t = i64 (t div nanos_per_milli)"

definition timestamp_Time :: "int \<Rightarrow> time" where
  "timestamp_Time ms = ms * nanos_per_milli"

lemma FromTime_timestamp_Time: "in_i64 ms \<Longrightarrow> FromTime (timestamp_Time ms) = ms"
  by (simp add: FromTime_def timestamp_Time_def nanos_per_milli_def in_i64_def i64_id)

lemma time_Truncate_le: "time_Truncate t d \<le> t"
  by (simp add: time_Truncate_def)

lemma time_Truncate_gt: "0 < d \<Longrightarrow> t < time_Truncate t d + d"
  using pos_mod_bound [of d "t - zero_time"] by (simp add: time_Truncate_def)

lemma time_Truncate_idem: "time_Truncate (time_Truncate t d) d = time_Truncate t d"
proof (cases "d \<le> 0")
  case False
  have "(t - zero_time - (t - zero_time) mod d) mod d = 0"
    by (simp add: minus_mod_eq_mult_div)
  then have "(t - (t - zero_time) mod d - zero_time) mod d = 0"
    by (simp add: algebra_simps)
  with False show ?thesis by (simp add: time_Truncate_def)
qed (simp add: time_Truncate_def)

section \<open>Float64 values\<close>

text \<open>
  A \<open>float64\<close> is its IEEE-754 bit pattern, so that the staleness marker, which is one
  particular NaN, is a value like any other. \<open>f64_lt\<close> and \<open>f64_eq\<close> are Go's \<open><\<close> and
  \<open>==\<close>: every comparison with a NaN is false and the two zeros are equal.
\<close>

type_synonym f64 = "64 word"

definition f64_exponent :: "f64 \<Rightarrow> nat" where
  "f64_exponent x = unat (take_bit 11 (drop_bit 52 x))"

definition f64_mantissa :: "f64 \<Rightarrow> nat" where
  "f64_mantissa x = unat (take_bit 52 x)"

definition f64_is_nan :: "f64 \<Rightarrow> bool" where
  "f64_is_nan x \<longleftrightarrow> f64_exponent x = 2047 \<and> f64_mantissa x \<noteq> 0"

definition f64_key :: "f64 \<Rightarrow> int" where
  "f64_key x = (if bit x 63 then - uint (take_bit 63 x) else uint (take_bit 63 x))"

definition f64_lt :: "f64 \<Rightarrow> f64 \<Rightarrow> bool" where
  "f64_lt x y \<longleftrightarrow> \<not> f64_is_nan x \<and> \<not> f64_is_nan y \<and> f64_key x < f64_key y"

definition f64_eq :: "f64 \<Rightarrow> f64 \<Rightarrow> bool" where
  "f64_eq x y \<longleftrightarrow> \<not> f64_is_nan x \<and> \<not> f64_is_nan y \<and> f64_key x = f64_key y"

definition StaleNaN :: f64 where
  "StaleNaN = 0x7ff0000000000002"

lemma f64_lt_irrefl [simp]: "\<not> f64_lt x x"
  by (simp add: f64_lt_def)

lemma f64_lt_trans: "f64_lt x y \<Longrightarrow> f64_lt y z \<Longrightarrow> f64_lt x z"
  by (simp add: f64_lt_def)

lemma StaleNaN_is_nan: "f64_is_nan StaleNaN"
  by (simp add: StaleNaN_def f64_is_nan_def f64_exponent_def f64_mantissa_def)

lemma StaleNaN_never_less: "\<not> f64_lt StaleNaN x" "\<not> f64_lt x StaleNaN"
  by (simp_all add: f64_lt_def StaleNaN_is_nan)

section \<open>Strings\<close>

fun HasPrefix :: "string \<Rightarrow> string \<Rightarrow> bool" where
  "HasPrefix s [] = True"
| "HasPrefix [] (p # ps) = False"
| "HasPrefix (c # cs) (p # ps) = (c = p \<and> HasPrefix cs ps)"

definition TrimPrefix :: "string \<Rightarrow> string \<Rightarrow> string" where
  "TrimPrefix s p = (if HasPrefix s p then drop (length p) s else s)"

definition CutPrefix :: "string \<Rightarrow> string \<Rightarrow> string option" where
  "CutPrefix s p = (if HasPrefix s p then Some (drop (length p) s) else None)"

lemma HasPrefix_append [simp]: "HasPrefix (p @ s) p"
  by (induction p) auto

lemma HasPrefix_iff: "HasPrefix s p \<longleftrightarrow> (\<exists>r. s = p @ r)"
  by (induction s p rule: HasPrefix.induct) auto

lemma TrimPrefix_append [simp]: "TrimPrefix (p @ s) p = s"
  by (simp add: TrimPrefix_def)

lemma CutPrefix_append [simp]: "CutPrefix (p @ s) p = Some s"
  by (simp add: CutPrefix_def)

lemma CutPrefix_Some_iff: "CutPrefix s p = Some r \<longleftrightarrow> s = p @ r"
  by (auto simp: CutPrefix_def HasPrefix_iff)

section \<open>Finite maps in canonical order\<close>

text \<open>
  A Go map that is iterated or turned into a sorted slice (a \<open>model.LabelSet\<close>, a
  \<open>labels.Labels\<close>, a metadata map) is an association list sorted strictly by key, which
  makes equal maps equal lists. \<open>map_of\<close> looks a key up.
\<close>

type_synonym ('k, 'v) smap = "('k \<times> 'v) list"

definition smap_ok :: "('k::linorder, 'v) smap \<Rightarrow> bool" where
  "smap_ok m \<longleftrightarrow> sorted_wrt (<) (map fst m)"

fun smap_put :: "'k::linorder \<Rightarrow> 'v \<Rightarrow> ('k, 'v) smap \<Rightarrow> ('k, 'v) smap" where
  "smap_put k v [] = [(k, v)]"
| "smap_put k v ((k', v') # m) =
     (if k < k' then (k, v) # (k', v') # m
      else if k = k' then (k, v) # m
      else (k', v') # smap_put k v m)"

definition smap_del :: "'k \<Rightarrow> ('k, 'v) smap \<Rightarrow> ('k, 'v) smap" where
  "smap_del k m = filter (\<lambda>(k', _). k' \<noteq> k) m"

definition smap_of_list :: "('k::linorder \<times> 'v) list \<Rightarrow> ('k, 'v) smap" where
  "smap_of_list kvs = fold (\<lambda>(k, v) m. smap_put k v m) kvs []"

lemma smap_ok_Nil [simp]: "smap_ok []"
  by (simp add: smap_ok_def)

lemma smap_ok_Cons: "smap_ok ((k, v) # m) \<longleftrightarrow> (\<forall>k'\<in>set (map fst m). k < k') \<and> smap_ok m"
  by (simp add: smap_ok_def)

lemma map_of_smap_put [label_simps]: "map_of (smap_put k v m) = (map_of m)(k \<mapsto> v)"
  by (induction m) (auto simp: fun_eq_iff)

lemma keys_smap_put [simp]: "fst ` set (smap_put k v m) = insert k (fst ` set m)"
  by (induction k v m rule: smap_put.induct) (simp_all add: insert_commute)

lemma smap_ok_put [simp]: "smap_ok m \<Longrightarrow> smap_ok (smap_put k v m)"
  by (induction k v m rule: smap_put.induct) (fastforce simp: smap_ok_Cons)+

lemma map_of_smap_del [label_simps]: "map_of (smap_del k m) = (map_of m)(k := None)"
  by (induction m) (auto simp: smap_del_def fun_eq_iff)

lemma smap_ok_del [simp]: "smap_ok m \<Longrightarrow> smap_ok (smap_del k m)"
  by (induction m) (auto simp: smap_del_def smap_ok_Cons)

lemma smap_ok_distinct: "smap_ok m \<Longrightarrow> distinct (map fst m)"
  by (simp add: smap_ok_def strict_sorted_iff)

lemma smap_ok_of_list [simp]: "smap_ok (smap_of_list kvs)"
proof -
  have "smap_ok (fold (\<lambda>(k, v) m. smap_put k v m) kvs m)" if "smap_ok m"
    for m :: "('a::linorder, 'b) smap"
    using that by (induction kvs arbitrary: m) auto
  then show ?thesis by (simp add: smap_of_list_def)
qed

lemma map_of_smap_of_list [label_simps]: "map_of (smap_of_list kvs) = map_of (rev kvs)"
proof -
  have "map_of (fold (\<lambda>(k, v) m. smap_put k v m) kvs m) = map_of m ++ map_of (rev kvs)" for m
    by (induction kvs arbitrary: m) (auto simp: label_simps map_add_def fun_eq_iff split: option.splits)
  then show ?thesis by (simp add: smap_of_list_def)
qed

text \<open>Two maps with the same lookups are the same list.\<close>

lemma smap_eqI:
  assumes "smap_ok m" "smap_ok n" "map_of m = map_of n"
  shows "m = n"
proof -
  have "map fst m = map fst n"
  proof (rule sorted_distinct_set_unique)
    show "set (map fst m) = set (map fst n)"
      using assms(3) by (metis dom_map_of_conv_image_fst set_map)
  qed (use assms in \<open>auto simp: smap_ok_def strict_sorted_iff\<close>)
  moreover have "map snd m = map (\<lambda>k. the (map_of m k)) (map fst m)"
    using smap_ok_distinct [OF assms(1)] by (auto simp: map_of_is_SomeI)
  moreover have "map snd n = map (\<lambda>k. the (map_of n k)) (map fst n)"
    using smap_ok_distinct [OF assms(2)] by (auto simp: map_of_is_SomeI)
  ultimately have "map snd m = map snd n" using assms(3) by simp
  with \<open>map fst m = map fst n\<close> show ?thesis by (metis zip_map_fst_snd)
qed

section \<open>Lists\<close>

lemma sorted_wrt_filter_mono: "sorted_wrt P xs \<Longrightarrow> sorted_wrt P (filter Q xs)"
  by (rule sorted_wrt_filter)

lemma strict_sorted_set_unique:
  fixes f :: "'a \<Rightarrow> 'b::linorder"
  assumes "sorted_wrt (\<lambda>x y. f x < f y) xs" "sorted_wrt (\<lambda>x y. f x < f y) ys"
    and "set xs = set ys"
  shows "xs = ys"
proof -
  have "map f xs = map f ys"
    using assms by (intro strict_sorted_equal) (simp_all add: sorted_wrt_map)
  moreover have "inj_on f (set xs)"
    using assms(1) by (induction xs) fastforce+
  ultimately show ?thesis using assms(3) by (simp add: map_inj_on)
qed

lemma strict_sort_key:
  assumes "distinct (map f xs)"
  shows "sorted_wrt (\<lambda>x y. f x < f y) (sort_key f xs)"
proof -
  have "sorted (map f (sort_key f xs))" by simp
  moreover have "distinct (map f (sort_key f xs))" using assms by (simp add: distinct_map)
  ultimately show ?thesis
    by (simp add: sorted_wrt_map [symmetric] strict_sorted_iff del: sorted_wrt_map sorted_sort_key)
qed

lemma strict_sorted_distinct: "sorted_wrt (\<lambda>x y. f x < f y) xs \<Longrightarrow> distinct (map f xs)"
  for f :: "'a \<Rightarrow> 'b::linorder"
  using strict_sorted_iff [of "map f xs"] by (simp add: sorted_wrt_map)

lemma all_set_take_drop: "(\<forall>x\<in>set xs. P x) \<longleftrightarrow> (\<forall>x\<in>set (take n xs). P x) \<and> (\<forall>x\<in>set (drop n xs). P x)"
  by (metis Un_iff append_take_drop_id set_append)

end
