(* ===== verification/Promxy_Labels.thy ===== *)
theory Promxy_Labels
  imports Promxy_Prelude
begin

unbundle bit_operations_syntax

text \<open>
  Label sets and their fingerprints: \<open>model.LabelSet\<close>, \<open>model.Metric\<close> and
  \<open>labels.Labels\<close> with the operations promxy calls on them, and the FNV-1a hashes that
  \<open>MultiAPI\<close>, \<open>MergeSampleStream\<close> and \<open>MergeLabelSets\<close> use as series identities.
\<close>

type_synonym labelset = "(string, string) smap"
type_synonym fingerprint = "64 word"

section \<open>Fingerprints\<close>

definition offset64 :: "64 word" where
  "offset64 = 14695981039346656037"

definition prime64 :: "64 word" where
  "prime64 = 1099511628211"

definition hashAddByte :: "64 word \<Rightarrow> 64 word \<Rightarrow> 64 word" where
  "hashAddByte h b = (h XOR b) * prime64"

definition hashAdd :: "64 word \<Rightarrow> string \<Rightarrow> 64 word" where
  "hashAdd h s = foldl (\<lambda>h c. hashAddByte h (of_nat (of_char c))) h s"

definition SeparatorByte :: "64 word" where
  "SeparatorByte = 255"

definition labelSetToFingerprint :: "labelset \<Rightarrow> fingerprint" where
  "labelSetToFingerprint ls =
     (if ls = [] then offset64
      else foldl (\<lambda>sum (n, v).
             hashAddByte (hashAdd (hashAddByte (hashAdd sum n) SeparatorByte) v) SeparatorByte)
           offset64 ls)"

definition labelSetToFastFingerprint :: "labelset \<Rightarrow> fingerprint" where
  "labelSetToFastFingerprint ls =
     (if ls = [] then offset64
      else foldl (\<lambda>result (n, v).
             result XOR hashAdd (hashAddByte (hashAdd offset64 n) SeparatorByte) v) 0 ls)"

section \<open>Reading and updating labels\<close>

text \<open>\<open>labels.Labels.Get\<close>, and reading an absent key of a Go map: the empty string.\<close>

definition labels_Get :: "labelset \<Rightarrow> string \<Rightarrow> string" where
  "labels_Get ls n = (case map_of ls n of Some v \<Rightarrow> v | None \<Rightarrow> [])"

text \<open>\<open>labels.Builder.Set\<close>: setting the empty value removes the label.\<close>

definition Builder_Set :: "string \<Rightarrow> string \<Rightarrow> labelset \<Rightarrow> labelset" where
  "Builder_Set n v ls = (if v = [] then smap_del n ls else smap_put n v ls)"

definition LabelSet_Merge :: "labelset \<Rightarrow> labelset \<Rightarrow> labelset" where
  "LabelSet_Merge l other = fold (\<lambda>(k, v) m. smap_put k v m) other l"

lemma smap_ok_Builder_Set [simp]: "smap_ok ls \<Longrightarrow> smap_ok (Builder_Set n v ls)"
  by (simp add: Builder_Set_def)

lemma labels_Get_Builder_Set [label_simps]:
  "labels_Get (Builder_Set n v ls) k = (if k = n then v else labels_Get ls k)"
  by (simp add: Builder_Set_def labels_Get_def label_simps)

lemma smap_ok_fold_put: "smap_ok l \<Longrightarrow> smap_ok (fold (\<lambda>(k, v) m. smap_put k v m) kvs l)"
  by (induction kvs arbitrary: l) auto

lemma map_of_fold_put:
  "map_of (fold (\<lambda>(k, v) m. smap_put k v m) kvs l) = map_of l ++ map_of (rev kvs)"
  by (induction kvs arbitrary: l)
     (auto simp: label_simps map_add_def fun_eq_iff split: option.splits)

lemma map_of_rev_distinct: "distinct (map fst kvs) \<Longrightarrow> map_of (rev kvs) = map_of kvs"
  by (metis map_of_eqI set_rev map_of_inject_set rev_map distinct_rev)

lemma smap_ok_LabelSet_Merge [simp]: "smap_ok l \<Longrightarrow> smap_ok (LabelSet_Merge l m)"
  by (simp add: LabelSet_Merge_def smap_ok_fold_put)

lemma map_of_LabelSet_Merge [label_simps]:
  "smap_ok m \<Longrightarrow> map_of (LabelSet_Merge l m) = map_of l ++ map_of m"
  by (simp add: LabelSet_Merge_def map_of_fold_put map_of_rev_distinct smap_ok_distinct)

text \<open>Setting a whole label set on a series' labels, one \<open>Builder.Set\<close> per entry.\<close>

definition Builder_SetAll :: "labelset \<Rightarrow> labelset \<Rightarrow> labelset" where
  "Builder_SetAll add l = fold (\<lambda>(k, v) b. Builder_Set k v b) add l"

lemma smap_ok_Builder_SetAll [simp]: "smap_ok l \<Longrightarrow> smap_ok (Builder_SetAll add l)"
proof -
  have "smap_ok (fold (\<lambda>(k, v) b. Builder_Set k v b) add l)" if "smap_ok l" for l
    using that by (induction add arbitrary: l) auto
  then show "smap_ok l \<Longrightarrow> smap_ok (Builder_SetAll add l)" by (simp add: Builder_SetAll_def)
qed

lemma labels_Get_Builder_SetAll [label_simps]:
  assumes "distinct (map fst add)"
  shows "labels_Get (Builder_SetAll add l) n =
     (case map_of add n of Some v \<Rightarrow> v | None \<Rightarrow> labels_Get l n)"
  using assms unfolding Builder_SetAll_def
proof (induction add arbitrary: l)
  case (Cons kv add)
  obtain k v where kv: "kv = (k, v)" by (cases kv)
  have "map_of add k = None" if "n = k"
    using Cons.prems kv by (auto simp: map_of_eq_None_iff)
  then show ?case
    using Cons kv by (auto simp: label_simps split: option.splits)
qed simp

end
