(* ===== verification/Promxy_Merge.thy ===== *)
theory Promxy_Merge
  imports Promxy_Labels
begin

text \<open>
  The HA merge of two copies of one series, \<open>src/pkg/promhttputil/merge.go\<close>: the
  anti-affinity merge of float and histogram samples (\<open>MergeSampleStream\<close>,
  \<open>mergeHistogramSamples\<close>) and the inference of the buffer from the sample spacing
  (\<open>dynamicAntiAffinityFrom\<close>, \<open>appendGaps\<close>, \<open>dynamicBufferForStream\<close>).
  Timestamps are \<open>model.Time\<close> values, 64-bit millisecond counts whose arithmetic wraps.
  An index into the slice \<open>b\<close> (\<open>bOffset\<close>, \<open>lastOffset\<close>) is the suffix \<open>b[offset:]\<close>.
\<close>

section \<open>Sample streams\<close>

record 'v sample_pair =
  Timestamp :: int
  Value :: 'v

record 'h sample_stream =
  Metric :: labelset
  Values :: "f64 sample_pair list"
  Histograms :: "'h sample_pair list"

datatype merge_error = MismatchFingerprints

section \<open>The anti-affinity merge\<close>

text \<open>Load the points of \<open>b\<close> that lie before the first point of \<open>a\<close> by more than the buffer.\<close>

fun load_before :: "int \<Rightarrow> 'v sample_pair list \<Rightarrow> 'v sample_pair list \<times> 'v sample_pair list" where
  "load_before aStartBuffered [] = ([], [])"
| "load_before aStartBuffered [b] =
     (if Timestamp b < aStartBuffered then ([b], [b]) else ([], [b]))"
| "load_before aStartBuffered (b # bs) =
     (if Timestamp b < aStartBuffered
      then (case load_before aStartBuffered bs of (new, rest) \<Rightarrow> (b # new, rest))
      else ([], b # bs))"

text \<open>Look for points of \<open>b\<close> that fit in the gap before the next point of \<open>a\<close>.\<close>

fun fill_gap ::
  "int \<Rightarrow> int \<Rightarrow> int \<Rightarrow> 'v sample_pair list \<Rightarrow> 'v sample_pair list \<Rightarrow>
   'v sample_pair list \<times> 'v sample_pair list"
where
  "fill_gap buf lastTime aTime newValues [] = (newValues, [])"
| "fill_gap buf lastTime aTime newValues (b # bs) =
     (if Timestamp b \<ge> aTime then (newValues, b # bs)
      else if Timestamp b > i64 (lastTime + buf) \<and> Timestamp b < i64 (aTime - buf)
      then fill_gap buf lastTime aTime (newValues @ [b]) bs
      else fill_gap buf lastTime aTime newValues bs)"

text \<open>With \<open>preferMax\<close>: the first point of \<open>b\<close> within the buffer, if it is larger.\<close>

fun prefer_max_scan ::
  "int \<Rightarrow> f64 sample_pair \<Rightarrow> f64 sample_pair list \<Rightarrow> f64 sample_pair list \<Rightarrow>
   f64 sample_pair option \<times> f64 sample_pair list"
where
  "prefer_max_scan buf a lastOffset [] = (None, lastOffset)"
| "prefer_max_scan buf a lastOffset (b # bs) =
     (if Timestamp b \<ge> i64 (Timestamp a + buf) \<and> Timestamp b \<noteq> Timestamp a then (None, lastOffset)
      else if Timestamp b = Timestamp a \<or> Timestamp b > i64 (Timestamp a - buf)
      then (if f64_lt (Value a) (Value b) then Some (b\<lparr>Timestamp := Timestamp a\<rparr>) else None, b # bs)
      else prefer_max_scan buf a lastOffset bs)"

text \<open>The points of \<open>b\<close> that are left after the last point of \<open>a\<close>.\<close>

definition append_tail :: "int \<Rightarrow> 'v sample_pair list \<Rightarrow> 'v sample_pair list \<Rightarrow> 'v sample_pair list" where
  "append_tail buf newValues bOffset =
     (let lastTime = Timestamp (last newValues)
      in newValues @ filter (\<lambda>b. Timestamp b > i64 (lastTime + buf)) bOffset)"

fun merge_values_loop ::
  "int \<Rightarrow> bool \<Rightarrow> f64 sample_pair list \<Rightarrow> f64 sample_pair list \<Rightarrow> f64 sample_pair list \<Rightarrow>
   f64 sample_pair list \<Rightarrow> f64 sample_pair list \<times> f64 sample_pair list"
where
  "merge_values_loop buf preferMax [] bOffset lastOffset newValues = (newValues, bOffset)"
| "merge_values_loop buf preferMax (a # as) bOffset lastOffset newValues =
     (if newValues = [] then merge_values_loop buf preferMax as bOffset lastOffset [a]
      else
        (let lastTime = Timestamp (last newValues);
             (newValues, bOffset) =
               (if i64 (Timestamp a - lastTime) > i64 (buf * 2)
                then fill_gap buf lastTime (Timestamp a) newValues bOffset
                else (newValues, bOffset))
         in if \<not> preferMax
            then merge_values_loop buf preferMax as bOffset lastOffset (newValues @ [a])
            else (case prefer_max_scan buf a lastOffset lastOffset of
                    (Some b, lastOffset) \<Rightarrow>
                      merge_values_loop buf preferMax as bOffset lastOffset (newValues @ [b])
                  | (None, lastOffset) \<Rightarrow>
                      merge_values_loop buf preferMax as bOffset lastOffset (newValues @ [a]))))"

definition merge_values ::
  "int \<Rightarrow> bool \<Rightarrow> f64 sample_pair list \<Rightarrow> f64 sample_pair list \<Rightarrow> f64 sample_pair list"
where
  "merge_values buf preferMax a b =
     (let aStartBuffered = i64 (Timestamp (hd a) - buf);
          (newValues, bOffset) =
            (if Timestamp (hd b) < aStartBuffered then load_before aStartBuffered b else ([], b));
          (newValues, bOffset) = merge_values_loop buf preferMax a bOffset bOffset newValues
      in append_tail buf newValues bOffset)"

fun merge_histograms_loop ::
  "int \<Rightarrow> 'h sample_pair list \<Rightarrow> 'h sample_pair list \<Rightarrow> 'h sample_pair list \<Rightarrow>
   'h sample_pair list \<times> 'h sample_pair list"
where
  "merge_histograms_loop buf [] bOffset newValues = (newValues, bOffset)"
| "merge_histograms_loop buf (a # as) bOffset newValues =
     (if newValues = [] then merge_histograms_loop buf as bOffset [a]
      else
        (let lastTime = Timestamp (last newValues);
             (newValues, bOffset) =
               (if i64 (Timestamp a - lastTime) > i64 (buf * 2)
                then fill_gap buf lastTime (Timestamp a) newValues bOffset
                else (newValues, bOffset))
         in merge_histograms_loop buf as bOffset (newValues @ [a])))"

definition mergeHistogramSamples ::
  "int \<Rightarrow> 'h sample_pair list \<Rightarrow> 'h sample_pair list \<Rightarrow> 'h sample_pair list"
where
  "mergeHistogramSamples buf a b =
     (if a = [] \<and> b = [] then []
      else if a = [] then b
      else if b = [] then a
      else
        (let (a, b) = (if length b > length a then (b, a) else (a, b));
             aStartBuffered = i64 (Timestamp (hd a) - buf);
             (newValues, bOffset) =
               (if Timestamp (hd b) < aStartBuffered then load_before aStartBuffered b else ([], b));
             (newValues, bOffset) = merge_histograms_loop buf a bOffset newValues
         in append_tail buf newValues bOffset))"

section \<open>The dynamic buffer\<close>

definition minDynamicGaps :: nat where
  "minDynamicGaps = 3"

fun appendGaps :: "int list \<Rightarrow> 'v sample_pair list \<Rightarrow> int list" where
  "appendGaps gaps (p # q # s) =
     (let d = i64 (Timestamp q - Timestamp p)
      in appendGaps (if d > 0 then gaps @ [d] else gaps) (q # s))"
| "appendGaps gaps s = gaps"

text \<open>The second component of the Go result, \<open>ok\<close>, is the constructor of the option.\<close>

definition dynamicAntiAffinityFrom :: "'v sample_pair list \<Rightarrow> 'v sample_pair list \<Rightarrow> int option" where
  "dynamicAntiAffinityFrom a b =
     (let gaps = appendGaps [] a;
          gaps = (if length gaps < minDynamicGaps then appendGaps gaps b else gaps)
      in if length gaps < minDynamicGaps then None
         else Some ((sort gaps ! (length gaps div 2)) sdiv 2))"

definition dynamicBufferForStream :: "'h sample_stream \<Rightarrow> 'h sample_stream \<Rightarrow> int option" where
  "dynamicBufferForStream a b =
     (let (fa, fb) = (if length (Values b) > length (Values a)
                      then (Values b, Values a) else (Values a, Values b))
      in case dynamicAntiAffinityFrom fa fb of
           Some dyn \<Rightarrow> Some dyn
         | None \<Rightarrow>
             (let (ha, hb) = (if length (Histograms b) > length (Histograms a)
                              then (Histograms b, Histograms a) else (Histograms a, Histograms b))
              in dynamicAntiAffinityFrom ha hb))"

section \<open>Merging two sample streams\<close>

definition MergeSampleStream ::
  "int \<Rightarrow> bool \<Rightarrow> 'h sample_stream \<Rightarrow> 'h sample_stream \<Rightarrow> bool \<Rightarrow> merge_error + 'h sample_stream"
where
  "MergeSampleStream antiAffinityBuffer dynamic a b preferMax =
     (if labelSetToFingerprint (Metric a) \<noteq> labelSetToFingerprint (Metric b)
      then Inl MismatchFingerprints
      else
        (let buf = (if dynamic
                    then (case dynamicBufferForStream a b of
                            Some dyn \<Rightarrow> dyn | None \<Rightarrow> antiAffinityBuffer)
                    else antiAffinityBuffer);
             mergedHistograms = mergeHistogramSamples buf (Histograms a) (Histograms b)
         in if Values a = [] \<and> Values b = []
            then Inr \<lparr>Metric = Metric a, Values = [], Histograms = mergedHistograms\<rparr>
            else if Values a = []
            then Inr \<lparr>Metric = Metric b, Values = Values b, Histograms = mergedHistograms\<rparr>
            else if Values b = []
            then Inr \<lparr>Metric = Metric a, Values = Values a, Histograms = mergedHistograms\<rparr>
            else
              (let (a, b) = (if length (Values b) > length (Values a) then (b, a) else (a, b))
               in Inr \<lparr>Metric = Metric a,
                       Values = merge_values buf preferMax (Values a) (Values b),
                       Histograms = mergedHistograms\<rparr>)))"

section \<open>What the merge promises\<close>

text \<open>
  A point of \<open>b\<close> is \<open>far\<close> from \<open>a\<close> when no point of \<open>a\<close> lies within the buffer of it.
  The merge keeps all points of the longer side and the far points of the shorter one, in
  time order: \<open>ha_union\<close>. Timestamps up to 2^61 ms keep the 64-bit arithmetic exact.
\<close>

definition far :: "int \<Rightarrow> 'v sample_pair list \<Rightarrow> 'v sample_pair \<Rightarrow> bool" where
  "far buf as b \<longleftrightarrow> (\<forall>a\<in>set as. \<bar>Timestamp b - Timestamp a\<bar> > buf)"

abbreviation strict_ts :: "'v sample_pair list \<Rightarrow> bool" where
  "strict_ts xs \<equiv> sorted_wrt (\<lambda>x y. Timestamp x < Timestamp y) xs"

definition ts_ok :: "'v sample_pair list \<Rightarrow> bool" where
  "ts_ok xs \<longleftrightarrow> (\<forall>x\<in>set xs. \<bar>Timestamp x\<bar> \<le> 2 ^ 61)"

definition buf_ok :: "int \<Rightarrow> bool" where
  "buf_ok buf \<longleftrightarrow> 0 \<le> buf \<and> buf \<le> 2 ^ 61"

definition ha_union :: "int \<Rightarrow> 'v sample_pair list \<Rightarrow> 'v sample_pair list \<Rightarrow> 'v sample_pair list" where
  "ha_union buf a b = sort_key Timestamp (a @ filter (far buf a) b)"

definition ha_merge :: "int \<Rightarrow> 'v sample_pair list \<Rightarrow> 'v sample_pair list \<Rightarrow> 'v sample_pair list" where
  "ha_merge buf a b = (if length b > length a then ha_union buf b a else ha_union buf a b)"

definition stream_ok :: "'h sample_stream \<Rightarrow> bool" where
  "stream_ok s \<longleftrightarrow> strict_ts (Values s) \<and> ts_ok (Values s) \<and> strict_ts (Histograms s) \<and> ts_ok (Histograms s)"

definition effective_buffer :: "int \<Rightarrow> bool \<Rightarrow> 'h sample_stream \<Rightarrow> 'h sample_stream \<Rightarrow> int" where
  "effective_buffer buf dynamic a b =
     (if dynamic then (case dynamicBufferForStream a b of Some dyn \<Rightarrow> dyn | None \<Rightarrow> buf) else buf)"

text \<open>With \<open>preferMax\<close> a point may carry a larger value taken from a point within the buffer.\<close>

definition picked_from :: "int \<Rightarrow> f64 sample_pair list \<Rightarrow> f64 sample_pair \<Rightarrow> f64 sample_pair \<Rightarrow> bool" where
  "picked_from buf b x y \<longleftrightarrow> Timestamp x = Timestamp y \<and>
     (x = y \<or> f64_lt (Value y) (Value x) \<and>
       (\<exists>z\<in>set b. Value z = Value x \<and>
          (Timestamp z = Timestamp y \<or> \<bar>Timestamp z - Timestamp y\<bar> < buf)))"

text \<open>The gaps the estimator looks at: those of the longer side, plus borrowed ones when it is too short.\<close>

definition dynamic_gaps :: "'v sample_pair list \<Rightarrow> 'v sample_pair list \<Rightarrow> int list" where
  "dynamic_gaps a b = (if length (appendGaps [] a) < minDynamicGaps
     then appendGaps [] a @ appendGaps [] b else appendGaps [] a)"

text \<open>The part that the float and the histogram merge share, and the float merge on both sides.\<close>

definition merge_base :: "int \<Rightarrow> 'v sample_pair list \<Rightarrow> 'v sample_pair list \<Rightarrow> 'v sample_pair list" where
  "merge_base buf a b =
     (let aStartBuffered = i64 (Timestamp (hd a) - buf);
          (newValues, bOffset) =
            (if Timestamp (hd b) < aStartBuffered then load_before aStartBuffered b else ([], b));
          (newValues, bOffset) = merge_histograms_loop buf a bOffset newValues
      in append_tail buf newValues bOffset)"

definition merge_floats :: "int \<Rightarrow> bool \<Rightarrow> f64 sample_pair list \<Rightarrow> f64 sample_pair list \<Rightarrow> f64 sample_pair list" where
  "merge_floats buf preferMax a b =
     (if a = [] then b else if b = [] then a
      else if length b > length a then merge_values buf preferMax b a else merge_values buf preferMax a b)"

section \<open>The loops compute the union\<close>

lemma ts_ok_simps [simp]: "ts_ok []" "ts_ok (x # xs) \<longleftrightarrow> \<bar>Timestamp x\<bar> \<le> 2 ^ 61 \<and> ts_ok xs"
  "ts_ok (xs @ ys) \<longleftrightarrow> ts_ok xs \<and> ts_ok ys"
  by (auto simp: ts_ok_def)

lemma far_Cons: "far buf (a # as) b \<longleftrightarrow> \<bar>Timestamp b - Timestamp a\<bar> > buf \<and> far buf as b"
  by (auto simp: far_def)

lemma i64_exact_buf:
  assumes "\<bar>t\<bar> \<le> 2 ^ 61" "buf_ok buf"
  shows "i64 (t + buf) = t + buf" "i64 (t - buf) = t - buf" "i64 (buf * 2) = buf * 2"
  using assms by (auto simp: buf_ok_def intro!: i64_id)

lemma i64_exact_gap: "\<bar>t\<bar> \<le> 2 ^ 61 \<Longrightarrow> \<bar>u\<bar> \<le> 2 ^ 61 \<Longrightarrow> i64 (t - u) = t - u"
  by (auto intro!: i64_id)

lemmas i64_exact = i64_exact_buf i64_exact_gap

lemma fill_gap_eq:
  assumes "strict_ts bs" "ts_ok bs" "buf_ok buf" "\<bar>l\<bar> \<le> 2 ^ 61" "\<bar>t\<bar> \<le> 2 ^ 61"
  shows "fill_gap buf l t new bs =
    (new @ filter (\<lambda>b. l + buf < Timestamp b \<and> Timestamp b < t - buf) bs,
     filter (\<lambda>b. t \<le> Timestamp b) bs)"
  using assms(1,2)
proof (induction bs arbitrary: new)
  case (Cons b bs)
  have [simp]: "i64 (l + buf) = l + buf" "i64 (t - buf) = t - buf"
    using assms by (simp_all add: i64_exact)
  have "0 \<le> buf" using assms(3) by (simp add: buf_ok_def)
  show ?case
  proof (cases "t \<le> Timestamp b")
    case True
    with Cons.prems \<open>0 \<le> buf\<close> have "filter (\<lambda>b. t \<le> Timestamp b) bs = bs"
      "filter (\<lambda>b. l + buf < Timestamp b \<and> Timestamp b < t - buf) bs = []"
      by (auto simp: filter_id_conv filter_empty_conv)
    with True \<open>0 \<le> buf\<close> show ?thesis by simp
  next
    case False
    with Cons show ?thesis by simp
  qed
qed simp

lemma far_after:
  assumes "strict_ts (a # as)" "0 \<le> buf" "Timestamp b < Timestamp a - buf"
  shows "far buf as b"
  using assms by (fastforce simp: far_def)

lemma last_ge:
  assumes "strict_ts new" "x \<in> set new"
  shows "Timestamp x \<le> Timestamp (last new)"
  using assms by (induction new rule: rev_induct) (auto simp: sorted_wrt_append)

lemma append_tail_spec:
  assumes "buf_ok buf" "new \<noteq> []" "strict_ts new" "ts_ok new" "strict_ts bs"
  shows "strict_ts (append_tail buf new bs)"
    and "set (append_tail buf new bs) = set new \<union> {b \<in> set bs. Timestamp (last new) + buf < Timestamp b}"
proof -
  have "last new \<in> set new" using assms(2) by simp
  then have l: "i64 (Timestamp (last new) + buf) = Timestamp (last new) + buf"
    using assms(1,4) by (auto simp: ts_ok_def i64_exact)
  then show "set (append_tail buf new bs) = set new \<union> {b \<in> set bs. Timestamp (last new) + buf < Timestamp b}"
    by (auto simp: append_tail_def)
  have "0 \<le> buf" using assms(1) by (simp add: buf_ok_def)
  then show "strict_ts (append_tail buf new bs)"
    using assms(3,5) last_ge [OF assms(3)]
    by (force simp: append_tail_def l sorted_wrt_append sorted_wrt_filter)
qed

lemma merge_histograms_loop_spec:
  assumes "buf_ok buf" "new \<noteq> []" "strict_ts new" "ts_ok new" "ts_ok as" "ts_ok bs"
    and "strict_ts (last new # as)" "strict_ts bs"
    and "merge_histograms_loop buf as bs new = (out, rest)"
  shows "strict_ts (append_tail buf out rest) \<and>
         set (append_tail buf out rest) =
           set new \<union> set as \<union> {b \<in> set bs. Timestamp (last new) + buf < Timestamp b \<and> far buf as b}"
  using assms(2-)
proof (induction as arbitrary: bs new)
  case Nil
  then show ?case using append_tail_spec [OF assms(1), of new bs] by (simp add: far_def)
next
  case (Cons a as)
  let ?l = "Timestamp (last new)" and ?t = "Timestamp a"
  have buf: "0 \<le> buf" using assms(1) by (simp add: buf_ok_def)
  have l: "\<bar>?l\<bar> \<le> 2 ^ 61" using Cons.prems(1,3) by (auto simp: ts_ok_def)
  have t: "\<bar>?t\<bar> \<le> 2 ^ 61" "?l < ?t" using Cons.prems by auto
  define new' where "new' = new @ filter (\<lambda>b. ?l + buf < Timestamp b \<and> Timestamp b < ?t - buf) bs"
  have strict': "strict_ts (new' @ [a])"
    using Cons.prems(2,7) last_ge [OF Cons.prems(2)] buf t(2)
    by (force simp: new'_def sorted_wrt_append sorted_wrt_filter)
  have ok': "ts_ok (new' @ [a])" using Cons.prems(3,4,5) by (auto simp: new'_def ts_ok_def)
  have far_a: "{b \<in> set bs. ?l + buf < Timestamp b \<and> far buf (a # as) b} =
      {b \<in> set bs. ?l + buf < Timestamp b \<and> Timestamp b < ?t - buf} \<union>
      {b \<in> set bs. ?t + buf < Timestamp b \<and> far buf as b}"
    using far_after [of a as buf] Cons.prems(6) buf t(2) by (auto simp: far_Cons)
  show ?case
  proof (cases "?t - ?l > buf * 2")
    case True
    have step: "merge_histograms_loop buf as (filter (\<lambda>b. ?t \<le> Timestamp b) bs) (new' @ [a]) = (out, rest)"
      using Cons.prems True l t assms(1)
      by (simp add: i64_exact fill_gap_eq new'_def split: if_splits)
    show ?thesis
      using Cons.IH [OF _ strict' ok' _ _ _ _ step] Cons.prems buf
      unfolding far_a by (auto simp: sorted_wrt_filter ts_ok_def new'_def)
  next
    case False
    then have "new' = new" by (auto simp: new'_def filter_empty_conv)
    then have step: "merge_histograms_loop buf as bs (new' @ [a]) = (out, rest)"
      using Cons.prems False l t assms(1) by (simp add: i64_exact split: if_splits)
    show ?thesis
      using Cons.IH [OF _ strict' ok' _ _ _ _ step] Cons.prems \<open>new' = new\<close> False
      unfolding far_a by (auto simp: ts_ok_def)
  qed
qed

lemma load_before_eq:
  assumes "strict_ts bs"
  shows "load_before s bs =
    (filter (\<lambda>b. Timestamp b < s) bs,
     if bs \<noteq> [] \<and> Timestamp (last bs) < s then [last bs] else filter (\<lambda>b. s \<le> Timestamp b) bs)"
  using assms
proof (induction s bs rule: load_before.induct)
  case (3 s b b' bs)
  show ?case
  proof (cases "Timestamp b < s")
    case True
    with 3 show ?thesis by (simp add: not_le)
  next
    case False
    with 3 have "\<forall>x\<in>set (b' # bs). s \<le> Timestamp x" by fastforce
    moreover have "last (b' # bs) \<in> set (b' # bs)" by (rule last_in_set) simp
    ultimately have "filter (\<lambda>b. Timestamp b < s) (b' # bs) = []" "filter (\<lambda>b. s \<le> Timestamp b) (b' # bs) = b' # bs"
      "\<not> Timestamp (last (b' # bs)) < s"
      by (auto simp: filter_empty_conv filter_id_conv not_less simp del: filter.simps last.simps)
    with False show ?thesis by (simp del: filter.simps add: filter.simps(2) [of _ b])
  qed
qed auto

lemma merge_values_loop_base:
  "merge_values_loop buf False as bs off new = merge_histograms_loop buf as bs new"
  by (induction as arbitrary: bs new) (simp_all add: Let_def split: prod.split)

lemma strict_ts_ha_union:
  assumes "strict_ts a" "strict_ts b" "0 \<le> buf"
  shows "strict_ts (ha_union buf a b)"
  unfolding ha_union_def
proof (rule strict_sort_key)
  show "distinct (map Timestamp (a @ filter (far buf a) b))"
    using assms(3) strict_sorted_distinct [OF assms(1)] strict_sorted_distinct [OF assms(2)]
    by (auto simp: far_def distinct_map_filter)
qed

lemma set_ha_union: "set (ha_union buf a b) = set a \<union> {x \<in> set b. far buf a x}"
  by (auto simp: ha_union_def)

lemma load_before_rest:
  assumes "strict_ts b" "load_before s b = (new, rest)" "b \<noteq> []"
  shows "strict_ts rest" "set rest \<subseteq> set b"
    "\<And>x. x \<in> set b \<Longrightarrow> s \<le> Timestamp x \<Longrightarrow> x \<in> set rest"
    "\<And>x. x \<in> set rest \<Longrightarrow> Timestamp x < s \<Longrightarrow> x = last new"
proof -
  have rest: "rest = (if Timestamp (last b) < s then [last b] else filter (\<lambda>b. s \<le> Timestamp b) b)"
    and new: "new = filter (\<lambda>b. Timestamp b < s) b"
    using load_before_eq [OF assms(1), of s] assms(2,3) by auto
  have "new = b" if "Timestamp (last b) < s"
    using that last_ge [OF assms(1)] by (fastforce simp: new filter_id_conv)
  then show "\<And>x. x \<in> set rest \<Longrightarrow> Timestamp x < s \<Longrightarrow> x = last new"
    by (auto simp: rest split: if_splits)
qed (use assms load_before_eq [OF assms(1), of s] last_ge [OF assms(1)]
     in \<open>fastforce simp: sorted_wrt_filter split: if_splits\<close>)+

lemma merge_base_early:
  assumes "buf_ok buf" "strict_ts (a0 # as)" "strict_ts b" "ts_ok (a0 # as)" "ts_ok b"
    and b: "b \<noteq> []" "Timestamp (hd b) < Timestamp a0 - buf"
  shows "strict_ts (merge_base buf (a0 # as) b) \<and>
    set (merge_base buf (a0 # as) b) = set (a0 # as) \<union> {x \<in> set b. far buf (a0 # as) x}"
proof -
  let ?s = "Timestamp a0 - buf" and ?a = "a0 # as"
  have s: "i64 ?s = ?s" using assms(1,4) by (simp add: i64_exact)
  have buf: "0 \<le> buf" using assms(1) by (simp add: buf_ok_def)
  define new where "new = filter (\<lambda>b. Timestamp b < ?s) b"
  obtain rest where load: "load_before ?s b = (new, rest)"
    using load_before_eq [OF assms(3)] by (auto simp: new_def)
  obtain out r where loop: "merge_histograms_loop buf ?a rest new = (out, r)"
    by (cases "merge_histograms_loop buf ?a rest new")
  note rest = load_before_rest [OF assms(3) load b(1)]
  have "hd b \<in> set new" using b by (simp add: new_def)
  then have ne: "new \<noteq> []" by auto
  have lastn: "Timestamp (last new) < ?s" using last_in_set [OF ne] by (simp add: new_def)
  have "strict_ts new" "strict_ts (last new # ?a)" "ts_ok new" "ts_ok rest"
    using lastn assms(2,3,5) rest(2) buf by (auto simp: new_def ts_ok_def sorted_wrt_filter)
  from merge_histograms_loop_spec [OF assms(1) ne this(1,3) assms(4) this(4,2) rest(1) loop]
  have out: "strict_ts (append_tail buf out r)"
    "set (append_tail buf out r) = set new \<union> set ?a \<union>
      {b \<in> set rest. Timestamp (last new) + buf < Timestamp b \<and> far buf ?a b}" by simp_all
  have "far buf ?a x" if "x \<in> set new" for x
    using that far_after [OF assms(2) buf] buf by (auto simp: new_def far_Cons)
  moreover have "Timestamp (last new) + buf < Timestamp x \<or> x \<in> set new"
    if "far buf ?a x" "x \<in> set b" for x
    using that lastn by (auto simp: far_Cons new_def)
  ultimately have "set new \<union> set ?a \<union> {b \<in> set rest. Timestamp (last new) + buf < Timestamp b \<and> far buf ?a b}
      = set ?a \<union> {x \<in> set b. far buf ?a x}"
    using rest(2,3,4) by (force simp: new_def)
  then show ?thesis using b(2) load loop out by (simp add: merge_base_def s)
qed

lemma merge_base_late:
  assumes "buf_ok buf" "strict_ts (a0 # as)" "strict_ts b" "ts_ok (a0 # as)" "ts_ok b"
    and b: "b \<noteq> []" "\<not> Timestamp (hd b) < Timestamp a0 - buf"
  shows "strict_ts (merge_base buf (a0 # as) b) \<and>
    set (merge_base buf (a0 # as) b) = set (a0 # as) \<union> {x \<in> set b. far buf (a0 # as) x}"
proof -
  obtain out r where loop: "merge_histograms_loop buf as b [a0] = (out, r)"
    by (cases "merge_histograms_loop buf as b [a0]")
  have "Timestamp a0 - buf \<le> Timestamp x" if "x \<in> set b" for x
    using that b assms(3) by (cases b) auto
  then have "far buf (a0 # as) x \<longleftrightarrow> Timestamp a0 + buf < Timestamp x \<and> far buf as x" if "x \<in> set b" for x
    using that assms(1) by (fastforce simp: far_Cons buf_ok_def)
  moreover have "merge_base buf (a0 # as) b = append_tail buf out r"
    using b loop assms(1,4) by (simp add: merge_base_def i64_exact)
  ultimately show ?thesis
    using merge_histograms_loop_spec [OF assms(1) _ _ _ _ assms(5) _ assms(3) loop] assms(2,4)
    by auto
qed

lemma merge_base_spec:
  assumes "buf_ok buf" "a \<noteq> []" "b \<noteq> []" "strict_ts a" "strict_ts b" "ts_ok a" "ts_ok b"
  shows "merge_base buf a b = ha_union buf a b"
proof -
  have "0 \<le> buf" using assms(1) by (simp add: buf_ok_def)
  moreover obtain a0 as where a: "a = a0 # as" using assms(2) by (cases a) auto
  ultimately show ?thesis
    using merge_base_early [of buf a0 as b] merge_base_late [of buf a0 as b] assms
      strict_ts_ha_union [OF assms(4,5)] set_ha_union [of buf a b]
    by (intro strict_sorted_set_unique [where f = Timestamp]) auto
qed

lemma merge_values_base: "merge_values buf False a b = merge_base buf a b"
  by (simp add: merge_values_def merge_base_def merge_values_loop_base)

lemma mergeHistogramSamples_base:
  "a \<noteq> [] \<Longrightarrow> b \<noteq> [] \<Longrightarrow> mergeHistogramSamples buf a b =
     (if length b > length a then merge_base buf b a else merge_base buf a b)"
  by (simp add: mergeHistogramSamples_def merge_base_def)

lemma picked_from_refl [simp]: "picked_from buf b x x"
  by (simp add: picked_from_def)

lemma prefer_max_scan_spec:
  assumes "buf_ok buf" "\<bar>Timestamp a\<bar> \<le> 2 ^ 61" "prefer_max_scan buf a off bs = (r, off')"
    and "set off \<subseteq> set b" "set bs \<subseteq> set b"
  shows "set off' \<subseteq> set b" and "r = Some x \<Longrightarrow> picked_from buf b x a"
  using assms(3-) i64_exact_buf [OF assms(2,1)]
  by (induction buf a off bs rule: prefer_max_scan.induct)
     (fastforce simp: picked_from_def split: if_splits)+

lemma fill_gap_acc:
  "fill_gap buf l t new bs = (new @ fst (fill_gap buf l t [] bs), snd (fill_gap buf l t [] bs))"
proof (induction bs arbitrary: new)
  case (Cons b bs)
  show ?case
    by (subst (1 2 3) fill_gap.simps) (simp add: Cons [of "new @ [b]"] Cons [of "[b]"] Cons [of new] Let_def)
qed simp

lemma list_all2_last: "list_all2 P xs ys \<Longrightarrow> xs \<noteq> [] \<Longrightarrow> P (last xs) (last ys)"
  by (induction rule: list_all2_induct) auto

lemma merge_values_loop_prefer:
  assumes "buf_ok buf" "ts_ok as" "set off \<subseteq> set b" "list_all2 (picked_from buf b) new new'"
  shows "list_all2 (picked_from buf b)
       (fst (merge_values_loop buf True as bs off new)) (fst (merge_histograms_loop buf as bs new')) \<and>
     snd (merge_values_loop buf True as bs off new) = snd (merge_histograms_loop buf as bs new')"
  using assms(2-)
proof (induction as arbitrary: bs off new new')
  case (Cons a as)
  show ?case
  proof (cases "new = []")
    case True
    with Cons show ?thesis by simp
  next
    case False
    with Cons.prems have ne: "new' \<noteq> []" and last: "Timestamp (last new) = Timestamp (last new')"
      using list_all2_last [of _ new new'] by (auto simp: picked_from_def)
    obtain r off' where scan: "prefer_max_scan buf a off off = (r, off')"
      by (cases "prefer_max_scan buf a off off")
    have off': "set off' \<subseteq> set b" and r: "\<And>x. r = Some x \<Longrightarrow> picked_from buf b x a"
      using prefer_max_scan_spec [OF assms(1) _ scan] Cons.prems by auto
    obtain g rest where gap: "(if i64 (Timestamp a - Timestamp (last new')) > i64 (buf * 2)
        then fill_gap buf (Timestamp (last new')) (Timestamp a) [] bs else ([], bs)) = (g, rest)"
      by (metis surj_pair)
    have "list_all2 (picked_from buf b) (new @ g @ [case r of Some x \<Rightarrow> x | None \<Rightarrow> a]) (new' @ g @ [a])"
      using Cons.prems(3) r by (auto simp: list_all2_refl intro!: list_all2_appendI split: option.split)
    from Cons.IH [OF _ off' this] show ?thesis
      using Cons.prems False ne last scan gap
      by (subst (1 2) merge_values_loop.simps, subst (1 2) merge_histograms_loop.simps,
          subst (1 2 3 4) fill_gap_acc)
         (auto simp: Let_def split: option.splits if_splits)
  qed
qed simp

lemma append_tail_prefer:
  assumes "list_all2 (picked_from buf b) new new'" "new \<noteq> []"
  shows "list_all2 (picked_from buf b) (append_tail buf new bs) (append_tail buf new' bs)"
  using assms list_all2_last [OF assms] unfolding append_tail_def
  by (auto simp: picked_from_def list_all2_refl Let_def intro!: list_all2_appendI)

lemma merge_histograms_loop_nonempty:
  "as \<noteq> [] \<or> new \<noteq> [] \<Longrightarrow> fst (merge_histograms_loop buf as bs new) \<noteq> []"
  by (induction as arbitrary: bs new) (auto simp: Let_def split: prod.splits)

lemma merge_values_prefer:
  assumes "buf_ok buf" "ts_ok a" "a \<noteq> []" "b \<noteq> []"
  shows "list_all2 (picked_from buf b) (merge_values buf True a b) (merge_base buf a b)"
proof -
  let ?s = "i64 (Timestamp (hd a) - buf)"
  obtain new bs where init: "(if Timestamp (hd b) < ?s then load_before ?s b else ([], b)) = (new, bs)"
    by (metis surj_pair)
  have "set (snd (load_before s b)) \<subseteq> set b" for s
    by (induction s b rule: load_before.induct) (auto split: prod.splits if_splits)
  with init have "set bs \<subseteq> set b" by (auto split: if_splits simp: prod_eq_iff)
  from merge_values_loop_prefer [OF assms(1,2) this, of new new bs]
  show ?thesis
    unfolding merge_values_def merge_base_def Let_def init
    using merge_histograms_loop_nonempty [of a new buf bs] assms(3)
    by (auto simp: list_all2_refl split: prod.splits intro!: append_tail_prefer)
qed

lemma ha_union_Nil: "strict_ts xs \<Longrightarrow> ha_union buf xs [] = xs"
  by (simp add: ha_union_def sort_key_id_if_sorted sorted_wrt_mono_rel [of _ "\<lambda>x y. Timestamp x < Timestamp y"] sorted_wrt_map)

lemma mergeHistogramSamples_ha_merge:
  assumes "buf_ok buf" "strict_ts a" "strict_ts b" "ts_ok a" "ts_ok b"
  shows "mergeHistogramSamples buf a b = ha_merge buf a b"
proof (cases "a = [] \<or> b = []")
  case True
  then show ?thesis using assms by (auto simp: mergeHistogramSamples_def ha_merge_def ha_union_Nil)
next
  case False
  then show ?thesis
    using assms by (simp add: mergeHistogramSamples_base ha_merge_def merge_base_spec)
qed

lemma appendGaps_acc: "appendGaps (gs @ hs) xs = gs @ appendGaps hs xs"
  by (induction hs xs rule: appendGaps.induct) (simp_all add: Let_def split: if_splits)

lemmas appendGaps_append = appendGaps_acc [where hs = "[]", simplified]

lemma appendGaps_strict:
  assumes "strict_ts xs" "ts_ok xs"
  shows "appendGaps [] xs = map2 (\<lambda>p q. Timestamp q - Timestamp p) (butlast xs) (tl xs)"
  using assms
proof (induction xs rule: induct_list012)
  case (3 p q s)
  then have "appendGaps [] (p # q # s) = (Timestamp q - Timestamp p) # appendGaps [] (q # s)"
    by (simp add: i64_exact_gap appendGaps_append [of "[_]"])
  with 3 show ?case by simp
qed simp_all

lemma appendGaps_pos:
  assumes "ts_ok xs" "g \<in> set (appendGaps [] xs)"
  shows "0 < g \<and> g \<le> 2 ^ 62"
  using assms
proof (induction xs rule: induct_list012)
  case (3 p q s)
  have "appendGaps [] (p # q # s) =
      (if 0 < Timestamp q - Timestamp p then (Timestamp q - Timestamp p) # appendGaps [] (q # s)
       else appendGaps [] (q # s))"
    using 3(3) by (simp add: i64_exact_gap appendGaps_append [of "[_]"])
  with 3 show ?case by (auto split: if_splits)
qed simp_all

lemma dynamicAntiAffinityFrom_eq:
  "dynamicAntiAffinityFrom a b =
     (if length (dynamic_gaps a b) < minDynamicGaps then None
      else Some ((sort (dynamic_gaps a b) ! (length (dynamic_gaps a b) div 2)) sdiv 2))"
  by (simp add: dynamicAntiAffinityFrom_def dynamic_gaps_def appendGaps_append [of "appendGaps [] a"] Let_def)

lemma sort_nth_mem: "i < length xs \<Longrightarrow> sort xs ! i \<in> set xs"
  by (metis length_sort nth_mem set_sort)

lemma dynamicAntiAffinityFrom_half:
  assumes "dynamicAntiAffinityFrom a b = Some d" "ts_ok a" "ts_ok b"
  shows "\<exists>g\<in>set (dynamic_gaps a b). 0 < g \<and> d = g div 2"
    and "buf_ok d"
proof -
  let ?g = "sort (dynamic_gaps a b) ! (length (dynamic_gaps a b) div 2)"
  have "?g \<in> set (dynamic_gaps a b)" "d = ?g sdiv 2"
    using assms(1) by (auto simp: dynamicAntiAffinityFrom_eq minDynamicGaps_def split: if_splits intro!: sort_nth_mem)
  moreover from this(1) have "0 < ?g" "?g \<le> 2 ^ 62"
    using appendGaps_pos [OF assms(2)] appendGaps_pos [OF assms(3)]
    by (auto simp: dynamic_gaps_def split: if_splits)
  ultimately show "\<exists>g\<in>set (dynamic_gaps a b). 0 < g \<and> d = g div 2" "buf_ok d"
    by (auto simp: buf_ok_def signed_divide_int_def)
qed

lemma effective_buffer_ok:
  assumes "buf_ok buf" "stream_ok a" "stream_ok b"
  shows "buf_ok (effective_buffer buf dynamic a b)"
  using assms
  by (auto simp: effective_buffer_def dynamicBufferForStream_def stream_ok_def Let_def
      split: option.splits if_splits prod.splits dest!: dynamicAntiAffinityFrom_half(2))

lemma MergeSampleStream_unfold:
  assumes "labelSetToFingerprint (Metric a) = labelSetToFingerprint (Metric b)"
  shows "\<exists>m\<in>{Metric a, Metric b}. MergeSampleStream buf dynamic a b preferMax = Inr
    \<lparr>Metric = m,
     Values = merge_floats (effective_buffer buf dynamic a b) preferMax (Values a) (Values b),
     Histograms = mergeHistogramSamples (effective_buffer buf dynamic a b) (Histograms a) (Histograms b)\<rparr>"
  using assms by (auto simp: MergeSampleStream_def effective_buffer_def merge_floats_def Let_def)

lemma merge_floats_ha_merge:
  assumes "buf_ok buf" "strict_ts a" "strict_ts b" "ts_ok a" "ts_ok b"
  shows "merge_floats buf False a b = ha_merge buf a b"
  using assms
  by (auto simp: merge_floats_def ha_merge_def merge_values_base merge_base_spec ha_union_Nil)

lemma ha_merge_covers:
  assumes "0 \<le> buf" "x \<in> set a \<union> set b"
  shows "\<exists>y\<in>set (ha_merge buf a b). \<bar>Timestamp x - Timestamp y\<bar> \<le> buf"
proof (cases "x \<in> set (ha_merge buf a b)")
  case False
  with assms(2) show ?thesis
    by (auto simp: ha_merge_def set_ha_union far_def not_less abs_minus_commute split: if_splits)
qed (use assms(1) in \<open>auto intro!: bexI [of _ x]\<close>)

lemma ha_merge_subset: "set (ha_merge buf a b) \<subseteq> set a \<union> set b"
  by (auto simp: ha_merge_def set_ha_union split: if_splits)

lemma strict_ts_ha_merge: "strict_ts a \<Longrightarrow> strict_ts b \<Longrightarrow> 0 \<le> buf \<Longrightarrow> strict_ts (ha_merge buf a b)"
  by (simp add: ha_merge_def strict_ts_ha_union)

lemma ha_merge_stream_ok:
  assumes "stream_ok a" "stream_ok b" "0 \<le> buf"
  shows "stream_ok \<lparr>Metric = m, Values = ha_merge buf (Values a) (Values b),
    Histograms = ha_merge buf (Histograms a) (Histograms b)\<rparr>"
  using assms ha_merge_subset [of buf "Values a" "Values b"] ha_merge_subset [of buf "Histograms a" "Histograms b"]
  by (auto simp: stream_ok_def strict_ts_ha_merge ts_ok_def)

lemma merge_floats_prefer:
  assumes "buf_ok buf" "strict_ts a" "strict_ts b" "ts_ok a" "ts_ok b"
  shows "list_all2 (picked_from buf (a @ b)) (merge_floats buf True a b) (ha_merge buf a b)"
proof -
  have mono: "list_all2 (picked_from buf (a @ b)) xs ys"
    if "list_all2 (picked_from buf c) xs ys" "set c \<subseteq> set (a @ b)" for c xs ys
    using that by (elim list_all2_mono) (fastforce simp: picked_from_def)
  show ?thesis
    using assms mono merge_values_prefer [of buf a b] merge_values_prefer [of buf b a]
    by (auto simp: merge_floats_def ha_merge_def merge_base_spec ha_union_Nil list_all2_refl)
qed

lemma picked_from_timestamps: "list_all2 (picked_from buf b) xs ys \<Longrightarrow> map Timestamp xs = map Timestamp ys"
  by (induction rule: list_all2_induct) (auto simp: picked_from_def)

lemma strict_ts_cong: "map Timestamp xs = map Timestamp ys \<Longrightarrow> strict_ts xs \<longleftrightarrow> strict_ts ys"
  by (metis sorted_wrt_map)

lemma ha_merge_self: "strict_ts a \<Longrightarrow> 0 \<le> buf \<Longrightarrow> ha_merge buf a a = a"
proof -
  assume "strict_ts a" "0 \<le> buf"
  then have "filter (far buf a) a = []" by (force simp: filter_empty_conv far_def)
  with \<open>strict_ts a\<close> ha_union_Nil [of a buf] show ?thesis by (simp add: ha_merge_def ha_union_def)
qed

lemma count_list_filter: "count_list xs v = length (filter ((=) v) xs)"
  by (induction xs) auto

lemma sorted_majority:
  fixes s :: "int list"
  assumes "sorted s" "length s < 2 * count_list s v"
  shows "s ! (length s div 2) = v"
proof (rule linorder_cases [of "s ! (length s div 2)" v])
  let ?k = "length s div 2"
  have len: "?k < length s" using assms(2) count_le_length [of s v] by simp
  have split: "count_list s v = length (filter ((=) v) (take n s)) + length (filter ((=) v) (drop n s))" for n
    by (metis append_take_drop_id count_list_filter filter_append length_append)
  show "s ! ?k = v" if "s ! ?k < v"
  proof -
    have "\<forall>x\<in>set (take (Suc ?k) s). x \<noteq> v"
      using that len sorted_nth_mono [OF assms(1)] by (fastforce simp: in_set_conv_nth less_Suc_eq_le)
    then have "filter ((=) v) (take (Suc ?k) s) = []" by (auto simp: filter_empty_conv)
    with split [of "Suc ?k"] length_filter_le [of "(=) v" "drop (Suc ?k) s"] assms(2) show ?thesis by simp
  qed
  show "s ! ?k = v" if "v < s ! ?k"
  proof -
    have "v < drop ?k s ! i" if "i < length (drop ?k s)" for i
      using that \<open>v < s ! ?k\<close> sorted_nth_mono [OF assms(1), of ?k "?k + i"] by (simp add: less_diff_conv add.commute)
    then have "\<forall>x\<in>set (drop ?k s). x \<noteq> v" by (metis in_set_conv_nth less_irrefl)
    then have "filter ((=) v) (drop ?k s) = []" by (auto simp: filter_empty_conv)
    with split [of ?k] length_filter_le [of "(=) v" "take ?k s"] assms(2) show ?thesis by simp
  qed
qed simp

lemma count_list_sort: "count_list (sort xs) v = count_list xs v"
  by (metis count_mset mset_sort)

lemma MergeSampleStream_prefer:
  assumes "labelSetToFingerprint (Metric a) = labelSetToFingerprint (Metric b)"
    and "stream_ok a" "stream_ok b" "buf_ok buf"
    and "MergeSampleStream buf dynamic a b preferMax = Inr r"
  shows "list_all2 (picked_from (effective_buffer buf dynamic a b) (Values a @ Values b))
           (Values r) (ha_merge (effective_buffer buf dynamic a b) (Values a) (Values b))"
    and "Histograms r = ha_merge (effective_buffer buf dynamic a b) (Histograms a) (Histograms b)"
  using MergeSampleStream_unfold [OF assms(1), of buf dynamic preferMax] assms(5)
    effective_buffer_ok [OF assms(4,2,3), of dynamic] assms(2,3)
  by (cases preferMax; auto simp: stream_ok_def mergeHistogramSamples_ha_merge
      merge_floats_ha_merge merge_floats_prefer list_all2_refl)+

lemma MergeSampleStream_fingerprint:
  "MergeSampleStream buf dynamic a b preferMax = Inr r \<Longrightarrow>
   labelSetToFingerprint (Metric a) = labelSetToFingerprint (Metric b)"
  by (simp add: MergeSampleStream_def split: if_splits)

lemma ts_ok_cong:
  fixes xs ys :: "'c sample_pair list"
  shows "map Timestamp xs = map Timestamp ys \<Longrightarrow> ts_ok xs \<longleftrightarrow> ts_ok ys"
proof -
  have *: "ts_ok xs \<longleftrightarrow> (\<forall>t\<in>set (map Timestamp xs). \<bar>t\<bar> \<le> 2 ^ 61)" for xs :: "'c sample_pair list"
    by (simp add: ts_ok_def)
  show "map Timestamp xs = map Timestamp ys \<Longrightarrow> ts_ok xs \<longleftrightarrow> ts_ok ys" by (simp only: *)
qed

lemma covered_cong:
  fixes xs ys :: "'c sample_pair list"
  shows "map Timestamp xs = map Timestamp ys \<Longrightarrow>
   (\<exists>y\<in>set xs. P (Timestamp y)) \<longleftrightarrow> (\<exists>y\<in>set ys. P (Timestamp y))"
proof -
  have *: "(\<exists>y\<in>set xs. P (Timestamp y)) \<longleftrightarrow> (\<exists>t\<in>set (map Timestamp xs). P t)" for xs :: "'c sample_pair list"
    by simp
  show "map Timestamp xs = map Timestamp ys \<Longrightarrow>
   (\<exists>y\<in>set xs. P (Timestamp y)) \<longleftrightarrow> (\<exists>y\<in>set ys. P (Timestamp y))"
    by (simp only: *)
qed

lemma ha_merge_ok:
  assumes "strict_ts a" "strict_ts b" "ts_ok a" "ts_ok b" "0 \<le> buf"
  shows "strict_ts (ha_merge buf a b)" "ts_ok (ha_merge buf a b)"
  using assms ha_merge_subset [of buf a b] by (auto simp: strict_ts_ha_merge ts_ok_def)

lemma merge_values_loop_extends:
  "new \<noteq> [] \<Longrightarrow> \<exists>more. fst (merge_values_loop buf preferMax as bs off new) = new @ more"
proof (induction as arbitrary: bs off new)
  case (Cons a as)
  have step: "\<exists>more. fst (merge_values_loop buf preferMax as bs' off' (new @ xs)) = new @ more" for bs' off' xs
    using Cons.IH [of "new @ xs" bs' off'] Cons.prems by auto
  show ?case
    using Cons.prems step
    by (cases preferMax; subst merge_values_loop.simps, subst fill_gap_acc)
       (simp_all add: Let_def split: prod.split option.split)
qed simp

section \<open>Properties\<close>

text \<open>Two copies of one series, the second with a hole and a late point, for the witnesses.\<close>

definition example_a :: "unit sample_stream" where
  "example_a = \<lparr>Metric = [(''job'', ''api'')],
     Values = [\<lparr>Timestamp = 0, Value = 1\<rparr>, \<lparr>Timestamp = 10, Value = 2\<rparr>, \<lparr>Timestamp = 20, Value = 3\<rparr>,
               \<lparr>Timestamp = 30, Value = 4\<rparr>, \<lparr>Timestamp = 60, Value = 5\<rparr>],
     Histograms = [\<lparr>Timestamp = 0, Value = ()\<rparr>]\<rparr>"

definition example_b :: "unit sample_stream" where
  "example_b = \<lparr>Metric = [(''job'', ''api'')],
     Values = [\<lparr>Timestamp = 1, Value = 9\<rparr>, \<lparr>Timestamp = 11, Value = 9\<rparr>,
               \<lparr>Timestamp = 41, Value = 7\<rparr>, \<lparr>Timestamp = 71, Value = 8\<rparr>],
     Histograms = [\<lparr>Timestamp = 2, Value = ()\<rparr>, \<lparr>Timestamp = 42, Value = ()\<rparr>]\<rparr>"

text \<open>
  C3. Merging two well-formed copies of a series without \<open>preferMax\<close> returns every point of
  the longer copy and exactly those points of the shorter one that are farther than the
  buffer from all of them, in time order, for floats and for histograms alike; the buffer
  is the configured one or the dynamic estimate.
\<close>

theorem MergeSampleStream_correct:
  assumes "labelSetToFingerprint (Metric a) = labelSetToFingerprint (Metric b)"
    and "stream_ok a" "stream_ok b" "buf_ok buf"
  shows "\<exists>m\<in>{Metric a, Metric b}. MergeSampleStream buf dynamic a b False = Inr
    \<lparr>Metric = m,
     Values = ha_merge (effective_buffer buf dynamic a b) (Values a) (Values b),
     Histograms = ha_merge (effective_buffer buf dynamic a b) (Histograms a) (Histograms b)\<rparr>"
  using MergeSampleStream_unfold [OF assms(1), of buf dynamic False]
    effective_buffer_ok [OF assms(4,2,3), of dynamic] assms(2,3)
  by (simp add: stream_ok_def mergeHistogramSamples_ha_merge merge_floats_ha_merge)

lemma example_ok: "stream_ok example_a" "stream_ok example_b" "buf_ok 4" "buf_ok 1"
  by (simp_all add: stream_ok_def example_a_def example_b_def buf_ok_def)

theorem MergeSampleStream_correct_witness:
  "MergeSampleStream 4 True example_a example_b False = Inr
     \<lparr>Metric = [(''job'', ''api'')],
      Values = [\<lparr>Timestamp = 0, Value = 1\<rparr>, \<lparr>Timestamp = 10, Value = 2\<rparr>, \<lparr>Timestamp = 20, Value = 3\<rparr>,
                \<lparr>Timestamp = 30, Value = 4\<rparr>, \<lparr>Timestamp = 41, Value = 7\<rparr>,
                \<lparr>Timestamp = 60, Value = 5\<rparr>, \<lparr>Timestamp = 71, Value = 8\<rparr>],
      Histograms = [\<lparr>Timestamp = 2, Value = ()\<rparr>, \<lparr>Timestamp = 42, Value = ()\<rparr>]\<rparr>"
proof -
  have "effective_buffer 4 True example_a example_b = 5" by code_simp
  then show ?thesis
    using MergeSampleStream_correct [OF _ example_ok(1,2,3), of True]
    by (simp add: example_a_def example_b_def ha_merge_def ha_union_def far_def)
qed

text \<open>
  Every merge, with or without \<open>preferMax\<close> and the dynamic buffer, of two
  well-formed streams yields a well-formed stream: strictly increasing timestamps, in range.
\<close>

lemma MergeSampleStream_invariant:
  assumes "stream_ok a" "stream_ok b" "buf_ok buf" "MergeSampleStream buf dynamic a b preferMax = Inr r"
  shows "stream_ok r"
proof -
  note fp = MergeSampleStream_fingerprint [OF assms(4)]
  have "0 \<le> effective_buffer buf dynamic a b"
    using effective_buffer_ok [OF assms(3,1,2)] by (simp add: buf_ok_def)
  then show ?thesis
    using MergeSampleStream_prefer [OF fp assms] assms(1,2)
    by (auto simp: stream_ok_def ha_merge_ok dest!: picked_from_timestamps
        cong: strict_ts_cong ts_ok_cong)
qed

definition example_merged :: "unit sample_stream" where
  "example_merged = \<lparr>Metric = [(''job'', ''api'')],
     Values = [\<lparr>Timestamp = 0, Value = 1\<rparr>, \<lparr>Timestamp = 10, Value = 9\<rparr>, \<lparr>Timestamp = 20, Value = 3\<rparr>,
               \<lparr>Timestamp = 30, Value = 4\<rparr>, \<lparr>Timestamp = 41, Value = 7\<rparr>,
               \<lparr>Timestamp = 60, Value = 5\<rparr>, \<lparr>Timestamp = 71, Value = 8\<rparr>],
     Histograms = [\<lparr>Timestamp = 2, Value = ()\<rparr>, \<lparr>Timestamp = 42, Value = ()\<rparr>]\<rparr>"

lemma example_prefer_max: "MergeSampleStream 4 False example_a example_b True = Inr example_merged"
  by code_simp

text \<open>
  C28. No data is lost beyond the buffer: every float point of either copy has a point of
  the merged stream within the buffer of it, whatever the flags.
\<close>

theorem MergeSampleStream_covers:
  assumes "stream_ok a" "stream_ok b" "buf_ok buf" "MergeSampleStream buf dynamic a b preferMax = Inr r"
    and "x \<in> set (Values a) \<union> set (Values b)"
  shows "\<exists>y\<in>set (Values r). \<bar>Timestamp x - Timestamp y\<bar> \<le> effective_buffer buf dynamic a b"
proof -
  let ?buf = "effective_buffer buf dynamic a b"
  note fp = MergeSampleStream_fingerprint [OF assms(4)]
  have "0 \<le> ?buf" using effective_buffer_ok [OF assms(3,1,2)] by (simp add: buf_ok_def)
  from ha_merge_covers [OF this assms(5)] show ?thesis
    by (simp add: covered_cong [OF picked_from_timestamps, OF MergeSampleStream_prefer(1) [OF fp assms(1-4)],
          where P = "\<lambda>t. \<bar>Timestamp x - t\<bar> \<le> ?buf"])
qed

theorem MergeSampleStream_covers_witness:
  "\<exists>y\<in>set (Values example_merged). \<bar>11 - Timestamp y\<bar> \<le> effective_buffer 4 False example_a example_b"
  using MergeSampleStream_covers [OF example_ok(1,2,3) example_prefer_max, of "\<lparr>Timestamp = 11, Value = 9\<rparr>"]
  by (simp add: example_b_def)

text \<open>
  With \<open>preferMax\<close> the merged stream has the timestamps of the merge without it, and
  each value is either the same or a strictly larger one (in \<open>float64\<close> order, so never to
  or from a NaN) that one of the copies has within the buffer of that timestamp.
\<close>

lemma MergeSampleStream_prefer_max:
  assumes "stream_ok a" "stream_ok b" "buf_ok buf"
    and "MergeSampleStream buf dynamic a b True = Inr r" "MergeSampleStream buf dynamic a b False = Inr s"
  shows "list_all2 (picked_from (effective_buffer buf dynamic a b) (Values a @ Values b)) (Values r) (Values s) \<and>
    Histograms r = Histograms s"
proof -
  note fp = MergeSampleStream_fingerprint [OF assms(4)]
  obtain m where "MergeSampleStream buf dynamic a b False = Inr
    \<lparr>Metric = m, Values = merge_floats (effective_buffer buf dynamic a b) False (Values a) (Values b),
     Histograms = mergeHistogramSamples (effective_buffer buf dynamic a b) (Histograms a) (Histograms b)\<rparr>"
    using MergeSampleStream_unfold [OF fp, of buf dynamic False] by blast
  with assms(5) have "Values s = ha_merge (effective_buffer buf dynamic a b) (Values a) (Values b)"
    using assms(1,2) effective_buffer_ok [OF assms(3,1,2), of dynamic]
    by (auto simp: stream_ok_def merge_floats_ha_merge)
  with MergeSampleStream_prefer [OF fp assms(1-4)] MergeSampleStream_prefer(2) [OF fp assms(1-3,5)]
  show ?thesis by simp
qed

definition example_plain :: "unit sample_stream" where
  "example_plain = example_merged\<lparr>Values := (Values example_merged)[1 := \<lparr>Timestamp = 10, Value = 2\<rparr>]\<rparr>"

lemma example_no_prefer: "MergeSampleStream 4 False example_a example_b False = Inr example_plain"
  by code_simp

text \<open>
  Merging a stream with itself returns it unchanged, at every buffer.
\<close>

lemma MergeSampleStream_self:
  assumes "stream_ok a" "buf_ok buf"
  shows "MergeSampleStream buf dynamic a a False = Inr a"
proof -
  have "buf_ok (effective_buffer buf dynamic a a)" by (rule effective_buffer_ok [OF assms(2,1,1)])
  then show ?thesis using MergeSampleStream_unfold [of a a buf dynamic False] assms(1)
    by (simp add: stream_ok_def ha_merge_self mergeHistogramSamples_ha_merge merge_floats_ha_merge buf_ok_def)
qed

text \<open>
  The dynamic estimate survives missed scrapes: when more than half of the gaps of the
  longer side, at least three, equal the scrape interval, the buffer is half the interval,
  whatever the other gaps and the shorter side are.
\<close>

lemma dynamic_buffer_majority:
  assumes "strict_ts a" "ts_ok a" "3 < length a"
    and "length a - 1 < 2 * count_list (map2 (\<lambda>p q. Timestamp q - Timestamp p) (butlast a) (tl a)) interval"
  shows "dynamicAntiAffinityFrom a b = Some (interval div 2)"
proof -
  let ?g = "map2 (\<lambda>p q. Timestamp q - Timestamp p) (butlast a) (tl a)"
  have g: "appendGaps [] a = ?g" by (rule appendGaps_strict [OF assms(1,2)])
  have len: "length ?g = length a - 1" by simp
  have "interval \<in> set ?g" using assms(4) by (metis count_notin less_zeroE mult_zero_right)
  with g appendGaps_pos [OF assms(2)] have "0 < interval" by metis
  moreover have "sort ?g ! (length ?g div 2) = interval"
    using sorted_majority [of "sort ?g" interval] assms(4) len by (simp add: count_list_sort)
  moreover have "dynamic_gaps a b = ?g" using assms(3) g len by (auto simp: dynamic_gaps_def minDynamicGaps_def)
  ultimately show ?thesis
    using assms(3) len by (simp add: dynamicAntiAffinityFrom_eq minDynamicGaps_def signed_divide_int_def)
qed

text \<open>
  The first point of the base side is taken as it is: when the other copy has no point
  before it by more than the buffer, \<open>preferMax\<close> never replaces its value, even when the
  other copy has a larger value at the very same timestamp.
\<close>

lemma prefer_max_keeps_first:
  assumes "a \<noteq> []" "b \<noteq> []" "\<not> Timestamp (hd b) < i64 (Timestamp (hd a) - buf)"
  shows "hd (merge_values buf True a b) = hd a"
proof -
  obtain a0 as where a: "a = a0 # as" using assms(1) by (cases a) auto
  show ?thesis
    using assms(3) merge_values_loop_extends [of "[a0]" buf True as b b]
    by (auto simp: merge_values_def a append_tail_def Let_def split: prod.split)
qed

end
