(* ===== verification/Promxy_Errors.thy ===== *)
theory Promxy_Errors
  imports Promxy_Prelude
begin

text \<open>
  Errors: the error values that reach \<open>MultiAPI\<close> with their unwrap chains, the conversion
  of downstream errors into PromQL error classes (\<open>NormalizePromError\<close>,
  \<open>classifyAPIError\<close>), the choice of the error to report (\<open>errorPicker\<close>) and the rendering
  of response bodies in error messages (\<open>ErrorBody\<close>).
\<close>

section \<open>Error values\<close>

text \<open>
  One constructor per concrete error type. \<open>NetError\<close> is any other \<open>net.Error\<close> with its
  \<open>Timeout()\<close>; \<open>UrlError\<close> carries the operation and the quoted URL; \<open>PkgWrap\<close> is
  \<open>errors.Wrap\<close> of \<open>github.com/pkg/errors\<close> and \<open>FmtWrap\<close> is \<open>fmt.Errorf\<close> with a \<open>%w\<close>
  operand and the text it prints; \<open>OtherError\<close> is an \<open>errors.New\<close> value.
\<close>

datatype go_error =
    ErrQueryCanceled string
  | ErrQueryTimeout string
  | ErrStorage go_error
  | V1Error (v1_Type: string) (v1_Msg: string) (v1_Detail: string)
  | ResponseError (re_Type: string) (re_Msg: string)
  | HTTPError (he_StatusCode: nat) (he_Body: string)
  | ContextCanceled
  | DeadlineExceeded
  | NetError (ne_text: string) (ne_Timeout: bool)
  | UrlError (ue_Op: string) (ue_URL: string) (ue_Err: go_error)
  | PkgWrap (pw_msg: string) (pw_Err: go_error)
  | FmtWrap (fw_text: string) (fw_Err: go_error)
  | PromQLWarning
  | PromQLInfo
  | OtherError string

text \<open>\<open>errors.Wrap\<close> of a nil error is nil.\<close>

definition errors_Wrap :: "go_error option \<Rightarrow> string \<Rightarrow> go_error option" where
  "errors_Wrap err msg = map_option (PkgWrap msg) err"

text \<open>The errors that \<open>errors.Is\<close> and \<open>errors.As\<close> visit. \<open>promql.ErrStorage\<close> has no \<open>Unwrap\<close>.\<close>

fun error_chain :: "go_error \<Rightarrow> go_error list" where
  "error_chain (UrlError op u e) = UrlError op u e # error_chain e"
| "error_chain (PkgWrap m e) = PkgWrap m e # error_chain e"
| "error_chain (FmtWrap t e) = FmtWrap t e # error_chain e"
| "error_chain e = [e]"

definition errors_Is :: "go_error \<Rightarrow> go_error \<Rightarrow> bool" where
  "errors_Is err target = list_ex ((=) target) (error_chain err)"

definition errors_As :: "go_error \<Rightarrow> (go_error \<Rightarrow> bool) \<Rightarrow> go_error option" where
  "errors_As err p = find p (error_chain err)"

text \<open>\<open>context.DeadlineExceeded\<close> and \<open>*url.Error\<close> implement \<open>net.Error\<close> too.\<close>

fun is_net_Error :: "go_error \<Rightarrow> bool" where
  "is_net_Error DeadlineExceeded = True"
| "is_net_Error (NetError _ _) = True"
| "is_net_Error (UrlError _ _ _) = True"
| "is_net_Error _ = False"

fun error_Timeout :: "go_error \<Rightarrow> bool" where
  "error_Timeout DeadlineExceeded = True"
| "error_Timeout (NetError _ t) = t"
| "error_Timeout (UrlError _ _ e) = error_Timeout e"
| "error_Timeout _ = False"

section \<open>Error messages\<close>

fun itoa :: "nat \<Rightarrow> string" where
  "itoa n = (if n < 10 then [char_of (48 + n)] else itoa (n div 10) @ [char_of (48 + n mod 10)])"

declare itoa.simps [simp del]

definition StatusText :: "nat \<Rightarrow> string" where
  "StatusText code = (case map_of [
    (100, ''Continue''), (101, ''Switching Protocols''), (102, ''Processing''),
    (103, ''Early Hints''), (200, ''OK''), (201, ''Created''), (202, ''Accepted''),
    (203, ''Non-Authoritative Information''), (204, ''No Content''), (205, ''Reset Content''),
    (206, ''Partial Content''), (207, ''Multi-Status''), (208, ''Already Reported''),
    (226, ''IM Used''), (300, ''Multiple Choices''), (301, ''Moved Permanently''),
    (302, ''Found''), (303, ''See Other''), (304, ''Not Modified''), (305, ''Use Proxy''),
    (307, ''Temporary Redirect''), (308, ''Permanent Redirect''), (400, ''Bad Request''),
    (401, ''Unauthorized''), (402, ''Payment Required''), (403, ''Forbidden''),
    (404, ''Not Found''), (405, ''Method Not Allowed''), (406, ''Not Acceptable''),
    (407, ''Proxy Authentication Required''), (408, ''Request Timeout''), (409, ''Conflict''),
    (410, ''Gone''), (411, ''Length Required''), (412, ''Precondition Failed''),
    (413, ''Request Entity Too Large''), (414, ''Request URI Too Long''),
    (415, ''Unsupported Media Type''), (416, ''Requested Range Not Satisfiable''),
    (417, ''Expectation Failed''), (418, ''I'' @ [CHR 0x27] @ ''m a teapot''),
    (421, ''Misdirected Request''), (422, ''Unprocessable Entity''), (423, ''Locked''),
    (424, ''Failed Dependency''), (425, ''Too Early''), (426, ''Upgrade Required''),
    (428, ''Precondition Required''), (429, ''Too Many Requests''),
    (431, ''Request Header Fields Too Large''), (451, ''Unavailable For Legal Reasons''),
    (500, ''Internal Server Error''), (501, ''Not Implemented''), (502, ''Bad Gateway''),
    (503, ''Service Unavailable''), (504, ''Gateway Timeout''),
    (505, ''HTTP Version Not Supported''), (506, ''Variant Also Negotiates''),
    (507, ''Insufficient Storage''), (508, ''Loop Detected''), (510, ''Not Extended''),
    (511, ''Network Authentication Required'')] code of Some t \<Rightarrow> t | None \<Rightarrow> [])"

definition timeoutPrefix :: string where
  "timeoutPrefix = ''query timed out in ''"

definition canceledPrefix :: string where
  "canceledPrefix = ''query was canceled in ''"

fun error_string :: "go_error \<Rightarrow> string" where
  "error_string (ErrQueryCanceled s) = canceledPrefix @ s"
| "error_string (ErrQueryTimeout s) = timeoutPrefix @ s"
| "error_string (ErrStorage e) = error_string e"
| "error_string (V1Error t m d) = t @ '': '' @ m"
| "error_string (ResponseError t m) = (if t \<noteq> [] then t @ '': '' @ m else m)"
| "error_string (HTTPError c b) =
     (let msg = ''server returned HTTP status '' @ itoa c @ '' '' @ StatusText c
      in if b = [] then msg else msg @ '': '' @ b)"
| "error_string ContextCanceled = ''context canceled''"
| "error_string DeadlineExceeded = ''context deadline exceeded''"
| "error_string (NetError t _) = t"
| "error_string (UrlError op u e) = op @ '' '' @ u @ '': '' @ error_string e"
| "error_string (PkgWrap m e) = m @ '': '' @ error_string e"
| "error_string (FmtWrap t e) = t"
| "error_string PromQLWarning = ''PromQL warning''"
| "error_string PromQLInfo = ''PromQL info''"
| "error_string (OtherError s) = s"

text \<open>\<open>fmt.Errorf("%w: %s", e, s)\<close>.\<close>

definition Errorf_w_s :: "go_error \<Rightarrow> string \<Rightarrow> go_error" where
  "Errorf_w_s e s = FmtWrap (error_string e @ '': '' @ s) e"

section \<open>Response bodies in error messages\<close>

text \<open>
  Strings are byte sequences. \<open>utf8_width\<close> is the length of the UTF-8 sequence at the head
  of a byte list, 0 when the head starts no valid sequence (\<open>utf8.DecodeRune\<close>).
\<close>

abbreviation byte :: "char \<Rightarrow> nat" where
  "byte c \<equiv> of_char c"

definition utf8_continuation :: "nat \<Rightarrow> bool" where
  "utf8_continuation b \<longleftrightarrow> 128 \<le> b \<and> b \<le> 191"

fun utf8_second :: "nat \<Rightarrow> nat \<Rightarrow> bool" where
  "utf8_second b0 b1 =
     (if b0 = 224 then 160 \<le> b1 \<and> b1 \<le> 191
      else if b0 = 237 then 128 \<le> b1 \<and> b1 \<le> 159
      else if b0 = 240 then 144 \<le> b1 \<and> b1 \<le> 191
      else if b0 = 244 then 128 \<le> b1 \<and> b1 \<le> 143
      else utf8_continuation b1)"

definition utf8_expected :: "nat \<Rightarrow> nat" where
  "utf8_expected b0 =
     (if b0 < 128 then 1
      else if 194 \<le> b0 \<and> b0 \<le> 223 then 2
      else if 224 \<le> b0 \<and> b0 \<le> 239 then 3
      else if 240 \<le> b0 \<and> b0 \<le> 244 then 4
      else 0)"

definition utf8_width :: "string \<Rightarrow> nat" where
  "utf8_width s =
     (case s of
        [] \<Rightarrow> 0
      | c # cs \<Rightarrow>
          (let n = utf8_expected (byte c); tl = take (n - 1) cs
           in if n \<le> 1 then n
              else if length tl = n - 1 \<and> utf8_second (byte c) (byte (hd tl)) \<and>
                      list_all (\<lambda>d. utf8_continuation (byte d)) tl
              then n else 0))"

text \<open>\<open>strings.ToValidUTF8(s, "")\<close> drops every byte that is in no valid sequence.\<close>

fun ToValidUTF8 :: "string \<Rightarrow> string" where
  "ToValidUTF8 [] = []"
| "ToValidUTF8 (c # cs) =
     (let n = utf8_width (c # cs)
      in if n = 0 then ToValidUTF8 cs else take n (c # cs) @ ToValidUTF8 (drop (n - 1) cs))"

fun valid_utf8 :: "string \<Rightarrow> bool" where
  "valid_utf8 [] = True"
| "valid_utf8 (c # cs) =
     (let n = utf8_width (c # cs) in n > 0 \<and> valid_utf8 (drop (n - 1) cs))"

text \<open>The UTF-8 encodings of the code points \<open>unicode.IsSpace\<close> accepts.\<close>

definition space_encodings :: "nat list list" where
  "space_encodings =
     [[9], [10], [11], [12], [13], [32], [194, 133], [194, 160], [225, 154, 128],
      [226, 128, 128], [226, 128, 129], [226, 128, 130], [226, 128, 131], [226, 128, 132],
      [226, 128, 133], [226, 128, 134], [226, 128, 135], [226, 128, 136], [226, 128, 137],
      [226, 128, 138], [226, 128, 168], [226, 128, 169], [226, 128, 175], [226, 129, 159],
      [227, 128, 128]]"

definition space_prefix :: "nat list list \<Rightarrow> string \<Rightarrow> nat" where
  "space_prefix encs s =
     (case find (\<lambda>e. take (length e) (map byte s) = e) encs of Some e \<Rightarrow> length e | None \<Rightarrow> 0)"

function trim_left :: "nat list list \<Rightarrow> string \<Rightarrow> string" where
  "trim_left encs s =
     (let n = space_prefix encs s in if n = 0 \<or> s = [] then s else trim_left encs (drop n s))"
  by pat_completeness auto
termination
  by (relation "measure (length \<circ> snd)") auto

declare trim_left.simps [simp del]

definition TrimSpace :: "string \<Rightarrow> string" where
  "TrimSpace s =
     rev (trim_left (map rev space_encodings) (rev (trim_left space_encodings s)))"

definition maxErrorBody :: nat where
  "maxErrorBody = 1024"

definition ErrorBody :: "string \<Rightarrow> string" where
  "ErrorBody body =
     (let s = TrimSpace body
      in if length s \<le> maxErrorBody then s
         else ToValidUTF8 (take maxErrorBody s) @ ''... (truncated)'')"

section \<open>Classification\<close>

definition classifyAPIError :: "string \<Rightarrow> string \<Rightarrow> go_error \<Rightarrow> go_error" where
  "classifyAPIError errType msg err =
     (if errType = ''timeout'' then ErrQueryTimeout (TrimPrefix msg timeoutPrefix)
      else if errType = ''canceled'' then ErrQueryCanceled (TrimPrefix msg canceledPrefix)
      else if errType = ''internal'' \<or> errType = ''unavailable'' then ErrStorage err
      else err)"

text \<open>The part of \<open>NormalizePromError\<close> after the switch over the client's error types.\<close>

definition normalize_transport :: "go_error \<Rightarrow> go_error" where
  "normalize_transport e =
     (if errors_Is e ContextCanceled then e
      else if errors_Is e DeadlineExceeded \<or>
              (case errors_As e is_net_Error of Some ne \<Rightarrow> error_Timeout ne | None \<Rightarrow> False)
      then ErrQueryTimeout (error_string e)
      else if errors_As e is_UrlError \<noteq> None then ErrStorage e
      else e)"

text \<open>
  \<open>unmarshal\<close> is \<open>json.Unmarshal\<close> of a body into the struct with the fields \<open>errorType\<close>
  and \<open>error\<close>; \<open>None\<close> is its error.
\<close>

definition NormalizePromError ::
  "(string \<Rightarrow> (string \<times> string) option) \<Rightarrow> go_error option \<Rightarrow> go_error option"
where
  "NormalizePromError unmarshal err =
     (case err of
        None \<Rightarrow> None
      | Some (V1Error t m d) \<Rightarrow>
          (if t = ''server_error'' \<or> t = ''client_error''
           then (if d = [] then Some (ErrStorage (V1Error t m d))
                 else (case unmarshal d of
                         None \<Rightarrow> Some (ErrStorage (Errorf_w_s (V1Error t m d) (ErrorBody d)))
                       | Some (rt, re) \<Rightarrow>
                           (if re = []
                            then Some (ErrStorage (Errorf_w_s (V1Error t m d) (ErrorBody d)))
                            else Some (classifyAPIError rt re
                                   (Errorf_w_s (V1Error t m d) (rt @ '': '' @ re))))))
           else if t = ''bad_response'' then Some (ErrStorage (V1Error t m d))
           else Some (classifyAPIError t m (V1Error t m d)))
      | Some (ResponseError t m) \<Rightarrow>
          (if t = ''bad_response'' then Some (ErrStorage (ResponseError t m))
           else Some (classifyAPIError t m (ResponseError t m)))
      | Some (HTTPError c b) \<Rightarrow> Some (ErrStorage (HTTPError c b))
      | Some e \<Rightarrow> Some (normalize_transport e))"

section \<open>Picking the error to report\<close>

definition rankCanceled :: nat where "rankCanceled = 0"
definition rankStorage :: nat where "rankStorage = 1"
definition rankTimeout :: nat where "rankTimeout = 2"
definition rankRefused :: nat where "rankRefused = 3"

definition errorRank :: "go_error \<Rightarrow> nat" where
  "errorRank err =
     (if errors_As err is_ErrQueryCanceled \<noteq> None then rankCanceled
      else if errors_As err is_ErrQueryTimeout \<noteq> None then rankTimeout
      else if errors_As err is_ErrStorage \<noteq> None then rankStorage
      else if errors_Is err ContextCanceled then rankCanceled
      else rankRefused)"

record errorPicker =
  ep_err :: "go_error option"
  ep_rank :: nat
  ep_i :: nat

definition errorPicker_zero :: errorPicker where
  "errorPicker_zero = \<lparr>ep_err = None, ep_rank = 0, ep_i = 0\<rparr>"

definition errorPicker_add :: "nat \<Rightarrow> go_error \<Rightarrow> errorPicker \<Rightarrow> errorPicker" where
  "errorPicker_add i err p =
     (let r = errorRank err
      in if ep_err p = None \<or> r > ep_rank p \<or> (r = ep_rank p \<and> i < ep_i p)
         then \<lparr>ep_err = Some err, ep_rank = r, ep_i = i\<rparr> else p)"

section \<open>Lemmas\<close>

lemma errors_As_PkgWrap [simp]:
  "\<not> p (PkgWrap m e) \<Longrightarrow> errors_As (PkgWrap m e) p = errors_As e p"
  by (simp add: errors_As_def)

lemma errors_Is_PkgWrap [simp]:
  "t \<noteq> PkgWrap m e \<Longrightarrow> errors_Is (PkgWrap m e) t = errors_Is e t"
  by (auto simp: errors_Is_def)

lemma errorRank_PkgWrap: "errorRank (PkgWrap m e) = errorRank e"
  by (simp add: errorRank_def)

text \<open>An error that \<open>NormalizePromError\<close> leaves alone, also when it is looked at through a wrapper.\<close>

definition settled :: "go_error \<Rightarrow> bool" where
  "settled e \<longleftrightarrow>
     errors_Is e ContextCanceled \<or>
     (\<not> errors_Is e DeadlineExceeded \<and>
      \<not> (case errors_As e is_net_Error of Some ne \<Rightarrow> error_Timeout ne | None \<Rightarrow> False) \<and>
      errors_As e is_UrlError = None)"

lemma settled_PkgWrap [simp]: "settled (PkgWrap m e) = settled e"
  by (simp add: settled_def)

lemma normalize_transport_id: "settled e \<Longrightarrow> normalize_transport e = e"
  by (auto simp: normalize_transport_def settled_def)

lemma settled_leaf [simp]:
  "settled (ErrQueryCanceled s)" "settled (ErrQueryTimeout s)" "settled (ErrStorage e)"
  "settled (V1Error t m d)" "settled (ResponseError t m)"
  "settled (Errorf_w_s (V1Error t m d) s)"
  by (simp_all add: settled_def errors_Is_def errors_As_def Errorf_w_s_def)

lemma settled_classify [simp]: "settled e \<Longrightarrow> settled (classifyAPIError t m e)"
  by (simp add: classifyAPIError_def)

lemma settled_normalize_transport [simp]: "settled (normalize_transport e)"
proof (cases "settled e")
  case False
  then show ?thesis by (auto simp: normalize_transport_def settled_def [of e])
qed (simp add: normalize_transport_id)

lemma NormalizePromError_settled:
  assumes "NormalizePromError u (Some e) = Some e'"
  shows "settled e'"
  using assms by (cases e) (auto simp: NormalizePromError_def split: if_splits option.splits prod.splits)

lemma NormalizePromError_PkgWrap_settled:
  "settled e \<Longrightarrow> NormalizePromError u (Some (PkgWrap m e)) = Some (PkgWrap m e)"
  by (simp add: NormalizePromError_def normalize_transport_id)

lemma errorPicker_add_commute:
  assumes "i \<noteq> j"
  shows "errorPicker_add i e (errorPicker_add j f p) = errorPicker_add j f (errorPicker_add i e p)"
  using assms by (auto simp: errorPicker_add_def Let_def)

text \<open>The picker after a run of reports holds the best of them, so the order does not matter.\<close>

definition picked_best :: "(nat \<times> go_error) list \<Rightarrow> errorPicker \<Rightarrow> bool" where
  "picked_best reports p \<longleftrightarrow>
     (\<exists>e. ep_err p = Some e \<and> (ep_i p, e) \<in> set reports \<and> ep_rank p = errorRank e \<and>
        (\<forall>(j, f)\<in>set reports. errorRank f < errorRank e \<or> (errorRank f = errorRank e \<and> ep_i p \<le> j)))"

definition add_reports :: "(nat \<times> go_error) list \<Rightarrow> errorPicker \<Rightarrow> errorPicker" where
  "add_reports reports p = fold (\<lambda>(i, e) p. errorPicker_add i e p) reports p"

lemma errorPicker_add_None: "ep_err p = None \<Longrightarrow> picked_best [(i, e)] (errorPicker_add i e p)"
  by (simp add: errorPicker_add_def picked_best_def Let_def)

lemma picked_best_add:
  assumes "picked_best rs p"
  shows "picked_best (rs @ [(i, e)]) (errorPicker_add i e p)"
proof -
  obtain f where f: "ep_err p = Some f" "(ep_i p, f) \<in> set rs" "ep_rank p = errorRank f"
    and best: "\<And>j g. (j, g) \<in> set rs \<Longrightarrow> errorRank g < errorRank f \<or> (errorRank g = errorRank f \<and> ep_i p \<le> j)"
    using assms by (force simp: picked_best_def)
  show ?thesis
  proof (cases "errorRank e > errorRank f \<or> (errorRank e = errorRank f \<and> i < ep_i p)")
    case True
    then have "errorPicker_add i e p = \<lparr>ep_err = Some e, ep_rank = errorRank e, ep_i = i\<rparr>"
      using f by (auto simp: errorPicker_add_def)
    then show ?thesis using True best by (fastforce simp: picked_best_def)
  next
    case False
    then have "errorPicker_add i e p = p" using f by (auto simp: errorPicker_add_def)
    then show ?thesis using False f best by (fastforce simp: picked_best_def)
  qed
qed

lemma add_reports_best:
  "rs \<noteq> [] \<Longrightarrow> picked_best rs (add_reports rs errorPicker_zero)"
proof (induction rs rule: rev_induct)
  case (snoc r rs)
  obtain i e where r: "r = (i, e)" by (cases r)
  show ?case
  proof (cases "rs = []")
    case True
    then show ?thesis using errorPicker_add_None [of errorPicker_zero]
      by (simp add: add_reports_def r errorPicker_zero_def)
  next
    case False
    with snoc.IH show ?thesis using picked_best_add by (simp add: add_reports_def r)
  qed
qed simp

lemma add_reports_perm:
  assumes "mset rs = mset ss" "distinct (map fst rs)"
  shows "add_reports rs p = add_reports ss p"
  unfolding add_reports_def
proof (rule fun_cong [OF fold_multiset_equiv [OF _ assms(1)]])
  fix x y assume "x \<in> set rs" "y \<in> set rs"
  show "(\<lambda>(i, e) p. errorPicker_add i e p) x \<circ> (\<lambda>(i, e) p. errorPicker_add i e p) y =
    (\<lambda>(i, e) p. errorPicker_add i e p) y \<circ> (\<lambda>(i, e) p. errorPicker_add i e p) x"
  proof (cases "x = y")
    case False
    with \<open>x \<in> set rs\<close> \<open>y \<in> set rs\<close> assms(2) have "fst x \<noteq> fst y"
      by (auto simp: distinct_map inj_on_def)
    then show ?thesis by (auto simp: fun_eq_iff errorPicker_add_commute split: prod.splits)
  qed simp
qed

text \<open>Rendering a body: the result is bounded, and a truncated one is whole UTF-8 sequences.\<close>

lemma length_ToValidUTF8: "length (ToValidUTF8 s) \<le> length s"
proof (induction s rule: ToValidUTF8.induct)
  case (2 c cs)
  then show ?case by (auto simp: Let_def)
qed simp

lemma utf8_width_le: "utf8_width s \<le> length s"
  by (auto simp: utf8_width_def Let_def split: list.splits)

lemma utf8_width_append:
  assumes "utf8_width s = n" "n > 0"
  shows "utf8_width (take n s @ t) = n"
proof -
  obtain c cs where s: "s = c # cs" using assms by (cases s) (auto simp: utf8_width_def)
  show ?thesis
    using assms utf8_width_le [of s]
    by (cases n; cases "take (utf8_expected (byte c) - 1) cs") (auto simp: s utf8_width_def Let_def split: if_splits)
qed

lemma valid_utf8_ToValidUTF8: "valid_utf8 (ToValidUTF8 s)"
proof (induction s rule: ToValidUTF8.induct)
  case (2 c cs)
  let ?n = "utf8_width (c # cs)"
  show ?case
  proof (cases "?n = 0")
    case False
    have "utf8_width (take ?n (c # cs) @ ToValidUTF8 (drop (?n - 1) cs)) = ?n"
      using False by (intro utf8_width_append) auto
    moreover have "length (take (?n - 1) cs) = ?n - 1"
      using utf8_width_le [of "c # cs"] by simp
    ultimately show ?thesis using False 2 by (cases ?n) (auto simp: Let_def)
  qed (use 2 in simp)
qed simp

lemma valid_utf8_append: "valid_utf8 s \<Longrightarrow> valid_utf8 t \<Longrightarrow> valid_utf8 (s @ t)"
proof (induction s rule: valid_utf8.induct)
  case (2 c cs)
  let ?n = "utf8_width (c # cs)"
  have n: "?n > 0" "valid_utf8 (drop (?n - 1) cs)" using 2 by (auto simp: Let_def)
  have "(c # cs) @ t = take ?n (c # cs) @ (drop ?n (c # cs) @ t)" by (metis append.assoc append_take_drop_id)
  then have w: "utf8_width ((c # cs) @ t) = ?n" using utf8_width_append [OF refl n(1)] by metis
  have "drop (?n - 1) (cs @ t) = drop (?n - 1) cs @ t" using utf8_width_le [of "c # cs"] by simp
  with 2 n w show ?case by (simp add: Let_def)
qed simp

lemma valid_utf8_ascii: "\<forall>c\<in>set s. byte c < 128 \<Longrightarrow> valid_utf8 s"
proof (induction s)
  case (Cons c cs)
  then have "utf8_width (c # cs) = 1" by (simp add: utf8_width_def utf8_expected_def)
  with Cons show ?case by (simp add: Let_def)
qed simp

lemma errorRank_leaf [simp]:
  "errorRank (ErrQueryCanceled s) = rankCanceled" "errorRank (ErrQueryTimeout s) = rankTimeout"
  "errorRank (ErrStorage e) = rankStorage" "errorRank (V1Error t m d) = rankRefused"
  "errorRank (ResponseError t m) = rankRefused" "errorRank (Errorf_w_s (V1Error t m d) s) = rankRefused"
  by (simp_all add: errorRank_def errors_As_def errors_Is_def Errorf_w_s_def)

lemma errorRank_classify:
  "errorRank (classifyAPIError t m e) =
     (if t = ''timeout'' then rankTimeout else if t = ''canceled'' then rankCanceled
      else if t = ''internal'' \<or> t = ''unavailable'' then rankStorage else errorRank e)"
  by (simp add: classifyAPIError_def)

section \<open>Properties\<close>

text \<open>
  C26. Normalising is final: for every error, the second \<open>NormalizePromError\<close> that an outer \<open>MultiAPI\<close> applies, after
  \<open>ErrorWrap\<close> has added its context to the normalised error, changes nothing, and the context does not change the class
  the error is reported as.
\<close>

theorem NormalizePromError_wrap_stable:
  "NormalizePromError u (errors_Wrap (NormalizePromError u err) msg) = errors_Wrap (NormalizePromError u err) msg \<and>
   map_option errorRank (errors_Wrap (NormalizePromError u err) msg) = map_option errorRank (NormalizePromError u err)"
proof (cases "NormalizePromError u err")
  case None
  then show ?thesis by (simp add: errors_Wrap_def NormalizePromError_def)
next
  case (Some e')
  then obtain e where "err = Some e" by (cases err) (auto simp: NormalizePromError_def)
  with Some NormalizePromError_settled have "settled e'" by simp
  with Some show ?thesis by (simp add: errors_Wrap_def NormalizePromError_PkgWrap_settled errorRank_PkgWrap)
qed

text \<open>
  C34. The choice of the picker does not depend on which downstream finished last: given the same reports of the same
  downstreams in any order, the picker ends up the same, with an error of the highest rank (a refused query before a
  timeout, a storage failure and a cancellation) and, among those, of the lowest index. (A loop that returns early has
  given it only the reports so far.)
\<close>

theorem errorPicker_order_independent:
  assumes "mset rs = mset ss" "distinct (map fst rs)" "rs \<noteq> []"
  shows "add_reports ss errorPicker_zero = add_reports rs errorPicker_zero \<and>
    picked_best rs (add_reports ss errorPicker_zero)"
  using add_reports_perm [OF assms(1,2)] add_reports_best [OF assms(3)] by simp

theorem errorPicker_order_independent_witness:
  "add_reports [(2, ErrQueryTimeout ''t''), (0, ErrStorage (HTTPError 502 [])), (1, ErrQueryTimeout ''s'')] errorPicker_zero =
     add_reports [(0, ErrStorage (HTTPError 502 [])), (1, ErrQueryTimeout ''s''), (2, ErrQueryTimeout ''t'')] errorPicker_zero \<and>
   picked_best [(0, ErrStorage (HTTPError 502 [])), (1, ErrQueryTimeout ''s''), (2, ErrQueryTimeout ''t'')]
     (add_reports [(2, ErrQueryTimeout ''t''), (0, ErrStorage (HTTPError 502 [])), (1, ErrQueryTimeout ''s'')] errorPicker_zero)"
  by (rule errorPicker_order_independent) simp_all

text \<open>
  C27. An error message keeps at most \<open>maxErrorBody\<close> bytes of a response body plus the
  marker, and a truncated one is valid UTF-8.
\<close>

theorem ErrorBody_bounded:
  "length (ErrorBody body) \<le> maxErrorBody + 15 \<and>
   (if length (TrimSpace body) > maxErrorBody then valid_utf8 (ErrorBody body) else ErrorBody body = TrimSpace body)"
proof -
  have "length (ToValidUTF8 (take maxErrorBody (TrimSpace body))) \<le> maxErrorBody"
    using length_ToValidUTF8 [of "take maxErrorBody (TrimSpace body)"] by simp
  moreover have "valid_utf8 (ToValidUTF8 s @ ''... (truncated)'')" for s
    by (intro valid_utf8_append valid_utf8_ToValidUTF8 valid_utf8_ascii) simp
  ultimately show ?thesis by (simp add: ErrorBody_def Let_def)
qed

end
