(* ===== verification/Promxy_Heap.thy ===== *)
theory Promxy_Heap
  imports Promxy_Prelude
begin

text \<open>
  The array heap of Go's \<open>container/heap\<close> over a list, on which the merge of series sets
  runs: \<open>heap_up\<close> and \<open>heap_down\<close> are its \<open>up\<close> and \<open>down\<close>, with \<open>lt\<close> the \<open>Less\<close> of two
  elements. The locale \<open>min_queue\<close> states what the merge relies on; the heap implements it.
\<close>

section \<open>The operations\<close>

definition swap :: "'a list \<Rightarrow> nat \<Rightarrow> nat \<Rightarrow> 'a list" where
  "swap xs i j = xs[i := xs ! j, j := xs ! i]"

function heap_up :: "('a \<Rightarrow> 'a \<Rightarrow> bool) \<Rightarrow> 'a list \<Rightarrow> nat \<Rightarrow> 'a list" where
  "heap_up lt xs j =
     (let i = (j - 1) div 2
      in if i = j \<or> \<not> lt (xs ! j) (xs ! i) then xs else heap_up lt (swap xs i j) i)"
  by pat_completeness auto
termination
  by (relation "measure (\<lambda>(_, _, j). j)") auto

function heap_down :: "('a \<Rightarrow> 'a \<Rightarrow> bool) \<Rightarrow> 'a list \<Rightarrow> nat \<Rightarrow> nat \<Rightarrow> 'a list" where
  "heap_down lt xs i n =
     (let j1 = 2 * i + 1; j2 = j1 + 1
      in if j1 \<ge> n then xs
         else (let j = (if j2 < n \<and> lt (xs ! j2) (xs ! j1) then j2 else j1)
               in if \<not> lt (xs ! j) (xs ! i) then xs else heap_down lt (swap xs i j) j n))"
  by pat_completeness auto
termination
  by (relation "measure (\<lambda>(_, _, i, n). n - i)") (auto split: if_splits)

declare heap_up.simps [simp del] heap_down.simps [simp del]

definition heap_Push :: "('a \<Rightarrow> 'a \<Rightarrow> bool) \<Rightarrow> 'a \<Rightarrow> 'a list \<Rightarrow> 'a list" where
  "heap_Push lt x h = heap_up lt (h @ [x]) (length h)"

definition heap_Pop :: "('a \<Rightarrow> 'a \<Rightarrow> bool) \<Rightarrow> 'a list \<Rightarrow> 'a \<times> 'a list" where
  "heap_Pop lt h =
     (let n = length h - 1; h = heap_down lt (swap h 0 n) 0 n in (h ! n, take n h))"

section \<open>The operations permute\<close>

lemma length_swap [simp]: "length (swap xs i j) = length xs"
  by (simp add: swap_def)

lemma mset_swap_nth [simp]: "i < length xs \<Longrightarrow> j < length xs \<Longrightarrow> mset (swap xs i j) = mset xs"
  by (simp add: swap_def mset_swap)

lemma heap_up_mset: "j < length xs \<Longrightarrow> mset (heap_up lt xs j) = mset xs \<and> length (heap_up lt xs j) = length xs"
proof (induction lt xs j rule: heap_up.induct)
  case (1 lt xs j)
  then show ?case by (subst (1 2) heap_up.simps) (auto simp: Let_def)
qed

lemma heap_down_mset:
  "i < n \<Longrightarrow> n \<le> length xs \<Longrightarrow> mset (heap_down lt xs i n) = mset xs \<and> length (heap_down lt xs i n) = length xs"
proof (induction lt xs i n rule: heap_down.induct)
  case (1 lt xs i n)
  then show ?case by (subst (1 2) heap_down.simps) (auto simp: Let_def)
qed

lemma mset_heap_Push [simp]: "mset (heap_Push lt x h) = add_mset x (mset h)"
  using heap_up_mset [of "length h" "h @ [x]" lt] by (simp add: heap_Push_def)

lemma heap_down_tail:
  "i < n \<Longrightarrow> n \<le> length xs \<Longrightarrow> drop n (heap_down lt xs i n) = drop n xs"
proof (induction lt xs i n rule: heap_down.induct)
  case (1 lt xs i n)
  have "drop n (swap xs i j) = drop n xs" if "j < n" for j
    using that 1(2) by (simp add: swap_def)
  with 1 show ?case by (subst heap_down.simps) (auto simp: Let_def)
qed

lemma drop_last: "length xs = Suc n \<Longrightarrow> drop n xs = [xs ! n]"
  by (metis Cons_nth_drop_Suc drop_all lessI order_refl)

lemma heap_Pop_spec:
  assumes "h \<noteq> []"
  shows "fst (heap_Pop lt h) = hd h" "mset h = add_mset (hd h) (mset (snd (heap_Pop lt h)))"
proof -
  let ?n = "length h - 1"
  let ?s = "swap h 0 ?n"
  let ?d = "heap_down lt ?s 0 ?n"
  have len: "?n < length h" using assms by simp
  have d: "mset ?d = mset h \<and> length ?d = length h \<and> drop ?n ?d = drop ?n ?s"
  proof (cases "?n = 0")
    case True
    then have "?d = ?s" by (simp add: heap_down.simps)
    with len assms show ?thesis by (simp add: mset_swap_nth [of 0 h ?n])
  next
    case False
    then show ?thesis using heap_down_mset [of 0 ?n ?s lt] heap_down_tail [of 0 ?n ?s lt] len assms by auto
  qed
  have "?s ! ?n = hd h" using assms by (simp add: swap_def hd_conv_nth nth_list_update)
  moreover have "drop ?n ?d = [?d ! ?n]" "drop ?n ?s = [?s ! ?n]"
    using d assms by (intro drop_last; simp)+
  ultimately have hd: "?d ! ?n = hd h" using d by simp
  then show "fst (heap_Pop lt h) = hd h" by (simp add: heap_Pop_def Let_def)
  have "?d = take ?n ?d @ [hd h]" using d len hd by (metis append_take_drop_id \<open>drop ?n ?d = [?d ! ?n]\<close>)
  then have "mset ?d = add_mset (hd h) (mset (take ?n ?d))" by (metis mset_append mset.simps union_mset_add_mset_right add.right_neutral)
  with d show "mset h = add_mset (hd h) (mset (snd (heap_Pop lt h)))" by (simp add: heap_Pop_def Let_def)
qed


section \<open>The heap order\<close>

text \<open>The heap order, with its one possible violation while an element moves up or down.\<close>

definition heap_ok :: "('a \<Rightarrow> 'k::linorder) \<Rightarrow> nat \<Rightarrow> 'a list \<Rightarrow> bool" where
  "heap_ok key n xs \<longleftrightarrow> (\<forall>k. 0 < k \<and> k < n \<longrightarrow> key (xs ! ((k - 1) div 2)) \<le> key (xs ! k))"

definition heap_but_up :: "('a \<Rightarrow> 'k::linorder) \<Rightarrow> nat \<Rightarrow> 'a list \<Rightarrow> bool" where
  "heap_but_up key j xs \<longleftrightarrow>
     (\<forall>k. 0 < k \<and> k < length xs \<and> k \<noteq> j \<longrightarrow> key (xs ! ((k - 1) div 2)) \<le> key (xs ! k)) \<and>
     (\<forall>k. 0 < k \<and> k < length xs \<and> (k - 1) div 2 = j \<and> 0 < j \<longrightarrow> key (xs ! ((j - 1) div 2)) \<le> key (xs ! k))"

definition heap_but_down :: "('a \<Rightarrow> 'k::linorder) \<Rightarrow> nat \<Rightarrow> nat \<Rightarrow> 'a list \<Rightarrow> bool" where
  "heap_but_down key n i xs \<longleftrightarrow>
     (\<forall>k. 0 < k \<and> k < n \<and> (k - 1) div 2 \<noteq> i \<longrightarrow> key (xs ! ((k - 1) div 2)) \<le> key (xs ! k)) \<and>
     (\<forall>k. 0 < k \<and> k < n \<and> (k - 1) div 2 = i \<and> 0 < i \<longrightarrow> key (xs ! ((i - 1) div 2)) \<le> key (xs ! k))"

abbreviation key_less :: "('a \<Rightarrow> 'k::linorder) \<Rightarrow> 'a \<Rightarrow> 'a \<Rightarrow> bool" where
  "key_less key x y \<equiv> key x < key y"

lemma nth_swap:
  "i < length xs \<Longrightarrow> j < length xs \<Longrightarrow>
   swap xs i j ! k = (if k = j then xs ! i else if k = i then xs ! j else xs ! k)"
  by (simp add: swap_def nth_list_update)

lemma parent_less: "0 < (k::nat) \<Longrightarrow> (k - 1) div 2 < k"
  by simp

lemma heap_but_up_step:
  assumes "heap_but_up key j xs" "j < length xs" "0 < j" and lt: "key (xs ! j) < key (xs ! ((j - 1) div 2))"
  shows "heap_but_up key ((j - 1) div 2) (swap xs ((j - 1) div 2) j)"
proof -
  let ?i = "(j - 1) div 2"
  have ij: "?i < j" "?i < length xs" using assms parent_less [of j] by linarith+
  have ord: "\<And>k. 0 < k \<Longrightarrow> k < length xs \<Longrightarrow> k \<noteq> j \<Longrightarrow> key (xs ! ((k - 1) div 2)) \<le> key (xs ! k)"
    and kid: "\<And>k. 0 < k \<Longrightarrow> k < length xs \<Longrightarrow> (k - 1) div 2 = j \<Longrightarrow> key (xs ! ?i) \<le> key (xs ! k)"
    using assms(1,3) unfolding heap_but_up_def by blast+
  have 1: "key (swap xs ?i j ! ((k - 1) div 2)) \<le> key (swap xs ?i j ! k)"
    if k: "0 < k" "k < length xs" "k \<noteq> ?i" for k
  proof (cases "k = j")
    case True
    with ij lt show ?thesis using assms(2) by (simp add: nth_swap)
  next
    case False
    consider "(k - 1) div 2 = ?i" | "(k - 1) div 2 = j" | "(k - 1) div 2 \<noteq> ?i" "(k - 1) div 2 \<noteq> j" by blast
    then show ?thesis
      using ord [of k] kid [of k] k False ij lt assms(2) by cases (auto simp: nth_swap)
  qed
  have 2: "key (swap xs ?i j ! ((?i - 1) div 2)) \<le> key (swap xs ?i j ! k)"
    if k: "0 < k" "k < length xs" "(k - 1) div 2 = ?i" "0 < ?i" for k
  proof -
    have "(?i - 1) div 2 < ?i" using k(4) parent_less by blast
    moreover have "key (xs ! ((?i - 1) div 2)) \<le> key (xs ! ?i)" using ord [of ?i] ij k(4) by simp
    moreover have "key (xs ! ?i) \<le> key (xs ! k)" if "k \<noteq> j" using ord [of k] k that by simp
    moreover have "k \<noteq> ?i" using k parent_less [of k] by linarith
    ultimately show ?thesis using ij assms(2) by (auto simp: nth_swap)
  qed
  show ?thesis using 1 2 by (simp add: heap_but_up_def)
qed

lemma heap_up_ok:
  assumes "heap_but_up key j xs" "j < length xs"
  shows "heap_ok key (length xs) (heap_up (key_less key) xs j)"
  using assms
proof (induction "key_less key" xs j rule: heap_up.induct)
  case (1 xs j)
  let ?i = "(j - 1) div 2"
  show ?case
  proof (cases "j = 0 \<or> \<not> key (xs ! j) < key (xs ! ?i)")
    case True
    have "key (xs ! ((k - 1) div 2)) \<le> key (xs ! k)" if "0 < k" "k < length xs" for k
      using True that 1(2) by (cases "k = j") (auto simp: heap_but_up_def)
    then have "heap_ok key (length xs) xs" by (auto simp: heap_ok_def)
    then show ?thesis using True by (subst heap_up.simps) (auto simp: Let_def)
  next
    case False
    then have "?i \<noteq> j" using parent_less [of j] by auto
    with False 1 heap_but_up_step [OF 1(2,3)] parent_less [of j]
    show ?thesis by (subst heap_up.simps) (simp add: Let_def)
  qed
qed

lemma heap_but_down_step:
  assumes "heap_but_down key n i xs" "n \<le> length xs" "j < n" "(j - 1) div 2 = i" "0 < j"
    and lt: "key (xs ! j) < key (xs ! i)"
    and min: "\<And>k. 0 < k \<Longrightarrow> k < n \<Longrightarrow> (k - 1) div 2 = i \<Longrightarrow> key (xs ! j) \<le> key (xs ! k)"
  shows "heap_but_down key n j (swap xs i j)"
proof -
  have ij: "i < j" "i < length xs" "j < length xs" using assms parent_less [of j] by linarith+
  have ord: "\<And>k. 0 < k \<Longrightarrow> k < n \<Longrightarrow> (k - 1) div 2 \<noteq> i \<Longrightarrow> key (xs ! ((k - 1) div 2)) \<le> key (xs ! k)"
    and kid: "\<And>k. 0 < k \<Longrightarrow> k < n \<Longrightarrow> (k - 1) div 2 = i \<Longrightarrow> 0 < i \<Longrightarrow> key (xs ! ((i - 1) div 2)) \<le> key (xs ! k)"
    using assms(1) unfolding heap_but_down_def by blast+
  have 1: "key (swap xs i j ! ((k - 1) div 2)) \<le> key (swap xs i j ! k)"
    if k: "0 < k" "k < n" "(k - 1) div 2 \<noteq> j" for k
  proof (cases "(k - 1) div 2 = i")
    case True
    then have "k \<noteq> i" using k parent_less [of k] by linarith
    with True k lt min ij show ?thesis by (auto simp: nth_swap)
  next
    case False
    then have "k \<noteq> j" using assms(4) by auto
    then show ?thesis
      using False k ij ord [of k] kid [of j] assms(3,4,5) by (auto simp: nth_swap)
  qed
  have 2: "key (swap xs i j ! ((j - 1) div 2)) \<le> key (swap xs i j ! k)"
    if k: "0 < k" "k < n" "(k - 1) div 2 = j" for k
  proof -
    have "k \<noteq> j" "k \<noteq> i" using k ij parent_less [of k] by linarith+
    then show ?thesis using ord [of k] k ij assms(4) by (auto simp: nth_swap)
  qed
  show ?thesis using 1 2 by (simp add: heap_but_down_def)
qed

lemma heap_down_ok:
  assumes "heap_but_down key n i xs" "n \<le> length xs"
  shows "heap_ok key n (heap_down (key_less key) xs i n)"
  using assms
proof (induction "key_less key" xs i n rule: heap_down.induct)
  case (1 xs i n)
  define j where "j = (if 2 * i + 2 < n \<and> key (xs ! (2 * i + 2)) < key (xs ! (2 * i + 1)) then 2 * i + 2 else 2 * i + 1)"
  have kids: "0 < k \<and> (k - 1) div 2 = i \<longleftrightarrow> k = 2 * i + 1 \<or> k = 2 * i + 2" for k :: nat by presburger
  show ?case
  proof (cases "n \<le> 2 * i + 1 \<or> \<not> key (xs ! j) < key (xs ! i)")
    case True
    have "key (xs ! ((k - 1) div 2)) \<le> key (xs ! k)" if k: "0 < k" "k < n" for k
    proof (cases "(k - 1) div 2 = i")
      case True
      with k have "k = 2 * i + 1 \<or> k = 2 * i + 2" using kids by blast
      with \<open>n \<le> 2 * i + 1 \<or> _\<close> k True show ?thesis by (auto simp: j_def split: if_splits)
    next
      case False
      with k 1(2) show ?thesis by (auto simp: heap_but_down_def)
    qed
    then have "heap_ok key n xs" by (auto simp: heap_ok_def)
    then show ?thesis using True by (subst heap_down.simps) (auto simp: Let_def j_def)
  next
    case False
    then have j: "j < n" "(j - 1) div 2 = i" "0 < j" by (auto simp: j_def)
    have min: "key (xs ! j) \<le> key (xs ! k)" if "0 < k" "k < n" "(k - 1) div 2 = i" for k
    proof -
      have "k = 2 * i + 1 \<or> k = 2 * i + 2" using that kids by blast
      with that(2) show ?thesis by (auto simp: j_def)
    qed
    have "heap_but_down key n j (swap xs i j)"
      using False by (intro heap_but_down_step [OF 1(2,3) j _ min]) auto
    then have "heap_ok key n (heap_down (key_less key) (swap xs i j) j n)"
      using 1(1) [of "2 * i + 1" "2 * i + 2" j] False 1(3) by (auto simp: j_def)
    moreover have "heap_down (key_less key) xs i n = heap_down (key_less key) (swap xs i j) j n"
      using False by (subst heap_down.simps) (auto simp: Let_def j_def)
    ultimately show ?thesis by simp
  qed
qed

lemma heap_ok_hd:
  assumes "heap_ok key (length xs) xs" "x \<in> set xs"
  shows "key (hd xs) \<le> key x"
proof -
  have "key (xs ! 0) \<le> key (xs ! k)" if "k < length xs" for k
    using that
  proof (induction k rule: less_induct)
    case (less k)
    show ?case
    proof (cases "k = 0")
      case False
      then have "(k - 1) div 2 < k" by simp
      with less have "key (xs ! 0) \<le> key (xs ! ((k - 1) div 2))" by simp
      also have "\<dots> \<le> key (xs ! k)" using assms(1) False less.prems by (simp add: heap_ok_def)
      finally show ?thesis .
    qed simp
  qed
  with assms(2) show ?thesis by (metis hd_conv_nth in_set_conv_nth length_pos_if_in_set length_greater_0_conv)
qed

lemma heap_Push_ok:
  assumes "heap_ok key (length h) h"
  shows "heap_ok key (Suc (length h)) (heap_Push (key_less key) x h)"
proof -
  have "(k - 1) div 2 < length h" if "0 < k" "k < length (h @ [x])" for k using that by simp
  then have "heap_but_up key (length h) (h @ [x])"
    using assms unfolding heap_but_up_def heap_ok_def
    by (fastforce simp: nth_append)
  from heap_up_ok [OF this] show ?thesis by (simp add: heap_Push_def)
qed

lemma heap_Pop_ok:
  assumes "heap_ok key (length h) h" "h \<noteq> []"
  shows "heap_ok key (length h - 1) (snd (heap_Pop (key_less key) h))"
proof -
  let ?n = "length h - 1"
  have "heap_but_down key ?n 0 (swap h 0 ?n)"
  proof -
    have "key (swap h 0 ?n ! ((k - 1) div 2)) \<le> key (swap h 0 ?n ! k)"
      if "0 < k" "k < ?n" "(k - 1) div 2 \<noteq> 0" for k
    proof -
      have "(k - 1) div 2 \<noteq> ?n" using that by linarith
      with that assms show ?thesis by (auto simp: nth_swap heap_ok_def)
    qed
    then show ?thesis by (auto simp: heap_but_down_def)
  qed
  from heap_down_ok [OF this] have "heap_ok key ?n (heap_down (key_less key) (swap h 0 ?n) 0 ?n)" by simp
  moreover have "(k - 1) div 2 < ?n" if "k < ?n" for k using that by linarith
  ultimately show ?thesis by (simp add: heap_Pop_def Let_def heap_ok_def)
qed

section \<open>The interface\<close>

text \<open>
  A queue of elements with keys: what is pushed stays until it is popped, and \<open>pop\<close> takes the
  head, an element of least key.
\<close>

locale min_queue =
  fixes key :: "'a \<Rightarrow> 'k::linorder"
    and inv :: "'a list \<Rightarrow> bool"
    and push :: "'a \<Rightarrow> 'a list \<Rightarrow> 'a list"
    and pop :: "'a list \<Rightarrow> 'a \<times> 'a list"
  assumes inv_Nil: "inv []"
    and inv_push: "inv q \<Longrightarrow> inv (push x q)"
    and mset_push: "mset (push x q) = add_mset x (mset q)"
    and pop_hd: "q \<noteq> [] \<Longrightarrow> fst (pop q) = hd q"
    and mset_pop: "q \<noteq> [] \<Longrightarrow> mset q = add_mset (hd q) (mset (snd (pop q)))"
    and inv_pop: "inv q \<Longrightarrow> q \<noteq> [] \<Longrightarrow> inv (snd (pop q))"
    and hd_least: "inv q \<Longrightarrow> x \<in> set q \<Longrightarrow> key (hd q) \<le> key x"
begin

lemma inv_fold_push: "inv q \<Longrightarrow> inv (fold push xs q)"
  by (induction xs arbitrary: q) (auto simp: inv_push)

lemma mset_fold_push: "mset (fold push xs q) = mset xs + mset q"
  by (induction xs arbitrary: q) (auto simp: mset_push)

lemma set_pop: "q \<noteq> [] \<Longrightarrow> set q = insert (hd q) (set (snd (pop q)))"
  using mset_pop [of q] by (metis set_mset_add_mset_insert set_mset_mset)

lemma length_pop: "q \<noteq> [] \<Longrightarrow> length q = Suc (length (snd (pop q)))"
  using mset_pop [of q] by (metis size_add_mset size_mset)

lemma pop_least: "inv q \<Longrightarrow> q \<noteq> [] \<Longrightarrow> x \<in> set (snd (pop q)) \<Longrightarrow> key (hd q) \<le> key x"
  using hd_least [of q x] set_pop [of q] by auto

end

lemma length_heap_Pop: "h \<noteq> [] \<Longrightarrow> length (snd (heap_Pop lt h)) = length h - 1"
  using heap_Pop_spec(2) [of h lt] by (metis diff_Suc_1 size_add_mset size_mset)

interpretation heap: min_queue key "\<lambda>h. heap_ok key (length h) h"
  "heap_Push (key_less key)" "heap_Pop (key_less key)" for key :: "'a \<Rightarrow> 'k::linorder"
proof unfold_locales
  fix q :: "'a list" and x
  show "heap_ok key (length []) []" by (simp add: heap_ok_def)
  show "mset (heap_Push (key_less key) x q) = add_mset x (mset q)" by simp
  then have "length (heap_Push (key_less key) x q) = Suc (length q)" by (metis size_add_mset size_mset)
  then show "heap_ok key (length q) q \<Longrightarrow>
    heap_ok key (length (heap_Push (key_less key) x q)) (heap_Push (key_less key) x q)"
    by (simp add: heap_Push_ok)
  show "q \<noteq> [] \<Longrightarrow> fst (heap_Pop (key_less key) q) = hd q" by (rule heap_Pop_spec(1))
  show "q \<noteq> [] \<Longrightarrow> mset q = add_mset (hd q) (mset (snd (heap_Pop (key_less key) q)))"
    by (rule heap_Pop_spec(2))
  show "heap_ok key (length q) q \<Longrightarrow> q \<noteq> [] \<Longrightarrow>
    heap_ok key (length (snd (heap_Pop (key_less key) q))) (snd (heap_Pop (key_less key) q))"
    using heap_Pop_ok [of key q] by (simp add: length_heap_Pop)
  show "heap_ok key (length q) q \<Longrightarrow> x \<in> set q \<Longrightarrow> key (hd q) \<le> key x" by (rule heap_ok_hd)
qed

end
