(* ===== verification/Promxy_SeriesSet.thy ===== *)
theory Promxy_SeriesSet
  imports Promxy_Merge Promxy_Errors Promxy_Heap
begin

text \<open>
  Series sets: \<open>storage.SeriesSet\<close> values with their warnings and error, the two in-memory
  cursors over them (\<open>src/pkg/promapi/decode.go\<close>, \<open>src/pkg/proxyquerier/series_set.go\<close>), the
  wrappers of \<open>src/pkg/promclient/seriesset_wrap.go\<close>, the conversion to and from sample
  streams and histograms (\<open>merge_seriesset.go\<close>, \<open>histogram_convert.go\<close>) and the merge of the
  HA members' series sets, down to the heap of \<open>storage.NewMergeSeriesSet\<close>.
\<close>

section \<open>Histograms\<close>

record float_histogram =
  fh_CounterResetHint :: nat
  fh_Schema :: int
  fh_ZeroThreshold :: f64
  fh_ZeroCount :: f64
  fh_Count :: f64
  fh_Sum :: f64
  fh_PositiveSpans :: "(int \<times> nat) list"
  fh_NegativeSpans :: "(int \<times> nat) list"
  fh_PositiveBuckets :: "f64 list"
  fh_NegativeBuckets :: "f64 list"
  fh_CustomValues :: "f64 list"

record bucket =
  bk_Lower :: f64
  bk_Upper :: f64
  bk_LowerInclusive :: bool
  bk_UpperInclusive :: bool
  bk_Count :: f64

record histogram_bucket =
  hb_Boundaries :: int
  hb_Lower :: f64
  hb_Upper :: f64
  hb_Count :: f64

text \<open>
  The side table \<open>rawHistograms\<close> is keyed by the address of a \<open>SampleHistogram\<close> and cleaned
  when that object dies: the pinned histogram is a field of the object.
\<close>

record sample_histogram =
  sh_Count :: f64
  sh_Sum :: f64
  sh_Buckets :: "histogram_bucket list"
  sh_pinned :: "float_histogram option"

text \<open>
  What the code calls outside this repository: \<open>AllBucketIterator\<close> of a float histogram,
  \<open>json.Unmarshal\<close> of an error envelope into its \<open>errorType\<close> and \<open>error\<close> fields,
  \<open>model.LabelSet.String\<close>, and the regular expressions of matchers (\<open>NewFastRegexMatcher\<close>
  accepts a pattern, \<open>MatchString\<close>, and \<open>SetMatches\<close>, the literals a pattern is an alternation of).
\<close>

record externals =
  ext_AllBuckets :: "float_histogram \<Rightarrow> bucket list"
  ext_Unmarshal :: "string \<Rightarrow> (string \<times> string) option"
  ext_LabelString :: "labelset \<Rightarrow> string"
  ext_RegexOk :: "string \<Rightarrow> bool"
  ext_MatchString :: "string \<Rightarrow> string \<Rightarrow> bool"
  ext_SetMatches :: "string \<Rightarrow> string list"

definition f64_pos_inf :: f64 where "f64_pos_inf = 0x7FF0000000000000"
definition f64_neg_inf :: f64 where "f64_neg_inf = 0xFFF0000000000000"

definition CustomBucketsSchema :: int where "CustomBucketsSchema = - 53"

definition empty_float_histogram :: float_histogram where
  "empty_float_histogram =
     \<lparr>fh_CounterResetHint = 0, fh_Schema = 0, fh_ZeroThreshold = 0, fh_ZeroCount = 0,
      fh_Count = 0, fh_Sum = 0, fh_PositiveSpans = [], fh_NegativeSpans = [],
      fh_PositiveBuckets = [], fh_NegativeBuckets = [], fh_CustomValues = []\<rparr>"

definition pinFloatHistogram ::
  "sample_histogram option \<Rightarrow> float_histogram option \<Rightarrow> sample_histogram option"
where
  "pinFloatHistogram sh fh =
     (case (sh, fh) of (Some s, Some f) \<Rightarrow> Some (s\<lparr>sh_pinned := Some f\<rparr>) | _ \<Rightarrow> sh)"

definition pinnedFloatHistogram :: "sample_histogram option \<Rightarrow> float_histogram option" where
  "pinnedFloatHistogram sh = (case sh of None \<Rightarrow> None | Some s \<Rightarrow> sh_pinned s)"

definition bucket_boundaries :: "bucket \<Rightarrow> int" where
  "bucket_boundaries b =
     (if bk_LowerInclusive b then (if bk_UpperInclusive b then 3 else 1)
      else if bk_UpperInclusive b then 0 else 2)"

definition floatHistogramToSampleHistogram ::
  "externals \<Rightarrow> float_histogram option \<Rightarrow> sample_histogram option"
where
  "floatHistogramToSampleHistogram ext h =
     (case h of
        None \<Rightarrow> None
      | Some fh \<Rightarrow>
          pinFloatHistogram
            (Some \<lparr>sh_Count = fh_Count fh, sh_Sum = fh_Sum fh,
              sh_Buckets = map (\<lambda>b. \<lparr>hb_Boundaries = bucket_boundaries b, hb_Lower = bk_Lower b,
                                     hb_Upper = bk_Upper b, hb_Count = bk_Count b\<rparr>)
                             (filter (\<lambda>b. \<not> f64_eq (bk_Count b) 0) (ext_AllBuckets ext fh)),
              sh_pinned = None\<rparr>)
            h)"

definition finite_uppers :: "histogram_bucket list \<Rightarrow> f64 list" where
  "finite_uppers bs = filter (\<lambda>u. u \<noteq> f64_pos_inf) (map hb_Upper bs)"

definition sampleHistogramToFloatHistogram :: "sample_histogram option \<Rightarrow> float_histogram option" where
  "sampleHistogramToFloatHistogram sh =
     (case sh of
        None \<Rightarrow> None
      | Some s \<Rightarrow>
          (case pinnedFloatHistogram sh of
             Some fh \<Rightarrow> Some fh
           | None \<Rightarrow>
               (let fh = empty_float_histogram\<lparr>fh_Schema := CustomBucketsSchema,
                           fh_Count := sh_Count s, fh_Sum := sh_Sum s\<rparr>
                in case sh_Buckets s of
                     [] \<Rightarrow> Some fh
                   | b # _ \<Rightarrow>
                       (let includeFirstLower = hb_Lower b \<noteq> f64_neg_inf;
                            customValues = (if includeFirstLower then [hb_Lower b] else []) @
                                           finite_uppers (sh_Buckets s);
                            counts = map hb_Count (sh_Buckets s);
                            offset = (if includeFirstLower then 1 else 0)
                        in Some (fh\<lparr>fh_CustomValues := customValues, fh_PositiveBuckets := counts,
                                    fh_PositiveSpans := [(offset, length counts)]\<rparr>)))))"

text \<open>The copy in \<open>src/pkg/promapi/decode.go\<close>, which the JSON decoder calls.\<close>

definition promapi_sampleHistogramToFloatHistogram ::
  "sample_histogram option \<Rightarrow> float_histogram option"
where
  "promapi_sampleHistogramToFloatHistogram sh =
     (case sh of
        None \<Rightarrow> None
      | Some s \<Rightarrow>
          (let fh = empty_float_histogram\<lparr>fh_Schema := CustomBucketsSchema,
                      fh_Count := sh_Count s, fh_Sum := sh_Sum s\<rparr>
           in if sh_Buckets s = [] then Some fh
              else (let counts = map hb_Count (sh_Buckets s)
                    in Some (fh\<lparr>fh_CustomValues := finite_uppers (sh_Buckets s),
                                fh_PositiveBuckets := counts,
                                fh_PositiveSpans := [(0, length counts)]\<rparr>))))"

section \<open>Annotations\<close>

type_synonym annotations = "(string, go_error) smap"

definition annotations_Add :: "go_error \<Rightarrow> annotations \<Rightarrow> annotations" where
  "annotations_Add err a = smap_put (error_string err) err a"

definition MergeAnnotations :: "annotations \<Rightarrow> annotations \<Rightarrow> annotations" where
  "MergeAnnotations a b = fold (\<lambda>(k, v) a. smap_put k v a) b a"

text \<open>The regular expression \<open>annotationPosSuffix\<close>: a space and \<open>(digits:digits)\<close> at the end.\<close>

definition is_digit :: "char \<Rightarrow> bool" where
  "is_digit c \<longleftrightarrow> 48 \<le> byte c \<and> byte c \<le> 57"

definition strip_pos_suffix :: "string \<Rightarrow> string" where
  "strip_pos_suffix s =
     (case rev s of
        CHR '')'' # r \<Rightarrow>
          (let col = takeWhile is_digit r; r = dropWhile is_digit r
           in case r of
                CHR '':'' # r \<Rightarrow>
                  (let line = takeWhile is_digit r; r = dropWhile is_digit r
                   in case r of
                        CHR ''('' # CHR '' '' # r \<Rightarrow>
                          (if col \<noteq> [] \<and> line \<noteq> [] then rev r else s)
                      | _ \<Rightarrow> s)
              | _ \<Rightarrow> s)
      | _ \<Rightarrow> s)"

definition toAnnotationError :: "string \<Rightarrow> go_error" where
  "toAnnotationError str =
     (let s = strip_pos_suffix str
      in case CutPrefix s ''PromQL warning: '' of
           Some rest \<Rightarrow> Errorf_w_s PromQLWarning rest
         | None \<Rightarrow>
             (case CutPrefix s ''PromQL info: '' of
                Some rest \<Rightarrow> Errorf_w_s PromQLInfo rest
              | None \<Rightarrow> OtherError s))"

definition WarningsConvert :: "string list \<Rightarrow> annotations" where
  "WarningsConvert ws = fold (\<lambda>item a. annotations_Add (toAnnotationError item) a) ws []"

text \<open>\<open>WarningSet\<close>, the set of warning strings of \<open>merge.go\<close>.\<close>

type_synonym warning_set = "(string, unit) smap"

definition AddWarning :: "string \<Rightarrow> warning_set \<Rightarrow> warning_set" where
  "AddWarning w s = smap_put w () s"

definition AddWarnings :: "string list \<Rightarrow> warning_set \<Rightarrow> warning_set" where
  "AddWarnings ws s = fold AddWarning ws s"

definition Warnings :: "warning_set \<Rightarrow> string list" where
  "Warnings s = map fst s"

section \<open>Series and series sets\<close>

datatype sample =
    FloatSample (sample_T: int) (sample_F: f64)
  | HistogramSample (sample_T: int) (sample_FH: "float_histogram option")

text \<open>A series with the samples its iterator yields and the error it ends with.\<close>

record series =
  sr_labels :: labelset
  sr_samples :: "sample list"
  sr_iterErr :: "go_error option"

record series_set =
  ss_series :: "series list"
  ss_warnings :: annotations
  ss_err :: "go_error option"

definition NewSeries :: "labelset \<Rightarrow> sample list \<Rightarrow> series" where
  "NewSeries lbls samples = \<lparr>sr_labels = lbls, sr_samples = samples, sr_iterErr = None\<rparr>"

definition NewSeriesSet :: "series list \<Rightarrow> annotations \<Rightarrow> go_error option \<Rightarrow> series_set" where
  "NewSeriesSet series warnings err = \<lparr>ss_series = series, ss_warnings = warnings, ss_err = err\<rparr>"

definition ErrSeriesSet :: "go_error \<Rightarrow> series_set" where
  "ErrSeriesSet err = NewSeriesSet [] [] (Some err)"

definition EmptySeriesSet :: series_set where
  "EmptySeriesSet = NewSeriesSet [] [] None"

section \<open>Cursors\<close>

text \<open>
  The iteration state of \<open>promapi.SeriesSet\<close> (\<open>idx\<close>, which starts at -1 and keeps growing)
  and of \<open>proxyquerier.SeriesSet\<close> (\<open>offset\<close>, which stops at the length). \<open>At\<close> out of range
  panics.
\<close>

record promapi_cursor =
  pc_series :: "series list"
  pc_idx :: int

definition promapi_NewSeriesSet :: "series list \<Rightarrow> promapi_cursor" where
  "promapi_NewSeriesSet series = \<lparr>pc_series = series, pc_idx = - 1\<rparr>"

definition promapi_Next :: "promapi_cursor \<Rightarrow> bool \<times> promapi_cursor" where
  "promapi_Next s =
     (let s = s\<lparr>pc_idx := pc_idx s + 1\<rparr> in (pc_idx s < int (length (pc_series s)), s))"

definition promapi_At :: "promapi_cursor \<Rightarrow> series outcome" where
  "promapi_At s =
     (if 0 \<le> pc_idx s \<and> pc_idx s < int (length (pc_series s))
      then Ret (pc_series s ! nat (pc_idx s)) else Panic ''index out of range'')"

record proxyquerier_cursor =
  qc_offset :: int
  qc_series :: "series list"

definition proxyquerier_NewSeriesSet :: "series list \<Rightarrow> proxyquerier_cursor" where
  "proxyquerier_NewSeriesSet series = \<lparr>qc_offset = 0, qc_series = series\<rparr>"

definition proxyquerier_Next :: "proxyquerier_cursor \<Rightarrow> bool \<times> proxyquerier_cursor" where
  "proxyquerier_Next s =
     (if qc_offset s < int (length (qc_series s))
      then (True, s\<lparr>qc_offset := qc_offset s + 1\<rparr>) else (False, s))"

definition proxyquerier_At :: "proxyquerier_cursor \<Rightarrow> series outcome" where
  "proxyquerier_At s =
     (if 0 \<le> qc_offset s - 1 \<and> qc_offset s - 1 < int (length (qc_series s))
      then Ret (qc_series s ! nat (qc_offset s - 1)) else Panic ''index out of range'')"

text \<open>Draining a cursor, \<open>for ss.Next() { ... ss.At() ... }\<close>, with a bound on the number of steps.\<close>

fun drain ::
  "('s \<Rightarrow> bool \<times> 's) \<Rightarrow> ('s \<Rightarrow> series outcome) \<Rightarrow> nat \<Rightarrow> 's \<Rightarrow> (series list) outcome option"
where
  "drain next at 0 s = None"
| "drain next at (Suc n) s =
     (case next s of
        (False, _) \<Rightarrow> Some (Ret [])
      | (True, s) \<Rightarrow>
          (case at s of
             Panic p \<Rightarrow> Some (Panic p)
           | Ret x \<Rightarrow>
               (case drain next at n s of
                  None \<Rightarrow> None
                | Some r \<Rightarrow> Some (obind r (\<lambda>xs. Ret (x # xs))))))"

section \<open>Wrappers\<close>

definition DowngradeErrSeriesSet :: "series_set \<Rightarrow> series_set" where
  "DowngradeErrSeriesSet ss =
     ss\<lparr>ss_err := None,
        ss_warnings := (case ss_err ss of None \<Rightarrow> ss_warnings ss
                        | Some err \<Rightarrow> annotations_Add err (ss_warnings ss))\<rparr>"

definition WithWarnings :: "series_set \<Rightarrow> annotations \<Rightarrow> series_set" where
  "WithWarnings ss w = ss\<lparr>ss_warnings := w\<rparr>"

definition MapErrSeriesSet :: "series_set \<Rightarrow> (go_error option \<Rightarrow> go_error option) \<Rightarrow> series_set" where
  "MapErrSeriesSet ss fn = ss\<lparr>ss_err := fn (ss_err ss)\<rparr>"

definition MapLabelsSeriesSet :: "series_set \<Rightarrow> (labelset \<Rightarrow> labelset) \<Rightarrow> series_set" where
  "MapLabelsSeriesSet ss fn =
     ss\<lparr>ss_series := map (\<lambda>s. s\<lparr>sr_labels := fn (sr_labels s)\<rparr>) (ss_series ss)\<rparr>"

section \<open>Conversions\<close>

type_synonym stream = "sample_histogram option sample_stream"

definition labelsToMetric :: "labelset \<Rightarrow> labelset" where
  "labelsToMetric ls = smap_of_list ls"

definition metricLabels :: "labelset \<Rightarrow> labelset" where
  "metricLabels m = sort_key fst m"

definition seriesToSampleStream :: "externals \<Rightarrow> series \<Rightarrow> stream" where
  "seriesToSampleStream ext s =
     foldl (\<lambda>ss p. case p of
         FloatSample t v \<Rightarrow> ss\<lparr>Values := Values ss @ [\<lparr>Timestamp = t, Value = v\<rparr>]\<rparr>
       | HistogramSample t fh \<Rightarrow>
           ss\<lparr>Histograms := Histograms ss @
                [\<lparr>Timestamp = t, Value = floatHistogramToSampleHistogram ext fh\<rparr>]\<rparr>)
       \<lparr>Metric = labelsToMetric (sr_labels s), Values = [], Histograms = []\<rparr> (sr_samples s)"

definition sampleStreamToSeries :: "stream \<Rightarrow> labelset \<Rightarrow> series" where
  "sampleStreamToSeries ss lbls =
     NewSeries lbls (sort_key sample_T
       (map (\<lambda>p. FloatSample (Timestamp p) (Value p)) (Values ss) @
        map (\<lambda>p. HistogramSample (Timestamp p) (sampleHistogramToFloatHistogram (Value p)))
          (Histograms ss)))"

record model_sample =
  ms_Metric :: labelset
  ms_Value :: f64
  ms_Timestamp :: int
  ms_Histogram :: "sample_histogram option"

datatype model_value =
    Vector "model_sample list"
  | Matrix "stream list"
  | Scalar int f64
  | OtherValue

definition model_sample_to_stream :: "model_sample \<Rightarrow> stream" where
  "model_sample_to_stream s =
     (case ms_Histogram s of
        Some h \<Rightarrow> \<lparr>Metric = ms_Metric s, Values = [],
                   Histograms = [\<lparr>Timestamp = ms_Timestamp s, Value = Some h\<rparr>]\<rparr>
      | None \<Rightarrow> \<lparr>Metric = ms_Metric s,
                  Values = [\<lparr>Timestamp = ms_Timestamp s, Value = ms_Value s\<rparr>], Histograms = []\<rparr>)"

definition ModelValueToSeriesSet ::
  "model_value \<Rightarrow> annotations \<Rightarrow> go_error option \<Rightarrow> series_set"
where
  "ModelValueToSeriesSet v warnings err =
     (if err \<noteq> None then NewSeriesSet [] warnings err
      else NewSeriesSet
        (case v of
           Vector tv \<Rightarrow> map (\<lambda>s. sampleStreamToSeries (model_sample_to_stream s) (metricLabels (ms_Metric s))) tv
         | Matrix tv \<Rightarrow> map (\<lambda>ss. sampleStreamToSeries ss (metricLabels (Metric ss))) tv
         | Scalar t f \<Rightarrow> [NewSeries [] [FloatSample t f]]
         | OtherValue \<Rightarrow> [])
        warnings None)"

text \<open>The error of the first series whose iterator fails wins over the set's own error.\<close>

definition materializeSeriesSet :: "series_set \<Rightarrow> series_set" where
  "materializeSeriesSet ss =
     (case find (\<lambda>s. sr_iterErr s \<noteq> None) (ss_series ss) of
        Some s \<Rightarrow> NewSeriesSet [] (ss_warnings ss) (sr_iterErr s)
      | None \<Rightarrow>
          NewSeriesSet (map (\<lambda>s. NewSeries (sr_labels s) (sr_samples s)) (ss_series ss))
            (ss_warnings ss) (ss_err ss))"

definition SeriesSetToMatrix :: "externals \<Rightarrow> series_set \<Rightarrow> stream list \<times> go_error option" where
  "SeriesSetToMatrix ext ss = (map (seriesToSampleStream ext) (ss_series ss), ss_err ss)"

definition SortSeriesSet :: "series_set \<Rightarrow> series_set" where
  "SortSeriesSet ss = NewSeriesSet (sort_key sr_labels (ss_series ss)) (ss_warnings ss) (ss_err ss)"

section \<open>Merging series sets\<close>

text \<open>
  \<open>storage.NewMergeSeriesSet\<close>: a set in the heap is the list of its series from the one under
  the cursor on, so its key is the labels of the head. \<open>currentSets\<close> are the sets whose head
  was just returned.
\<close>

definition set_key :: "series list \<Rightarrow> labelset" where
  "set_key s = sr_labels (hd s)"

definition advance_current :: "series list list \<Rightarrow> series list list \<Rightarrow> series list list" where
  "advance_current currentSets h =
     fold (heap_Push (key_less set_key)) (filter (\<lambda>s. s \<noteq> []) (map tl currentSets)) h"

function pop_equal :: "labelset \<Rightarrow> series list list \<Rightarrow> series list list \<times> series list list" where
  "pop_equal currentLabels h =
     (if h \<noteq> [] \<and> set_key (hd h) = currentLabels
      then (let (s, h) = heap_Pop (key_less set_key) h; (currentSets, h) = pop_equal currentLabels h
            in (s # currentSets, h))
      else ([], h))"
  by pat_completeness auto
termination
  by (relation "measure (length \<circ> snd)") (auto, metis diff_less heap_Pop_spec length_greater_0_conv length_heap_Pop less_numeral_extra(1) snd_conv)

declare pop_equal.simps [simp del]

lemma pop_equal_mset: "pop_equal l h = (cur, h') \<Longrightarrow> mset h = mset cur + mset h'"
proof (induction l h arbitrary: cur h' rule: pop_equal.induct)
  case (1 l h)
  show ?case
  proof (cases "h \<noteq> [] \<and> set_key (hd h) = l")
    case True
    obtain s q where pop: "heap_Pop (key_less set_key) h = (s, q)" by (cases "heap_Pop (key_less set_key) h")
    obtain c r where rec: "pop_equal l q = (c, r)" by (cases "pop_equal l q")
    have "mset q = mset c + mset r" using 1(1) [OF True pop [symmetric]] rec by simp
    moreover have "cur = s # c" "h' = r" using 1(2) True pop rec by (simp_all add: pop_equal.simps [of l h])
    moreover have "mset h = add_mset s (mset q)" using heap_Pop_spec [of h "key_less set_key"] True pop by simp
    ultimately show ?thesis by simp
  next
    case False
    with 1(2) show ?thesis by (simp add: pop_equal.simps [of l h])
  qed
qed

text \<open>\<open>At\<close> of the merged set: the single series, or the merge function on all of them.\<close>

definition merged_At :: "(series list \<Rightarrow> series option outcome) \<Rightarrow> series list list \<Rightarrow> series outcome" where
  "merged_At mergeFunc currentSets =
     (if length currentSets = 1 then Ret (hd (hd currentSets))
      else obind (mergeFunc (map hd currentSets))
             (\<lambda>r. case r of Some s \<Rightarrow> Ret s | None \<Rightarrow> Panic ''nil pointer dereference''))"

function merge_sets_loop ::
  "(series list \<Rightarrow> series option outcome) \<Rightarrow> series list list \<Rightarrow> series list list \<Rightarrow> (series list) outcome"
where
  "merge_sets_loop mergeFunc currentSets h =
     (let h = advance_current currentSets h
      in if h = [] then Ret []
         else (let (currentSets, h) = pop_equal (set_key (hd h)) h
               in obind (merged_At mergeFunc currentSets)
                    (\<lambda>s. obind (merge_sets_loop mergeFunc currentSets h) (\<lambda>rest. Ret (s # rest)))))"
  by pat_completeness auto

lemma pop_equal_nonempty: "h \<noteq> [] \<Longrightarrow> pop_equal (set_key (hd h)) h = (cur, h') \<Longrightarrow> cur \<noteq> []"
  by (auto simp: pop_equal.simps [of _ h] split: prod.splits)

lemma mset_advance_current:
  "mset (advance_current cur h) = mset (filter (\<lambda>s. s \<noteq> []) (map tl cur)) + mset h"
  by (simp only: advance_current_def heap.mset_fold_push)

definition sets_size :: "series list multiset \<Rightarrow> nat" where
  "sets_size m = (\<Sum>s\<in>#m. Suc (length s))"

lemma sets_size_tails: "sets_size (mset (filter (\<lambda>s. s \<noteq> []) (map tl cur))) \<le> (\<Sum>s\<leftarrow>cur. length s)"
proof (induction cur)
  case (Cons a cur)
  then show ?case by (cases a) (auto simp: sets_size_def)
qed (simp add: sets_size_def)

lemma sets_size_sum: "sets_size (mset xs) = (\<Sum>s\<leftarrow>xs. length s) + length xs"
  by (induction xs) (auto simp: sets_size_def)

termination merge_sets_loop
proof (relation "measure (\<lambda>(_, cur, h). (\<Sum>s\<leftarrow>cur. length s) + sets_size (mset h))")
  fix mergeFunc cur h x xa y s
  fix xb xc
  assume x: "x = advance_current cur h" "x \<noteq> []" and pe: "xa = pop_equal (set_key (hd x)) x" "(y, s) = xa"
  have "mset x = mset y + mset s" using pop_equal_mset [of "set_key (hd x)" x y s] pe by simp
  then have "sets_size (mset x) = sets_size (mset y) + sets_size (mset s)" by (simp add: sets_size_def)
  moreover have "sets_size (mset x) \<le> (\<Sum>s\<leftarrow>cur. length s) + sets_size (mset h)"
    using sets_size_tails [of cur] by (simp add: x(1) mset_advance_current sets_size_def)
  moreover have "y \<noteq> []" using pop_equal_nonempty [OF x(2)] pe by metis
  ultimately show "((mergeFunc, y, s), mergeFunc, cur, h)
      \<in> measure (\<lambda>(_, cur, h). (\<Sum>s\<leftarrow>cur. length s) + sets_size (mset h))"
    using sets_size_sum [of y] by (cases y) auto
qed simp

declare merge_sets_loop.simps [simp del]

definition NewMergeSeriesSet ::
  "series_set list \<Rightarrow> (series list \<Rightarrow> series option outcome) \<Rightarrow> series_set outcome"
where
  "NewMergeSeriesSet sets mergeFunc =
     (if length sets = 1 then Ret (hd sets)
      else (case find (\<lambda>s. ss_err s \<noteq> None) sets of
              Some s \<Rightarrow> Ret (NewSeriesSet [] [] (ss_err s))
            | None \<Rightarrow>
                obind (merge_sets_loop mergeFunc []
                        (fold (heap_Push (key_less set_key))
                          (filter (\<lambda>s. s \<noteq> []) (map ss_series sets)) []))
                  (\<lambda>series. Ret (NewSeriesSet series
                      (fold (\<lambda>s w. MergeAnnotations w (ss_warnings s)) sets []) None))))"

text \<open>
  \<open>merged, _ = MergeSampleStream(...)\<close> drops the error and leaves a nil stream, which the
  next use dereferences.
\<close>

definition merge_step ::
  "externals \<Rightarrow> int \<Rightarrow> bool \<Rightarrow> bool \<Rightarrow> series \<Rightarrow> stream option outcome \<Rightarrow> stream option outcome"
where
  "merge_step ext antiAffinity dynamic preferMax s merged =
     obind merged (\<lambda>m. case m of
        None \<Rightarrow> Panic ''nil pointer dereference''
      | Some a \<Rightarrow>
          (case MergeSampleStream antiAffinity dynamic a (seriesToSampleStream ext s) preferMax of
             Inl _ \<Rightarrow> Ret None
           | Inr r \<Rightarrow> Ret (Some r)))"

definition mergeAntiAffinity ::
  "externals \<Rightarrow> int \<Rightarrow> bool \<Rightarrow> bool \<Rightarrow> series list \<Rightarrow> series option outcome"
where
  "mergeAntiAffinity ext antiAffinity dynamic preferMax series =
     (case series of
        [] \<Rightarrow> Ret None
      | s # ss \<Rightarrow>
          obind (fold (merge_step ext antiAffinity dynamic preferMax) ss
                  (Ret (Some (seriesToSampleStream ext s))))
            (\<lambda>m. case m of
               None \<Rightarrow> Panic ''nil pointer dereference''
             | Some merged \<Rightarrow> Ret (Some (sampleStreamToSeries merged (sr_labels s)))))"

definition MergeSeriesSets ::
  "externals \<Rightarrow> int \<Rightarrow> bool \<Rightarrow> bool \<Rightarrow> series_set list \<Rightarrow> series_set outcome"
where
  "MergeSeriesSets ext antiAffinity dynamic preferMax sets =
     (if sets = [] then Ret (NewSeriesSet [] [] None)
      else if length sets = 1 then Ret (hd sets)
      else NewMergeSeriesSet (map SortSeriesSet sets) (mergeAntiAffinity ext antiAffinity dynamic preferMax))"

section \<open>The k-way merge\<close>

abbreviation sorted_set :: "series list \<Rightarrow> bool" where
  "sorted_set s \<equiv> sorted_wrt (<) (map sr_labels s)"

definition sets_ok :: "series list list \<Rightarrow> bool" where
  "sets_ok xs \<longleftrightarrow> (\<forall>s\<in>set xs. s \<noteq> [] \<and> sorted_set s)"

definition series_of :: "series list list \<Rightarrow> series multiset" where
  "series_of xs = mset (concat xs)"

abbreviation heap_inv :: "series list list \<Rightarrow> bool" where
  "heap_inv h \<equiv> heap_ok set_key (length h) h"

lemma series_of_sum: "series_of xs = sum_mset (image_mset mset (mset xs))"
  by (induction xs) (auto simp: series_of_def)

lemma series_of_perm: "mset xs = mset ys \<Longrightarrow> series_of xs = series_of ys"
  by (simp add: series_of_sum)

lemma series_of_append [simp]: "series_of (xs @ ys) = series_of xs + series_of ys"
  by (simp add: series_of_def)

lemma series_of_split: "mset h = mset xs + mset ys \<Longrightarrow> series_of h = series_of xs + series_of ys"
  using series_of_perm [of h "xs @ ys"] by simp

lemma series_of_tails: "series_of (filter (\<lambda>s. s \<noteq> []) xs) = series_of xs"
  by (induction xs) (auto simp: series_of_def)

lemma sets_ok_perm: "mset xs = mset ys \<Longrightarrow> sets_ok xs = sets_ok ys"
  by (metis sets_ok_def set_mset_mset)

lemma pop_equal_spec:
  assumes "heap_inv h" "pop_equal l h = (cur, h')" "\<And>s. s \<in> set h \<Longrightarrow> l \<le> set_key s"
  shows "heap_inv h' \<and> (\<forall>s\<in>set cur. set_key s = l) \<and> (\<forall>s\<in>set h'. l < set_key s)"
  using assms
proof (induction l h arbitrary: cur h' rule: pop_equal.induct)
  case (1 l h)
  show ?case
  proof (cases "h \<noteq> [] \<and> set_key (hd h) = l")
    case True
    obtain s q where pop: "heap_Pop (key_less set_key) h = (s, q)" by (cases "heap_Pop (key_less set_key) h")
    obtain c r where rec: "pop_equal l q = (c, r)" by (cases "pop_equal l q")
    have q: "heap_inv q" "s = hd h" "\<And>t. t \<in> set q \<Longrightarrow> l \<le> set_key t"
      using heap.inv_pop [of set_key h] heap.pop_hd [of h set_key] heap.set_pop [of h set_key] 1(2,4) True pop by auto
    have "heap_inv r \<and> (\<forall>s\<in>set c. set_key s = l) \<and> (\<forall>s\<in>set r. l < set_key s)"
      using 1(1) [OF True pop [symmetric] refl q(1) rec q(3)] by simp
    moreover have "cur = s # c" "h' = r" using 1(3) True pop rec by (simp_all add: pop_equal.simps [of l h])
    ultimately show ?thesis using q(2) True by simp
  next
    case False
    then have "cur = []" "h' = h" using 1(3) by (auto simp: pop_equal.simps [of l h] split: if_splits)
    moreover have "l < set_key s" if "s \<in> set h" for s
    proof -
      have "h \<noteq> []" using that by auto
      with False have "set_key (hd h) \<noteq> l" by simp
      moreover have "l \<le> set_key (hd h)" using 1(4) \<open>h \<noteq> []\<close> by simp
      moreover have "set_key (hd h) \<le> set_key s" using heap.hd_least [OF 1(2) that] .
      ultimately show ?thesis by simp
    qed
    ultimately show ?thesis using 1(2) by simp
  qed
qed

lemma tail_labels: "sorted_set s \<Longrightarrow> s \<noteq> [] \<Longrightarrow> x \<in> set (tl s) \<Longrightarrow> set_key s < sr_labels x"
  by (cases s) (auto simp: set_key_def)

lemma member_labels: "sorted_set s \<Longrightarrow> x \<in> set s \<Longrightarrow> set_key s \<le> sr_labels x"
  by (cases s) (auto simp: set_key_def intro: less_imp_le)

lemma sets_ok_tails: "sets_ok cur \<Longrightarrow> sets_ok (filter (\<lambda>s. s \<noteq> []) (map tl cur))"
proof -
  have "sorted_set (tl s)" if "sorted_set s" for s
    using that by (cases s) auto
  then show "sets_ok cur \<Longrightarrow> sets_ok (filter (\<lambda>s. s \<noteq> []) (map tl cur))" by (auto simp: sets_ok_def)
qed

lemma advance_current_spec:
  assumes "heap_inv h" "sets_ok h" "sets_ok cur"
  shows "heap_inv (advance_current cur h)" "sets_ok (advance_current cur h)"
    "series_of (advance_current cur h) = series_of (map tl cur) + series_of h"
proof -
  show "heap_inv (advance_current cur h)"
    unfolding advance_current_def by (rule heap.inv_fold_push [OF assms(1)])
  have "sets_ok (filter (\<lambda>s. s \<noteq> []) (map tl cur) @ h)"
    using sets_ok_tails [OF assms(3)] assms(2) by (auto simp: sets_ok_def)
  then show "sets_ok (advance_current cur h)"
    using sets_ok_perm [of "advance_current cur h" "filter (\<lambda>s. s \<noteq> []) (map tl cur) @ h"]
    by (simp add: mset_advance_current)
  have "series_of (advance_current cur h) = series_of (filter (\<lambda>s. s \<noteq> []) (map tl cur) @ h)"
    by (rule series_of_perm) (simp add: mset_advance_current)
  then show "series_of (advance_current cur h) = series_of (map tl cur) + series_of h"
    by (simp add: series_of_tails)
qed

lemma series_of_heads: "\<forall>s\<in>set cur. s \<noteq> [] \<Longrightarrow> series_of cur = mset (map hd cur) + series_of (map tl cur)"
proof (induction cur)
  case (Cons s cur)
  then show ?case by (cases s) (auto simp: series_of_def)
qed (simp add: series_of_def)

text \<open>
  What the merge promises: one series per label set, in label order, each the merge of exactly
  the input series with these labels.
\<close>

definition merged_from :: "(series list \<Rightarrow> series option outcome) \<Rightarrow> series list \<Rightarrow> series \<Rightarrow> bool" where
  "merged_from mergeFunc xs s \<longleftrightarrow> (if length xs = 1 then s = hd xs else mergeFunc xs = Ret (Some s))"

definition merge_of :: "(series list \<Rightarrow> series option outcome) \<Rightarrow> series multiset \<Rightarrow> series list \<Rightarrow> bool" where
  "merge_of mergeFunc R out \<longleftrightarrow> sorted_set out \<and> sr_labels ` set out = sr_labels ` set_mset R \<and>
     (\<forall>s\<in>set out. \<exists>xs. mset xs = filter_mset (\<lambda>x. sr_labels x = sr_labels s) R \<and> merged_from mergeFunc xs s)"

text \<open>
  A merge function for same-labelled series: it returns a series with their labels. What the
  merged set then holds is proved once, from this contract.
\<close>

locale vertical_merge =
  fixes mergeFunc :: "series list \<Rightarrow> series option outcome"
  assumes merge_total:
    "xs \<noteq> [] \<Longrightarrow> \<forall>x\<in>set xs. sr_labels x = l \<Longrightarrow> \<exists>s. mergeFunc xs = Ret (Some s) \<and> sr_labels s = l"
begin

lemma merged_At_total:
  assumes "cur \<noteq> []" "\<forall>s\<in>set cur. set_key s = l"
  shows "\<exists>s. merged_At mergeFunc cur = Ret s \<and> sr_labels s = l \<and> merged_from mergeFunc (map hd cur) s"
proof (cases "length cur = 1")
  case True
  then show ?thesis using assms by (cases cur) (auto simp: merged_At_def merged_from_def set_key_def)
next
  case False
  with merge_total [of "map hd cur" l] assms show ?thesis
    by (auto simp: merged_At_def merged_from_def set_key_def)
qed

lemma merge_of_Cons:
  assumes "merge_of mergeFunc R' out" "R = mset xs + R'" "merged_from mergeFunc xs s" "sr_labels s = l"
    and "xs \<noteq> []" "\<forall>x\<in>set xs. sr_labels x = l" "\<forall>x\<in>#R'. l < sr_labels x"
  shows "merge_of mergeFunc R (s # out)"
proof -
  have labels: "sr_labels ` set out = sr_labels ` set_mset R'" using assms(1) by (simp add: merge_of_def)
  have gt: "l < sr_labels t" if "t \<in> set out" for t
  proof -
    have "sr_labels t \<in> sr_labels ` set_mset R'" using that labels by blast
    then show ?thesis using assms(7) by auto
  qed
  have "filter (\<lambda>x. sr_labels x = l) xs = xs" using assms(6) by (simp add: filter_id_conv)
  moreover have "filter_mset (\<lambda>x. sr_labels x = l) R' = {#}"
    using assms(7) by (auto simp: multiset_eq_iff not_in_iff)
  ultimately have "filter_mset (\<lambda>x. sr_labels x = l) R = mset xs"
    by (simp add: assms(2) flip: mset_filter)
  moreover have "filter_mset (\<lambda>x. sr_labels x = sr_labels t) R = filter_mset (\<lambda>x. sr_labels x = sr_labels t) R'"
    if "t \<in> set out" for t
  proof -
    have "filter_mset (\<lambda>x. sr_labels x = sr_labels t) (mset xs) = {#}"
      using gt [OF that] assms(6) by (auto simp: multiset_eq_iff not_in_iff)
    then show ?thesis by (simp add: assms(2))
  qed
  moreover have "sr_labels ` set_mset R = insert l (sr_labels ` set_mset R')"
    using assms(5,6) by (cases xs) (auto simp: assms(2))
  ultimately show ?thesis
    using assms(1,3,4,7) gt labels by (auto simp: merge_of_def)
qed

lemma merge_sets_loop_step:
  assumes "heap_inv h" "sets_ok h" "h \<noteq> []" and pe: "pop_equal (set_key (hd h)) h = (cur, h')"
  shows "heap_inv h'" "sets_ok h'" "sets_ok cur" "cur \<noteq> []"
    and "\<forall>s\<in>set cur. set_key s = set_key (hd h)"
    and "series_of h = mset (map hd cur) + (series_of (map tl cur) + series_of h')"
    and "\<forall>x\<in>#series_of (map tl cur) + series_of h'. set_key (hd h) < sr_labels x"
proof -
  have perm: "mset h = mset cur + mset h'" by (rule pop_equal_mset [OF pe])
  then have "set h = set cur \<union> set h'" by (metis set_mset_mset set_mset_union)
  with assms(2) show ok: "sets_ok h'" "sets_ok cur" by (auto simp: sets_ok_def)
  show "cur \<noteq> []" by (rule pop_equal_nonempty [OF assms(3) pe])
  have spec: "heap_inv h' \<and> (\<forall>s\<in>set cur. set_key s = set_key (hd h)) \<and> (\<forall>s\<in>set h'. set_key (hd h) < set_key s)"
    by (rule pop_equal_spec [OF assms(1) pe]) (rule heap.hd_least [OF assms(1)])
  then show "heap_inv h'" and eq: "\<forall>s\<in>set cur. set_key s = set_key (hd h)" by auto
  show "series_of h = mset (map hd cur) + (series_of (map tl cur) + series_of h')"
    using series_of_split [OF perm] series_of_heads [of cur] ok(2) by (simp add: sets_ok_def add.assoc)
  have "set_key (hd h) < sr_labels x" if "x \<in># series_of (map tl cur)" for x
    using that eq ok(2) tail_labels by (fastforce simp: series_of_def sets_ok_def)
  moreover have "set_key (hd h) < sr_labels x" if "x \<in># series_of h'" for x
    using that spec ok(1) member_labels by (fastforce simp: series_of_def sets_ok_def intro: less_le_trans)
  ultimately show "\<forall>x\<in>#series_of (map tl cur) + series_of h'. set_key (hd h) < sr_labels x" by auto
qed

lemma merge_sets_loop_spec:
  assumes "heap_inv h" "sets_ok h" "sets_ok cur"
  shows "\<exists>out. merge_sets_loop mergeFunc cur h = Ret out \<and>
    merge_of mergeFunc (series_of (map tl cur) + series_of h) out"
proof -
  have "mf = mergeFunc \<Longrightarrow> heap_inv h \<Longrightarrow> sets_ok h \<Longrightarrow> sets_ok cur \<Longrightarrow>
    \<exists>out. merge_sets_loop mf cur h = Ret out \<and> merge_of mergeFunc (series_of (map tl cur) + series_of h) out"
    for mf
  proof (induction mf cur h rule: merge_sets_loop.induct)
    case (1 mf cur h)
    let ?h = "advance_current cur h"
    note adv = advance_current_spec [OF 1(3-5)]
    show ?case
    proof (cases "?h = []")
      case True
      then show ?thesis
        using adv(3) by (simp add: merge_sets_loop.simps [of mf cur h] merge_of_def series_of_def)
    next
      case False
      obtain cur' h' where pe: "pop_equal (set_key (hd ?h)) ?h = (cur', h')"
        by (cases "pop_equal (set_key (hd ?h)) ?h")
      note step = merge_sets_loop_step [OF adv(1,2) False pe]
      obtain s where s: "merged_At mergeFunc cur' = Ret s" "sr_labels s = set_key (hd ?h)"
          "merged_from mergeFunc (map hd cur') s"
        using merged_At_total [OF step(4,5)] by blast
      obtain out where out: "merge_sets_loop mf cur' h' = Ret out"
          "merge_of mergeFunc (series_of (map tl cur') + series_of h') out"
        using 1(1) [OF refl False refl pe [symmetric] 1(2) step(1-3)] by auto
      have "merge_of mergeFunc (series_of ?h) (s # out)"
        using step(4,5) by (intro merge_of_Cons [OF out(2) step(6) s(3,2) _ _ step(7)]) (auto simp: set_key_def)
      moreover have "merge_sets_loop mf cur h = Ret (s # out)"
        using False pe s(1) out(1) 1(2) by (simp add: merge_sets_loop.simps [of mergeFunc cur h])
      ultimately show ?thesis using adv(3) by simp
    qed
  qed
  with assms show ?thesis by blast
qed
end

section \<open>The anti-affinity merge as a merge function\<close>

lemma seriesToSampleStream_fold:
  "foldl (\<lambda>ss p. case p of
         FloatSample t v \<Rightarrow> ss\<lparr>Values := Values ss @ [\<lparr>Timestamp = t, Value = v\<rparr>]\<rparr>
       | HistogramSample t fh \<Rightarrow>
           ss\<lparr>Histograms := Histograms ss @
                [\<lparr>Timestamp = t, Value = floatHistogramToSampleHistogram ext fh\<rparr>]\<rparr>) ss ps =
   ss\<lparr>Values := Values ss @ [\<lparr>Timestamp = sample_T p, Value = sample_F p\<rparr>. p \<leftarrow> ps, is_FloatSample p],
      Histograms := Histograms ss @ [\<lparr>Timestamp = sample_T p, Value = floatHistogramToSampleHistogram ext (sample_FH p)\<rparr>.
        p \<leftarrow> ps, \<not> is_FloatSample p]\<rparr>"
  by (induction ps arbitrary: ss) (auto split: sample.splits)

lemma seriesToSampleStream_eq:
  "seriesToSampleStream ext s =
     \<lparr>Metric = labelsToMetric (sr_labels s),
      Values = [\<lparr>Timestamp = sample_T p, Value = sample_F p\<rparr>. p \<leftarrow> sr_samples s, is_FloatSample p],
      Histograms = [\<lparr>Timestamp = sample_T p, Value = floatHistogramToSampleHistogram ext (sample_FH p)\<rparr>.
        p \<leftarrow> sr_samples s, \<not> is_FloatSample p]\<rparr>"
  by (simp add: seriesToSampleStream_def seriesToSampleStream_fold)

lemma Metric_seriesToSampleStream [simp]: "Metric (seriesToSampleStream ext s) = labelsToMetric (sr_labels s)"
  by (simp add: seriesToSampleStream_eq)

lemma merge_step_same:
  assumes "Metric a = labelsToMetric (sr_labels s)"
  shows "\<exists>r. merge_step ext aa dynamic pm s (Ret (Some a)) = Ret (Some r) \<and> Metric r = Metric a"
proof -
  have "\<exists>m\<in>{Metric a, Metric (seriesToSampleStream ext s)}.
      \<exists>vs hs. MergeSampleStream aa dynamic a (seriesToSampleStream ext s) pm = Inr \<lparr>Metric = m, Values = vs, Histograms = hs\<rparr>"
    using MergeSampleStream_unfold [of a "seriesToSampleStream ext s" aa dynamic pm] assms by auto
  then show ?thesis using assms by (auto simp: merge_step_def)
qed

lemma merge_fold_same:
  assumes "\<forall>s\<in>set ss. sr_labels s = l" "Metric a = labelsToMetric l"
  shows "\<exists>r. fold (merge_step ext aa dynamic pm) ss (Ret (Some a)) = Ret (Some r) \<and> Metric r = labelsToMetric l"
  using assms
proof (induction ss arbitrary: a)
  case (Cons s ss)
  obtain r where r: "merge_step ext aa dynamic pm s (Ret (Some a)) = Ret (Some r)" "Metric r = labelsToMetric l"
    using merge_step_same [of a s ext aa dynamic pm] Cons.prems by auto
  show ?case using Cons.IH [OF _ r(2)] Cons.prems(1) r(1) by simp
qed simp

interpretation anti_affinity: vertical_merge "mergeAntiAffinity ext antiAffinity dynamic preferMax"
  for ext antiAffinity dynamic preferMax
proof unfold_locales
  fix xs :: "series list" and l
  assume "xs \<noteq> []" "\<forall>x\<in>set xs. sr_labels x = l"
  then obtain s ss where xs: "xs = s # ss" "sr_labels s = l" "\<forall>x\<in>set ss. sr_labels x = l" by (cases xs) auto
  obtain r where "fold (merge_step ext antiAffinity dynamic preferMax) ss (Ret (Some (seriesToSampleStream ext s))) = Ret (Some r)"
    using merge_fold_same [OF xs(3), of "seriesToSampleStream ext s" ext antiAffinity dynamic preferMax] xs(2) by auto
  then show "\<exists>s. mergeAntiAffinity ext antiAffinity dynamic preferMax xs = Ret (Some s) \<and> sr_labels s = l"
    using xs(1,2) by (simp add: mergeAntiAffinity_def sampleStreamToSeries_def NewSeries_def)
qed

text \<open>A set whose series have distinct labels, which \<open>SortSeriesSet\<close> puts in strict label order.\<close>

definition labels_distinct :: "series_set \<Rightarrow> bool" where
  "labels_distinct ss \<longleftrightarrow> distinct (map sr_labels (ss_series ss))"

lemma sorted_set_SortSeriesSet:
  assumes "labels_distinct ss"
  shows "sorted_set (ss_series (SortSeriesSet ss))"
  using assms
  by (simp add: labels_distinct_def SortSeriesSet_def NewSeriesSet_def strict_sorted_iff distinct_map)

lemma series_of_Nil: "series_of [] = {#}"
  by (simp add: series_of_def)

lemma NewMergeSeriesSet_spec:
  assumes "vertical_merge mergeFunc" "length sets \<noteq> 1"
    and "\<forall>s\<in>set sets. ss_err s = None \<and> sorted_set (ss_series s)"
  shows "\<exists>out. NewMergeSeriesSet sets mergeFunc =
      Ret (NewSeriesSet out (fold (\<lambda>s w. MergeAnnotations w (ss_warnings s)) sets []) None) \<and>
    merge_of mergeFunc (series_of (map ss_series sets)) out"
proof -
  let ?xs = "filter (\<lambda>s. s \<noteq> []) (map ss_series sets)"
  let ?h = "fold (heap_Push (key_less set_key)) ?xs []"
  have perm: "mset ?h = mset ?xs" by (simp only: heap.mset_fold_push) simp
  have "sets_ok ?xs" using assms(3) by (auto simp: sets_ok_def)
  then have okh: "sets_ok ?h" using sets_ok_perm [OF perm] by blast
  have nil: "sets_ok []" by (simp add: sets_ok_def)
  have invh: "heap_inv ?h" by (rule heap.inv_fold_push) (simp add: heap_ok_def)
  have "\<exists>out. merge_sets_loop mergeFunc [] ?h = Ret out \<and> merge_of mergeFunc (series_of (map tl []) + series_of ?h) out"
    by (rule vertical_merge.merge_sets_loop_spec [OF assms(1) invh okh nil])
  then obtain out where out: "merge_sets_loop mergeFunc [] ?h = Ret out" "merge_of mergeFunc (series_of ?h) out"
    unfolding list.map(1) series_of_Nil add_0_left by blast
  have "series_of ?h = series_of (map ss_series sets)"
    using series_of_perm [OF perm] by (simp add: series_of_tails)
  moreover have "find (\<lambda>s. ss_err s \<noteq> None) sets = None" using assms(3) by (auto simp: find_None_iff)
  ultimately show ?thesis using out assms(2) by (auto simp: NewMergeSeriesSet_def)
qed

lemma SortSeriesSet_simps [simp]:
  "ss_err (SortSeriesSet s) = ss_err s" "ss_warnings (SortSeriesSet s) = ss_warnings s"
  "mset (ss_series (SortSeriesSet s)) = mset (ss_series s)"
  by (simp_all add: SortSeriesSet_def NewSeriesSet_def)

lemma series_of_SortSeriesSet:
  "series_of (map ss_series (map SortSeriesSet sets)) = series_of (map ss_series sets)"
  by (simp add: series_of_sum image_mset.compositionality comp_def)

lemma drop_ConsD: "drop n xs = y # ys \<Longrightarrow> n < length xs \<and> xs ! n = y \<and> drop (Suc n) xs = ys"
  by (metis Cons_nth_drop_Suc drop_all list.distinct(1) list.inject not_le)

section \<open>Cursors agree\<close>

text \<open>
  A cursor yields the series it was made of, in order, and then stays at the end;
  draining it is what every consumer of a \<open>storage.SeriesSet\<close> does.
\<close>

locale series_cursor =
  fixes start :: "series list \<Rightarrow> 's"
    and next_step :: "'s \<Rightarrow> bool \<times> 's"
    and at :: "'s \<Rightarrow> series outcome"
    and valid :: "'s \<Rightarrow> bool"
    and pending :: "'s \<Rightarrow> series list"
  assumes start_ok: "valid (start xs)" "pending (start xs) = xs"
    and next_end: "valid s \<Longrightarrow> pending s = [] \<Longrightarrow> fst (next_step s) = False"
    and next_more: "valid s \<Longrightarrow> pending s = x # xs \<Longrightarrow>
      \<exists>t. next_step s = (True, t) \<and> at t = Ret x \<and> valid t \<and> pending t = xs"
begin

lemma drain_pending: "valid s \<Longrightarrow> length (pending s) < n \<Longrightarrow> drain next_step at n s = Some (Ret (pending s))"
proof (induction n arbitrary: s)
  case (Suc n)
  show ?case
  proof (cases "pending s")
    case Nil
    then show ?thesis using next_end [OF Suc.prems(1)] by (auto split: prod.splits)
  next
    case (Cons x xs)
    then show ?thesis using next_more [OF Suc.prems(1) Cons] Suc by auto
  qed
qed simp

lemma drain_start: "length xs < n \<Longrightarrow> drain next_step at n (start xs) = Some (Ret xs)"
  using drain_pending [of "start xs" n] by (simp add: start_ok)

end

interpretation promapi_set: series_cursor promapi_NewSeriesSet promapi_Next promapi_At
  "\<lambda>s. - 1 \<le> pc_idx s" "\<lambda>s. drop (nat (pc_idx s + 1)) (pc_series s)"
proof unfold_locales
  fix s :: promapi_cursor and x xs
  assume "- 1 \<le> pc_idx s" "drop (nat (pc_idx s + 1)) (pc_series s) = x # xs"
  then show "\<exists>t. promapi_Next s = (True, t) \<and> promapi_At t = Ret x \<and> - 1 \<le> pc_idx t \<and>
      drop (nat (pc_idx t + 1)) (pc_series t) = xs"
    using drop_ConsD [of "nat (pc_idx s + 1)" "pc_series s" x xs]
    by (auto simp: promapi_Next_def promapi_At_def Let_def Suc_nat_eq_nat_zadd1)
qed (auto simp: promapi_NewSeriesSet_def promapi_Next_def)

interpretation proxyquerier_set: series_cursor proxyquerier_NewSeriesSet proxyquerier_Next proxyquerier_At
  "\<lambda>s. 0 \<le> qc_offset s" "\<lambda>s. drop (nat (qc_offset s)) (qc_series s)"
proof unfold_locales
  fix s :: proxyquerier_cursor and x xs
  assume "0 \<le> qc_offset s" "drop (nat (qc_offset s)) (qc_series s) = x # xs"
  then show "\<exists>t. proxyquerier_Next s = (True, t) \<and> proxyquerier_At t = Ret x \<and> 0 \<le> qc_offset t \<and>
      drop (nat (qc_offset t)) (qc_series t) = xs"
    using drop_ConsD [of "nat (qc_offset s)" "qc_series s" x xs]
    by (auto simp: proxyquerier_Next_def proxyquerier_At_def Let_def Suc_nat_eq_nat_zadd1 add.commute)
qed (auto simp: proxyquerier_NewSeriesSet_def proxyquerier_Next_def)

section \<open>Round trips\<close>

lemma histogram_round_trip: "sampleHistogramToFloatHistogram (floatHistogramToSampleHistogram ext fh) = fh"
  by (cases fh) (simp_all add: sampleHistogramToFloatHistogram_def floatHistogramToSampleHistogram_def
      pinFloatHistogram_def pinnedFloatHistogram_def)

lemma concat_if_filter: "concat (map (\<lambda>p. if P p then [f p] else []) xs) = map f (filter P xs)"
  by (induction xs) auto

lemma sort_key_partition:
  assumes "sorted_wrt (\<lambda>x y. f x < f y) xs"
  shows "sort_key f (filter P xs @ filter (\<lambda>x. \<not> P x) xs) = xs"
proof (rule strict_sorted_set_unique [where f = f])
  have "distinct (map f (filter P xs @ filter (\<lambda>x. \<not> P x) xs))"
    using strict_sorted_distinct [OF assms] by (auto simp: distinct_map inj_on_def)
  then show "sorted_wrt (\<lambda>x y. f x < f y) (sort_key f (filter P xs @ filter (\<lambda>x. \<not> P x) xs))"
    by (rule strict_sort_key)
qed (use assms in auto)

lemma sample_eta:
  "is_FloatSample p \<Longrightarrow> FloatSample (sample_T p) (sample_F p) = p"
  "\<not> is_FloatSample p \<Longrightarrow> HistogramSample (sample_T p) (sample_FH p) = p"
  by (cases p; simp)+

lemma map_float_eta: "map (\<lambda>p. FloatSample (sample_T p) (sample_F p)) (filter is_FloatSample ps) = filter is_FloatSample ps"
  by (induction ps) (auto simp: sample_eta)

lemma map_hist_eta:
  "map (\<lambda>p. HistogramSample (sample_T p) (sample_FH p)) (filter (\<lambda>p. \<not> is_FloatSample p) ps) = filter (\<lambda>p. \<not> is_FloatSample p) ps"
  by (induction ps) (auto simp: sample_eta)

lemma stream_round_trip:
  assumes "sorted_wrt (\<lambda>x y. sample_T x < sample_T y) (sr_samples s)"
  shows "sampleStreamToSeries (seriesToSampleStream ext s) (sr_labels s) = NewSeries (sr_labels s) (sr_samples s)"
  using sort_key_partition [OF assms, of is_FloatSample]
  by (simp add: sampleStreamToSeries_def seriesToSampleStream_eq concat_if_filter comp_def
      histogram_round_trip map_float_eta map_hist_eta)

lemma CutPrefix_None: "CutPrefix s p = None \<longleftrightarrow> \<not> HasPrefix s p"
  by (simp add: CutPrefix_def)

lemma toAnnotationError_cases:
  "toAnnotationError str =
     (if HasPrefix (strip_pos_suffix str) ''PromQL warning: ''
      then FmtWrap (strip_pos_suffix str) PromQLWarning
      else if HasPrefix (strip_pos_suffix str) ''PromQL info: ''
      then FmtWrap (strip_pos_suffix str) PromQLInfo
      else OtherError (strip_pos_suffix str))"
  by (auto simp: toAnnotationError_def Let_def CutPrefix_Some_iff CutPrefix_None Errorf_w_s_def HasPrefix_iff
      split: option.splits)

lemma heap_up_equal: "\<forall>a\<in>set xs. \<forall>b\<in>set xs. \<not> lt a b \<Longrightarrow> j < length xs \<Longrightarrow> heap_up lt xs j = xs"
proof -
  assume eq: "\<forall>a\<in>set xs. \<forall>b\<in>set xs. \<not> lt a b" and j: "j < length xs"
  have "(j - 1) div 2 < length xs" using j by linarith
  then show ?thesis using eq j by (subst heap_up.simps) (auto simp: Let_def)
qed

lemma heap_down_equal:
  "\<forall>a\<in>set xs. \<forall>b\<in>set xs. \<not> lt a b \<Longrightarrow> n \<le> length xs \<Longrightarrow> heap_down lt xs i n = xs"
  by (subst heap_down.simps) (auto simp: Let_def)

lemma pop_equal_three:
  assumes "set_key p = l" "set_key q = l" "set_key r = l"
  shows "pop_equal l [p, q, r] = ([p, r, q], [])"
proof -
  have "heap_Pop (key_less set_key) [p, q, r] = (p, [r, q])" "heap_Pop (key_less set_key) [r, q] = (r, [q])"
    "heap_Pop (key_less set_key) [q] = (q, [])"
    using assms by (simp_all add: heap_Pop_def swap_def heap_down_equal)
  then show ?thesis
    using assms by (simp add: pop_equal.simps [of l "[p, q, r]"] pop_equal.simps [of l "[r, q]"]
        pop_equal.simps [of l "[q]"] pop_equal.simps [of l "[]"])
qed

section \<open>The merged sets, declaratively\<close>

text \<open>
  The merge of the members' series for one label set in terms of the declarative merge of
  \<open>Promxy_Merge\<close>: the series one after the other, each with the buffer of the two streams.
\<close>

definition ha_streams :: "int \<Rightarrow> bool \<Rightarrow> stream \<Rightarrow> stream \<Rightarrow> stream" where
  "ha_streams buf dynamic a b =
     \<lparr>Metric = Metric a, Values = ha_merge (effective_buffer buf dynamic a b) (Values a) (Values b),
      Histograms = ha_merge (effective_buffer buf dynamic a b) (Histograms a) (Histograms b)\<rparr>"

definition ha_series :: "externals \<Rightarrow> int \<Rightarrow> bool \<Rightarrow> series list \<Rightarrow> series" where
  "ha_series ext buf dynamic xs =
     sampleStreamToSeries (foldl (ha_streams buf dynamic) (seriesToSampleStream ext (hd xs)) (map (seriesToSampleStream ext) (tl xs)))
       (sr_labels (hd xs))"

lemma ha_streams_ok:
  assumes "stream_ok a" "stream_ok b" "buf_ok buf"
  shows "stream_ok (ha_streams buf dynamic a b)"
  using assms effective_buffer_ok [OF assms(3,1,2), of dynamic]
  by (simp add: stream_ok_def ha_streams_def ha_merge_ok buf_ok_def)

lemma MergeSampleStream_ha_streams:
  assumes "Metric a = Metric b" "stream_ok a" "stream_ok b" "buf_ok buf"
  shows "MergeSampleStream buf dynamic a b False = Inr (ha_streams buf dynamic a b)"
  using MergeSampleStream_unfold [of a b buf dynamic False] effective_buffer_ok [OF assms(4,2,3), of dynamic] assms
  by (auto simp: stream_ok_def mergeHistogramSamples_ha_merge merge_floats_ha_merge ha_streams_def)

lemma merge_fold_ha_streams:
  assumes "buf_ok buf" "stream_ok a" "Metric a = labelsToMetric l"
    and "\<forall>s\<in>set ss. sr_labels s = l \<and> stream_ok (seriesToSampleStream ext s)"
  shows "fold (merge_step ext buf dynamic False) ss (Ret (Some a)) = Ret (Some (foldl (ha_streams buf dynamic) a (map (seriesToSampleStream ext) ss)))"
  using assms
proof (induction ss arbitrary: a)
  case (Cons s ss)
  let ?b = "seriesToSampleStream ext s"
  have "MergeSampleStream buf dynamic a ?b False = Inr (ha_streams buf dynamic a ?b)"
    using Cons.prems by (intro MergeSampleStream_ha_streams) simp_all
  moreover have "stream_ok (ha_streams buf dynamic a ?b)" using Cons.prems by (intro ha_streams_ok) simp_all
  moreover have "Metric (ha_streams buf dynamic a ?b) = labelsToMetric l" using Cons.prems by (simp add: ha_streams_def)
  ultimately show ?case using Cons.IH [of "ha_streams buf dynamic a ?b"] Cons.prems by (simp add: merge_step_def)
qed simp

lemma mergeAntiAffinity_ha_series:
  assumes "buf_ok buf" "xs \<noteq> []" "\<forall>x\<in>set xs. sr_labels x = l \<and> stream_ok (seriesToSampleStream ext x)"
  shows "mergeAntiAffinity ext buf dynamic False xs = Ret (Some (ha_series ext buf dynamic xs))"
proof (cases xs)
  case (Cons s ss)
  have "fold (merge_step ext buf dynamic False) ss (Ret (Some (seriesToSampleStream ext s))) =
      Ret (Some (foldl (ha_streams buf dynamic) (seriesToSampleStream ext s) (map (seriesToSampleStream ext) ss)))"
    using assms Cons by (intro merge_fold_ha_streams [where l = l]) simp_all
  with Cons show ?thesis by (simp add: mergeAntiAffinity_def ha_series_def)
qed (use assms in simp)

lemma merge_of_cong:
  assumes "merge_of f R out"
    and "\<And>xs l. xs \<noteq> [] \<Longrightarrow> set xs \<subseteq> set_mset R \<Longrightarrow> \<forall>x\<in>set xs. sr_labels x = l \<Longrightarrow> f xs = g xs"
  shows "merge_of g R out"
proof -
  have "f xs = g xs" if "s \<in> set out" "mset xs = filter_mset (\<lambda>x. sr_labels x = sr_labels s) R" for s xs
  proof (rule assms(2))
    have set: "set xs = {x. x \<in># R \<and> sr_labels x = sr_labels s}" using arg_cong [OF that(2), of set_mset] by simp
    then show "set xs \<subseteq> set_mset R" "\<forall>x\<in>set xs. sr_labels x = sr_labels s" by auto
    have "sr_labels s \<in> sr_labels ` set_mset R" using assms(1) that(1) by (auto simp: merge_of_def)
    with set show "xs \<noteq> []" by fastforce
  qed
  with assms(1) show ?thesis unfolding merge_of_def merged_from_def by metis
qed

lemma MergeSeriesSets_merge_of:
  assumes "2 \<le> length sets" "\<forall>s\<in>set sets. ss_err s = None \<and> labels_distinct s"
  shows "\<exists>out w. MergeSeriesSets ext antiAffinity dynamic preferMax sets = Ret (NewSeriesSet out w None) \<and>
    merge_of (mergeAntiAffinity ext antiAffinity dynamic preferMax) (series_of (map ss_series sets)) out"
proof -
  have "length (map SortSeriesSet sets) \<noteq> 1" "sets \<noteq> []" using assms(1) by auto
  moreover have "\<forall>s\<in>set (map SortSeriesSet sets). ss_err s = None \<and> sorted_set (ss_series s)"
    using assms(2) sorted_set_SortSeriesSet by simp
  ultimately show ?thesis
    using NewMergeSeriesSet_spec [OF anti_affinity.vertical_merge_axioms, of "map SortSeriesSet sets" ext antiAffinity dynamic preferMax]
      series_of_SortSeriesSet [of sets]
    by (auto simp: MergeSeriesSets_def)
qed

lemma set_series_of: "set_mset (series_of (map ss_series sets)) = (\<Union>s\<in>set sets. set (ss_series s))"
  by (induction sets) (auto simp: series_of_def)

section \<open>Properties\<close>

text \<open>
  C4. Merging the series sets of two or more HA members, without \<open>preferMax\<close>: when no member failed and each names a
  series once, with its samples in time order, the merge returns (no panic, no error) exactly one series per label set
  of any member, in label order, and each is the declarative anti-affinity merge of exactly the members' series with
  these labels, taken one after the other, or the one there is. The set of a lone member is returned as it is, not even
  sorted, with or without \<open>preferMax\<close>.
\<close>

theorem MergeSeriesSets_correct:
  assumes "2 \<le> length sets" "\<forall>s\<in>set sets. ss_err s = None \<and> labels_distinct s" "buf_ok antiAffinity"
    and "\<forall>s\<in>set sets. \<forall>x\<in>set (ss_series s). stream_ok (seriesToSampleStream ext x)"
  shows "\<exists>out w. MergeSeriesSets ext antiAffinity dynamic False sets = Ret (NewSeriesSet out w None) \<and>
    merge_of (\<lambda>xs. Ret (Some (ha_series ext antiAffinity dynamic xs))) (series_of (map ss_series sets)) out \<and>
    (\<forall>single preferMax. MergeSeriesSets ext antiAffinity dynamic preferMax [single] = Ret single)"
proof -
  obtain out w where out: "MergeSeriesSets ext antiAffinity dynamic False sets = Ret (NewSeriesSet out w None)"
    "merge_of (mergeAntiAffinity ext antiAffinity dynamic False) (series_of (map ss_series sets)) out"
    using MergeSeriesSets_merge_of [OF assms(1,2)] by blast
  have "merge_of (\<lambda>xs. Ret (Some (ha_series ext antiAffinity dynamic xs))) (series_of (map ss_series sets)) out"
    by (rule merge_of_cong [OF out(2)], rule mergeAntiAffinity_ha_series [OF assms(3)])
       (use assms(4) in \<open>auto simp: set_series_of\<close>)
  moreover have "MergeSeriesSets ext antiAffinity dynamic preferMax [single] = Ret single" for single preferMax
    by (simp add: MergeSeriesSets_def)
  ultimately show ?thesis using out(1) by blast
qed

definition example_ext :: externals where
  "example_ext = \<lparr>ext_AllBuckets = \<lambda>_. [], ext_Unmarshal = \<lambda>_. None, ext_LabelString = concat \<circ> map (\<lambda>(n, v). n @ ''='' @ v @ '',''),
     ext_RegexOk = \<lambda>_. True, ext_MatchString = (=), ext_SetMatches = \<lambda>p. [p]\<rparr>"

definition example_set :: "string \<Rightarrow> int \<Rightarrow> series_set" where
  "example_set v t = NewSeriesSet [NewSeries [(''job'', v)] [FloatSample t 1]] [] None"

theorem MergeSeriesSets_correct_witness:
  "\<exists>out w. MergeSeriesSets example_ext 5 False False [example_set ''b'' 10, example_set ''a'' 20, example_set ''b'' 30]
       = Ret (NewSeriesSet out w None) \<and>
    merge_of (\<lambda>xs. Ret (Some (ha_series example_ext 5 False xs)))
      (series_of (map ss_series [example_set ''b'' 10, example_set ''a'' 20, example_set ''b'' 30])) out \<and>
    (\<forall>single preferMax. MergeSeriesSets example_ext 5 False preferMax [single] = Ret single)"
  by (rule MergeSeriesSets_correct)
     (simp_all add: example_set_def NewSeriesSet_def labels_distinct_def buf_ok_def seriesToSampleStream_eq NewSeries_def stream_ok_def ts_ok_def)

text \<open>
  With three members that all have one series with the same labels, the merge function
  receives the series of the third member before that of the second one: the heap's order,
  not the order of the members.
\<close>

lemma NewMergeSeriesSet_three_order:
  assumes "ss_series a = [x]" "ss_series b = [y]" "ss_series c = [z]"
    and "sr_labels y = sr_labels x" "sr_labels z = sr_labels x"
    and "ss_err a = None" "ss_err b = None" "ss_err c = None" "f [x, z, y] = Ret (Some w)"
  shows "\<exists>ws. NewMergeSeriesSet [a, b, c] f = Ret (NewSeriesSet [w] ws None)"
proof -
  let ?key = "key_less set_key"
  have key: "set_key [x] = sr_labels x" "set_key [y] = sr_labels x" "set_key [z] = sr_labels x"
    using assms(4,5) by (simp_all add: set_key_def)
  have "heap_Push ?key [z] (heap_Push ?key [y] (heap_Push ?key [x] [])) = [[x], [y], [z]]"
    using key by (simp add: heap_Push_def heap_up_equal)
  moreover have "merge_sets_loop f [[x], [z], [y]] [] = Ret []"
    by (simp add: merge_sets_loop.simps advance_current_def)
  then have "merge_sets_loop f [] [[x], [y], [z]] = Ret [w]"
    using pop_equal_three [OF key] key assms(9)
    by (simp add: merge_sets_loop.simps [of f "[]" "[[x], [y], [z]]"] advance_current_def merged_At_def)
  ultimately show ?thesis using assms(1-3,6-8) by (simp add: NewMergeSeriesSet_def NewSeriesSet_def)
qed

text \<open>
  A series goes through its sample stream unchanged: with its samples in time order,
  floats and native histograms come back as they were, the histograms bit for bit through
  the pinned original.
\<close>

lemma series_stream_round_trip:
  assumes "sorted_wrt (\<lambda>x y. sample_T x < sample_T y) (sr_samples s)" "sr_iterErr s = None"
  shows "sampleStreamToSeries (seriesToSampleStream ext s) (sr_labels s) = s"
  using stream_round_trip [OF assms(1)] assms(2) by (simp add: NewSeries_def)

definition example_series :: series where
  "example_series = NewSeries [(''job'', ''a'')]
     [FloatSample 0 1, HistogramSample 10 (Some empty_float_histogram), FloatSample 20 2]"

text \<open>
  The two copies of the JSON histogram conversion agree only on histograms whose first
  bucket has no lower bound: the decoder's copy drops a finite first lower bound and shifts
  every bucket by one, although it is documented to give the identical result.
\<close>

lemma histogram_copies_agree_iff:
  assumes "sh_pinned s = None"
  shows "promapi_sampleHistogramToFloatHistogram (Some s) = sampleHistogramToFloatHistogram (Some s) \<longleftrightarrow>
    (\<forall>b bs. sh_Buckets s = b # bs \<longrightarrow> hb_Lower b = f64_neg_inf)"
  using assms
  by (cases "sh_Buckets s")
     (auto simp: promapi_sampleHistogramToFloatHistogram_def sampleHistogramToFloatHistogram_def
        pinnedFloatHistogram_def empty_float_histogram_def Let_def)

definition example_histogram :: sample_histogram where
  "example_histogram = \<lparr>sh_Count = 1, sh_Sum = 1,
     sh_Buckets = [\<lparr>hb_Boundaries = 0, hb_Lower = 1, hb_Upper = 2, hb_Count = 1\<rparr>], sh_pinned = None\<rparr>"

text \<open>
  Both in-memory series sets, \<open>promapi\<close>'s and \<open>proxyquerier\<close>'s, yield exactly the series
  they were built from to the loop over \<open>Next\<close> and \<open>At\<close>, which ends and never reads out of range.
\<close>

lemma cursors_yield_series:
  assumes "length xs < n"
  shows "drain promapi_Next promapi_At n (promapi_NewSeriesSet xs) = Some (Ret xs) \<and>
    drain proxyquerier_Next proxyquerier_At n (proxyquerier_NewSeriesSet xs) = Some (Ret xs)"
  using promapi_set.drain_start [OF assms] proxyquerier_set.drain_start [OF assms] by simp

text \<open>
  A downstream's warning string becomes an annotation with the same text, less the
  position suffix, that is classified as info exactly when it starts with the info prefix
  and as a warning exactly when it starts with the warning prefix.
\<close>

lemma toAnnotationError_classifies:
  "error_string (toAnnotationError str) = strip_pos_suffix str \<and>
   (errors_Is (toAnnotationError str) PromQLInfo \<longleftrightarrow> HasPrefix (strip_pos_suffix str) ''PromQL info: '') \<and>
   (errors_Is (toAnnotationError str) PromQLWarning \<longleftrightarrow> HasPrefix (strip_pos_suffix str) ''PromQL warning: '')"
proof -
  have "\<not> HasPrefix s ''PromQL warning: '' \<or> \<not> HasPrefix s ''PromQL info: ''" for s
    by (auto simp: HasPrefix_iff)
  then show ?thesis by (auto simp: toAnnotationError_cases errors_Is_def)
qed

end
