(* ===== verification/Promxy_Api.thy ===== *)
theory Promxy_Api
  imports Promxy_SeriesSet
begin

text \<open>
  The \<open>API\<close> interface of \<open>src/pkg/promclient/interface.go\<close> as a record of functions, and the
  wrappers that change only errors, times or timestamps: \<open>ErrorWrap\<close>, \<open>IgnoreErrorAPI\<close>,
  \<open>DowngradeErrorAPI\<close>, \<open>recoverAPI\<close>, \<open>TimeTruncate\<close> and \<open>StepAlignClient\<close>. A method
  returns its Go results or panics; contexts are not part of the record.
\<close>

section \<open>The interface\<close>

datatype match_type = MatchEqual | MatchNotEqual | MatchRegexp | MatchNotRegexp

text \<open>
  \<open>labels.Matcher\<close>. The compiled expression is not exported: a matcher that was not made by
  \<open>NewMatcher\<close> has none (\<open>m_compiled = False\<close>).
\<close>

record matcher =
  m_Type :: match_type
  m_Name :: string
  m_Value :: string
  m_compiled :: bool

record range =
  rg_Start :: time
  rg_End :: time
  rg_Step :: duration

record metadata =
  md_Type :: string
  md_Help :: string
  md_Unit :: string

record exemplar =
  ex_Labels :: labelset
  ex_Value :: f64
  ex_Timestamp :: int

record exemplar_result =
  er_SeriesLabels :: labelset
  er_Exemplars :: "exemplar list"

type_synonym warnings = "string list"

text \<open>
  \<open>api_Key\<close> is \<open>None\<close> for an API without a \<open>Key\<close> method and \<open>Some None\<close> when \<open>Key\<close> returns nil;
  a nil slice of label values and a nil metadata map are \<open>None\<close>.
\<close>

record api =
  LabelNames :: "string list \<Rightarrow> time \<Rightarrow> time \<Rightarrow> (string list \<times> warnings \<times> go_error option) outcome"
  LabelValues :: "string \<Rightarrow> string list \<Rightarrow> time \<Rightarrow> time \<Rightarrow>
    (string list option \<times> warnings \<times> go_error option) outcome"
  Query :: "string \<Rightarrow> time \<Rightarrow> series_set outcome"
  QueryRange :: "string \<Rightarrow> range \<Rightarrow> series_set outcome"
  Series :: "string list \<Rightarrow> time \<Rightarrow> time \<Rightarrow> (labelset list \<times> warnings \<times> go_error option) outcome"
  GetValue :: "time \<Rightarrow> time \<Rightarrow> matcher list \<Rightarrow> series_set outcome"
  Metadata :: "string \<Rightarrow> string \<Rightarrow> ((string, metadata list) smap option \<times> go_error option) outcome"
  QueryExemplars :: "string \<Rightarrow> time \<Rightarrow> time \<Rightarrow> (exemplar_result list \<times> go_error option) outcome"
  api_Key :: "labelset option option"

text \<open>The key that \<open>NewMultiAPI\<close> sees through the type assertion to \<open>APILabels\<close>.\<close>

definition labels_key :: "api \<Rightarrow> labelset option" where
  "labels_key a = (case api_Key a of Some k \<Rightarrow> k | None \<Rightarrow> None)"

definition omap :: "('a \<Rightarrow> 'b) \<Rightarrow> 'a outcome \<Rightarrow> 'b outcome" where
  "omap f x = obind x (\<lambda>a. Ret (f a))"

lemma omap_simps [simp]: "omap f (Ret x) = Ret (f x)" "omap f (Panic p) = Panic p"
  by (simp_all add: omap_def)

section \<open>ErrorWrap\<close>

definition wrap :: "string \<Rightarrow> go_error option \<Rightarrow> go_error option" where
  "wrap msg err = (if err \<noteq> None then errors_Wrap err msg else None)"

text \<open>It implements no \<open>Key\<close>, so that the targets of a server group share one bucket.\<close>

definition ErrorWrap :: "api \<Rightarrow> string \<Rightarrow> api" where
  "ErrorWrap a msg = \<lparr>
     LabelNames = \<lambda>ms s e. omap (\<lambda>(v, w, err). (v, w, wrap msg err)) (LabelNames a ms s e),
     LabelValues = \<lambda>l ms s e. omap (\<lambda>(v, w, err). (v, w, wrap msg err)) (LabelValues a l ms s e),
     Query = \<lambda>q t. omap (\<lambda>ss. MapErrSeriesSet ss (wrap msg)) (Query a q t),
     QueryRange = \<lambda>q r. omap (\<lambda>ss. MapErrSeriesSet ss (wrap msg)) (QueryRange a q r),
     Series = \<lambda>ms s e. omap (\<lambda>(v, w, err). (v, w, wrap msg err)) (Series a ms s e),
     GetValue = \<lambda>s e ms. omap (\<lambda>ss. MapErrSeriesSet ss (wrap msg)) (GetValue a s e ms),
     Metadata = \<lambda>m l. omap (\<lambda>(v, err). (v, wrap msg err)) (Metadata a m l),
     QueryExemplars = \<lambda>q s e. omap (\<lambda>(v, err). (v, wrap msg err)) (QueryExemplars a q s e),
     api_Key = None\<rparr>"

section \<open>IgnoreErrorAPI\<close>

definition clearErr :: "go_error option \<Rightarrow> go_error option" where
  "clearErr err = None"

definition IgnoreErrorAPI :: "api \<Rightarrow> api" where
  "IgnoreErrorAPI a = \<lparr>
     LabelNames = \<lambda>ms s e. omap (\<lambda>(v, w, _). (v, w, None)) (LabelNames a ms s e),
     LabelValues = \<lambda>l ms s e. omap (\<lambda>(v, w, _). (v, w, None)) (LabelValues a l ms s e),
     Query = \<lambda>q t. omap (\<lambda>ss. MapErrSeriesSet ss clearErr) (Query a q t),
     QueryRange = \<lambda>q r. omap (\<lambda>ss. MapErrSeriesSet ss clearErr) (QueryRange a q r),
     Series = \<lambda>ms s e. omap (\<lambda>(v, w, _). (v, w, None)) (Series a ms s e),
     GetValue = \<lambda>s e ms. omap (\<lambda>ss. MapErrSeriesSet ss clearErr) (GetValue a s e ms),
     Metadata = \<lambda>m l. omap (\<lambda>(v, _). (v, None)) (Metadata a m l),
     QueryExemplars = \<lambda>q s e. omap (\<lambda>(v, _). (v, None)) (QueryExemplars a q s e),
     api_Key = Some (labels_key a)\<rparr>"

section \<open>DowngradeErrorAPI\<close>

definition downgrade :: "'v \<times> warnings \<times> go_error option \<Rightarrow> 'v \<times> warnings \<times> go_error option" where
  "downgrade r = (case r of (v, w, err) \<Rightarrow>
     (v, (case err of Some e \<Rightarrow> w @ [error_string e] | None \<Rightarrow> w), None))"

definition DowngradeErrorAPI :: "api \<Rightarrow> api" where
  "DowngradeErrorAPI a = \<lparr>
     LabelNames = \<lambda>ms s e. omap downgrade (LabelNames a ms s e),
     LabelValues = \<lambda>l ms s e. omap downgrade (LabelValues a l ms s e),
     Query = \<lambda>q t. omap DowngradeErrSeriesSet (Query a q t),
     QueryRange = \<lambda>q r. omap DowngradeErrSeriesSet (QueryRange a q r),
     Series = \<lambda>ms s e. omap downgrade (Series a ms s e),
     GetValue = \<lambda>s e ms. omap DowngradeErrSeriesSet (GetValue a s e ms),
     Metadata = \<lambda>m l. omap (\<lambda>(v, _). (v, None)) (Metadata a m l),
     QueryExemplars = \<lambda>q s e. omap (\<lambda>(v, _). (v, None)) (QueryExemplars a q s e),
     api_Key = Some (labels_key a)\<rparr>"

section \<open>recoverAPI\<close>

text \<open>A deferred \<open>recover\<close>: the named results keep their zero values and the panic becomes the error.\<close>

definition recovered :: "(go_error \<Rightarrow> 'a) \<Rightarrow> 'a outcome \<Rightarrow> 'a outcome" where
  "recovered f x = (case x of Ret a \<Rightarrow> Ret a | Panic p \<Rightarrow> Ret (f (OtherError p)))"

definition recoverAPI :: "api \<Rightarrow> api" where
  "recoverAPI a = \<lparr>
     LabelNames = \<lambda>ms s e. recovered (\<lambda>err. ([], [], Some err)) (LabelNames a ms s e),
     LabelValues = \<lambda>l ms s e. recovered (\<lambda>err. (None, [], Some err)) (LabelValues a l ms s e),
     Query = \<lambda>q t. recovered ErrSeriesSet (Query a q t),
     QueryRange = \<lambda>q r. recovered ErrSeriesSet (QueryRange a q r),
     Series = \<lambda>ms s e. recovered (\<lambda>err. ([], [], Some err)) (Series a ms s e),
     GetValue = \<lambda>s e ms. recovered ErrSeriesSet (GetValue a s e ms),
     Metadata = \<lambda>m l. recovered (\<lambda>err. (None, Some err)) (Metadata a m l),
     QueryExemplars = \<lambda>q s e. recovered (\<lambda>err. ([], Some err)) (QueryExemplars a q s e),
     api_Key = None\<rparr>"

section \<open>TimeTruncate\<close>

definition truncateDuration :: duration where
  "truncateDuration = 1000000"

text \<open>
  \<open>LabelNames\<close>, \<open>LabelValues\<close> and \<open>Metadata\<close> are the embedded API's. The embedded interface is
  \<open>API\<close>, which has no \<open>Key\<close>.
\<close>

definition TimeTruncate :: "api \<Rightarrow> api" where
  "TimeTruncate a = a\<lparr>
     Query := \<lambda>q ts. Query a q (time_Truncate ts truncateDuration),
     QueryRange := \<lambda>q r. QueryRange a q \<lparr>rg_Start = time_Truncate (rg_Start r) truncateDuration,
        rg_End = time_Truncate (rg_End r) truncateDuration, rg_Step = rg_Step r\<rparr>,
     Series := \<lambda>ms s e. Series a ms (time_Truncate s truncateDuration) (time_Truncate e truncateDuration),
     GetValue := \<lambda>s e ms. GetValue a (time_Truncate s truncateDuration) (time_Truncate e truncateDuration) ms,
     QueryExemplars := \<lambda>q s e. QueryExemplars a q (time_Truncate s truncateDuration) (time_Truncate e truncateDuration),
     api_Key := None\<rparr>"

section \<open>StepAlignClient\<close>

fun shift_sample :: "int \<Rightarrow> sample \<Rightarrow> sample" where
  "shift_sample shift (FloatSample t v) = FloatSample (i64 (t + shift)) v"
| "shift_sample shift (HistogramSample t fh) = HistogramSample (i64 (t + shift)) fh"

definition timeShiftSeries :: "int \<Rightarrow> series \<Rightarrow> series" where
  "timeShiftSeries shift s = s\<lparr>sr_samples := map (shift_sample shift) (sr_samples s)\<rparr>"

definition timeShiftSeriesSet :: "int \<Rightarrow> series_set \<Rightarrow> series_set" where
  "timeShiftSeriesSet shift ss = ss\<lparr>ss_series := map (timeShiftSeries shift) (ss_series ss)\<rparr>"

text \<open>\<open>Duration.Milliseconds\<close> and \<open>Time.UnixMilli\<close>; Go's \<open>%\<close> takes the sign of the dividend.\<close>

definition Milliseconds :: "duration \<Rightarrow> int" where
  "Milliseconds d = d sdiv 1000000"

definition step_shift :: "int \<Rightarrow> int \<Rightarrow> int" where
  "step_shift startMs stepMs = ((startMs smod stepMs) + stepMs) smod stepMs"

definition StepAlign_QueryRange :: "api \<Rightarrow> string \<Rightarrow> range \<Rightarrow> series_set outcome" where
  "StepAlign_QueryRange a q r =
     omap (\<lambda>ss.
       if rg_Step r \<le> 0 then ss
       else (let stepMs = Milliseconds (rg_Step r)
             in if stepMs \<le> 0 then ss
                else (let shift = step_shift (FromTime (rg_Start r)) stepMs
                      in if shift = 0 then ss else timeShiftSeriesSet shift ss)))
       (QueryRange a q r)"

definition StepAlignClient :: "api \<Rightarrow> api" where
  "StepAlignClient a = a\<lparr>QueryRange := StepAlign_QueryRange a, api_Key := None\<rparr>"

text \<open>The iterator over a shifted series: \<open>Seek\<close> on the source, by position in its samples.\<close>

fun seek :: "sample list \<Rightarrow> int \<Rightarrow> sample list" where
  "seek [] t = []"
| "seek (p # ps) t = (if sample_T p \<ge> t then p # ps else seek ps t)"

definition timeShift_Seek :: "int \<Rightarrow> sample list \<Rightarrow> int \<Rightarrow> sample list" where
  "timeShift_Seek shift src t = map (shift_sample shift) (seek src (i64 (t - shift)))"

section \<open>Lemmas\<close>

lemma smod_pos: "0 \<le> k \<Longrightarrow> 0 < l \<Longrightarrow> k smod l = k mod (l::int)"
  by (simp add: signed_modulo_int_def sgn_if)

lemma step_shift_eq:
  assumes "0 < stepMs"
  shows "step_shift startMs stepMs = startMs mod stepMs"
proof (cases "0 \<le> startMs")
  case True
  with assms show ?thesis by (simp add: step_shift_def smod_pos)
next
  case False
  then have "startMs smod stepMs = - ((- startMs) mod stepMs)"
    using assms by (simp add: signed_modulo_int_def sgn_if)
  moreover have "0 \<le> stepMs - (- startMs) mod stepMs"
    using pos_mod_bound [OF assms, of "- startMs"] by simp
  moreover have "(stepMs - (- startMs) mod stepMs) mod stepMs = startMs mod stepMs"
    by (metis add_uminus_conv_diff minus_minus mod_add_self1 mod_diff_right_eq diff_0 mod_minus_eq uminus_add_conv_diff)
  ultimately show ?thesis using assms by (simp add: step_shift_def smod_pos)
qed

lemma shift_sample_T [simp]: "sample_T (shift_sample d p) = i64 (sample_T p + d)"
  by (cases p) auto

lemma seek_shift:
  assumes "\<forall>p\<in>set ps. in_i64 (sample_T p + d)" "in_i64 (t - d)"
  shows "seek (map (shift_sample d) ps) t = map (shift_sample d) (seek ps (i64 (t - d)))"
  using assms by (induction ps) (auto simp: in_i64_def i64_id)

section \<open>Properties\<close>

text \<open>An API that answers every call with fixed results, for the witnesses.\<close>

definition const_api ::
  "string list \<times> warnings \<times> go_error option \<Rightarrow> string list option \<times> warnings \<times> go_error option \<Rightarrow>
   series_set \<Rightarrow> labelset list \<times> warnings \<times> go_error option \<Rightarrow>
   (string, metadata list) smap option \<times> go_error option \<Rightarrow> exemplar_result list \<times> go_error option \<Rightarrow>
   labelset option option \<Rightarrow> api"
where
  "const_api names values ss lsets md exs key = \<lparr>
     LabelNames = \<lambda>_ _ _. Ret names, LabelValues = \<lambda>_ _ _ _. Ret values,
     Query = \<lambda>_ _. Ret ss, QueryRange = \<lambda>_ _. Ret ss, Series = \<lambda>_ _ _. Ret lsets,
     GetValue = \<lambda>_ _ _. Ret ss, Metadata = \<lambda>_ _. Ret md, QueryExemplars = \<lambda>_ _ _. Ret exs,
     api_Key = key\<rparr>"

definition set_api :: "series_set \<Rightarrow> api" where
  "set_api ss = const_api ([], [], None) (None, [], None) ss ([], [], None) (None, None) ([], None) None"

text \<open>
  C29. Step alignment: for a step of at least a millisecond, every sample is moved forward by
  one and the same amount, less than one step, and a sample that a step-aligning backend
  returned at a multiple of the step lands on the request's own grid \<open>start + j * step\<close>.
\<close>

theorem StepAlign_on_grid:
  assumes "QueryRange a q r = Ret ss" "nanos_per_milli \<le> rg_Step r" "in_i64 (rg_Start r div nanos_per_milli)"
  shows "\<exists>shift. 0 \<le> shift \<and> shift < Milliseconds (rg_Step r) \<and>
    QueryRange (StepAlignClient a) q r = Ret (if shift = 0 then ss else timeShiftSeriesSet shift ss) \<and>
    (\<forall>t. t mod Milliseconds (rg_Step r) = 0 \<longrightarrow>
       (t + shift - rg_Start r div nanos_per_milli) mod Milliseconds (rg_Step r) = 0)"
proof -
  let ?step = "Milliseconds (rg_Step r)" and ?start = "rg_Start r div nanos_per_milli"
  let ?shift = "step_shift (FromTime (rg_Start r)) ?step"
  have step: "0 < ?step" "0 < rg_Step r"
    using assms(2) by (auto simp: Milliseconds_def nanos_per_milli_def signed_divide_int_def sgn_if zdiv_mono1 [of 1000000 _ 1000000, simplified])
  have "FromTime (rg_Start r) = ?start" using assms(3) by (simp add: FromTime_def in_i64_def i64_id)
  then have shift: "?shift = ?start mod ?step" using step by (simp add: step_shift_eq)
  have "(t + ?start mod ?step - ?start) mod ?step = 0" if "t mod ?step = 0" for t
    using that by (metis add_diff_cancel_right' add_diff_eq diff_add_eq mod_0 mod_add_eq mod_diff_right_eq mod_mod_trivial add.right_neutral diff_self)
  moreover have "QueryRange (StepAlignClient a) q r = Ret (if ?shift = 0 then ss else timeShiftSeriesSet ?shift ss)"
    using assms(1) step by (simp add: StepAlignClient_def StepAlign_QueryRange_def Let_def)
  ultimately show ?thesis using shift step by (intro exI [of _ ?shift]) simp
qed

theorem StepAlign_on_grid_witness:
  "\<exists>shift. 0 \<le> shift \<and> shift < 15000 \<and>
    QueryRange (StepAlignClient (set_api EmptySeriesSet)) ''up'' \<lparr>rg_Start = 7000000000, rg_End = 0, rg_Step = 15000000000\<rparr> =
      Ret (if shift = 0 then EmptySeriesSet else timeShiftSeriesSet shift EmptySeriesSet) \<and>
    (\<forall>t. t mod 15000 = 0 \<longrightarrow> (t + shift - 7000) mod 15000 = 0)"
  using StepAlign_on_grid [of "set_api EmptySeriesSet" "''up''" "\<lparr>rg_Start = 7000000000, rg_End = 0, rg_Step = 15000000000\<rparr>" EmptySeriesSet]
  by (simp add: set_api_def const_api_def nanos_per_milli_def in_i64_def Milliseconds_def signed_divide_int_def)

text \<open>
  Seeking in a shifted series positions at the first sample whose shifted timestamp is
  not before the target: it is the shift of the seek on the source.
\<close>

lemma timeShift_Seek_correct:
  assumes "\<forall>p\<in>set ps. in_i64 (sample_T p + shift)" "in_i64 (t - shift)"
  shows "timeShift_Seek shift ps t = seek (sr_samples (timeShiftSeries shift \<lparr>sr_labels = l, sr_samples = ps, sr_iterErr = e\<rparr>)) t"
  using seek_shift [OF assms] by (simp add: timeShift_Seek_def timeShiftSeries_def)

end
