(* ===== verification/Promxy_MultiApi.thy ===== *)
theory Promxy_MultiApi
  imports Promxy_Api
begin

text \<open>
  \<open>MultiAPI\<close> of \<open>src/pkg/promclient/multi_api.go\<close>: every call is fanned out to all APIs, the
  replies are gathered as they arrive, at least \<open>requiredCount\<close> successes are required per
  bucket of APIs with the same key, and the successes are merged. The gathering loop is the
  same in every method and is one definition, \<open>gather\<close>, with what the method does on a reply
  and on a success as arguments. A schedule says in which order the replies arrive and after
  how many of them the request's context ends, if it does: the theorems hold for all of them.
\<close>

section \<open>Merging labels\<close>

definition MergeLabelValues :: "string list \<Rightarrow> string list \<Rightarrow> string list" where
  "MergeLabelValues a b =
     fst (foldl (\<lambda>(a, labels) item. if item \<in> labels then (a, labels) else (a @ [item], insert item labels))
            (a, set a) b)"

definition MergeLabelSets :: "labelset list \<Rightarrow> labelset list \<Rightarrow> labelset list" where
  "MergeLabelSets a b =
     fst (foldl (\<lambda>(a, added) item.
             let fp = labelSetToFingerprint item
             in if fp \<in> added then (a, added) else (a @ [item], insert fp added))
            (a, labelSetToFingerprint ` set a) b)"

section \<open>Construction\<close>

record multi_api =
  ma_apis :: "api list"
  ma_apiFingerprints :: "fingerprint list"
  ma_antiAffinity :: int
  ma_antiAffinityDynamic :: bool
  ma_requiredCount :: int
  ma_preferMax :: bool
  ma_metadataRotation :: "64 word"

definition api_fingerprint :: "api \<Rightarrow> fingerprint" where
  "api_fingerprint a = (case labels_key a of Some k \<Rightarrow> labelSetToFastFingerprint k | None \<Rightarrow> 0)"

definition NewMultiAPI :: "api list \<Rightarrow> int \<Rightarrow> bool \<Rightarrow> int \<Rightarrow> bool \<Rightarrow> go_error + multi_api" where
  "NewMultiAPI apis antiAffinity antiAffinityDynamic requiredCount preferMax =
     (let apiFingerprints = map api_fingerprint apis
      in if list_ex (\<lambda>fp. int (count_list apiFingerprints fp) < requiredCount) apiFingerprints
         then Inl (OtherError (''unable to create multiAPI as the APIs aren'' @ [CHR 0x27] @ ''t unique''))
         else Inr \<lparr>ma_apis = apis, ma_apiFingerprints = apiFingerprints,
                   ma_antiAffinity = antiAffinity, ma_antiAffinityDynamic = antiAffinityDynamic,
                   ma_requiredCount = requiredCount, ma_preferMax = preferMax, ma_metadataRotation = 0\<rparr>)"

definition NewMustMultiAPI :: "api list \<Rightarrow> int \<Rightarrow> bool \<Rightarrow> int \<Rightarrow> bool \<Rightarrow> multi_api outcome" where
  "NewMustMultiAPI apis antiAffinity antiAffinityDynamic requiredCount preferMax =
     (case NewMultiAPI apis antiAffinity antiAffinityDynamic requiredCount preferMax of
        Inl err \<Rightarrow> Panic (error_string err) | Inr m \<Rightarrow> Ret m)"

section \<open>Gathering the replies\<close>

record 'v chan_result =
  cr_i :: nat
  cr_v :: 'v
  cr_err :: "go_error option"
  cr_ls :: fingerprint

record 'acc gather_state =
  gs_outstanding :: "fingerprint \<Rightarrow> int"
  gs_success :: "fingerprint \<Rightarrow> int"
  gs_errs :: errorPicker
  gs_acc :: 'acc

text \<open>
  The loop ends with all replies in, with a bucket that can no longer reach the required
  count, or with the context done.
\<close>

datatype 'acc gathered =
    Finished "'acc gather_state"
  | Failed "'acc gather_state"
  | Cancelled go_error "'acc gather_state"

text \<open>The order of arrival, and the number of replies after which the context is done.\<close>

type_synonym schedule = "nat list \<times> (nat \<times> go_error) option"

definition arrivals :: "nat \<Rightarrow> nat list \<Rightarrow> nat list" where
  "arrivals n order = remdups (filter (\<lambda>i. i < n) order) @ filter (\<lambda>i. i \<notin> set order) [0..<n]"

fun ctx_tick :: "(nat \<times> go_error) option \<Rightarrow> (nat \<times> go_error) option" where
  "ctx_tick (Some (Suc k, e)) = Some (k, e)"
| "ctx_tick d = d"

definition count_reply :: "'v chan_result \<Rightarrow> 'acc gather_state \<Rightarrow> 'acc gather_state" where
  "count_reply ret st =
     st\<lparr>gs_outstanding := (gs_outstanding st)(cr_ls ret := gs_outstanding st (cr_ls ret) - 1)\<rparr>"

fun gather ::
  "int \<Rightarrow> ('v chan_result \<Rightarrow> 'acc \<Rightarrow> 'acc) \<Rightarrow> ('v chan_result \<Rightarrow> 'acc \<Rightarrow> 'acc) \<Rightarrow>
   (nat \<Rightarrow> 'v chan_result outcome) \<Rightarrow> nat list \<Rightarrow> (nat \<times> go_error) option \<Rightarrow> 'acc gather_state \<Rightarrow>
   'acc gathered outcome"
where
  "gather required on_reply on_success call [] ctx st = Ret (Finished st)"
| "gather required on_reply on_success call (i # is) ctx st =
     (case ctx of
        Some (0, e) \<Rightarrow> Ret (Cancelled e st)
      | _ \<Rightarrow>
          obind (call i) (\<lambda>ret.
            let st = count_reply ret (st\<lparr>gs_acc := on_reply ret (gs_acc st)\<rparr>)
            in case cr_err ret of
                 Some err \<Rightarrow>
                   (let st = st\<lparr>gs_errs := errorPicker_add (cr_i ret) err (gs_errs st)\<rparr>
                    in if gs_outstanding st (cr_ls ret) + gs_success st (cr_ls ret) < required
                       then Ret (Failed st)
                       else gather required on_reply on_success call is (ctx_tick ctx) st)
               | None \<Rightarrow>
                   gather required on_reply on_success call is (ctx_tick ctx)
                     (st\<lparr>gs_success := (gs_success st)(cr_ls ret := gs_success st (cr_ls ret) + 1),
                         gs_acc := on_success ret (gs_acc st)\<rparr>)))"

definition gather_init :: "multi_api \<Rightarrow> 'acc \<Rightarrow> 'acc gather_state" where
  "gather_init m acc =
     \<lparr>gs_outstanding = \<lambda>fp. int (count_list (ma_apiFingerprints m) fp), gs_success = \<lambda>_. 0,
      gs_errs = errorPicker_zero, gs_acc = acc\<rparr>"

text \<open>The verification after the loop: some bucket has fewer successes than required.\<close>

definition bucket_short :: "multi_api \<Rightarrow> 'acc gather_state \<Rightarrow> bool" where
  "bucket_short m st \<longleftrightarrow> list_ex (\<lambda>fp. gs_success st fp < ma_requiredCount m) (ma_apiFingerprints m)"

definition unable_to_fetch :: string where
  "unable_to_fetch = ''Unable to fetch from downstream servers''"

text \<open>The goroutine of one API: the call, and the result it sends.\<close>

definition call_api ::
  "externals \<Rightarrow> multi_api \<Rightarrow> (api \<Rightarrow> ('v \<times> go_error option) outcome) \<Rightarrow> nat \<Rightarrow> 'v chan_result outcome"
where
  "call_api ext m call i =
     omap (\<lambda>(v, err). \<lparr>cr_i = i, cr_v = v, cr_err = NormalizePromError (ext_Unmarshal ext) err,
                       cr_ls = ma_apiFingerprints m ! i\<rparr>) (call (ma_apis m ! i))"

text \<open>
  One fan-out: the calls run, the replies are gathered, and the method's results are built
  from the final state (\<open>ok\<close>) or from an error and the state (\<open>bad\<close>).
\<close>

definition fan_out ::
  "externals \<Rightarrow> multi_api \<Rightarrow> (api \<Rightarrow> ('v \<times> go_error option) outcome) \<Rightarrow>
   ('v chan_result \<Rightarrow> 'acc \<Rightarrow> 'acc) \<Rightarrow> ('v chan_result \<Rightarrow> 'acc \<Rightarrow> 'acc) \<Rightarrow> 'acc \<Rightarrow>
   ('acc \<Rightarrow> 'r outcome) \<Rightarrow> ('acc \<Rightarrow> go_error option \<Rightarrow> 'r) \<Rightarrow> schedule \<Rightarrow> 'r outcome"
where
  "fan_out ext m call on_reply on_success acc ok bad sched =
     obind (gather (ma_requiredCount m) on_reply on_success (call_api ext m call)
              (arrivals (length (ma_apis m)) (fst sched)) (snd sched) (gather_init m acc))
       (\<lambda>g. case g of
          Cancelled e st \<Rightarrow> Ret (bad (gs_acc st) (Some e))
        | Failed st \<Rightarrow> Ret (bad (gs_acc st) (ep_err (gs_errs st)))
        | Finished st \<Rightarrow>
            (if bucket_short m st
             then Ret (bad (gs_acc st) (errors_Wrap (ep_err (gs_errs st)) unable_to_fetch))
             else ok (gs_acc st)))"

section \<open>The methods\<close>

definition with_warnings ::
  "('v \<times> warnings \<times> go_error option) outcome \<Rightarrow> (('v \<times> warnings) \<times> go_error option) outcome"
where
  "with_warnings r = omap (\<lambda>(v, w, err). ((v, w), err)) r"

definition add_warnings :: "('v \<times> warnings) chan_result \<Rightarrow> 'a \<times> warning_set \<Rightarrow> 'a \<times> warning_set" where
  "add_warnings ret acc = (case acc of (r, w) \<Rightarrow> (r, AddWarnings (snd (cr_v ret)) w))"

subsection \<open>LabelValues\<close>

definition LabelValues_success ::
  "(string list option \<times> warnings) chan_result \<Rightarrow> string list option \<times> warning_set \<Rightarrow>
   string list option \<times> warning_set"
where
  "LabelValues_success ret acc =
     (case acc of
        (None, w) \<Rightarrow> (fst (cr_v ret), w)
      | (Some result, w) \<Rightarrow>
          (Some (MergeLabelValues result (case fst (cr_v ret) of Some v \<Rightarrow> v | None \<Rightarrow> [])), w))"

definition MultiAPI_LabelValues ::
  "externals \<Rightarrow> multi_api \<Rightarrow> string \<Rightarrow> string list \<Rightarrow> time \<Rightarrow> time \<Rightarrow> schedule \<Rightarrow>
   (string list option \<times> warnings \<times> go_error option) outcome"
where
  "MultiAPI_LabelValues ext m label matchers startTime endTime =
     fan_out ext m (\<lambda>a. with_warnings (LabelValues a label matchers startTime endTime))
       add_warnings LabelValues_success (None, [])
       (\<lambda>(result, w). Ret (map_option sort result, Warnings w, None))
       (\<lambda>(result, w) err. (None, Warnings w, err))"

subsection \<open>LabelNames\<close>

definition LabelNames_success ::
  "(string list \<times> warnings) chan_result \<Rightarrow> (string, unit) smap \<times> warning_set \<Rightarrow>
   (string, unit) smap \<times> warning_set"
where
  "LabelNames_success ret acc =
     (case acc of (result, w) \<Rightarrow> (fold (\<lambda>v r. smap_put v () r) (fst (cr_v ret)) result, w))"

definition MultiAPI_LabelNames ::
  "externals \<Rightarrow> multi_api \<Rightarrow> string list \<Rightarrow> time \<Rightarrow> time \<Rightarrow> schedule \<Rightarrow>
   (string list \<times> warnings \<times> go_error option) outcome"
where
  "MultiAPI_LabelNames ext m matchers startTime endTime =
     fan_out ext m (\<lambda>a. with_warnings (LabelNames a matchers startTime endTime))
       add_warnings LabelNames_success ([], [])
       (\<lambda>(result, w). Ret (sort (map fst result), Warnings w, None))
       (\<lambda>(result, w) err. ([], Warnings w, err))"

subsection \<open>Query, QueryRange and GetValue\<close>

definition merge_annotations ::
  "series_set chan_result \<Rightarrow> 'a \<times> annotations \<Rightarrow> 'a \<times> annotations"
where
  "merge_annotations ret acc = (case acc of (s, w) \<Rightarrow> (s, MergeAnnotations w (ss_warnings (cr_v ret))))"

definition fill_slot :: "'v chan_result \<Rightarrow> 'v option list \<times> 'w \<Rightarrow> 'v option list \<times> 'w" where
  "fill_slot ret acc = (case acc of (slots, w) \<Rightarrow> (slots[cr_i ret := Some (cr_v ret)], w))"

definition scatterMerge ::
  "externals \<Rightarrow> multi_api \<Rightarrow> (api \<Rightarrow> series_set outcome) \<Rightarrow> schedule \<Rightarrow> series_set outcome"
where
  "scatterMerge ext m call =
     fan_out ext m (\<lambda>a. omap (\<lambda>ss. (ss, ss_err ss)) (call a))
       merge_annotations fill_slot (replicate (length (ma_apis m)) None, [])
       (\<lambda>(slots, w).
          omap (\<lambda>ss. WithWarnings ss w)
            (MergeSeriesSets ext (ma_antiAffinity m) (ma_antiAffinityDynamic m) (ma_preferMax m)
              (map the (filter (\<lambda>s. s \<noteq> None) slots))))
       (\<lambda>(slots, w) err. NewSeriesSet [] w err)"

definition MultiAPI_Query :: "externals \<Rightarrow> multi_api \<Rightarrow> string \<Rightarrow> time \<Rightarrow> schedule \<Rightarrow> series_set outcome" where
  "MultiAPI_Query ext m query ts = scatterMerge ext m (\<lambda>a. Query a query ts)"

definition MultiAPI_QueryRange :: "externals \<Rightarrow> multi_api \<Rightarrow> string \<Rightarrow> range \<Rightarrow> schedule \<Rightarrow> series_set outcome" where
  "MultiAPI_QueryRange ext m query r = scatterMerge ext m (\<lambda>a. QueryRange a query r)"

definition MultiAPI_GetValue ::
  "externals \<Rightarrow> multi_api \<Rightarrow> time \<Rightarrow> time \<Rightarrow> matcher list \<Rightarrow> schedule \<Rightarrow> series_set outcome"
where
  "MultiAPI_GetValue ext m start end matchers = scatterMerge ext m (\<lambda>a. GetValue a start end matchers)"

subsection \<open>Series\<close>

text \<open>A slot that was not filled is one that did not respond.\<close>

fun merge_slots :: "('v \<Rightarrow> 'v \<Rightarrow> 'v) \<Rightarrow> 'v option list \<Rightarrow> 'v option \<Rightarrow> 'v option" where
  "merge_slots f [] result = result"
| "merge_slots f (None # slots) result = merge_slots f slots result"
| "merge_slots f (Some v # slots) None = merge_slots f slots (Some v)"
| "merge_slots f (Some v # slots) (Some r) = merge_slots f slots (Some (f r v))"

definition fill_slot_value ::
  "('v \<times> warnings) chan_result \<Rightarrow> 'v option list \<times> warning_set \<Rightarrow> 'v option list \<times> warning_set"
where
  "fill_slot_value ret acc = (case acc of (slots, w) \<Rightarrow> (slots[cr_i ret := Some (fst (cr_v ret))], w))"

definition MultiAPI_Series ::
  "externals \<Rightarrow> multi_api \<Rightarrow> string list \<Rightarrow> time \<Rightarrow> time \<Rightarrow> schedule \<Rightarrow>
   (labelset list \<times> warnings \<times> go_error option) outcome"
where
  "MultiAPI_Series ext m matches startTime endTime =
     fan_out ext m (\<lambda>a. with_warnings (Series a matches startTime endTime))
       add_warnings fill_slot_value (replicate (length (ma_apis m)) None, [])
       (\<lambda>(slots, w).
          Ret ((case merge_slots MergeLabelSets slots None of Some r \<Rightarrow> r | None \<Rightarrow> []), Warnings w, None))
       (\<lambda>(slots, w) err. ([], Warnings w, err))"

subsection \<open>Metadata\<close>

type_synonym metadata_map = "(string, metadata list) smap"

text \<open>
  First writer wins per metric name. Writing to a nil map panics, so the merge of a nil
  result with a map that has entries does.
\<close>

definition merge_metadata :: "metadata_map option \<Rightarrow> metadata_map option \<Rightarrow> metadata_map option outcome" where
  "merge_metadata result v =
     (case v of
        None \<Rightarrow> Ret result
      | Some kvs \<Rightarrow>
          (case result of
             None \<Rightarrow> (if kvs = [] then Ret None else Panic ''assignment to entry in nil map'')
           | Some r \<Rightarrow>
               Ret (Some (fold (\<lambda>(k, vv) r. if map_of r k = None then smap_put k vv r else r) kvs r))))"

fun merge_metadata_slots ::
  "metadata_map option option list \<Rightarrow> metadata_map option option \<Rightarrow> metadata_map option outcome"
where
  "merge_metadata_slots [] result = Ret (case result of Some r \<Rightarrow> r | None \<Rightarrow> None)"
| "merge_metadata_slots (None # slots) result = merge_metadata_slots slots result"
| "merge_metadata_slots (Some v # slots) None = merge_metadata_slots slots (Some v)"
| "merge_metadata_slots (Some v # slots) (Some r) =
     obind (merge_metadata r v) (\<lambda>r. merge_metadata_slots slots (Some r))"

definition MultiAPI_Metadata ::
  "externals \<Rightarrow> multi_api \<Rightarrow> string \<Rightarrow> string \<Rightarrow> schedule \<Rightarrow> (metadata_map option \<times> go_error option) outcome"
where
  "MultiAPI_Metadata ext m metric limit =
     fan_out ext m (\<lambda>a. Metadata a metric limit)
       (\<lambda>_ acc. acc) fill_slot (replicate (length (ma_apis m)) None, ())
       (\<lambda>(slots, _). omap (\<lambda>r. (r, None)) (merge_metadata_slots slots None))
       (\<lambda>_ err. (None, err))"

subsection \<open>QueryExemplars\<close>

type_synonym exemplar_key = "int \<times> f64 \<times> string"

definition newExemplarKey :: "externals \<Rightarrow> exemplar \<Rightarrow> exemplar_key" where
  "newExemplarKey ext e = (ex_Timestamp e, ex_Value e, ext_LabelString ext (ex_Labels e))"

text \<open>Equality of map keys: the value is compared as a \<open>float64\<close>, so a NaN equals nothing.\<close>

definition exemplar_key_eq :: "exemplar_key \<Rightarrow> exemplar_key \<Rightarrow> bool" where
  "exemplar_key_eq a b \<longleftrightarrow>
     (case (a, b) of ((t, v, l), (t', v', l')) \<Rightarrow> t = t' \<and> f64_eq v v' \<and> l = l')"

text \<open>The exemplars of a series collected so far; their keys are the set \<open>seen\<close>.\<close>

definition add_exemplar :: "externals \<Rightarrow> exemplar list \<Rightarrow> exemplar \<Rightarrow> exemplar list" where
  "add_exemplar ext es e =
     (if list_ex (\<lambda>x. exemplar_key_eq (newExemplarKey ext x) (newExemplarKey ext e)) es then es
      else es @ [e])"

type_synonym merged_exemplars = "(fingerprint, exemplar_result) smap"

definition merge_exemplar_result ::
  "externals \<Rightarrow> exemplar_result \<Rightarrow> merged_exemplars \<Rightarrow> merged_exemplars"
where
  "merge_exemplar_result ext qr merged =
     (let fp = labelSetToFingerprint (er_SeriesLabels qr);
          existing = (case map_of merged fp of
                        Some r \<Rightarrow> r
                      | None \<Rightarrow> \<lparr>er_SeriesLabels = er_SeriesLabels qr, er_Exemplars = []\<rparr>)
      in smap_put fp (existing\<lparr>er_Exemplars := foldl (add_exemplar ext) (er_Exemplars existing) (er_Exemplars qr)\<rparr>)
           merged)"

text \<open>The order of \<open>SortExemplars\<close>, by timestamp, value and labels, for values that are not NaN.\<close>

definition SortExemplars :: "externals \<Rightarrow> exemplar list \<Rightarrow> exemplar list" where
  "SortExemplars ext es =
     sort_key (\<lambda>e. (ex_Timestamp e, f64_key (ex_Value e), ext_LabelString ext (ex_Labels e))) es"

definition MultiAPI_QueryExemplars ::
  "externals \<Rightarrow> multi_api \<Rightarrow> string \<Rightarrow> time \<Rightarrow> time \<Rightarrow> schedule \<Rightarrow>
   (exemplar_result list \<times> go_error option) outcome"
where
  "MultiAPI_QueryExemplars ext m query startTime endTime =
     fan_out ext m (\<lambda>a. QueryExemplars a query startTime endTime)
       (\<lambda>_ acc. acc)
       (\<lambda>ret merged. fold (merge_exemplar_result ext) (cr_v ret) merged) []
       (\<lambda>merged.
          Ret (sort_key (\<lambda>qr. ext_LabelString ext (er_SeriesLabels qr))
                 (map (\<lambda>(_, qr). qr\<lparr>er_Exemplars := SortExemplars ext (er_Exemplars qr)\<rparr>) merged), None))
       (\<lambda>_ err. ([], err))"

subsection \<open>MetadataOnePerKey\<close>

text \<open>The APIs grouped by key, groups and members in API order.\<close>

definition key_groups :: "fingerprint list \<Rightarrow> (fingerprint \<times> nat list) list" where
  "key_groups fps =
     map (\<lambda>fp. (fp, filter (\<lambda>i. fps ! i = fp) [0..<length fps])) (rev (remdups (rev fps)))"

text \<open>One group: its members are tried in turn from the rotating offset until one answers.\<close>

fun ask_members ::
  "externals \<Rightarrow> multi_api \<Rightarrow> string \<Rightarrow> string \<Rightarrow> nat list \<Rightarrow> errorPicker \<Rightarrow>
   (errorPicker + metadata_map option) outcome"
where
  "ask_members ext m metric limit [] errs = Ret (Inl errs)"
| "ask_members ext m metric limit (i # is) errs =
     obind (Metadata (ma_apis m ! i) metric limit) (\<lambda>(v, err).
       case NormalizePromError (ext_Unmarshal ext) err of
         Some e \<Rightarrow> ask_members ext m metric limit is (errorPicker_add i e errs)
       | None \<Rightarrow> Ret (Inr v))"

definition rotated :: "nat \<Rightarrow> nat list \<Rightarrow> nat list" where
  "rotated r members = map (\<lambda>n. members ! ((r + n) mod length members)) [0..<length members]"

fun metadata_groups ::
  "externals \<Rightarrow> multi_api \<Rightarrow> string \<Rightarrow> string \<Rightarrow> nat \<Rightarrow> nat list list \<Rightarrow> metadata_map option \<Rightarrow>
   (metadata_map option \<times> go_error option) outcome"
where
  "metadata_groups ext m metric limit r [] result = Ret (result, None)"
| "metadata_groups ext m metric limit r (members # groups) result =
     obind (ask_members ext m metric limit (rotated r members) errorPicker_zero) (\<lambda>a.
       case a of
         Inl errs \<Rightarrow> Ret (None, errors_Wrap (ep_err errs) ''Unable to fetch metadata from downstream servers'')
       | Inr md \<Rightarrow>
           (if result = None then metadata_groups ext m metric limit r groups md
            else obind (merge_metadata result md) (metadata_groups ext m metric limit r groups)))"

text \<open>
  The rotation counter is an atomic \<open>uint64\<close>; the call also returns the updated \<open>MultiAPI\<close>.
  The conversion to \<open>int\<close> is modelled for counts below 2^63.
\<close>

definition MultiAPI_MetadataOnePerKey ::
  "externals \<Rightarrow> multi_api \<Rightarrow> string \<Rightarrow> string \<Rightarrow>
   ((metadata_map option \<times> go_error option) \<times> multi_api) outcome"
where
  "MultiAPI_MetadataOnePerKey ext m metric limit =
     omap (\<lambda>r. (r, m\<lparr>ma_metadataRotation := ma_metadataRotation m + 1\<rparr>))
       (metadata_groups ext m metric limit (unat (ma_metadataRotation m))
         (map snd (key_groups (ma_apiFingerprints m))) None)"

section \<open>The gathering loop\<close>

lemma distinct_arrivals: "distinct (arrivals n order)"
  by (auto simp: arrivals_def)

lemma set_arrivals: "set (arrivals n order) = {0..<n}"
  by (auto simp: arrivals_def)

lemma mset_arrivals: "mset (arrivals n order) = mset [0..<n]"
  using set_eq_iff_mset_eq_distinct [of "arrivals n order" "[0..<n]"] by (simp add: distinct_arrivals set_arrivals)

text \<open>A reply taken into the accumulator and into the state, without the check for failure.\<close>

definition take_reply ::
  "('v chan_result \<Rightarrow> 'acc \<Rightarrow> 'acc) \<Rightarrow> ('v chan_result \<Rightarrow> 'acc \<Rightarrow> 'acc) \<Rightarrow> 'v chan_result \<Rightarrow> 'acc \<Rightarrow> 'acc"
where
  "take_reply on_reply on_success ret acc =
     (if cr_err ret = None then on_success ret (on_reply ret acc) else on_reply ret acc)"

definition absorb ::
  "('v chan_result \<Rightarrow> 'acc \<Rightarrow> 'acc) \<Rightarrow> ('v chan_result \<Rightarrow> 'acc \<Rightarrow> 'acc) \<Rightarrow> 'v chan_result \<Rightarrow>
   'acc gather_state \<Rightarrow> 'acc gather_state"
where
  "absorb on_reply on_success ret st =
     \<lparr>gs_outstanding = (gs_outstanding st)(cr_ls ret := gs_outstanding st (cr_ls ret) - 1),
      gs_success = (if cr_err ret = None
                    then (gs_success st)(cr_ls ret := gs_success st (cr_ls ret) + 1) else gs_success st),
      gs_errs = (case cr_err ret of Some e \<Rightarrow> errorPicker_add (cr_i ret) e (gs_errs st) | None \<Rightarrow> gs_errs st),
      gs_acc = take_reply on_reply on_success ret (gs_acc st)\<rparr>"

text \<open>The number of successes a bucket can still reach.\<close>

definition capacity :: "'acc gather_state \<Rightarrow> fingerprint \<Rightarrow> int" where
  "capacity st fp = gs_outstanding st fp + gs_success st fp"

definition out_of_reach :: "int \<Rightarrow> 'v chan_result \<Rightarrow> 'acc gather_state \<Rightarrow> bool" where
  "out_of_reach required ret st \<longleftrightarrow>
     cr_err ret \<noteq> None \<and> capacity st (cr_ls ret) < required"

lemma gather_Cons:
  assumes "call i = Ret ret" "ctx = None"
  shows "gather required onr ons call (i # is) ctx st =
    (let st' = absorb onr ons ret st
     in if out_of_reach required ret st' then Ret (Failed st') else gather required onr ons call is ctx st')"
  using assms by (cases st) (auto simp: absorb_def out_of_reach_def capacity_def take_reply_def count_reply_def Let_def split: option.splits)

declare gather.simps(2) [simp del]

definition fails :: "fingerprint \<Rightarrow> 'v chan_result list \<Rightarrow> int" where
  "fails fp rs = int (length (filter (\<lambda>r. cr_ls r = fp \<and> cr_err r \<noteq> None) rs))"

definition succs :: "fingerprint \<Rightarrow> 'v chan_result list \<Rightarrow> int" where
  "succs fp rs = int (length (filter (\<lambda>r. cr_ls r = fp \<and> cr_err r = None) rs))"

lemma fails_Nil [simp]: "fails fp [] = 0" and succs_Nil [simp]: "succs fp [] = 0"
  by (simp_all add: fails_def succs_def)

lemma fails_Cons: "fails fp (r # rs) = (if cr_ls r = fp \<and> cr_err r \<noteq> None then 1 else 0) + fails fp rs"
  by (simp add: fails_def)

lemma succs_Cons: "succs fp (r # rs) = (if cr_ls r = fp \<and> cr_err r = None then 1 else 0) + succs fp rs"
  by (simp add: succs_def)

lemma fails_nonneg: "0 \<le> fails fp rs"
  by (simp add: fails_def)

lemma absorb_simps [simp]:
  "gs_acc (absorb onr ons r st) = take_reply onr ons r (gs_acc st)"
  "gs_errs (absorb onr ons r st) = (case cr_err r of Some e \<Rightarrow> errorPicker_add (cr_i r) e (gs_errs st) | None \<Rightarrow> gs_errs st)"
  by (simp_all add: absorb_def)

lemma capacity_absorb:
  "capacity (absorb onr ons r st) fp = capacity st fp - (if cr_ls r = fp \<and> cr_err r \<noteq> None then 1 else 0)"
  by (auto simp: absorb_def capacity_def)

lemma absorb_success:
  "gs_success (absorb onr ons r st) fp = gs_success st fp + (if cr_ls r = fp \<and> cr_err r = None then 1 else 0)"
  by (auto simp: absorb_def)

lemma fold_absorb_acc: "gs_acc (fold (absorb onr ons) rs st) = fold (take_reply onr ons) rs (gs_acc st)"
  by (induction rs arbitrary: st) auto

lemma fold_absorb_success: "gs_success (fold (absorb onr ons) rs st) fp = gs_success st fp + succs fp rs"
  by (induction rs arbitrary: st) (auto simp: absorb_success succs_Cons)

definition error_reports :: "'v chan_result list \<Rightarrow> (nat \<times> go_error) list" where
  "error_reports rs = [(cr_i r, the (cr_err r)). r \<leftarrow> rs, cr_err r \<noteq> None]"

lemma fold_absorb_errs: "gs_errs (fold (absorb onr ons) rs st) = add_reports (error_reports rs) (gs_errs st)"
  by (induction rs arbitrary: st) (auto simp: error_reports_def add_reports_def)

text \<open>What a bucket can still reach after all failures decides how the loop ends.\<close>

definition reachable :: "int \<Rightarrow> 'v chan_result list \<Rightarrow> 'acc gather_state \<Rightarrow> bool" where
  "reachable required rs st \<longleftrightarrow>
     (\<forall>fp. 0 < fails fp rs \<longrightarrow> required \<le> capacity st fp - fails fp rs)"

lemma gather_finished:
  assumes "\<And>i. i \<in> set is \<Longrightarrow> call i = Ret (res i)" "reachable required (map res is) st"
  shows "gather required onr ons call is None st = Ret (Finished (fold (absorb onr ons) (map res is) st))"
  using assms
proof (induction "is" arbitrary: st)
  case (Cons i "is")
  let ?st = "absorb onr ons (res i) st"
  have "reachable required (map res is) ?st"
    using Cons.prems(2) unfolding reachable_def capacity_absorb
    by (auto simp: fails_Cons algebra_simps split: if_splits)
  moreover have "\<not> out_of_reach required (res i) ?st"
  proof -
    have "required \<le> capacity st (cr_ls (res i)) - fails (cr_ls (res i)) (map res (i # is))"
      if "cr_err (res i) \<noteq> None"
    proof -
      have "0 < fails (cr_ls (res i)) (map res (i # is))"
        using that fails_nonneg [of "cr_ls (res i)" "map res is"] by (simp add: fails_Cons)
      with Cons.prems(2) show ?thesis unfolding reachable_def by blast
    qed
    then show ?thesis
      using fails_nonneg [of "cr_ls (res i)" "map res is"]
      unfolding out_of_reach_def capacity_absorb by (auto simp: fails_Cons)
  qed
  ultimately show ?case
    using Cons gather_Cons [of call i "res i" None required onr ons "is" st] by simp
qed simp

lemma gather_failed:
  assumes "\<And>i. i \<in> set is \<Longrightarrow> call i = Ret (res i)" "\<not> reachable required (map res is) st"
  shows "\<exists>k. 0 < k \<and> k \<le> length is \<and> cr_err (res (is ! (k - 1))) \<noteq> None \<and>
    gather required onr ons call is None st = Ret (Failed (fold (absorb onr ons) (map res (take k is)) st))"
  using assms
proof (induction "is" arbitrary: st)
  case Nil
  then show ?case by (simp add: reachable_def)
next
  case (Cons i "is")
  let ?st = "absorb onr ons (res i) st"
  show ?case
  proof (cases "out_of_reach required (res i) ?st")
    case True
    then show ?thesis
      using Cons.prems(1) gather_Cons [of call i "res i" None required onr ons "is" st]
      by (intro exI [of _ 1]) (auto simp: out_of_reach_def)
  next
    case False
    have "\<not> reachable required (map res is) ?st"
    proof
      assume r: "reachable required (map res is) ?st"
      have "required \<le> capacity st fp - fails fp (map res (i # is))"
        if "0 < fails fp (map res (i # is))" for fp
      proof (cases "0 < fails fp (map res is)")
        case True
        with r have "required \<le> capacity ?st fp - fails fp (map res is)"
          by (simp add: reachable_def)
        then show ?thesis unfolding capacity_absorb by (simp add: fails_Cons algebra_simps)
      next
        case z: False
        with that have "cr_ls (res i) = fp" "cr_err (res i) \<noteq> None" "fails fp (map res is) = 0"
          using fails_nonneg [of fp "map res is"] by (auto simp: fails_Cons split: if_splits)
        with False show ?thesis unfolding out_of_reach_def capacity_absorb by (auto simp: fails_Cons)
      qed
      with Cons.prems(2) show False unfolding reachable_def by blast
    qed
    with Cons obtain k where k: "0 < k" "k \<le> length is" "cr_err (res (is ! (k - 1))) \<noteq> None"
      "gather required onr ons call is None ?st = Ret (Failed (fold (absorb onr ons) (map res (take k is)) ?st))"
      by (meson list.set_intros(2))
    then show ?thesis
      using False Cons.prems(1) gather_Cons [of call i "res i" None required onr ons "is" st]
      by (intro exI [of _ "Suc k"]) (auto simp: nth_Cons')
  qed
qed

section \<open>Quorum\<close>

text \<open>What \<open>NewMultiAPI\<close> establishes, and the answers of all APIs to one call.\<close>

definition multi_ok :: "multi_api \<Rightarrow> bool" where
  "multi_ok m \<longleftrightarrow> length (ma_apiFingerprints m) = length (ma_apis m) \<and>
     (\<forall>fp\<in>set (ma_apiFingerprints m). ma_requiredCount m \<le> int (count_list (ma_apiFingerprints m) fp))"

definition answers :: "multi_api \<Rightarrow> (api \<Rightarrow> ('v \<times> go_error option) outcome) \<Rightarrow> (nat \<Rightarrow> 'v \<times> go_error option) \<Rightarrow> bool" where
  "answers m call vs \<longleftrightarrow> (\<forall>i<length (ma_apis m). call (ma_apis m ! i) = Ret (vs i))"

text \<open>Every bucket of APIs with the same key has at least the required number of successes.\<close>

definition quorum :: "multi_api \<Rightarrow> (nat \<Rightarrow> 'v \<times> go_error option) \<Rightarrow> bool" where
  "quorum m vs \<longleftrightarrow>
     (\<forall>fp\<in>set (ma_apiFingerprints m).
        ma_requiredCount m \<le>
          int (length (filter (\<lambda>i. ma_apiFingerprints m ! i = fp \<and> snd (vs i) = None) [0..<length (ma_apis m)])))"

definition reply :: "externals \<Rightarrow> multi_api \<Rightarrow> (nat \<Rightarrow> 'v \<times> go_error option) \<Rightarrow> nat \<Rightarrow> 'v chan_result" where
  "reply ext m vs i = \<lparr>cr_i = i, cr_v = fst (vs i), cr_err = NormalizePromError (ext_Unmarshal ext) (snd (vs i)),
     cr_ls = ma_apiFingerprints m ! i\<rparr>"

lemma NewMultiAPI_ok: "NewMultiAPI apis aa dyn req pm = Inr m \<Longrightarrow> multi_ok m"
  by (auto simp: NewMultiAPI_def multi_ok_def Let_def list_ex_iff not_less split: if_splits)

lemma NormalizePromError_None_iff [simp]: "NormalizePromError u err = None \<longleftrightarrow> err = None"
  by (auto simp: NormalizePromError_def split: option.splits go_error.splits if_splits)

lemma reply_simps [simp]:
  "cr_i (reply ext m vs i) = i" "cr_v (reply ext m vs i) = fst (vs i)"
  "cr_ls (reply ext m vs i) = ma_apiFingerprints m ! i"
  "cr_err (reply ext m vs i) = NormalizePromError (ext_Unmarshal ext) (snd (vs i))"
  by (simp_all add: reply_def)

lemma length_filter_perm: "mset rs = mset ss \<Longrightarrow> length (filter P rs) = length (filter P ss)"
proof -
  assume "mset rs = mset ss"
  then have "size (filter_mset P (mset rs)) = size (filter_mset P (mset ss))" by simp
  then show ?thesis by (simp flip: mset_filter)
qed

lemma fails_perm: "mset rs = mset ss \<Longrightarrow> fails fp rs = fails fp ss"
  using length_filter_perm by (simp add: fails_def)

lemma succs_perm: "mset rs = mset ss \<Longrightarrow> succs fp rs = succs fp ss"
  using length_filter_perm by (simp add: succs_def)

lemma fails_succs: "fails fp rs + succs fp rs = int (count_list (map cr_ls rs) fp)"
  by (induction rs) (auto simp: fails_Cons succs_Cons)

lemma mset_replies: "mset (map (reply ext m vs) (arrivals n order)) = mset (map (reply ext m vs) [0..<n])"
  by (simp only: mset_map mset_arrivals)

lemma map_ls_replies:
  "length (ma_apiFingerprints m) = n \<Longrightarrow> map cr_ls (map (reply ext m vs) [0..<n]) = ma_apiFingerprints m"
  by (intro nth_equalityI) auto

lemma succs_replies:
  "succs fp (map (reply ext m vs) [0..<n]) =
     int (length (filter (\<lambda>i. ma_apiFingerprints m ! i = fp \<and> snd (vs i) = None) [0..<n]))"
  by (simp add: succs_def filter_map comp_def)

lemma reachable_iff_quorum:
  assumes "multi_ok m"
  shows "reachable (ma_requiredCount m) (map (reply ext m vs) (arrivals (length (ma_apis m)) order)) (gather_init m acc)
    \<longleftrightarrow> quorum m vs" (is "reachable _ ?rs _ \<longleftrightarrow> _")
proof -
  let ?n = "length (ma_apis m)" and ?fps = "ma_apiFingerprints m"
  let ?ordered = "map (reply ext m vs) [0..<?n]"
  have sp: "succs fp ?rs = succs fp ?ordered" for fp by (rule succs_perm [OF mset_replies])
  have fs: "fails fp ?rs + succs fp ?rs = int (count_list ?fps fp)" for fp
    using fails_succs [of fp ?ordered] map_ls_replies [of m ?n ext vs] assms
      fails_perm [OF mset_replies] succs_perm [OF mset_replies] by (metis multi_ok_def)
  have cap: "capacity (gather_init m acc) fp = int (count_list ?fps fp)" for fp
    by (simp add: capacity_def gather_init_def)
  have "reachable (ma_requiredCount m) ?rs (gather_init m acc) \<longleftrightarrow>
      (\<forall>fp. 0 < fails fp ?rs \<longrightarrow> ma_requiredCount m \<le> succs fp ?rs)"
  proof -
    have "capacity (gather_init m acc) fp - fails fp ?rs = succs fp ?rs" for fp
      using fs [of fp] cap [of fp] by linarith
    then show ?thesis by (simp only: reachable_def)
  qed
  also have "\<dots> \<longleftrightarrow> (\<forall>fp\<in>set ?fps. ma_requiredCount m \<le> succs fp ?rs)"
  proof (safe)
    fix fp assume H: "\<forall>fp. 0 < fails fp ?rs \<longrightarrow> ma_requiredCount m \<le> succs fp ?rs" "fp \<in> set ?fps"
    show "ma_requiredCount m \<le> succs fp ?rs"
    proof (cases "0 < fails fp ?rs")
      case False
      then have "succs fp ?rs = int (count_list ?fps fp)" using fs [of fp] fails_nonneg [of fp ?rs] by linarith
      then show ?thesis using assms H(2) by (simp add: multi_ok_def)
    qed (use H in blast)
  next
    fix fp assume H: "\<forall>fp\<in>set ?fps. ma_requiredCount m \<le> succs fp ?rs" "0 < fails fp ?rs"
    have "0 \<le> succs fp ?rs" by (simp add: succs_def)
    then have "count_list ?fps fp \<noteq> 0" using fs [of fp] H(2) by linarith
    then have "fp \<in> set ?fps" by (metis count_notin)
    with H(1) show "ma_requiredCount m \<le> succs fp ?rs" by blast
  qed
  also have "\<dots> \<longleftrightarrow> quorum m vs"
    by (simp only: quorum_def sp succs_replies)
  finally show ?thesis .
qed

lemma call_api_answers:
  assumes "answers m call vs" "i \<in> set (arrivals (length (ma_apis m)) order)"
  shows "call_api ext m call i = Ret (reply ext m vs i)"
  using assms by (auto simp: call_api_def answers_def set_arrivals reply_def split: prod.splits)

lemma fan_out_quorum:
  assumes "multi_ok m" "answers m call vs" "quorum m vs"
  shows "fan_out ext m call onr ons acc ok bad (order, None) =
    ok (fold (take_reply onr ons) (map (reply ext m vs) (arrivals (length (ma_apis m)) order)) acc)"
proof -
  let ?is = "arrivals (length (ma_apis m)) order"
  let ?rs = "map (reply ext m vs) ?is"
  let ?st = "fold (absorb onr ons) ?rs (gather_init m acc)"
  have "gs_success ?st fp = succs fp ?rs" for fp by (simp add: fold_absorb_success gather_init_def)
  moreover have "succs fp ?rs = succs fp (map (reply ext m vs) [0..<length (ma_apis m)])" for fp
    by (rule succs_perm [OF mset_replies])
  ultimately have short: "\<not> bucket_short m ?st"
    using assms(3) by (auto simp: bucket_short_def list_ex_iff not_less quorum_def succs_replies)
  have "reachable (ma_requiredCount m) ?rs (gather_init m acc)"
    unfolding reachable_iff_quorum [OF assms(1)] by (rule assms(3))
  then have "gather (ma_requiredCount m) onr ons (call_api ext m call) ?is None (gather_init m acc) = Ret (Finished ?st)"
    by (intro gather_finished call_api_answers [OF assms(2)])
  moreover have "gs_acc ?st = fold (take_reply onr ons) ?rs acc"
    by (simp add: fold_absorb_acc gather_init_def)
  ultimately show ?thesis using short by (simp add: fan_out_def)
qed

lemma error_reports_nonempty: "r \<in> set rs \<Longrightarrow> cr_err r \<noteq> None \<Longrightarrow> error_reports rs \<noteq> []"
  by (auto simp: error_reports_def)

text \<open>The errors of the first \<open>k\<close> arrivals.\<close>

definition reports_until ::
  "externals \<Rightarrow> multi_api \<Rightarrow> (nat \<Rightarrow> 'v \<times> go_error option) \<Rightarrow> nat list \<Rightarrow> nat \<Rightarrow> (nat \<times> go_error) list"
where
  "reports_until ext m vs order k =
     error_reports (map (reply ext m vs) (take k (arrivals (length (ma_apis m)) order)))"

lemma fan_out_no_quorum:
  assumes "multi_ok m" "answers m call vs" "\<not> quorum m vs"
  shows "\<exists>k acc' p e. fan_out ext m call onr ons acc ok bad (order, None) = Ret (bad acc' (Some e)) \<and>
    picked_best (reports_until ext m vs order k) p \<and> ep_err p = Some e"
proof -
  let ?is = "arrivals (length (ma_apis m)) order"
  have "\<not> reachable (ma_requiredCount m) (map (reply ext m vs) ?is) (gather_init m acc)"
    unfolding reachable_iff_quorum [OF assms(1)] by (rule assms(3))
  from gather_failed [OF _ this, of "call_api ext m call" onr ons] call_api_answers [OF assms(2), of _ order ext]
  obtain k where k: "0 < k" "k \<le> length ?is" "cr_err (reply ext m vs (?is ! (k - 1))) \<noteq> None" and
    g: "gather (ma_requiredCount m) onr ons (call_api ext m call) ?is None (gather_init m acc)
      = Ret (Failed (fold (absorb onr ons) (map (reply ext m vs) (take k ?is)) (gather_init m acc)))"
    by blast
  let ?st = "fold (absorb onr ons) (map (reply ext m vs) (take k ?is)) (gather_init m acc)"
  have "?is ! (k - 1) \<in> set (take k ?is)" using k by (auto simp: in_set_conv_nth intro!: exI [of _ "k - 1"])
  then have "reports_until ext m vs order k \<noteq> []"
    unfolding reports_until_def using k(3)
    by (intro error_reports_nonempty [of "reply ext m vs (?is ! (k - 1))"]) auto
  then have best: "picked_best (reports_until ext m vs order k) (gs_errs ?st)"
    by (simp add: add_reports_best fold_absorb_errs gather_init_def reports_until_def)
  then obtain e where "ep_err (gs_errs ?st) = Some e" by (auto simp: picked_best_def)
  with g best show ?thesis
    by (intro exI [of _ k] exI [of _ "gs_acc ?st"] exI [of _ "gs_errs ?st"] exI [of _ e]) (simp add: fan_out_def)
qed

section \<open>What the accumulators hold\<close>

abbreviation replies :: "externals \<Rightarrow> multi_api \<Rightarrow> (nat \<Rightarrow> 'v \<times> go_error option) \<Rightarrow> nat list \<Rightarrow> 'v chan_result list" where
  "replies ext m vs order \<equiv> map (reply ext m vs) (arrivals (length (ma_apis m)) order)"

lemma take_reply_cases:
  "take_reply onr ons r acc = (if cr_err r = None then ons r (onr r acc) else onr r acc)"
  by (simp add: take_reply_def)

lemma map_fst_smap: "smap_ok m \<Longrightarrow> map fst m = sorted_list_of_set (fst ` set m)"
  by (metis list.set_map smap_ok_def sorted_list_of_set.idem_if_sorted_distinct strict_sorted_iff)

lemma keys_fold_put: "fst ` set (fold (\<lambda>v r. smap_put v () r) vs r) = set vs \<union> fst ` set r"
  by (induction vs arbitrary: r) auto

lemma smap_ok_fold_unit: "smap_ok r \<Longrightarrow> smap_ok (fold (\<lambda>v r. smap_put v () r) vs r)"
  by (induction vs arbitrary: r) auto

lemma AddWarnings_fold: "AddWarnings ws s = fold (\<lambda>v r. smap_put v () r) ws s"
  by (simp add: AddWarnings_def AddWarning_def [abs_def])

text \<open>
  A method that collects warnings: its reply handler adds the warnings, also of failed
  calls, and nothing else touches them. Whatever the order, the result has exactly the
  warnings of all replies.
\<close>

locale collects_warnings =
  fixes onr ons :: "('v \<times> warnings) chan_result \<Rightarrow> 'a \<times> warning_set \<Rightarrow> 'a \<times> warning_set"
  assumes reply_warnings: "snd (onr r acc) = AddWarnings (snd (cr_v r)) (snd acc)"
    and success_warnings: "snd (ons r acc) = snd acc"
begin

lemma warnings_fold:
  "snd (fold (take_reply onr ons) rs acc) = fold (\<lambda>v r. smap_put v () r) (concat (map (\<lambda>r. snd (cr_v r)) rs)) (snd acc)"
  by (induction rs arbitrary: acc) (simp_all add: take_reply_cases reply_warnings success_warnings AddWarnings_fold)

lemma warnings_union:
  "Warnings (snd (fold (take_reply onr ons) (replies ext m vs order) (r, []))) =
     sorted_list_of_set (\<Union>i<length (ma_apis m). set (snd (fst (vs i))))"
  unfolding Warnings_def warnings_fold
  by (subst map_fst_smap) (auto simp: smap_ok_fold_unit keys_fold_put set_arrivals atLeast0LessThan)

end

text \<open>
  A method that parks the successful results in slots, one per API: in the end each slot
  holds the result of its API, whatever the order of arrival.
\<close>

locale parks_in_slots =
  fixes onr ons :: "'v chan_result \<Rightarrow> 'x option list \<times> 'w \<Rightarrow> 'x option list \<times> 'w"
    and val :: "'v chan_result \<Rightarrow> 'x"
  assumes reply_slots: "fst (onr r acc) = fst acc"
    and success_slots: "fst (ons r acc) = (fst acc)[cr_i r := Some (val r)]"
begin

lemma length_slots: "length (fst (fold (take_reply onr ons) rs acc)) = length (fst acc)"
  by (induction rs arbitrary: acc) (simp_all add: take_reply_cases reply_slots success_slots)

lemma slots_fold:
  assumes "distinct (map cr_i rs)" "r \<in> set rs" "cr_i r < length (fst acc)"
  shows "fst (fold (take_reply onr ons) rs acc) ! cr_i r =
    (if cr_err r = None then Some (val r) else fst acc ! cr_i r)"
  using assms
proof (induction rs arbitrary: acc)
  case (Cons x xs)
  have other: "fst (fold (take_reply onr ons) ys acc) ! k = fst acc ! k" if "k \<notin> set (map cr_i ys)" for ys acc k
    using that by (induction ys arbitrary: acc) (auto simp: take_reply_cases reply_slots success_slots)
  show ?case
  proof (cases "r = x")
    case True
    then show ?thesis using Cons.prems other [of "cr_i r" xs]
      by (simp add: take_reply_cases [of onr ons x] reply_slots success_slots)
  next
    case False
    then have "r \<in> set xs" using Cons.prems by simp
    moreover from this have "cr_i r \<noteq> cr_i x" using Cons.prems(1) by (metis distinct.simps(2) image_eqI list.set_map list.simps(9))
    ultimately show ?thesis using Cons.IH [of "take_reply onr ons x acc"] Cons.prems
      by (auto simp: take_reply_cases [of onr ons x] reply_slots success_slots)
  qed
qed simp

lemma slots_filled:
  "fst (fold (take_reply onr ons) (replies ext m vs order) (replicate (length (ma_apis m)) None, w)) =
     map (\<lambda>i. if snd (vs i) = None then Some (val (reply ext m vs i)) else None) [0..<length (ma_apis m)]"
proof (rule nth_equalityI)
  fix i assume "i < length (fst (fold (take_reply onr ons) (replies ext m vs order) (replicate (length (ma_apis m)) None, w)))"
  then have i: "i < length (ma_apis m)" by (simp add: length_slots)
  have "distinct (map cr_i (replies ext m vs order))" by (simp add: comp_def distinct_arrivals)
  moreover have "reply ext m vs i \<in> set (replies ext m vs order)" using i by (simp add: set_arrivals)
  ultimately show "fst (fold (take_reply onr ons) (replies ext m vs order) (replicate (length (ma_apis m)) None, w)) ! i =
      map (\<lambda>i. if snd (vs i) = None then Some (val (reply ext m vs i)) else None) [0..<length (ma_apis m)] ! i"
    using slots_fold [of "replies ext m vs order" "reply ext m vs i" "(replicate (length (ma_apis m)) None, w)"] i by simp
qed (simp add: length_slots)

end

interpretation values_warnings: collects_warnings add_warnings LabelValues_success
  by unfold_locales (auto simp: add_warnings_def LabelValues_success_def split: prod.split option.split)

interpretation names_warnings: collects_warnings add_warnings LabelNames_success
  by unfold_locales (auto simp: add_warnings_def LabelNames_success_def split: prod.split)

interpretation series_warnings: collects_warnings add_warnings fill_slot_value
  by unfold_locales (auto simp: add_warnings_def fill_slot_value_def split: prod.split)

interpretation series_slots: parks_in_slots add_warnings fill_slot_value "\<lambda>r. fst (cr_v r)"
  by unfold_locales (auto simp: add_warnings_def fill_slot_value_def split: prod.split)

interpretation scatter_slots: parks_in_slots merge_annotations fill_slot cr_v
  by unfold_locales (auto simp: merge_annotations_def fill_slot_def split: prod.split)

interpretation metadata_slots: parks_in_slots "\<lambda>_ acc. acc" fill_slot cr_v
  by unfold_locales (auto simp: fill_slot_def split: prod.split)

definition successes :: "multi_api \<Rightarrow> (nat \<Rightarrow> 'v \<times> go_error option) \<Rightarrow> nat list" where
  "successes m vs = filter (\<lambda>i. snd (vs i) = None) [0..<length (ma_apis m)]"

lemma LabelNames_fold:
  "fst (fold (take_reply add_warnings LabelNames_success) rs (r, w)) =
     fold (\<lambda>v r. smap_put v () r) (concat (map (\<lambda>r. if cr_err r = None then fst (cr_v r) else []) rs)) r"
  by (induction rs arbitrary: r w)
     (simp_all add: take_reply_cases add_warnings_def LabelNames_success_def split: prod.split)

lemma LabelNames_union:
  "map fst (fst (fold (take_reply add_warnings LabelNames_success) (replies ext m vs order) ([], w))) =
     sorted_list_of_set (\<Union>i\<in>set (successes m vs). set (fst (fst (vs i))))"
  unfolding LabelNames_fold
  by (subst map_fst_smap)
     (auto simp: smap_ok_fold_unit keys_fold_put set_arrivals successes_def atLeast0LessThan intro!: arg_cong [of _ _ sorted_list_of_set])

lemma MergeLabelValues_spec:
  "set (MergeLabelValues a b) = set a \<union> set b" "distinct a \<Longrightarrow> distinct (MergeLabelValues a b)"
proof -
  have "set (fst (foldl (\<lambda>(a, labels) item. if item \<in> labels then (a, labels) else (a @ [item], insert item labels)) (a, set a) b)) = set a \<union> set b \<and>
    (distinct a \<longrightarrow> distinct (fst (foldl (\<lambda>(a, labels) item. if item \<in> labels then (a, labels) else (a @ [item], insert item labels)) (a, set a) b)))"
  proof (induction b arbitrary: a)
    case (Cons x b)
    show ?case using Cons.IH [of a] Cons.IH [of "a @ [x]"] by (auto simp: insert_absorb)
  qed simp
  then show "set (MergeLabelValues a b) = set a \<union> set b" "distinct a \<Longrightarrow> distinct (MergeLabelValues a b)"
    by (simp_all add: MergeLabelValues_def)
qed

definition nilable :: "'a list option \<Rightarrow> 'a list" where
  "nilable xs = (case xs of Some ys \<Rightarrow> ys | None \<Rightarrow> [])"

lemma LabelValues_fold:
  assumes "\<forall>r\<in>set rs. distinct (nilable (fst (cr_v r)))" "distinct (nilable r)"
  shows "set (nilable (fst (fold (take_reply add_warnings LabelValues_success) rs (r, w)))) =
      set (nilable r) \<union> (\<Union>x\<in>{x \<in> set rs. cr_err x = None}. set (nilable (fst (cr_v x)))) \<and>
    distinct (nilable (fst (fold (take_reply add_warnings LabelValues_success) rs (r, w))))"
  using assms
proof (induction rs arbitrary: r w)
  case (Cons x rs)
  obtain r' w' where step: "take_reply add_warnings LabelValues_success x (r, w) = (r', w')"
    by (cases "take_reply add_warnings LabelValues_success x (r, w)")
  have r': "set (nilable r') = set (nilable r) \<union> (if cr_err x = None then set (nilable (fst (cr_v x))) else {}) \<and> distinct (nilable r')"
    using step Cons.prems MergeLabelValues_spec
    by (auto simp: take_reply_cases add_warnings_def LabelValues_success_def nilable_def split: option.splits if_splits)
  have "\<forall>r\<in>set rs. distinct (nilable (fst (cr_v r)))" using Cons.prems by simp
  from Cons.IH [OF this, of r' w'] r' show ?case by (auto simp: step)
qed simp

lemma omap_eq_Ret: "omap f x = Ret y \<longleftrightarrow> (\<exists>a. x = Ret a \<and> y = f a)"
  by (cases x) auto

text \<open>The parts of an answer with warnings.\<close>

abbreviation ans_v :: "'v \<times> warnings \<times> go_error option \<Rightarrow> 'v" where
  "ans_v t \<equiv> fst t"

abbreviation ans_w :: "'v \<times> warnings \<times> go_error option \<Rightarrow> warnings" where
  "ans_w t \<equiv> fst (snd t)"

abbreviation ans_e :: "'v \<times> warnings \<times> go_error option \<Rightarrow> go_error option" where
  "ans_e t \<equiv> snd (snd t)"

definition split_answer :: "'v \<times> warnings \<times> go_error option \<Rightarrow> ('v \<times> warnings) \<times> go_error option" where
  "split_answer t = (case t of (v, w, e) \<Rightarrow> ((v, w), e))"

lemma split_answer_simps [simp]:
  "snd (split_answer t) = ans_e t" "fst (fst (split_answer t)) = ans_v t" "snd (fst (split_answer t)) = ans_w t"
  by (simp_all add: split_answer_def split: prod.split)

lemma answers_split:
  assumes "\<forall>i<length (ma_apis m). f (ma_apis m ! i) = Ret (vs i)"
  shows "answers m (\<lambda>a. with_warnings (f a)) (\<lambda>i. split_answer (vs i))"
  using assms by (auto simp: answers_def with_warnings_def split_answer_def split: prod.split)

lemma error_None_iff_fan_out:
  assumes "multi_ok m" "answers m call vs"
    and "\<And>acc. \<exists>r. ok acc = Ret r \<and> err r = None" "\<And>acc e. err (bad acc e) = e"
  shows "\<exists>r. fan_out ext m call onr ons acc ok bad (order, None) = Ret r \<and> (err r = None \<longleftrightarrow> quorum m vs)"
proof (cases "quorum m vs")
  case True
  then show ?thesis using fan_out_quorum [OF assms(1,2)] assms(3) by metis
next
  case False
  then show ?thesis using fan_out_no_quorum [OF assms(1,2)] assms(4) by (metis option.distinct(1))
qed

lemma quorum_cong: "(\<And>i. i < length (ma_apis m) \<Longrightarrow> (snd (vs i) = None) = (snd (ws i) = None)) \<Longrightarrow> quorum m vs = quorum m ws"
proof -
  assume *: "\<And>i. i < length (ma_apis m) \<Longrightarrow> (snd (vs i) = None) = (snd (ws i) = None)"
  then have "filter (\<lambda>i. ma_apiFingerprints m ! i = fp \<and> snd (vs i) = None) [0..<length (ma_apis m)] =
    filter (\<lambda>i. ma_apiFingerprints m ! i = fp \<and> snd (ws i) = None) [0..<length (ma_apis m)]" for fp
    by (intro filter_cong) auto
  then show ?thesis by (simp add: quorum_def)
qed

section \<open>Properties\<close>

text \<open>
  C23. \<open>LabelNames\<close>: for every order of arrival, when the APIs of each key bucket have the
  required number of successes the call succeeds with the sorted union of the successful
  answers and all warnings, and otherwise it fails.
\<close>

theorem MultiAPI_LabelNames_correct:
  assumes "NewMultiAPI apis aa dyn req pm = Inr m"
    and "\<forall>i<length apis. LabelNames (apis ! i) matchers start end = Ret (vs i)"
  shows "if quorum m (\<lambda>i. split_answer (vs i))
    then MultiAPI_LabelNames ext m matchers start end (order, None) =
      Ret (sorted_list_of_set (\<Union>i\<in>{i. i < length apis \<and> ans_e (vs i) = None}. set (ans_v (vs i))),
           sorted_list_of_set (\<Union>i<length apis. set (ans_w (vs i))), None)
    else \<exists>w e. MultiAPI_LabelNames ext m matchers start end (order, None) = Ret ([], w, Some e)"
proof -
  have m: "multi_ok m" "ma_apis m = apis"
    using NewMultiAPI_ok [OF assms(1)] assms(1) by (auto simp: NewMultiAPI_def Let_def split: if_splits)
  let ?vs = "\<lambda>i. split_answer (vs i)"
  have ans: "answers m (\<lambda>a. with_warnings (LabelNames a matchers start end)) ?vs"
    using assms(2) m(2) by (intro answers_split) simp
  have set: "set (successes m ?vs) = {i. i < length apis \<and> ans_e (vs i) = None}"
    by (auto simp: successes_def m(2))
  show ?thesis
  proof (cases "quorum m ?vs")
    case True
    let ?acc = "fold (take_reply add_warnings LabelNames_success) (replies ext m ?vs order) ([], [])"
    have "MultiAPI_LabelNames ext m matchers start end (order, None) =
        Ret (sort (map fst (fst ?acc)), Warnings (snd ?acc), None)"
      by (simp add: MultiAPI_LabelNames_def fan_out_quorum [OF m(1) ans True] split_beta)
    moreover have "map fst (fst ?acc) = sorted_list_of_set (\<Union>i\<in>{i. i < length apis \<and> ans_e (vs i) = None}. set (ans_v (vs i)))"
      using LabelNames_union [of ext m ?vs order "[]"] by (simp add: set)
    moreover have "Warnings (snd ?acc) = sorted_list_of_set (\<Union>i<length apis. set (ans_w (vs i)))"
      using names_warnings.warnings_union [of ext m ?vs order "[]"] by (simp add: m(2))
    ultimately show ?thesis using True by (simp add: sorted_sort_id)
  next
    case False
    from fan_out_no_quorum [OF m(1) ans False, of ext add_warnings LabelNames_success "([], [])"
        "\<lambda>(result, w). Ret (sort (map fst result), Warnings w, None)" "\<lambda>(result, w) err. ([], Warnings w, err)" order]
    show ?thesis using False by (auto simp: MultiAPI_LabelNames_def split: prod.splits)
  qed
qed

lemma NewMultiAPI_apis: "NewMultiAPI apis aa dyn req pm = Inr m \<Longrightarrow> ma_apis m = apis"
  by (auto simp: NewMultiAPI_def Let_def split: if_splits)

text \<open>Three APIs, one of them down, two with the same key, for the witnesses.\<close>

definition names_api :: "string list \<Rightarrow> go_error option \<Rightarrow> labelset option option \<Rightarrow> api" where
  "names_api names err key =
     const_api (names, [''w''], err) (Some names, [''w''], err) EmptySeriesSet ([], [], err) (None, err) ([], err) key"

definition example_apis :: "api list" where
  "example_apis = [names_api [''a'', ''b''] None None, names_api [] (Some DeadlineExceeded) None, names_api [''a''] None None]"

definition example_multi :: multi_api where
  "example_multi = \<lparr>ma_apis = example_apis, ma_apiFingerprints = [0, 0, 0], ma_antiAffinity = 0,
     ma_antiAffinityDynamic = False, ma_requiredCount = 1, ma_preferMax = False, ma_metadataRotation = 0\<rparr>"

definition example_answers :: "nat \<Rightarrow> string list \<times> warnings \<times> go_error option" where
  "example_answers i = [([''a'', ''b''], [''w''], None), ([], [''w''], Some DeadlineExceeded), ([''a''], [''w''], None)] ! i"

lemma example_multi_new: "NewMultiAPI example_apis 0 False 1 False = Inr example_multi"
  by (simp add: NewMultiAPI_def example_apis_def names_api_def const_api_def api_fingerprint_def labels_key_def example_multi_def Let_def)

lemma less_3_cases: "i < 3 \<Longrightarrow> i = 0 \<or> i = 1 \<or> i = (2::nat)"
  by linarith

lemma example_quorum: "quorum example_multi (\<lambda>i. split_answer (example_answers i))"
  by (simp add: quorum_def example_multi_def example_apis_def example_answers_def split_answer_def upt_rec)

theorem MultiAPI_LabelNames_correct_witness:
  "MultiAPI_LabelNames example_ext example_multi [] 0 0 ([2, 1, 0], None) = Ret ([''a'', ''b''], [''w''], None)"
proof -
  have "\<forall>i<length example_apis. LabelNames (example_apis ! i) [] 0 0 = Ret (example_answers i)"
    by (simp add: example_apis_def names_api_def const_api_def example_answers_def All_less_Suc)
  moreover have "{i. i < length example_apis \<and> ans_e (example_answers i) = None} = {0, 2}"
    using less_3_cases by (auto simp: example_apis_def example_answers_def less_Suc_eq)
  moreover have "{..<length example_apis} = {0, 1, 2}" by (auto simp: example_apis_def)
  ultimately show ?thesis
    using MultiAPI_LabelNames_correct [OF example_multi_new, of "[]" 0 0 example_answers example_ext "[2, 1, 0]"] example_quorum
    by (simp add: example_answers_def)
qed

lemma nilable_sort: "nilable (map_option sort r) = sort (nilable r)"
  by (cases r) (simp_all add: nilable_def)

lemma sort_distinct_set: "set xs = A \<and> distinct xs \<Longrightarrow> sort xs = sorted_list_of_set A"
  using sorted_list_of_set_sort_remdups [of xs] by (auto simp: distinct_remdups_id)

text \<open>
  \<open>LabelValues\<close>: when no API repeats a value, the call succeeds exactly when every bucket
  has its quorum, with the sorted union of the successful answers, for every order of arrival.
\<close>

lemma MultiAPI_LabelValues_correct:
  assumes "NewMultiAPI apis aa dyn req pm = Inr m"
    and "\<forall>i<length apis. LabelValues (apis ! i) label matchers start end = Ret (vs i)"
    and "\<forall>i<length apis. distinct (nilable (ans_v (vs i)))"
  shows "if quorum m (\<lambda>i. split_answer (vs i))
    then \<exists>r w. MultiAPI_LabelValues ext m label matchers start end (order, None) = Ret (r, w, None) \<and>
      nilable r = sorted_list_of_set (\<Union>i\<in>{i. i < length apis \<and> ans_e (vs i) = None}. set (nilable (ans_v (vs i)))) \<and>
      w = sorted_list_of_set (\<Union>i<length apis. set (ans_w (vs i)))
    else \<exists>w e. MultiAPI_LabelValues ext m label matchers start end (order, None) = Ret (None, w, Some e)"
proof -
  note m = NewMultiAPI_ok [OF assms(1)] NewMultiAPI_apis [OF assms(1)]
  let ?vs = "\<lambda>i. split_answer (vs i)"
  have ans: "answers m (\<lambda>a. with_warnings (LabelValues a label matchers start end)) ?vs"
    using assms(2) m(2) by (intro answers_split) simp
  show ?thesis
  proof (cases "quorum m ?vs")
    case True
    let ?rs = "replies ext m ?vs order"
    let ?acc = "fold (take_reply add_warnings LabelValues_success) ?rs (None, [])"
    let ?U = "\<Union>i\<in>{i. i < length apis \<and> ans_e (vs i) = None}. set (nilable (ans_v (vs i)))"
    have "MultiAPI_LabelValues ext m label matchers start end (order, None) =
        Ret (map_option sort (fst ?acc), Warnings (snd ?acc), None)"
      by (simp add: MultiAPI_LabelValues_def fan_out_quorum [OF m(1) ans True] split_beta)
    moreover have "set (nilable (fst ?acc)) = ?U \<and> distinct (nilable (fst ?acc))"
    proof -
      have "\<forall>r\<in>set ?rs. distinct (nilable (fst (cr_v r)))" using assms(3) by (auto simp: set_arrivals m(2))
      moreover have "(\<Union>x\<in>{x \<in> set ?rs. cr_err x = None}. set (nilable (fst (cr_v x)))) = ?U"
        by (force simp: set_arrivals m(2))
      ultimately show ?thesis using LabelValues_fold [of ?rs None "[]"] by (simp add: nilable_def [of None])
    qed
    moreover have "Warnings (snd ?acc) = sorted_list_of_set (\<Union>i<length apis. set (ans_w (vs i)))"
      using values_warnings.warnings_union [of ext m ?vs order None] by (simp add: m(2))
    ultimately show ?thesis using True by (simp add: nilable_sort sort_distinct_set)
  next
    case False
    from fan_out_no_quorum [OF m(1) ans False, of ext add_warnings LabelValues_success "(None, [])"
        "\<lambda>(result, w). Ret (map_option sort result, Warnings w, None)" "\<lambda>(result, w) err. (None, Warnings w, err)" order]
    show ?thesis using False by (auto simp: MultiAPI_LabelValues_def split: prod.splits)
  qed
qed

definition example_values :: "nat \<Rightarrow> string list option \<times> warnings \<times> go_error option" where
  "example_values i = [(Some [''a'', ''b''], [''w''], None), (Some [], [''w''], Some DeadlineExceeded), (Some [''a''], [''w''], None)] ! i"

text \<open>The answers of the scatter-merge: a series set and its error.\<close>

definition set_answer :: "series_set \<Rightarrow> series_set \<times> go_error option" where
  "set_answer ss = (ss, ss_err ss)"

lemma answers_sets:
  assumes "\<forall>i<length (ma_apis m). call (ma_apis m ! i) = Ret (vs i)"
  shows "answers m (\<lambda>a. omap (\<lambda>ss. (ss, ss_err ss)) (call a)) (\<lambda>i. set_answer (vs i))"
  using assms by (simp add: answers_def set_answer_def)

lemma slots_successes:
  "map the (filter (\<lambda>s. s \<noteq> None) (map (\<lambda>i. if snd (vs i) = None then Some (f i) else None) is)) =
     map f (filter (\<lambda>i. snd (vs i) = None) is)"
  by (induction "is") auto

lemma scatterMerge_quorum:
  assumes "multi_ok m" "\<forall>i<length (ma_apis m). call (ma_apis m ! i) = Ret (vs i)" "quorum m (\<lambda>i. set_answer (vs i))"
  shows "\<exists>w. scatterMerge ext m call (order, None) =
    omap (\<lambda>ss. WithWarnings ss w)
      (MergeSeriesSets ext (ma_antiAffinity m) (ma_antiAffinityDynamic m) (ma_preferMax m)
        (map vs (filter (\<lambda>i. ss_err (vs i) = None) [0..<length (ma_apis m)])))"
proof -
  let ?vs = "\<lambda>i. set_answer (vs i)"
  let ?acc = "fold (take_reply merge_annotations fill_slot) (replies ext m ?vs order) (replicate (length (ma_apis m)) None, [])"
  have "map the (filter (\<lambda>s. s \<noteq> None) (fst ?acc)) =
      map vs (filter (\<lambda>i. ss_err (vs i) = None) [0..<length (ma_apis m)])"
    using slots_successes [of ?vs vs] by (simp add: scatter_slots.slots_filled set_answer_def cong: if_cong)
  then show ?thesis
    by (intro exI [of _ "snd ?acc"])
       (simp add: scatterMerge_def fan_out_quorum [OF assms(1) answers_sets [OF assms(2)] assms(3)] split_beta)
qed

lemma MergeSeriesSets_total:
  assumes "\<forall>s\<in>set sets. ss_err s = None \<and> labels_distinct s"
  shows "\<exists>ss. MergeSeriesSets ext aa dyn pm sets = Ret ss \<and> ss_err ss = None"
proof -
  consider "sets = []" | "length sets = 1" | "sets \<noteq> []" "length sets \<noteq> 1" by blast
  then show ?thesis
  proof cases
    case 2
    then show ?thesis using assms by (cases sets) (auto simp: MergeSeriesSets_def)
  next
    case 3
    have "\<forall>s\<in>set (map SortSeriesSet sets). ss_err s = None \<and> sorted_set (ss_series s)"
      using assms sorted_set_SortSeriesSet by simp
    then show ?thesis
      using NewMergeSeriesSet_spec [OF anti_affinity.vertical_merge_axioms, of "map SortSeriesSet sets" ext aa dyn pm] 3
      by (auto simp: MergeSeriesSets_def NewSeriesSet_def)
  qed (simp add: MergeSeriesSets_def NewSeriesSet_def)
qed

lemma scatterMerge_no_quorum:
  assumes "multi_ok m" "\<forall>i<length (ma_apis m). call (ma_apis m ! i) = Ret (vs i)" "\<not> quorum m (\<lambda>i. set_answer (vs i))"
  shows "\<exists>w e. scatterMerge ext m call (order, None) = Ret (NewSeriesSet [] w (Some e))"
proof -
  note fan_out_no_quorum [OF assms(1) answers_sets [OF assms(2)] assms(3),
      of ext merge_annotations fill_slot "(replicate (length (ma_apis m)) None, [])"
        "\<lambda>(slots, w). omap (\<lambda>ss. WithWarnings ss w)
            (MergeSeriesSets ext (ma_antiAffinity m) (ma_antiAffinityDynamic m) (ma_preferMax m)
              (map the (filter (\<lambda>s. s \<noteq> None) slots)))" "\<lambda>(slots, w) err. NewSeriesSet [] w err" order]
  then show ?thesis unfolding scatterMerge_def by (auto split: prod.splits)
qed

text \<open>
  C2. A query over several APIs, when its context is not cancelled, no API panics and every successful answer names a
  label set once, succeeds exactly when every bucket of APIs with one key has
  the required number of successes: for every order of arrival it returns a series set,
  which carries an error if and only if the quorum is missed, and the series are those of
  the anti-affinity merge of the successful answers in API order, whatever arrived first.
\<close>

theorem MultiAPI_Query_quorum:
  assumes "NewMultiAPI apis aa dyn req pm = Inr m"
    and "\<forall>i<length apis. Query (apis ! i) query ts = Ret (vs i)"
    and "\<forall>i<length apis. ss_err (vs i) = None \<longrightarrow> labels_distinct (vs i)"
  shows "\<exists>ss. MultiAPI_Query ext m query ts (order, None) = Ret ss \<and>
    (ss_err ss = None \<longleftrightarrow> quorum m (\<lambda>i. set_answer (vs i))) \<and>
    (quorum m (\<lambda>i. set_answer (vs i)) \<longrightarrow>
       omap ss_series (MergeSeriesSets ext aa dyn pm (map vs (filter (\<lambda>i. ss_err (vs i) = None) [0..<length apis])))
         = Ret (ss_series ss))"
proof -
  note m = NewMultiAPI_ok [OF assms(1)] NewMultiAPI_apis [OF assms(1)]
  have ma: "ma_antiAffinity m = aa" "ma_antiAffinityDynamic m = dyn" "ma_preferMax m = pm"
    using assms(1) by (auto simp: NewMultiAPI_def Let_def split: if_splits)
  have calls: "\<forall>i<length (ma_apis m). (\<lambda>a. Query a query ts) (ma_apis m ! i) = Ret (vs i)"
    using assms(2) m(2) by simp
  show ?thesis
  proof (cases "quorum m (\<lambda>i. set_answer (vs i))")
    case True
    let ?sets = "map vs (filter (\<lambda>i. ss_err (vs i) = None) [0..<length apis])"
    obtain ss where ss: "MergeSeriesSets ext aa dyn pm ?sets = Ret ss" "ss_err ss = None"
      using MergeSeriesSets_total [of ?sets ext aa dyn pm] assms(3) by auto
    obtain w where "scatterMerge ext m (\<lambda>a. Query a query ts) (order, None) = Ret (WithWarnings ss w)"
      using scatterMerge_quorum [OF m(1) calls True, of ext order] ss by (auto simp: m(2) ma)
    with ss True show ?thesis by (simp add: MultiAPI_Query_def WithWarnings_def)
  next
    case False
    obtain w e where "scatterMerge ext m (\<lambda>a. Query a query ts) (order, None) = Ret (NewSeriesSet [] w (Some e))"
      using scatterMerge_no_quorum [OF m(1) calls False] by blast
    then show ?thesis using False by (simp add: MultiAPI_Query_def NewSeriesSet_def)
  qed
qed

theorem MultiAPI_Query_quorum_witness:
  "\<exists>ss. MultiAPI_Query example_ext example_multi ''up'' 0 ([2, 1, 0], None) = Ret ss \<and>
     (ss_err ss = None \<longleftrightarrow> quorum example_multi (\<lambda>i. set_answer EmptySeriesSet))"
  using MultiAPI_Query_quorum [OF example_multi_new, of "''up''" 0 "\<lambda>_. EmptySeriesSet" example_ext "[2, 1, 0]"]
  by (auto simp: example_apis_def names_api_def const_api_def All_less_Suc labels_distinct_def EmptySeriesSet_def NewSeriesSet_def)

lemma scatterMerge_error_iff:
  assumes "multi_ok m" "\<forall>i<length (ma_apis m). call (ma_apis m ! i) = Ret (vs i)"
    and "\<forall>i<length (ma_apis m). ss_err (vs i) = None \<longrightarrow> labels_distinct (vs i)"
  shows "\<exists>ss. scatterMerge ext m call (order, None) = Ret ss \<and> (ss_err ss = None \<longleftrightarrow> quorum m (\<lambda>i. set_answer (vs i)))"
proof (cases "quorum m (\<lambda>i. set_answer (vs i))")
  case True
  have "\<forall>s\<in>set (map vs (filter (\<lambda>i. ss_err (vs i) = None) [0..<length (ma_apis m)])). ss_err s = None \<and> labels_distinct s"
    using assms(3) by auto
  from MergeSeriesSets_total [OF this, of ext "ma_antiAffinity m" "ma_antiAffinityDynamic m" "ma_preferMax m"]
    scatterMerge_quorum [OF assms(1,2) True, of ext order] True
  show ?thesis by (auto simp: WithWarnings_def)
next
  case False
  from scatterMerge_no_quorum [OF assms(1,2) False] False show ?thesis by (fastforce simp: NewSeriesSet_def)
qed

text \<open>
  Replicas: in a \<open>MultiAPI\<close> over \<open>ErrorWrap\<close>ped targets with a required count of one, as
  a server group builds it, all targets share one bucket and a query fails only when every
  target fails, whatever keys the targets themselves have.
\<close>

lemma replicas_tolerate_failures:
  assumes "targets \<noteq> []" "apis = map (\<lambda>(a, msg). ErrorWrap a msg) targets"
    and "\<forall>i<length apis. Query (apis ! i) query ts = Ret (vs i)"
    and "\<forall>i<length apis. ss_err (vs i) = None \<longrightarrow> labels_distinct (vs i)"
  shows "\<exists>m ss. NewMultiAPI apis aa dyn 1 pm = Inr m \<and> MultiAPI_Query ext m query ts (order, None) = Ret ss \<and>
    (ss_err ss = None \<longleftrightarrow> (\<exists>i<length apis. ss_err (vs i) = None))"
proof -
  have "api_fingerprint a = 0" if "a \<in> set apis" for a
    using that assms(2) by (auto simp: api_fingerprint_def labels_key_def ErrorWrap_def)
  then have fps: "map api_fingerprint apis = replicate (length apis) 0" by (intro replicate_eqI) auto
  have ne: "apis \<noteq> []" using assms(1,2) by simp
  have count: "count_list (replicate n x) x = n" for n and x :: fingerprint by (induction n) auto
  obtain m where m: "NewMultiAPI apis aa dyn 1 pm = Inr m" "ma_apiFingerprints m = replicate (length apis) 0"
    "ma_requiredCount m = 1"
    using ne by (auto simp: NewMultiAPI_def Let_def list_ex_iff fps count)
  note m' = NewMultiAPI_ok [OF m(1)] NewMultiAPI_apis [OF m(1)]
  have q: "quorum m (\<lambda>i. set_answer (vs i)) \<longleftrightarrow> (\<exists>i<length apis. ss_err (vs i) = None)"
  proof -
    have "filter (\<lambda>i. replicate (length apis) (0 :: fingerprint) ! i = 0 \<and> ss_err (vs i) = None) [0..<length apis] =
        filter (\<lambda>i. ss_err (vs i) = None) [0..<length apis]"
      by (intro filter_cong) auto
    moreover have "set (replicate (length apis) (0 :: fingerprint)) = {0}" using ne by simp
    ultimately have "quorum m (\<lambda>i. set_answer (vs i)) \<longleftrightarrow> 1 \<le> int (length (filter (\<lambda>i. ss_err (vs i) = None) [0..<length apis]))"
      by (simp add: quorum_def m(2,3) m'(2) set_answer_def)
    also have "\<dots> \<longleftrightarrow> filter (\<lambda>i. ss_err (vs i) = None) [0..<length apis] \<noteq> []"
      by (cases "filter (\<lambda>i. ss_err (vs i) = None) [0..<length apis]") auto
    finally show ?thesis by (auto simp: filter_empty_conv)
  qed
  have "\<forall>i<length (ma_apis m). (\<lambda>a. Query a query ts) (ma_apis m ! i) = Ret (vs i)"
    "\<forall>i<length (ma_apis m). ss_err (vs i) = None \<longrightarrow> labels_distinct (vs i)"
    unfolding m'(2) by (fact assms(3), fact assms(4))
  from scatterMerge_error_iff [OF m'(1) this, of ext order]
  obtain ss where "MultiAPI_Query ext m query ts (order, None) = Ret ss"
      "ss_err ss = None \<longleftrightarrow> quorum m (\<lambda>i. set_answer (vs i))"
    unfolding MultiAPI_Query_def by (elim exE conjE)
  with m(1) q show ?thesis by (intro exI [of _ m] exI [of _ ss] conjI) simp_all
qed

text \<open>
  When APIs with different keys are all required and two of them fail, the error that is
  reported is that of whichever answers first, so the status of the answer does depend on
  the order in which the downstreams finish.
\<close>

lemma error_depends_on_arrival:
  assumes "ma_apis m = [a, b]" "ma_apiFingerprints m = [f, g]" "f \<noteq> g" "ma_requiredCount m = 1"
    and "LabelNames a matchers start end = Ret (va, wa, Some ea)" "LabelNames b matchers start end = Ret (vb, wb, Some eb)"
  shows "\<exists>w w'.
    MultiAPI_LabelNames ext m matchers start end ([0, 1], None) = Ret ([], w, NormalizePromError (ext_Unmarshal ext) (Some ea)) \<and>
    MultiAPI_LabelNames ext m matchers start end ([1, 0], None) = Ret ([], w', NormalizePromError (ext_Unmarshal ext) (Some eb))"
proof -
  have nz: "\<exists>y. NormalizePromError u (Some e) = Some y" for u e
    by (cases "NormalizePromError u (Some e)") auto
  obtain ya yb where y: "NormalizePromError (ext_Unmarshal ext) (Some ea) = Some ya" "NormalizePromError (ext_Unmarshal ext) (Some eb) = Some yb"
    using nz by blast
  show ?thesis
    using assms y
    by (simp add: MultiAPI_LabelNames_def fan_out_def arrivals_def upt_rec gather.simps(2) call_api_def with_warnings_def
        count_reply_def gather_init_def errorPicker_add_def errorPicker_zero_def add_warnings_def Let_def)
qed

section \<open>Series and metadata\<close>

lemma MergeLabelSets_spec:
  "labelSetToFingerprint ` set (MergeLabelSets a b) = labelSetToFingerprint ` (set a \<union> set b) \<and>
   set (MergeLabelSets a b) \<subseteq> set a \<union> set b \<and>
   (distinct (map labelSetToFingerprint a) \<longrightarrow> distinct (map labelSetToFingerprint (MergeLabelSets a b)))"
  unfolding MergeLabelSets_def
proof (induction b arbitrary: a)
  case (Cons x b)
  show ?case
    using Cons.IH [of a] Cons.IH [of "a @ [x]"] by (auto simp: Let_def insert_absorb image_Un)
qed simp

lemma merge_slots_spec:
  assumes "merge_slots MergeLabelSets slots r0 = r"
  shows "labelSetToFingerprint ` set (nilable r) =
      labelSetToFingerprint ` (set (nilable r0) \<union> (\<Union>s\<in>set slots. set (nilable s))) \<and>
    set (nilable r) \<subseteq> set (nilable r0) \<union> (\<Union>s\<in>set slots. set (nilable s)) \<and>
    ((\<forall>s\<in>set slots. distinct (map labelSetToFingerprint (nilable s))) \<longrightarrow>
     distinct (map labelSetToFingerprint (nilable r0)) \<longrightarrow> distinct (map labelSetToFingerprint (nilable r)))"
  using assms
proof (induction "MergeLabelSets" slots r0 arbitrary: r rule: merge_slots.induct)
  case (4 v slots r0)
  from 4(1) [of r] 4(2) MergeLabelSets_spec [of r0 v] show ?case
    by (auto simp: nilable_def image_Un)
qed (auto simp: nilable_def)

definition lookup_first :: "metadata_map list \<Rightarrow> string \<Rightarrow> metadata list option" where
  "lookup_first ms k = (case find (\<lambda>m. map_of m k \<noteq> None) ms of Some m \<Rightarrow> map_of m k | None \<Rightarrow> None)"

lemma put_missing_fold:
  "map_of (fold (\<lambda>(k, vv) r. if map_of r k = None then smap_put k vv r else r) kvs r) = map_of kvs ++ map_of r"
proof (induction kvs arbitrary: r)
  case (Cons kv kvs)
  obtain k v where kv: "kv = (k, v)" by (cases kv)
  show ?case
    using Cons.IH by (auto simp: kv label_simps map_add_def fun_eq_iff split: option.splits)
qed simp

lemma merge_metadata_Some:
  "\<exists>r'. merge_metadata (Some r) (Some kvs) = Ret (Some r') \<and> map_of r' = map_of kvs ++ map_of r"
  by (simp add: merge_metadata_def put_missing_fold)

lemma merge_metadata_slots_spec:
  assumes "\<forall>s\<in>set slots. s \<noteq> Some None"
  shows "\<exists>r'. merge_metadata_slots slots (Some (Some r)) = Ret (Some r') \<and>
    (\<forall>k. map_of r' k = lookup_first (r # map the (map the (filter (\<lambda>s. s \<noteq> None) slots))) k)"
  using assms
proof (induction slots arbitrary: r)
  case Nil
  then show ?case by (auto simp: lookup_first_def)
next
  case (Cons s slots)
  show ?case
  proof (cases s)
    case None
    with Cons show ?thesis by simp
  next
    case (Some v)
    with Cons.prems obtain kvs where v: "v = Some kvs" by auto
    obtain r1 where r1: "merge_metadata (Some r) (Some kvs) = Ret (Some r1)" "map_of r1 = map_of kvs ++ map_of r"
      using merge_metadata_Some by blast
    have "lookup_first (r1 # ms) k = lookup_first (r # kvs # ms) k" for ms k
      using r1(2) by (auto simp: lookup_first_def map_add_def split: option.splits)
    with Cons.IH [of r1] Cons.prems Some v r1(1) show ?thesis by simp
  qed
qed

section \<open>One member per key\<close>

lemma mset_rotated: "mset (rotated r members) = mset members"
proof (cases "members = []")
  case False
  let ?n = "length members"
  have "rotated r members = rotate r members"
    using False by (intro nth_equalityI) (simp_all add: rotated_def nth_rotate)
  moreover have "mset (rotate r members) = mset members"
    by (metis append_take_drop_id mset_append rotate_drop_take union_commute)
  ultimately show ?thesis by simp
qed (simp add: rotated_def)

lemma NormalizePromError_None: "NormalizePromError u None = None"
  by simp

lemma ask_members_spec:
  assumes "\<forall>i\<in>set is. \<exists>v err. Metadata (ma_apis m ! i) metric limit = Ret (v, err)"
  shows "if \<exists>i\<in>set is. \<exists>v. Metadata (ma_apis m ! i) metric limit = Ret (v, None)
    then \<exists>v. ask_members ext m metric limit is errs = Ret (Inr v) \<and>
      (\<exists>i\<in>set is. Metadata (ma_apis m ! i) metric limit = Ret (v, None))
    else \<exists>errs'. ask_members ext m metric limit is errs = Ret (Inl errs') \<and> (is \<noteq> [] \<or> ep_err errs \<noteq> None \<longrightarrow> ep_err errs' \<noteq> None)"
  using assms
proof (induction "is" arbitrary: errs)
  case (Cons i "is")
  obtain v err where call: "Metadata (ma_apis m ! i) metric limit = Ret (v, err)" using Cons.prems by auto
  show ?case
  proof (cases err)
    case None
    with call show ?thesis by (auto simp: NormalizePromError_None)
  next
    case (Some e)
    obtain e' where e': "NormalizePromError (ext_Unmarshal ext) (Some e) = Some e'"
      by (cases "NormalizePromError (ext_Unmarshal ext) (Some e)") auto
    have "ep_err (errorPicker_add i e' errs) \<noteq> None"
      by (auto simp: errorPicker_add_def Let_def)
    then show ?thesis
      using Cons.IH [of "errorPicker_add i e' errs"] Cons.prems call Some e' by (auto split: if_splits)
  qed
qed auto

section \<open>Properties of Series and the metadata calls\<close>

text \<open>
  C24. \<open>Series\<close>: when the call succeeds, whatever the order of arrival, the result is one and
  the same list (the slots are merged in API order), it has exactly the series of the APIs
  that answered, up to the label fingerprint, and no series twice when no API repeats one.
\<close>

theorem MultiAPI_Series_correct:
  assumes "NewMultiAPI apis aa dyn req pm = Inr m"
    and "\<forall>i<length apis. Series (apis ! i) matches start end = Ret (vs i)"
  shows "if quorum m (\<lambda>i. split_answer (vs i))
    then \<exists>r. (\<forall>order. MultiAPI_Series ext m matches start end (order, None) =
          Ret (r, sorted_list_of_set (\<Union>i<length apis. set (ans_w (vs i))), None)) \<and>
      labelSetToFingerprint ` set r =
        labelSetToFingerprint ` (\<Union>i\<in>{i. i < length apis \<and> ans_e (vs i) = None}. set (ans_v (vs i))) \<and>
      ((\<forall>i<length apis. distinct (map labelSetToFingerprint (ans_v (vs i)))) \<longrightarrow> distinct (map labelSetToFingerprint r))
    else \<forall>order. \<exists>w e. MultiAPI_Series ext m matches start end (order, None) = Ret ([], w, Some e)"
proof -
  note m = NewMultiAPI_ok [OF assms(1)] NewMultiAPI_apis [OF assms(1)]
  let ?vs = "\<lambda>i. split_answer (vs i)"
  have ans: "answers m (\<lambda>a. with_warnings (Series a matches start end)) ?vs"
    using assms(2) m(2) by (intro answers_split) simp
  let ?slots = "map (\<lambda>i. if ans_e (vs i) = None then Some (ans_v (vs i)) else None) [0..<length apis]"
  let ?r = "merge_slots MergeLabelSets ?slots None"
  show ?thesis
  proof (cases "quorum m ?vs")
    case True
    have eq: "MultiAPI_Series ext m matches start end (order, None) =
        Ret (nilable ?r, sorted_list_of_set (\<Union>i<length apis. set (ans_w (vs i))), None)" for order
    proof -
      let ?acc = "fold (take_reply add_warnings fill_slot_value) (replies ext m ?vs order) (replicate (length (ma_apis m)) None, [])"
      have "MultiAPI_Series ext m matches start end (order, None) =
          Ret (nilable (merge_slots MergeLabelSets (fst ?acc) None), Warnings (snd ?acc), None)"
        by (simp add: MultiAPI_Series_def fan_out_quorum [OF m(1) ans True] nilable_def split_beta)
      moreover have "fst ?acc = ?slots"
        using series_slots.slots_filled [of ext m ?vs order "[]"] by (simp add: m(2))
      moreover have "Warnings (snd ?acc) = sorted_list_of_set (\<Union>i<length apis. set (ans_w (vs i)))"
        using series_warnings.warnings_union [of ext m ?vs order] by (simp add: m(2))
      ultimately show ?thesis by simp
    qed
    have U: "(\<Union>s\<in>set ?slots. set (nilable s)) = (\<Union>i\<in>{i. i < length apis \<and> ans_e (vs i) = None}. set (ans_v (vs i)))"
      by (auto simp: nilable_def split: if_splits)
    show ?thesis
      using merge_slots_spec [of ?slots None ?r] eq True unfolding U
      by (auto simp: nilable_def [of None] nilable_def [of "Some _"] intro!: exI [of _ "nilable ?r"])
  next
    case False
    from fan_out_no_quorum [OF m(1) ans False, of ext add_warnings fill_slot_value "(replicate (length (ma_apis m)) None, [])"
        "\<lambda>(slots, w). Ret ((case merge_slots MergeLabelSets slots None of Some r \<Rightarrow> r | None \<Rightarrow> []), Warnings w, None)"
        "\<lambda>(slots, w) err. ([], Warnings w, err)"]
    show ?thesis using False by (fastforce simp: MultiAPI_Series_def split: prod.splits)
  qed
qed

lemma metadata_slots_result:
  assumes "multi_ok m" "\<forall>i<length (ma_apis m). Metadata (ma_apis m ! i) metric limit = Ret (vs i)" "quorum m vs"
  shows "MultiAPI_Metadata ext m metric limit (order, None) =
    omap (\<lambda>r. (r, None)) (merge_metadata_slots (map (\<lambda>i. if snd (vs i) = None then Some (fst (vs i)) else None) [0..<length (ma_apis m)]) None)"
proof -
  have ans: "answers m (\<lambda>a. Metadata a metric limit) vs" using assms(2) by (simp add: answers_def)
  show ?thesis
    using metadata_slots.slots_filled [of ext m vs order "()"]
    by (simp add: MultiAPI_Metadata_def fan_out_quorum [OF assms(1) ans assms(3)] split_beta cong: if_cong)
qed

lemma merge_metadata_slots_ok:
  assumes "\<forall>s\<in>set slots. s \<noteq> Some None" "\<exists>s\<in>set slots. s \<noteq> None"
  shows "\<exists>r'. merge_metadata_slots slots None = Ret (Some r') \<and>
    (\<forall>k. map_of r' k = lookup_first (map the (map the (filter (\<lambda>s. s \<noteq> None) slots))) k)"
  using assms
proof (induction slots)
  case (Cons s slots)
  show ?case
  proof (cases s)
    case None
    with Cons show ?thesis by simp
  next
    case (Some v)
    with Cons.prems obtain kvs where "v = Some kvs" by auto
    with merge_metadata_slots_spec [of slots kvs] Cons.prems Some show ?thesis by simp
  qed
qed simp

lemma filled_slots:
  "map the (map the (filter (\<lambda>s. s \<noteq> None) (map (\<lambda>i. if snd (vs i) = None then Some (fst (vs i)) else None) is))) =
     map (\<lambda>i. the (fst (vs i))) (filter (\<lambda>i. snd (vs i) = None) is)"
  by (induction "is") auto

definition series_api :: "labelset list \<Rightarrow> api" where
  "series_api ls = const_api ([], [], None) (None, [], None) EmptySeriesSet (ls, [], None) (None, None) ([], None) None"

theorem MultiAPI_Series_correct_witness:
  "\<exists>r. (\<forall>order. MultiAPI_Series example_ext
        (example_multi\<lparr>ma_apis := [series_api [[(''a'', ''1'')]], series_api [[(''a'', ''1'')], [(''b'', ''2'')]]], ma_apiFingerprints := [0, 0]\<rparr>)
        [] 0 0 (order, None) = Ret (r, [], None)) \<and>
     labelSetToFingerprint ` set r = labelSetToFingerprint ` {[(''a'', ''1'')], [(''b'', ''2'')]} \<and>
     distinct (map labelSetToFingerprint r)"
proof -
  let ?apis = "[series_api [[(''a'', ''1'')]], series_api [[(''a'', ''1'')], [(''b'', ''2'')]]]"
  let ?m = "example_multi\<lparr>ma_apis := ?apis, ma_apiFingerprints := [0, 0]\<rparr>"
  let ?vs = "\<lambda>i. (if i = 0 then [[(''a'', ''1'')]] else [[(''a'', ''1'')], [(''b'', ''2'')]], [] :: warnings, None :: go_error option)"
  have new: "NewMultiAPI ?apis 0 False 1 False = Inr ?m"
    by (simp add: NewMultiAPI_def example_multi_def series_api_def const_api_def api_fingerprint_def labels_key_def Let_def)
  have "\<forall>i<length ?apis. Series (?apis ! i) [] 0 0 = Ret (?vs i)"
    by (simp add: series_api_def const_api_def All_less_Suc)
  moreover have "quorum ?m (\<lambda>i. split_answer (?vs i))"
    by (simp add: quorum_def example_multi_def split_answer_def upt_rec)
  moreover have "{i. i < length ?apis \<and> ans_e (?vs i) = None} = {0, 1}" by (auto simp: less_Suc_eq)
  moreover have "labelSetToFingerprint [(''a'', ''1'')] \<noteq> labelSetToFingerprint [(''b'', ''2'')]" by code_simp
  moreover have "(\<Union>i<length ?apis. set (ans_w (?vs i))) = {}" by simp
  ultimately show ?thesis
    using MultiAPI_Series_correct [OF new, of "[]" 0 0 ?vs example_ext] by (simp add: All_less_Suc insert_commute)
qed

text \<open>
  C25. \<open>Metadata\<close>: when every API that answers gives a map that is not nil, the merge is
  first-writer-wins in API order: the entry of a metric is that of the first API, in the
  order of the configuration, whose answer has it; the order of arrival plays no role.
\<close>

theorem MultiAPI_Metadata_first_writer:
  assumes "NewMultiAPI apis aa dyn req pm = Inr m" "apis \<noteq> []" "0 < req"
    and "\<forall>i<length apis. Metadata (apis ! i) metric limit = Ret (vs i)"
    and "\<forall>i<length apis. snd (vs i) = None \<longrightarrow> fst (vs i) \<noteq> None"
  shows "if quorum m vs
    then \<exists>r. (\<forall>order. MultiAPI_Metadata ext m metric limit (order, None) = Ret (Some r, None)) \<and>
      (\<forall>k. map_of r k = lookup_first (map (\<lambda>i. the (fst (vs i))) (filter (\<lambda>i. snd (vs i) = None) [0..<length apis])) k)
    else \<forall>order. \<exists>e. MultiAPI_Metadata ext m metric limit (order, None) = Ret (None, Some e)"
proof -
  note m = NewMultiAPI_ok [OF assms(1)] NewMultiAPI_apis [OF assms(1)]
  let ?slots = "map (\<lambda>i. if snd (vs i) = None then Some (fst (vs i)) else None) [0..<length apis]"
  show ?thesis
  proof (cases "quorum m vs")
    case True
    have fps: "ma_apiFingerprints m \<noteq> []" using m assms(2) by (auto simp: multi_ok_def)
    have req: "ma_requiredCount m = req" using assms(1) by (auto simp: NewMultiAPI_def Let_def split: if_splits)
    have "\<exists>i<length apis. snd (vs i) = None"
    proof -
      from fps True assms(3) have "filter (\<lambda>i. ma_apiFingerprints m ! i = hd (ma_apiFingerprints m) \<and> snd (vs i) = None) [0..<length apis] \<noteq> []"
        by (auto simp: quorum_def m(2) req dest!: bspec [OF _ hd_in_set])
      then show ?thesis by (auto simp: filter_empty_conv)
    qed
    then have some: "\<exists>s\<in>set ?slots. s \<noteq> None" by (fastforce split: if_splits)
    have nonnil: "\<forall>s\<in>set ?slots. s \<noteq> Some None" using assms(5) by auto
    obtain r where "merge_metadata_slots ?slots None = Ret (Some r)"
      "\<forall>k. map_of r k = lookup_first (map (\<lambda>i. the (fst (vs i))) (filter (\<lambda>i. snd (vs i) = None) [0..<length apis])) k"
      using merge_metadata_slots_ok [OF nonnil some] unfolding filled_slots by (elim exE conjE) rule
    moreover have "MultiAPI_Metadata ext m metric limit (order, None) = omap (\<lambda>r. (r, None)) (merge_metadata_slots ?slots None)" for order
      using metadata_slots_result [OF m(1) _ True, of metric limit ext order] assms(4) m(2) by simp
    ultimately show ?thesis using True by auto
  next
    case False
    have ans: "answers m (\<lambda>a. Metadata a metric limit) vs" using assms(4) m(2) by (simp add: answers_def)
    show ?thesis
      using False fan_out_no_quorum [OF m(1) ans False, of ext "\<lambda>_ acc. acc" fill_slot "(replicate (length (ma_apis m)) None, ())"
          "\<lambda>(slots, _). omap (\<lambda>r. (r, None)) (merge_metadata_slots slots None)" "\<lambda>_ err. (None, err)"]
      by (auto simp: MultiAPI_Metadata_def)
  qed
qed

definition metadata_api :: "metadata_map option \<Rightarrow> go_error option \<Rightarrow> api" where
  "metadata_api md err = const_api ([], [], None) (None, [], None) EmptySeriesSet ([], [], None) (md, err) ([], None) None"

abbreviation counter_md :: metadata where
  "counter_md \<equiv> \<lparr>md_Type = ''counter'', md_Help = [], md_Unit = []\<rparr>"

abbreviation gauge_md :: metadata where
  "gauge_md \<equiv> \<lparr>md_Type = ''gauge'', md_Help = [], md_Unit = []\<rparr>"

theorem MultiAPI_Metadata_first_writer_witness:
  "\<exists>r. (\<forall>order. MultiAPI_Metadata example_ext
        (example_multi\<lparr>ma_apis := [metadata_api (Some [(''up'', [gauge_md])]) None, metadata_api (Some [(''up'', [counter_md]), (''x'', [])]) None],
           ma_apiFingerprints := [0, 0]\<rparr>) [] [] (order, None) = Ret (Some r, None)) \<and>
     map_of r ''up'' = Some [gauge_md] \<and> map_of r ''x'' = Some []"
proof -
  let ?apis = "[metadata_api (Some [(''up'', [gauge_md])]) None, metadata_api (Some [(''up'', [counter_md]), (''x'', [])]) None]"
  let ?m = "example_multi\<lparr>ma_apis := ?apis, ma_apiFingerprints := [0, 0]\<rparr>"
  let ?vs = "\<lambda>i. (Some (if i = 0 then [(''up'', [gauge_md])] else [(''up'', [counter_md]), (''x'', [])]), None :: go_error option)"
  have new: "NewMultiAPI ?apis 0 False 1 False = Inr ?m"
    by (simp add: NewMultiAPI_def example_multi_def metadata_api_def const_api_def api_fingerprint_def labels_key_def Let_def)
  have "\<forall>i<length ?apis. Metadata (?apis ! i) [] [] = Ret (?vs i)"
    by (simp add: metadata_api_def const_api_def All_less_Suc)
  moreover have "quorum ?m ?vs"
    by (simp add: quorum_def example_multi_def upt_rec)
  ultimately obtain r where "\<forall>order. MultiAPI_Metadata example_ext ?m [] [] (order, None) = Ret (Some r, None)"
    "\<forall>k. map_of r k = lookup_first [[(''up'', [gauge_md])], [(''up'', [counter_md]), (''x'', [])]] k"
    using MultiAPI_Metadata_first_writer [OF new, of "[]" "[]" ?vs example_ext] by (auto simp: upt_rec)
  then show ?thesis by (auto simp: lookup_first_def)
qed

text \<open>
  \<open>Metadata\<close> can panic: when the first API answers with a nil map and no error, and the
  second with a map that has an entry, the merge writes to the nil map, in every order of
  arrival. (An API gives a nil map when its response has no data.)
\<close>

lemma MultiAPI_Metadata_nil_panics:
  assumes "NewMultiAPI [a, b] aa dyn req pm = Inr m"
    and "Metadata a metric limit = Ret (None, None)" "Metadata b metric limit = Ret (Some kvs, None)" "kvs \<noteq> []"
  shows "MultiAPI_Metadata ext m metric limit (order, None) = Panic ''assignment to entry in nil map''"
proof -
  note m = NewMultiAPI_ok [OF assms(1)] NewMultiAPI_apis [OF assms(1)]
  let ?vs = "\<lambda>i. (if i = 0 then None else Some kvs, None :: go_error option)"
  have fps: "map ((!) (ma_apiFingerprints m)) [0..<length [a, b]] = ma_apiFingerprints m"
    using m by (metis map_nth multi_ok_def)
  have "quorum m ?vs"
    unfolding quorum_def
  proof
    fix fp assume "fp \<in> set (ma_apiFingerprints m)"
    then have "ma_requiredCount m \<le> int (count_list (ma_apiFingerprints m) fp)" using m(1) by (simp add: multi_ok_def)
    also have "count_list (ma_apiFingerprints m) fp = length (filter (\<lambda>i. ma_apiFingerprints m ! i = fp) [0..<length [a, b]])"
      by (subst fps [symmetric]) (simp add: count_list_eq_length_filter filter_map comp_def eq_commute)
    finally show "ma_requiredCount m \<le> int (length (filter (\<lambda>i. ma_apiFingerprints m ! i = fp \<and> snd (?vs i) = None) [0..<length (ma_apis m)]))"
      by (simp add: m(2))
  qed
  moreover have "\<forall>i<length (ma_apis m). Metadata (ma_apis m ! i) metric limit = Ret (?vs i)"
    using assms by (simp add: m(2) All_less_Suc)
  ultimately show ?thesis
    using metadata_slots_result [OF m(1), of metric limit ?vs ext order] assms(4)
    by (simp add: m(2) upt_rec merge_metadata_def)
qed

lemma ask_rotated:
  assumes "\<forall>i\<in>set members. \<exists>v err. Metadata (ma_apis m ! i) metric limit = Ret (v, err)" "members \<noteq> []"
  shows "if \<exists>i\<in>set members. \<exists>v. Metadata (ma_apis m ! i) metric limit = Ret (v, None)
    then \<exists>v. ask_members ext m metric limit (rotated r members) errorPicker_zero = Ret (Inr v) \<and>
      (\<exists>i\<in>set members. Metadata (ma_apis m ! i) metric limit = Ret (v, None))
    else \<exists>errs'. ask_members ext m metric limit (rotated r members) errorPicker_zero = Ret (Inl errs') \<and> ep_err errs' \<noteq> None"
proof -
  have s: "set (rotated r members) = set members" using mset_rotated [of r members] by (metis set_mset_mset)
  then have "rotated r members \<noteq> []" using assms(2) by auto
  with ask_members_spec [of "rotated r members" m metric limit ext errorPicker_zero] assms(1) show ?thesis
    unfolding s by (auto split: if_splits)
qed

definition group_answers :: "multi_api \<Rightarrow> string \<Rightarrow> string \<Rightarrow> nat list \<Rightarrow> bool" where
  "group_answers m metric limit members \<longleftrightarrow> (\<exists>i\<in>set members. \<exists>v. Metadata (ma_apis m ! i) metric limit = Ret (v, None))"

lemma merge_metadata_not_nil: "result \<noteq> None \<Longrightarrow> \<exists>r. merge_metadata result md = Ret r"
  by (auto simp: merge_metadata_def split: option.split)

lemma metadata_groups_spec:
  assumes "\<forall>members\<in>set groups. members \<noteq> [] \<and> (\<forall>i\<in>set members. \<exists>v err. Metadata (ma_apis m ! i) metric limit = Ret (v, err))"
  shows "\<exists>md err. metadata_groups ext m metric limit r groups result = Ret (md, err) \<and>
    (err = None \<longleftrightarrow> (\<forall>members\<in>set groups. group_answers m metric limit members)) \<and> (err \<noteq> None \<longrightarrow> md = None)"
  using assms
proof (induction groups arbitrary: result)
  case (Cons members groups)
  from Cons.prems have mem: "members \<noteq> []" "\<forall>i\<in>set members. \<exists>v err. Metadata (ma_apis m ! i) metric limit = Ret (v, err)"
    by auto
  show ?case
  proof (cases "group_answers m metric limit members")
    case True
    then obtain v where v: "ask_members ext m metric limit (rotated r members) errorPicker_zero = Ret (Inr v)"
      using ask_rotated [OF mem(2,1), of ext r] by (auto simp: group_answers_def split: if_splits)
    show ?thesis
    proof (cases "result = None")
      case True': True
      show ?thesis using Cons.IH [of v] Cons.prems v True True' by auto
    next
      case False
      then obtain r' where "merge_metadata result v = Ret r'" using merge_metadata_not_nil by blast
      then show ?thesis using Cons.IH [of r'] Cons.prems v True False by auto
    qed
  next
    case False
    then obtain errs where "ask_members ext m metric limit (rotated r members) errorPicker_zero = Ret (Inl errs)" "ep_err errs \<noteq> None"
      using ask_rotated [OF mem(2,1), of ext r] by (auto simp: group_answers_def split: if_splits)
    then show ?thesis using False by (auto simp: errors_Wrap_def)
  qed
qed simp

lemma key_groups_members:
  assumes "members \<in> set (map snd (key_groups fps))"
  shows "members \<noteq> [] \<and> set members \<subseteq> {0..<length fps}"
proof -
  from assms obtain fp where fp: "fp \<in> set fps" "members = filter (\<lambda>i. fps ! i = fp) [0..<length fps]"
    by (auto simp: key_groups_def)
  from fp(1) obtain i where "i < length fps" "fps ! i = fp" by (auto simp: in_set_conv_nth)
  then show ?thesis using fp(2) by (auto simp: filter_empty_conv)
qed
text \<open>
  \<open>MetadataOnePerKey\<close> always returns (the merge never writes to a nil map, unlike the one
  of \<open>Metadata\<close>), it advances the rotation, and it fails exactly when some group of replicas
  has no member that answers, whatever the rotation.
\<close>

lemma MultiAPI_MetadataOnePerKey_correct:
  assumes "NewMultiAPI apis aa dyn req pm = Inr m0" "m = m0\<lparr>ma_metadataRotation := rot\<rparr>"
    and "\<forall>i<length apis. Metadata (apis ! i) metric limit = Ret (vs i)"
  shows "\<exists>md err. MultiAPI_MetadataOnePerKey ext m metric limit =
      Ret ((md, err), m\<lparr>ma_metadataRotation := rot + 1\<rparr>) \<and>
    (err = None \<longleftrightarrow> (\<forall>fp\<in>set (ma_apiFingerprints m). \<exists>i<length apis. ma_apiFingerprints m ! i = fp \<and> snd (vs i) = None)) \<and>
    (err \<noteq> None \<longrightarrow> md = None)"
proof -
  note m0 = NewMultiAPI_ok [OF assms(1)] NewMultiAPI_apis [OF assms(1)]
  let ?fps = "ma_apiFingerprints m" and ?groups = "map snd (key_groups (ma_apiFingerprints m))"
  have apis: "ma_apis m = apis" "length ?fps = length apis" using m0 assms(2) by (auto simp: multi_ok_def)
  have "\<forall>members\<in>set ?groups. members \<noteq> [] \<and> (\<forall>i\<in>set members. \<exists>v err. Metadata (ma_apis m ! i) metric limit = Ret (v, err))"
    using key_groups_members [of _ ?fps] assms(3) apis by (metis atLeastLessThan_iff prod.exhaust subsetD)
  from metadata_groups_spec [OF this, of ext "unat rot" None] obtain md err where
    g: "metadata_groups ext m metric limit (unat rot) ?groups None = Ret (md, err)" and
    e: "err = None \<longleftrightarrow> (\<forall>members\<in>set ?groups. group_answers m metric limit members)" "err \<noteq> None \<longrightarrow> md = None" by auto
  have "group_answers m metric limit (filter (\<lambda>i. ?fps ! i = fp) [0..<length ?fps]) \<longleftrightarrow>
      (\<exists>i<length apis. ?fps ! i = fp \<and> snd (vs i) = None)" for fp
    using assms(3) apis by (force simp: group_answers_def prod_eq_iff)
  then have "err = None \<longleftrightarrow> (\<forall>fp\<in>set ?fps. \<exists>i<length apis. ?fps ! i = fp \<and> snd (vs i) = None)"
    unfolding e(1) by (simp add: key_groups_def)
  moreover have "MultiAPI_MetadataOnePerKey ext m metric limit = Ret ((md, err), m\<lparr>ma_metadataRotation := rot + 1\<rparr>)"
    using g assms(2) by (simp add: MultiAPI_MetadataOnePerKey_def)
  ultimately show ?thesis using e(2) by blast
qed

end
