(* ===== verification/Promxy_Promql.thy ===== *)
theory Promxy_Promql
  imports Promxy_MultiApi
begin

text \<open>
  PromQL expressions as promxy handles them: matchers (\<open>labels.Matcher\<close>, \<open>MatcherToString\<close>),
  the nodes of the parser's syntax tree, \<open>parser.Walk\<close> with the visitors of
  \<open>src/pkg/promclient/util.go\<close>, and the meaning of a selector on a label set. The parser
  and the printer of expressions are parameters.
\<close>

section \<open>Matchers\<close>

definition is_regex :: "match_type \<Rightarrow> bool" where
  "is_regex t \<longleftrightarrow> t = MatchRegexp \<or> t = MatchNotRegexp"

definition NewMatcher :: "externals \<Rightarrow> match_type \<Rightarrow> string \<Rightarrow> string \<Rightarrow> go_error + matcher" where
  "NewMatcher ext t n v =
     (if is_regex t \<and> \<not> ext_RegexOk ext v then Inl (OtherError ''error parsing regexp'')
      else Inr \<lparr>m_Type = t, m_Name = n, m_Value = v, m_compiled = is_regex t\<rparr>)"

text \<open>A regular expression that was never compiled is a nil pointer.\<close>

definition Matches :: "externals \<Rightarrow> matcher \<Rightarrow> string \<Rightarrow> bool outcome" where
  "Matches ext m s =
     (case m_Type m of
        MatchEqual \<Rightarrow> Ret (s = m_Value m)
      | MatchNotEqual \<Rightarrow> Ret (s \<noteq> m_Value m)
      | MatchRegexp \<Rightarrow> (if m_compiled m then Ret (ext_MatchString ext (m_Value m) s) else Panic ''nil pointer dereference'')
      | MatchNotRegexp \<Rightarrow> (if m_compiled m then Ret (\<not> ext_MatchString ext (m_Value m) s) else Panic ''nil pointer dereference''))"

definition SetMatches :: "externals \<Rightarrow> matcher \<Rightarrow> string list" where
  "SetMatches ext m = (if is_regex (m_Type m) \<and> m_compiled m then ext_SetMatches ext (m_Value m) else [])"

text \<open>
  \<open>strconv.Quote\<close> on the bytes of a string; \<open>isPrint\<close> decides which encoded runes beyond
  ASCII are printable and \<open>escape\<close> writes the others.
\<close>

definition hex_digit :: "nat \<Rightarrow> char" where
  "hex_digit n = (''0123456789abcdef'' ! n)"

definition hex_byte :: "char \<Rightarrow> string" where
  "hex_byte c = [CHR 0x5C, CHR ''x'', hex_digit (byte c div 16), hex_digit (byte c mod 16)]"

definition quote_ascii :: "char \<Rightarrow> string" where
  "quote_ascii c =
     (if c = CHR 0x22 \<or> c = CHR 0x5C then [CHR 0x5C, c]
      else if 32 \<le> byte c \<and> byte c < 127 then [c]
      else if byte c = 7 then [CHR 0x5C, CHR ''a''] else if byte c = 8 then [CHR 0x5C, CHR ''b'']
      else if byte c = 12 then [CHR 0x5C, CHR ''f''] else if byte c = 10 then [CHR 0x5C, CHR ''n'']
      else if byte c = 13 then [CHR 0x5C, CHR ''r''] else if byte c = 9 then [CHR 0x5C, CHR ''t'']
      else if byte c = 11 then [CHR 0x5C, CHR ''v''] else hex_byte c)"

text \<open>The code point of a multi-byte UTF-8 sequence, and its \<open>\u\<close> or \<open>\U\<close> escape.\<close>

definition rune_of :: "string \<Rightarrow> nat" where
  "rune_of bs =
     (case map byte bs of
        [a, b] \<Rightarrow> (a - 192) * 64 + (b - 128)
      | [a, b, c] \<Rightarrow> ((a - 224) * 64 + (b - 128)) * 64 + (c - 128)
      | [a, b, c, d] \<Rightarrow> (((a - 240) * 64 + (b - 128)) * 64 + (c - 128)) * 64 + (d - 128)
      | _ \<Rightarrow> 0)"

fun hex_digits :: "nat \<Rightarrow> nat \<Rightarrow> string" where
  "hex_digits 0 n = []"
| "hex_digits (Suc k) n = hex_digits k (n div 16) @ [hex_digit (n mod 16)]"

definition escape_rune :: "string \<Rightarrow> string" where
  "escape_rune bs =
     (if rune_of bs < 65536 then [CHR 0x5C, CHR ''u''] @ hex_digits 4 (rune_of bs)
      else [CHR 0x5C, CHR ''U''] @ hex_digits 8 (rune_of bs))"

fun quote_body :: "(string \<Rightarrow> bool) \<Rightarrow> string \<Rightarrow> string" where
  "quote_body isPrint [] = []"
| "quote_body isPrint (c # cs) =
     (let n = utf8_width (c # cs); r = take n (c # cs)
      in (if n = 0 then hex_byte c else if n = 1 then quote_ascii c
          else if isPrint r then r else escape_rune r) @
         quote_body isPrint (drop (n - 1) cs))"

definition Quote :: "(string \<Rightarrow> bool) \<Rightarrow> string \<Rightarrow> string" where
  "Quote isPrint s = [CHR 0x22] @ quote_body isPrint s @ [CHR 0x22]"

section \<open>Syntax trees\<close>

datatype value_type = ValueTypeNone | ValueTypeScalar | ValueTypeVector | ValueTypeMatrix | ValueTypeString

text \<open>The operators promxy tells apart; every other item of the lexer is \<open>Op_other\<close>.\<close>

datatype item =
    Op_SUM | Op_MIN | Op_MAX | Op_TOPK | Op_BOTTOMK | Op_GROUP | Op_AVG | Op_COUNT | Op_COUNT_VALUES
  | Op_QUANTILE | Op_STDDEV | Op_STDVAR | Op_LIMITK | Op_LIMIT_RATIO | Op_DIV | Op_other nat

text \<open>
  A vector selector without its position and the fields of the experimental duration
  expressions, which promxy neither reads nor writes.
\<close>

record vector_selector =
  vs_Name :: string
  vs_OriginalOffset :: duration
  vs_Timestamp :: "int option"
  vs_StartOrEnd :: nat
  vs_LabelMatchers :: "matcher list"
  vs_LookbackDelta :: duration
  vs_UnexpandedSeriesSet :: "series_set option"

record subquery =
  sq_Range :: duration
  sq_OriginalOffset :: duration
  sq_Offset :: duration
  sq_Timestamp :: "int option"
  sq_StartOrEnd :: nat
  sq_Step :: duration

record vector_matching =
  vm_Card :: nat
  vm_MatchingLabels :: "string list"
  vm_On :: bool
  vm_Include :: "string list"

record promql_function =
  fn_Name :: string
  fn_ReturnType :: value_type

datatype expr =
    AggregateExpr item expr "expr option" "string list" bool
  | BinaryExpr item expr expr "vector_matching option" bool
  | Call promql_function "expr list"
  | MatrixSelector vector_selector duration
  | SubqueryExpr expr subquery
  | NumberLiteral f64
  | ParenExpr expr
  | StringLiteral string
  | UnaryExpr item expr
  | StepInvariantExpr expr
  | VectorSelector vector_selector

fun expr_Type :: "expr \<Rightarrow> value_type" where
  "expr_Type (AggregateExpr _ _ _ _ _) = ValueTypeVector"
| "expr_Type (BinaryExpr _ l r _ _) =
     (if expr_Type l = ValueTypeScalar \<and> expr_Type r = ValueTypeScalar then ValueTypeScalar else ValueTypeVector)"
| "expr_Type (Call f _) = fn_ReturnType f"
| "expr_Type (MatrixSelector _ _) = ValueTypeMatrix"
| "expr_Type (SubqueryExpr _ _) = ValueTypeMatrix"
| "expr_Type (NumberLiteral _) = ValueTypeScalar"
| "expr_Type (ParenExpr e) = expr_Type e"
| "expr_Type (StringLiteral _) = ValueTypeString"
| "expr_Type (UnaryExpr _ e) = expr_Type e"
| "expr_Type (StepInvariantExpr e) = expr_Type e"
| "expr_Type (VectorSelector _) = ValueTypeVector"

text \<open>The parser package: parsing, printing, and which runes are printable.\<close>

record promql =
  pq_ParseExpr :: "string \<Rightarrow> go_error + expr"
  pq_ParseMetricSelector :: "string \<Rightarrow> go_error + matcher list"
  pq_String :: "expr \<Rightarrow> string"
  pq_IsPrint :: "string \<Rightarrow> bool"

definition matcher_type_string :: "match_type \<Rightarrow> string" where
  "matcher_type_string t =
     (case t of MatchEqual \<Rightarrow> ''='' | MatchNotEqual \<Rightarrow> ''!='' | MatchRegexp \<Rightarrow> ''=~'' | MatchNotRegexp \<Rightarrow> ''!~'')"

definition name_byte :: "char \<Rightarrow> bool" where
  "name_byte c \<longleftrightarrow> c = CHR ''_'' \<or> (97 \<le> byte c \<and> byte c \<le> 122) \<or> (65 \<le> byte c \<and> byte c \<le> 90)"

definition shouldQuoteName :: "string \<Rightarrow> bool" where
  "shouldQuoteName n \<longleftrightarrow>
     (case n of [] \<Rightarrow> True | c # cs \<Rightarrow> \<not> (name_byte c \<and> list_all (\<lambda>c. name_byte c \<or> (48 \<le> byte c \<and> byte c \<le> 57)) cs))"

definition matcher_String :: "promql \<Rightarrow> matcher \<Rightarrow> string" where
  "matcher_String pq m =
     (if shouldQuoteName (m_Name m) then Quote (pq_IsPrint pq) (m_Name m) else m_Name m) @
     matcher_type_string (m_Type m) @ Quote (pq_IsPrint pq) (m_Value m)"

fun intercalate_comma :: "string list \<Rightarrow> string" where
  "intercalate_comma [] = []"
| "intercalate_comma [x] = x"
| "intercalate_comma (x # xs) = x @ '','' @ intercalate_comma xs"

definition MatcherToString :: "promql \<Rightarrow> matcher list \<Rightarrow> string" where
  "MatcherToString pq ms = ''{'' @ intercalate_comma (map (matcher_String pq) ms) @ ''}''"

section \<open>Walking a tree\<close>

text \<open>
  A visitor of this package changes selectors (their matchers or offset) and the grouping of
  aggregations, keeps a state of its own, and decides whether to go on below a node. A range
  selector is visited first and its vector selector after it. The final \<open>Visit(nil, nil)\<close> of
  \<open>Walk\<close> does nothing in any of these visitors.
\<close>

record 's visitor =
  visit_vector :: "vector_selector \<Rightarrow> expr list \<Rightarrow> 's \<Rightarrow> ('s \<times> vector_selector \<times> bool) outcome"
  visit_matrix :: "vector_selector \<Rightarrow> duration \<Rightarrow> expr list \<Rightarrow> 's \<Rightarrow> ('s \<times> vector_selector \<times> bool) outcome"
  visit_grouping :: "string list \<Rightarrow> string list"
  visit_node :: "expr \<Rightarrow> expr list \<Rightarrow> 's \<Rightarrow> 's \<times> bool \<times> go_error option"

type_synonym ('s, 'e) walked = "('s \<times> 'e \<times> go_error option) outcome"

definition descend ::
  "'s visitor \<Rightarrow> expr \<Rightarrow> expr list \<Rightarrow> 's \<Rightarrow> (expr list \<Rightarrow> 's \<Rightarrow> ('s, expr) walked) \<Rightarrow> ('s, expr) walked"
where
  "descend v node path s k =
     (case visit_node v node path s of
        (s, go, err) \<Rightarrow> if err \<noteq> None \<or> \<not> go then Ret (s, node, err) else k (path @ [node]) s)"

definition rebuild :: "('a \<Rightarrow> 'b) \<Rightarrow> ('s, 'a) walked \<Rightarrow> ('s, 'b) walked" where
  "rebuild f = omap (\<lambda>(s, e, err). (s, f e, err))"

text \<open>The next child is walked when the one before returned no error.\<close>

definition and_then :: "('s, 'a) walked \<Rightarrow> 'b \<Rightarrow> ('s \<Rightarrow> ('s, 'b) walked) \<Rightarrow> ('s, 'a \<times> 'b) walked" where
  "and_then x rest k =
     obind x (\<lambda>(s, e, err). if err \<noteq> None then Ret (s, (e, rest), err) else rebuild (Pair e) (k s))"

fun walk :: "'s visitor \<Rightarrow> expr \<Rightarrow> expr list \<Rightarrow> 's \<Rightarrow> ('s, expr) walked"
and walk_list :: "'s visitor \<Rightarrow> expr list \<Rightarrow> expr list \<Rightarrow> 's \<Rightarrow> ('s, expr list) walked"
and walk_option :: "'s visitor \<Rightarrow> expr option \<Rightarrow> expr list \<Rightarrow> 's \<Rightarrow> ('s, expr option) walked"
where
  "walk v (VectorSelector vs) path s =
     omap (\<lambda>(s, vs, _). (s, VectorSelector vs, None)) (visit_vector v vs path s)"
| "walk v (MatrixSelector vs r) path s =
     obind (visit_matrix v vs r path s) (\<lambda>(s, vs, go).
       if go then omap (\<lambda>(s, vs, _). (s, MatrixSelector vs r, None))
                    (visit_vector v vs (path @ [MatrixSelector vs r]) s)
       else Ret (s, MatrixSelector vs r, None))"
| "walk v (AggregateExpr op e p g w) path s =
     descend v (AggregateExpr op e p (visit_grouping v g) w) path s (\<lambda>path s.
       rebuild (\<lambda>(e, p). AggregateExpr op e p (visit_grouping v g) w)
         (and_then (walk v e path s) p (walk_option v p path)))"
| "walk v (BinaryExpr op l r vm b) path s =
     descend v (BinaryExpr op l r vm b) path s (\<lambda>path s.
       rebuild (\<lambda>(l, r). BinaryExpr op l r vm b) (and_then (walk v l path s) r (walk v r path)))"
| "walk v (Call f args) path s =
     descend v (Call f args) path s (\<lambda>path s. rebuild (Call f) (walk_list v args path s))"
| "walk v (SubqueryExpr e sq) path s =
     descend v (SubqueryExpr e sq) path s (\<lambda>path s. rebuild (\<lambda>e. SubqueryExpr e sq) (walk v e path s))"
| "walk v (ParenExpr e) path s =
     descend v (ParenExpr e) path s (\<lambda>path s. rebuild ParenExpr (walk v e path s))"
| "walk v (UnaryExpr op e) path s =
     descend v (UnaryExpr op e) path s (\<lambda>path s. rebuild (UnaryExpr op) (walk v e path s))"
| "walk v (StepInvariantExpr e) path s =
     descend v (StepInvariantExpr e) path s (\<lambda>path s. rebuild StepInvariantExpr (walk v e path s))"
| "walk v (NumberLiteral f) path s = descend v (NumberLiteral f) path s (\<lambda>_ s. Ret (s, NumberLiteral f, None))"
| "walk v (StringLiteral t) path s = descend v (StringLiteral t) path s (\<lambda>_ s. Ret (s, StringLiteral t, None))"
| "walk_list v [] path s = Ret (s, [], None)"
| "walk_list v (e # es) path s =
     rebuild (\<lambda>(e, es). e # es) (and_then (walk v e path s) es (walk_list v es path))"
| "walk_option v None path s = Ret (s, None, None)"
| "walk_option v (Some e) path s = rebuild Some (walk v e path s)"

text \<open>\<open>parser.ExtractSelectors\<close>: the vector selectors in the order of the walk.\<close>

fun selectors :: "expr \<Rightarrow> vector_selector list" where
  "selectors (VectorSelector vs) = [vs]"
| "selectors (MatrixSelector vs _) = [vs]"
| "selectors (AggregateExpr _ e p _ _) = selectors e @ (case p of None \<Rightarrow> [] | Some p \<Rightarrow> selectors p)"
| "selectors (BinaryExpr _ l r _ _) = selectors l @ selectors r"
| "selectors (Call _ args) = concat (map selectors args)"
| "selectors (SubqueryExpr e _) = selectors e"
| "selectors (ParenExpr e) = selectors e"
| "selectors (UnaryExpr _ e) = selectors e"
| "selectors (StepInvariantExpr e) = selectors e"
| "selectors (NumberLiteral _) = []"
| "selectors (StringLiteral _) = []"

definition ExtractSelectors :: "expr \<Rightarrow> matcher list list" where
  "ExtractSelectors e = map vs_LabelMatchers (selectors e)"

section \<open>The meaning of selectors\<close>

text \<open>
  What a matcher accepts once it is compiled, as it is by the server that parses the query;
  a series matches when all matchers accept its labels, an absent label reading as empty.
\<close>

definition accepts :: "externals \<Rightarrow> matcher \<Rightarrow> string \<Rightarrow> bool" where
  "accepts ext m s =
     (case m_Type m of
        MatchEqual \<Rightarrow> s = m_Value m
      | MatchNotEqual \<Rightarrow> s \<noteq> m_Value m
      | MatchRegexp \<Rightarrow> ext_MatchString ext (m_Value m) s
      | MatchNotRegexp \<Rightarrow> \<not> ext_MatchString ext (m_Value m) s)"

definition selects :: "externals \<Rightarrow> matcher list \<Rightarrow> labelset \<Rightarrow> bool" where
  "selects ext ms l \<longleftrightarrow> (\<forall>m\<in>set ms. accepts ext m (labels_Get l (m_Name m)))"

definition matcher_ok :: "matcher \<Rightarrow> bool" where
  "matcher_ok m \<longleftrightarrow> (is_regex (m_Type m) \<longrightarrow> m_compiled m)"

abbreviation matchers_ok :: "matcher list \<Rightarrow> bool" where
  "matchers_ok \<equiv> list_all matcher_ok"

lemma Matches_ok: "matcher_ok m \<Longrightarrow> Matches ext m s = Ret (accepts ext m s)"
  by (auto simp: Matches_def accepts_def matcher_ok_def is_regex_def split: match_type.split)

lemma NewMatcher_ok: "NewMatcher ext t n v = Inr m \<Longrightarrow> matcher_ok m \<and> m_Name m = n \<and> m_Value m = v \<and> m_Type m = t"
  by (auto simp: NewMatcher_def matcher_ok_def split: if_splits)

lemma selects_simps [simp]:
  "selects ext [] l" "selects ext (m # ms) l \<longleftrightarrow> accepts ext m (labels_Get l (m_Name m)) \<and> selects ext ms l"
  "selects ext (ms @ ms') l \<longleftrightarrow> selects ext ms l \<and> selects ext ms' l"
  by (auto simp: selects_def)

section \<open>Rewriting the selectors of an expression\<close>

lemma rebuild_simps [simp]: "rebuild f (Ret (s, e, err)) = Ret (s, f e, err)" "rebuild f (Panic p) = Panic p"
  by (simp_all add: rebuild_def)

lemma and_then_simps [simp]:
  "and_then (Ret (s, e, None)) rest k = rebuild (Pair e) (k s)"
  "and_then (Ret (s, e, Some x)) rest k = Ret (s, (e, rest), Some x)"
  by (simp_all add: and_then_def)

text \<open>
  A visitor with one flag that goes through all nodes and rewrites each selector on its own:
  \<open>f\<close> gives the new selector, or \<open>None\<close> when the selector can match nothing, which clears the
  flag. A range selector may be rewritten twice, before (\<open>g\<close>) and at its vector selector; the
  second time must change nothing. \<open>good\<close> is what the rewriting needs to know of a selector.
\<close>

locale rewrites_selectors =
  fixes v :: "bool visitor"
    and f g :: "vector_selector \<Rightarrow> vector_selector option"
    and good :: "vector_selector \<Rightarrow> bool"
  assumes vector: "good vs \<Longrightarrow> \<exists>u. visit_vector v vs path s = Ret (case f vs of Some w \<Rightarrow> (s, w, True) | None \<Rightarrow> (False, u, False))"
    and matrix: "good vs \<Longrightarrow> \<exists>u. visit_matrix v vs r path s = Ret (case g vs of Some w \<Rightarrow> (s, w, True) | None \<Rightarrow> (False, u, False))"
    and node: "visit_node v e path s = (s, True, None)"
    and twice: "good vs \<Longrightarrow> Option.bind (g vs) f = f vs"
    and good_g: "good vs \<Longrightarrow> g vs = Some w \<Longrightarrow> good w"
begin

lemma descend_node [simp]: "descend v e path s k = k (path @ [e]) s"
  by (simp add: descend_def node)

definition rewritten :: "vector_selector list \<Rightarrow> vector_selector list \<Rightarrow> bool" where
  "rewritten vss wss \<longleftrightarrow> map f vss = map Some wss"

lemma rewritten_simps [simp]:
  "rewritten [] []" "rewritten [vs] [w] \<longleftrightarrow> f vs = Some w"
  by (simp_all add: rewritten_def)

lemma rewritten_append: "rewritten a b \<Longrightarrow> rewritten c d \<Longrightarrow> rewritten (a @ c) (b @ d)"
  by (simp add: rewritten_def)

definition outcome_of :: "vector_selector list \<Rightarrow> bool \<Rightarrow> (bool \<times> 'e \<times> go_error option) outcome \<Rightarrow> ('e \<Rightarrow> vector_selector list) \<Rightarrow> bool" where
  "outcome_of vss s res sel \<longleftrightarrow>
     (\<exists>s' e'. res = Ret (s', e', None) \<and> (s' \<longleftrightarrow> s \<and> (\<forall>vs\<in>set vss. f vs \<noteq> None)) \<and>
        ((\<forall>vs\<in>set vss. f vs \<noteq> None) \<longrightarrow> rewritten vss (sel e')))"

lemma outcome_leaf: "sel e = [] \<Longrightarrow> outcome_of [] s (Ret (s, e, None)) sel"
  by (simp add: outcome_of_def)

lemma outcome_rebuild:
  "outcome_of vss s res sel \<Longrightarrow> (\<And>e. sel' (h e) = sel e) \<Longrightarrow> outcome_of vss s (rebuild h res) sel'"
  by (auto simp: outcome_of_def)

lemma outcome_and_then:
  assumes "outcome_of vss s x sel" "\<And>s'. outcome_of wss s' (k s') sel'"
  shows "outcome_of (vss @ wss) s (and_then x rest k) (\<lambda>(a, b). sel a @ sel' b)"
proof -
  obtain s1 e1 where x: "x = Ret (s1, e1, None)" "s1 \<longleftrightarrow> s \<and> (\<forall>vs\<in>set vss. f vs \<noteq> None)"
    "(\<forall>vs\<in>set vss. f vs \<noteq> None) \<longrightarrow> rewritten vss (sel e1)"
    using assms(1) by (auto simp: outcome_of_def)
  obtain s2 e2 where k: "k s1 = Ret (s2, e2, None)" "s2 \<longleftrightarrow> s1 \<and> (\<forall>vs\<in>set wss. f vs \<noteq> None)"
    "(\<forall>vs\<in>set wss. f vs \<noteq> None) \<longrightarrow> rewritten wss (sel' e2)"
    using assms(2) [of s1] by (auto simp: outcome_of_def)
  show ?thesis using x k by (auto simp: outcome_of_def intro: rewritten_append)
qed

abbreviation walks :: "expr \<Rightarrow> bool" where
  "walks e \<equiv> \<forall>path s. outcome_of (selectors e) s (walk v e path s) selectors"

lemma walk_list_selectors:
  "\<forall>e\<in>set es. walks e \<Longrightarrow> outcome_of (concat (map selectors es)) s (walk_list v es path s) (\<lambda>es. concat (map selectors es))"
proof (induction es arbitrary: s)
  case (Cons e es)
  have "outcome_of (selectors e @ concat (map selectors es)) s (and_then (walk v e path s) es (walk_list v es path))
      (\<lambda>(e, es). selectors e @ concat (map selectors es))"
    using Cons by (intro outcome_and_then) auto
  then show ?case by (auto intro: outcome_rebuild)
qed (simp add: outcome_of_def)

lemma walk_option_selectors:
  "\<forall>e\<in>set_option p. walks e \<Longrightarrow> outcome_of (case p of None \<Rightarrow> [] | Some e \<Rightarrow> selectors e) s (walk_option v p path s)
     (\<lambda>p. case p of None \<Rightarrow> [] | Some e \<Rightarrow> selectors e)"
  by (cases p) (auto intro!: outcome_rebuild outcome_leaf)

lemma walk_selectors: "\<forall>vs\<in>set (selectors e). good vs \<Longrightarrow> walks e"
proof (induction e)
  case (VectorSelector vs)
  show ?case
  proof (intro allI)
    fix path s
    from VectorSelector vector [of vs path s] show "outcome_of (selectors (VectorSelector vs)) s (walk v (VectorSelector vs) path s) selectors"
      by (cases "f vs") (auto simp: outcome_of_def)
  qed
next
  case (MatrixSelector vs r)
  show ?case
  proof (intro allI)
    fix path s
    show "outcome_of (selectors (MatrixSelector vs r)) s (walk v (MatrixSelector vs r) path s) selectors"
    proof (cases "g vs")
      case None
      with twice [of vs] MatrixSelector have "f vs = None" by simp
      with None matrix [of vs r path s] MatrixSelector show ?thesis by (auto simp: outcome_of_def)
    next
      case (Some w)
      with twice [of vs] MatrixSelector have "f vs = f w" by simp
      moreover have "good w" using good_g Some MatrixSelector by simp
      ultimately show ?thesis using Some matrix [of vs r path s] vector [of w "path @ [MatrixSelector w r]" s] MatrixSelector
        by (cases "f w") (auto simp: outcome_of_def)
    qed
  qed
next
  case (AggregateExpr op e p g w)
  have "outcome_of (selectors e @ (case p of None \<Rightarrow> [] | Some p \<Rightarrow> selectors p)) s
      (and_then (walk v e path s) p (walk_option v p path)) (\<lambda>(a, b). selectors a @ (case b of None \<Rightarrow> [] | Some p \<Rightarrow> selectors p))" for path s
    using AggregateExpr by (intro outcome_and_then walk_option_selectors) auto
  then show ?case by (auto intro!: outcome_rebuild)
next
  case (BinaryExpr op l r vm b)
  have "outcome_of (selectors l @ selectors r) s (and_then (walk v l path s) r (walk v r path)) (\<lambda>(a, b). selectors a @ selectors b)" for path s
    using BinaryExpr by (intro outcome_and_then) auto
  then show ?case by (auto intro!: outcome_rebuild)
next
  case (Call fn args)
  have "\<forall>e\<in>set args. walks e" using Call by auto
  then show ?case by (auto intro!: outcome_rebuild walk_list_selectors)
qed (auto intro!: outcome_rebuild outcome_leaf)

text \<open>The walk in one statement: no panic, no error, the flag, and the new selectors.\<close>

lemma walk_rewrites:
  assumes "\<forall>vs\<in>set (selectors e). good vs"
  shows "\<exists>ok e'. walk v e path True = Ret (ok, e', None) \<and>
    (ok \<longleftrightarrow> (\<forall>vs\<in>set (selectors e). f vs \<noteq> None)) \<and> (ok \<longrightarrow> map f (selectors e) = map Some (selectors e'))"
proof -
  from walk_selectors [OF assms] have "outcome_of (selectors e) True (walk v e path True) selectors" by blast
  then show ?thesis unfolding outcome_of_def rewritten_def by blast
qed

end

section \<open>Finders and helpers\<close>

text \<open>
  The read-only visitors of \<open>util.go\<close>. A finder updates its part of a common state and says
  whether it returned itself; \<open>MultiVisitor\<close> runs them all on every node and keeps a finder
  only as long as it does.
\<close>

type_synonym 's finder = "expr \<Rightarrow> expr list \<Rightarrow> 's \<Rightarrow> 's \<times> bool"

fun MultiVisitor_Visit :: "expr \<Rightarrow> expr list \<Rightarrow> 's finder option list \<Rightarrow> 's \<Rightarrow> 's finder option list \<times> 's" where
  "MultiVisitor_Visit node path [] s = ([], s)"
| "MultiVisitor_Visit node path (None # fs) s =
     (let (fs, s) = MultiVisitor_Visit node path fs s in (None # fs, s))"
| "MultiVisitor_Visit node path (Some f # fs) s =
     (let (s, keep) = f node path s; (fs, s) = MultiVisitor_Visit node path fs s
      in ((if keep then Some f else None) # fs, s))"

definition MultiVisitor :: "('s finder option list \<times> 's) visitor" where
  "MultiVisitor = \<lparr>
     visit_vector = \<lambda>vs path (fs, s). Ret (MultiVisitor_Visit (VectorSelector vs) path fs s, vs, True),
     visit_matrix = \<lambda>vs r path (fs, s). Ret (MultiVisitor_Visit (MatrixSelector vs r) path fs s, vs, True),
     visit_grouping = \<lambda>g. g,
     visit_node = \<lambda>e path (fs, s). (MultiVisitor_Visit e path fs s, True, None)\<rparr>"

end
