(* ===== verification/Promxy_Filters.thy ===== *)
theory Promxy_Filters
  imports Promxy_Promql
begin

text \<open>
  The wrappers that fit queries to a server group's labels: \<open>FilterMatchers\<close> and its visitor
  (\<open>src/pkg/promclient/filtermatcher.go\<close>), \<open>AddLabelClient\<close> (\<open>label.go\<close>), which answers the
  matchers on the labels it adds, and \<open>InjectMatchersClient\<close> (\<open>inject_matchers.go\<close>), which adds
  matchers to every selector.
\<close>

section \<open>FilterMatchers\<close>

definition MetricName :: string where
  "MetricName = ''__name__''"

text \<open>The loop over the matchers; \<open>None\<close> when a matcher rejects a local value.\<close>

fun filter_selectors :: "externals \<Rightarrow> labelset \<Rightarrow> matcher list \<Rightarrow> matcher list option outcome" where
  "filter_selectors ext ls [] = Ret (Some [])"
| "filter_selectors ext ls (m # ms) =
     (case map_of ls (m_Name m) of
        Some localValue \<Rightarrow>
          obind (Matches ext m localValue) (\<lambda>ok.
            if \<not> ok then Ret None else filter_selectors ext ls ms)
      | None \<Rightarrow> omap (map_option (\<lambda>fs. m # fs)) (filter_selectors ext ls ms))"

definition any_name :: matcher where
  "any_name = \<lparr>m_Type = MatchRegexp, m_Name = MetricName, m_Value = ''.+'', m_compiled = False\<rparr>"

definition FilterMatchers :: "externals \<Rightarrow> labelset \<Rightarrow> matcher list \<Rightarrow> matcher list option outcome" where
  "FilterMatchers ext ls matchers =
     omap (map_option (\<lambda>fs. if fs = [] then [any_name] else fs)) (filter_selectors ext ls matchers)"

definition FilterMatcherVisitor_Visit ::
  "externals \<Rightarrow> labelset \<Rightarrow> vector_selector \<Rightarrow> bool \<Rightarrow> (bool \<times> vector_selector \<times> bool) outcome"
where
  "FilterMatcherVisitor_Visit ext ls vs filterMatch =
     omap (\<lambda>r. case r of
         Some ms \<Rightarrow> (filterMatch, vs\<lparr>vs_LabelMatchers := ms\<rparr>, True)
       | None \<Rightarrow> (False, vs, False))
       (FilterMatchers ext ls (vs_LabelMatchers vs))"

definition FilterMatcherVisitor :: "externals \<Rightarrow> labelset \<Rightarrow> bool visitor" where
  "FilterMatcherVisitor ext ls = \<lparr>
     visit_vector = \<lambda>vs path. FilterMatcherVisitor_Visit ext ls vs,
     visit_matrix = \<lambda>vs r path. FilterMatcherVisitor_Visit ext ls vs,
     visit_grouping = \<lambda>g. g,
     visit_node = \<lambda>e path s. (s, True, None)\<rparr>"

section \<open>AddLabelClient\<close>

text \<open>The match[] selectors of the label calls: the new selectors, whether they can match, the error.\<close>

fun AddLabel_filterMatchers ::
  "externals \<Rightarrow> promql \<Rightarrow> labelset \<Rightarrow> string list \<Rightarrow> (string list \<times> bool \<times> go_error option) outcome"
where
  "AddLabel_filterMatchers ext pq ls [] = Ret ([], True, None)"
| "AddLabel_filterMatchers ext pq ls (matcher # matchers) =
     (case pq_ParseMetricSelector pq matcher of
        Inl err \<Rightarrow> Ret ([], True, Some err)
      | Inr sels \<Rightarrow>
          obind (filter_selectors ext ls sels) (\<lambda>r. case r of
              None \<Rightarrow> Ret ([], False, None)
            | Some fs \<Rightarrow>
                omap (\<lambda>(ret, ok, err).
                    if ok \<and> err = None then (if fs = [] then ret else MatcherToString pq fs # ret, True, None)
                    else ([], ok, err))
                  (AddLabel_filterMatchers ext pq ls matchers)))"

definition addLabels :: "labelset \<Rightarrow> labelset \<Rightarrow> labelset" where
  "addLabels ls l = Builder_SetAll ls l"

text \<open>\<open>ParseExpr\<close>, the walk with the filter visitor, and the two answers without a call.\<close>

definition filtered_query ::
  "externals \<Rightarrow> promql \<Rightarrow> labelset \<Rightarrow> string \<Rightarrow> (go_error + expr option) outcome"
where
  "filtered_query ext pq ls query =
     (case pq_ParseExpr pq query of
        Inl err \<Rightarrow> Ret (Inl err)
      | Inr e \<Rightarrow>
          omap (\<lambda>(filterMatch, e, err).
              case err of Some err \<Rightarrow> Inl err | None \<Rightarrow> Inr (if filterMatch then Some e else None))
            (walk (FilterMatcherVisitor ext ls) e [] True))"

definition AddLabel_query ::
  "externals \<Rightarrow> promql \<Rightarrow> labelset \<Rightarrow> (string \<Rightarrow> series_set outcome) \<Rightarrow> string \<Rightarrow> series_set outcome"
where
  "AddLabel_query ext pq ls call query =
     obind (filtered_query ext pq ls query) (\<lambda>r. case r of
         Inl err \<Rightarrow> Ret (ErrSeriesSet err)
       | Inr None \<Rightarrow> Ret EmptySeriesSet
       | Inr (Some e) \<Rightarrow> omap (\<lambda>ss. MapLabelsSeriesSet ss (addLabels ls)) (call (pq_String pq e)))"

fun AddLabel_filteredMatches ::
  "externals \<Rightarrow> promql \<Rightarrow> labelset \<Rightarrow> string list \<Rightarrow> (go_error + string list) outcome"
where
  "AddLabel_filteredMatches ext pq ls [] = Ret (Inr [])"
| "AddLabel_filteredMatches ext pq ls (m # ms) =
     obind (filtered_query ext pq ls m) (\<lambda>r. case r of
         Inl err \<Rightarrow> Ret (Inl err)
       | Inr None \<Rightarrow> AddLabel_filteredMatches ext pq ls ms
       | Inr (Some e) \<Rightarrow>
           omap (\<lambda>r. case r of Inl err \<Rightarrow> Inl err | Inr fs \<Rightarrow> Inr (pq_String pq e # fs))
             (AddLabel_filteredMatches ext pq ls ms))"

definition AddLabel_LabelNames ::
  "externals \<Rightarrow> promql \<Rightarrow> api \<Rightarrow> labelset \<Rightarrow> string list \<Rightarrow> time \<Rightarrow> time \<Rightarrow>
   (string list \<times> warnings \<times> go_error option) outcome"
where
  "AddLabel_LabelNames ext pq a ls matchers startTime endTime =
     obind (AddLabel_filterMatchers ext pq ls matchers) (\<lambda>(matchers, ok, err).
       if err \<noteq> None then Ret ([], [], err)
       else if \<not> ok then Ret ([], [], None)
       else omap (\<lambda>(l, w, err).
           if err \<noteq> None then ([], [], err)
           else (fold (\<lambda>k l. if k \<in> set l then l else l @ [k]) (map fst ls) l, w, None))
         (LabelNames a matchers startTime endTime))"

definition AddLabel_LabelValues ::
  "externals \<Rightarrow> promql \<Rightarrow> api \<Rightarrow> labelset \<Rightarrow> string \<Rightarrow> string list \<Rightarrow> time \<Rightarrow> time \<Rightarrow>
   (string list option \<times> warnings \<times> go_error option) outcome"
where
  "AddLabel_LabelValues ext pq a ls label matchers startTime endTime =
     obind (AddLabel_filterMatchers ext pq ls matchers) (\<lambda>(matchers, ok, err).
       if err \<noteq> None then Ret (None, [], err)
       else if \<not> ok then Ret (None, [], None)
       else omap (\<lambda>(val, w, err).
           if err \<noteq> None then (None, w, err)
           else (case map_of ls label of
                   Some value \<Rightarrow> (Some (MergeLabelValues (nilable val) [value]), w, None)
                 | None \<Rightarrow> (val, w, None)))
         (LabelValues a label matchers startTime endTime))"

definition AddLabel_Series ::
  "externals \<Rightarrow> promql \<Rightarrow> api \<Rightarrow> labelset \<Rightarrow> string list \<Rightarrow> time \<Rightarrow> time \<Rightarrow>
   (labelset list \<times> warnings \<times> go_error option) outcome"
where
  "AddLabel_Series ext pq a ls matches startTime endTime =
     obind (AddLabel_filteredMatches ext pq ls matches) (\<lambda>r. case r of
         Inl err \<Rightarrow> Ret ([], [], Some err)
       | Inr fs \<Rightarrow>
           if fs = [] then Ret ([], [], None)
           else omap (\<lambda>(v, w, err).
               if err \<noteq> None then ([], w, err) else (map (\<lambda>lset. LabelSet_Merge lset ls) v, w, None))
             (Series a fs startTime endTime))"

definition AddLabel_GetValue ::
  "externals \<Rightarrow> api \<Rightarrow> labelset \<Rightarrow> time \<Rightarrow> time \<Rightarrow> matcher list \<Rightarrow> series_set outcome"
where
  "AddLabel_GetValue ext a ls start end matchers =
     obind (FilterMatchers ext ls matchers) (\<lambda>r. case r of
         None \<Rightarrow> Ret EmptySeriesSet
       | Some fs \<Rightarrow> omap (\<lambda>ss. MapLabelsSeriesSet ss (addLabels ls)) (GetValue a start end fs))"

fun any_selector_matches :: "externals \<Rightarrow> labelset \<Rightarrow> matcher list list \<Rightarrow> bool outcome" where
  "any_selector_matches ext ls [] = Ret False"
| "any_selector_matches ext ls (ms # rest) =
     obind (FilterMatchers ext ls ms) (\<lambda>r. case r of
         Some _ \<Rightarrow> Ret True
       | None \<Rightarrow> any_selector_matches ext ls rest)"

definition AddLabel_QueryExemplars ::
  "externals \<Rightarrow> promql \<Rightarrow> api \<Rightarrow> labelset \<Rightarrow> string \<Rightarrow> time \<Rightarrow> time \<Rightarrow>
   (exemplar_result list \<times> go_error option) outcome"
where
  "AddLabel_QueryExemplars ext pq a ls query startTime endTime =
     obind (case pq_ParseExpr pq query of
              Inl _ \<Rightarrow> Ret True
            | Inr e \<Rightarrow> (if ExtractSelectors e = [] then Ret True else any_selector_matches ext ls (ExtractSelectors e)))
       (\<lambda>anyMatch.
         if \<not> anyMatch then Ret ([], None)
         else omap (\<lambda>(v, err).
             if err \<noteq> None then ([], err)
             else (map (\<lambda>r. r\<lparr>er_SeriesLabels := LabelSet_Merge (er_SeriesLabels r) ls\<rparr>) v, None))
           (QueryExemplars a query startTime endTime))"

definition AddLabelClient :: "externals \<Rightarrow> promql \<Rightarrow> api \<Rightarrow> labelset \<Rightarrow> api" where
  "AddLabelClient ext pq a ls = a\<lparr>
     LabelNames := AddLabel_LabelNames ext pq a ls,
     LabelValues := AddLabel_LabelValues ext pq a ls,
     Query := \<lambda>q ts. AddLabel_query ext pq ls (\<lambda>q. Query a q ts) q,
     QueryRange := \<lambda>q r. AddLabel_query ext pq ls (\<lambda>q. QueryRange a q r) q,
     Series := AddLabel_Series ext pq a ls,
     GetValue := AddLabel_GetValue ext a ls,
     QueryExemplars := AddLabel_QueryExemplars ext pq a ls,
     api_Key := Some (Some ls)\<rparr>"

section \<open>InjectMatchersClient\<close>

definition same_matcher :: "matcher \<Rightarrow> matcher \<Rightarrow> bool" where
  "same_matcher x m \<longleftrightarrow> m_Type x = m_Type m \<and> m_Name x = m_Name m \<and> m_Value x = m_Value m"

definition appendMatchers :: "matcher list \<Rightarrow> matcher list \<Rightarrow> matcher list" where
  "appendMatchers matchers toAdd =
     fold (\<lambda>m ret. if list_ex (\<lambda>x. same_matcher x m) ret then ret else ret @ [m]) toAdd matchers"

definition injectMatchersVisitor :: "matcher list \<Rightarrow> bool visitor" where
  "injectMatchersVisitor matchers = \<lparr>
     visit_vector = \<lambda>vs path s. Ret (s, vs\<lparr>vs_LabelMatchers := appendMatchers (vs_LabelMatchers vs) matchers\<rparr>, True),
     visit_matrix = \<lambda>vs r path s. Ret (s, vs, True),
     visit_grouping = \<lambda>g. g,
     visit_node = \<lambda>e path s. (s, True, None)\<rparr>"

definition injectIntoQuery :: "promql \<Rightarrow> matcher list \<Rightarrow> string \<Rightarrow> (go_error + string) outcome" where
  "injectIntoQuery pq matchers query =
     (case pq_ParseExpr pq query of
        Inl err \<Rightarrow> Ret (Inl err)
      | Inr e \<Rightarrow>
          omap (\<lambda>(_, e, err). case err of Some err \<Rightarrow> Inl err | None \<Rightarrow> Inr (pq_String pq e))
            (walk (injectMatchersVisitor matchers) e [] True))"

definition injectIntoMatch :: "promql \<Rightarrow> matcher list \<Rightarrow> string \<Rightarrow> go_error + string" where
  "injectIntoMatch pq matchers match =
     (case pq_ParseMetricSelector pq match of
        Inl err \<Rightarrow> Inl err
      | Inr sels \<Rightarrow> Inr (MatcherToString pq (appendMatchers sels matchers)))"

fun inject_each :: "promql \<Rightarrow> matcher list \<Rightarrow> string list \<Rightarrow> go_error + string list" where
  "inject_each pq matchers [] = Inr []"
| "inject_each pq matchers (m # ms) =
     (case injectIntoMatch pq matchers m of
        Inl err \<Rightarrow> Inl err
      | Inr injected \<Rightarrow>
          (case inject_each pq matchers ms of Inl err \<Rightarrow> Inl err | Inr ret \<Rightarrow> Inr (injected # ret)))"

definition injectIntoMatches :: "promql \<Rightarrow> matcher list \<Rightarrow> string list \<Rightarrow> go_error + string list" where
  "injectIntoMatches pq matchers matches =
     (if matches = [] then Inr [MatcherToString pq matchers] else inject_each pq matchers matches)"

definition inject_query ::
  "promql \<Rightarrow> matcher list \<Rightarrow> (string \<Rightarrow> series_set outcome) \<Rightarrow> string \<Rightarrow> series_set outcome"
where
  "inject_query pq matchers call query =
     obind (injectIntoQuery pq matchers query)
       (\<lambda>r. case r of Inl err \<Rightarrow> Ret (ErrSeriesSet err) | Inr q \<Rightarrow> call q)"

text \<open>\<open>Metadata\<close> and \<open>QueryExemplars\<close> are the embedded API's.\<close>

definition InjectMatchersClient :: "promql \<Rightarrow> api \<Rightarrow> matcher list \<Rightarrow> api" where
  "InjectMatchersClient pq a matchers = a\<lparr>
     LabelNames := \<lambda>ms s e. (case injectIntoMatches pq matchers ms of
         Inl err \<Rightarrow> Ret ([], [], Some err) | Inr ms \<Rightarrow> LabelNames a ms s e),
     LabelValues := \<lambda>label ms s e. (case injectIntoMatches pq matchers ms of
         Inl err \<Rightarrow> Ret (None, [], Some err) | Inr ms \<Rightarrow> LabelValues a label ms s e),
     Query := \<lambda>q ts. inject_query pq matchers (\<lambda>q. Query a q ts) q,
     QueryRange := \<lambda>q r. inject_query pq matchers (\<lambda>q. QueryRange a q r) q,
     Series := \<lambda>ms s e. (case injectIntoMatches pq matchers ms of
         Inl err \<Rightarrow> Ret ([], [], Some err) | Inr ms \<Rightarrow> Series a ms s e),
     GetValue := \<lambda>s e ms. GetValue a s e (appendMatchers ms matchers),
     api_Key := None\<rparr>"

section \<open>What filtering keeps\<close>

text \<open>The matchers on labels the client does not add, and whether the others accept its labels.\<close>

definition remaining :: "labelset \<Rightarrow> matcher list \<Rightarrow> matcher list" where
  "remaining ls ms = filter (\<lambda>m. map_of ls (m_Name m) = None) ms"

definition local_ok :: "externals \<Rightarrow> labelset \<Rightarrow> matcher list \<Rightarrow> bool" where
  "local_ok ext ls ms \<longleftrightarrow> (\<forall>m\<in>set ms. \<forall>v. map_of ls (m_Name m) = Some v \<longrightarrow> accepts ext m v)"

lemma filter_selectors_eq:
  "matchers_ok ms \<Longrightarrow> filter_selectors ext ls ms = Ret (if local_ok ext ls ms then Some (remaining ls ms) else None)"
  by (induction ms) (auto simp: remaining_def local_ok_def Matches_ok split: option.split)

definition or_any_name :: "matcher list \<Rightarrow> matcher list" where
  "or_any_name fs = (if fs = [] then [any_name] else fs)"

lemma FilterMatchers_eq:
  "matchers_ok ms \<Longrightarrow> FilterMatchers ext ls ms = Ret (if local_ok ext ls ms then Some (or_any_name (remaining ls ms)) else None)"
  by (simp add: FilterMatchers_def filter_selectors_eq or_any_name_def)

lemma selects_added:
  assumes "distinct (map fst ls)"
  shows "selects ext ms (addLabels ls l) \<longleftrightarrow> local_ok ext ls ms \<and> selects ext (remaining ls ms) l"
  using assms
  by (induction ms) (auto simp: local_ok_def remaining_def addLabels_def label_simps simp del: map_of_eq_Some_iff split: option.split)

definition plus_regex_ok :: "externals \<Rightarrow> bool" where
  "plus_regex_ok ext \<longleftrightarrow> (\<forall>s. ext_MatchString ext ''.+'' s \<longleftrightarrow> s \<noteq> [])"

lemma selects_or_any_name:
  "plus_regex_ok ext \<Longrightarrow> labels_Get l MetricName \<noteq> [] \<Longrightarrow> selects ext (or_any_name fs) l = selects ext fs l"
  by (simp add: or_any_name_def any_name_def accepts_def plus_regex_ok_def)

section \<open>The visitors rewrite selectors\<close>

definition filter_selector :: "externals \<Rightarrow> labelset \<Rightarrow> vector_selector \<Rightarrow> vector_selector option" where
  "filter_selector ext ls vs =
     (if local_ok ext ls (vs_LabelMatchers vs)
      then Some (vs\<lparr>vs_LabelMatchers := or_any_name (remaining ls (vs_LabelMatchers vs))\<rparr>) else None)"

text \<open>
  A selector that can be filtered twice: its regular expressions are compiled, or on labels
  the client does not add.
\<close>

definition filterable :: "labelset \<Rightarrow> vector_selector \<Rightarrow> bool" where
  "filterable ls vs \<longleftrightarrow> map_of ls MetricName = None \<and>
     (\<forall>m\<in>set (vs_LabelMatchers vs). map_of ls (m_Name m) \<noteq> None \<longrightarrow> matcher_ok m)"

lemma filter_selectors_eq':
  "\<forall>m\<in>set ms. map_of ls (m_Name m) \<noteq> None \<longrightarrow> matcher_ok m \<Longrightarrow>
   filter_selectors ext ls ms = Ret (if local_ok ext ls ms then Some (remaining ls ms) else None)"
  by (induction ms) (auto simp: remaining_def local_ok_def Matches_ok split: option.split)

lemma FilterMatcherVisitor_Visit_eq:
  "filterable ls vs \<Longrightarrow> FilterMatcherVisitor_Visit ext ls vs s =
     Ret (case filter_selector ext ls vs of Some w \<Rightarrow> (s, w, True) | None \<Rightarrow> (False, vs, False))"
  by (simp add: FilterMatcherVisitor_Visit_def FilterMatchers_def filter_selectors_eq' filterable_def filter_selector_def or_any_name_def)

lemma remaining_idem: "map_of ls MetricName = None \<Longrightarrow>
    remaining ls (or_any_name (remaining ls ms)) = or_any_name (remaining ls ms)"
  by (auto simp: or_any_name_def remaining_def any_name_def filter_id_conv)

lemma local_ok_remaining: "map_of ls MetricName = None \<Longrightarrow> local_ok ext ls (or_any_name (remaining ls ms))"
  by (auto simp: or_any_name_def remaining_def any_name_def local_ok_def)

lemma or_any_name_idem [simp]: "or_any_name (or_any_name fs) = or_any_name fs"
  by (simp add: or_any_name_def)

lemma filter_selector_twice:
  "filterable ls vs \<Longrightarrow> Option.bind (filter_selector ext ls vs) (filter_selector ext ls) = filter_selector ext ls vs"
  by (simp add: filter_selector_def filterable_def remaining_idem local_ok_remaining)

interpretation filter_visitor: rewrites_selectors
  "FilterMatcherVisitor ext ls" "filter_selector ext ls" "filter_selector ext ls" "filterable ls" for ext ls
proof
  fix vs w :: vector_selector
  assume f: "filterable ls vs" "filter_selector ext ls vs = Some w"
  then have "vs_LabelMatchers w = or_any_name (remaining ls (vs_LabelMatchers vs))"
    by (auto simp: filter_selector_def split: if_splits)
  with f(1) show "filterable ls w"
    by (auto simp: filterable_def or_any_name_def remaining_def any_name_def)
qed (auto simp: FilterMatcherVisitor_def FilterMatcherVisitor_Visit_eq filter_selector_twice)

definition inject_selector :: "matcher list \<Rightarrow> vector_selector \<Rightarrow> vector_selector option" where
  "inject_selector ms vs = Some (vs\<lparr>vs_LabelMatchers := appendMatchers (vs_LabelMatchers vs) ms\<rparr>)"

interpretation inject_visitor: rewrites_selectors
  "injectMatchersVisitor ms" "inject_selector ms" Some "\<lambda>_. True" for ms
  by unfold_locales (auto simp: injectMatchersVisitor_def inject_selector_def)

lemma same_matcher_accepts: "same_matcher x m \<Longrightarrow> m_Name x = m_Name m \<and> accepts ext x s = accepts ext m s"
  by (auto simp: same_matcher_def accepts_def split: match_type.split)

lemma selects_appendMatchers: "selects ext (appendMatchers ms add) l \<longleftrightarrow> selects ext ms l \<and> selects ext add l"
  unfolding appendMatchers_def
proof (induction add arbitrary: ms)
  case (Cons m add)
  have "accepts ext m (labels_Get l (m_Name m))" if "x \<in> set ms" "same_matcher x m" "selects ext ms l" for x
    using that same_matcher_accepts [of x m ext] by (auto simp: selects_def)
  then show ?case using Cons.IH [of ms] Cons.IH [of "ms @ [m]"] by (auto simp: list_ex_iff)
qed simp

lemma appendMatchers_idem: "appendMatchers (appendMatchers ms add) add = appendMatchers ms add"
proof -
  have mono: "list_ex P (appendMatchers ms add)" if "list_ex P ms" for P ms add
    using that unfolding appendMatchers_def by (induction add arbitrary: ms) auto
  have all: "\<forall>m\<in>set add. list_ex (\<lambda>x. same_matcher x m) (appendMatchers ms add)" for ms
  proof (induction add arbitrary: ms)
    case (Cons m add)
    let ?ms = "if list_ex (\<lambda>x. same_matcher x m) ms then ms else ms @ [m]"
    have "list_ex (\<lambda>x. same_matcher x m) ?ms" by (auto simp: same_matcher_def)
    from mono [OF this, of add] Cons.IH [of ?ms] show ?case by (simp add: appendMatchers_def)
  qed simp
  have "appendMatchers xs add = xs" if "\<forall>m\<in>set add. list_ex (\<lambda>x. same_matcher x m) xs" for xs
    using that unfolding appendMatchers_def by (induction add) auto
  with all show ?thesis by blast
qed

section \<open>Properties\<close>

text \<open>
  \<open>FilterMatchers\<close>: the matchers that remain select exactly the series that, once the
  client's labels are set on them, satisfy the original matchers; when the call reports no
  match, no series can. The series are those with a metric name, as the matcher that stands
  for an empty list requires.
\<close>

lemma FilterMatchers_correct:
  assumes "distinct (map fst ls)" "matchers_ok ms" "plus_regex_ok ext"
  shows "\<exists>r. FilterMatchers ext ls ms = Ret r \<and>
    (case r of
       None \<Rightarrow> \<forall>l. \<not> selects ext ms (addLabels ls l)
     | Some fs \<Rightarrow> fs \<noteq> [] \<and>
         (\<forall>l. labels_Get l MetricName \<noteq> [] \<longrightarrow> (selects ext fs l \<longleftrightarrow> selects ext ms (addLabels ls l))))"
  using assms selects_added [OF assms(1), of ext ms]
  by (simp add: FilterMatchers_eq selects_or_any_name) (auto simp: or_any_name_def)

text \<open>Externals in which the pattern \<open>.+\<close> is the only one with a meaning, for the witnesses.\<close>

definition plus_ext :: externals where
  "plus_ext = example_ext\<lparr>ext_RegexOk := \<lambda>_. True, ext_MatchString := \<lambda>p s. p = ''.+'' \<and> s \<noteq> [], ext_SetMatches := \<lambda>_. []\<rparr>"

abbreviation eq_matcher :: "string \<Rightarrow> string \<Rightarrow> matcher" where
  "eq_matcher n v \<equiv> \<lparr>m_Type = MatchEqual, m_Name = n, m_Value = v, m_compiled = False\<rparr>"

lemma plus_ext_ok: "plus_regex_ok plus_ext"
  by (simp add: plus_regex_ok_def plus_ext_def)

text \<open>What a query's selectors become: for each one a selector of exactly the series that match it with the labels added.\<close>

definition selects_with_labels :: "externals \<Rightarrow> labelset \<Rightarrow> vector_selector \<Rightarrow> vector_selector \<Rightarrow> bool" where
  "selects_with_labels ext ls vs w \<longleftrightarrow>
     w = vs\<lparr>vs_LabelMatchers := vs_LabelMatchers w\<rparr> \<and>
     (\<forall>l. labels_Get l MetricName \<noteq> [] \<longrightarrow>
        (selects ext (vs_LabelMatchers w) l \<longleftrightarrow> selects ext (vs_LabelMatchers vs) (addLabels ls l)))"

lemma filter_selector_selects:
  assumes "distinct (map fst ls)" "plus_regex_ok ext" "filter_selector ext ls vs = Some w"
  shows "selects_with_labels ext ls vs w"
  using assms by (auto simp: filter_selector_def selects_with_labels_def selects_added selects_or_any_name split: if_splits)

lemma filter_selector_None:
  "distinct (map fst ls) \<Longrightarrow> filter_selector ext ls vs = None \<Longrightarrow> \<not> selects ext (vs_LabelMatchers vs) (addLabels ls l)"
  by (auto simp: filter_selector_def selects_added split: if_splits)

lemma map_Some_all2: "map f xs = map Some ys \<Longrightarrow> list_all2 (\<lambda>x y. f x = Some y) xs ys"
  by (induction xs arbitrary: ys) (auto simp: Cons_eq_map_conv)

lemma filtered_query_spec:
  assumes "distinct (map fst ls)" "plus_regex_ok ext" "map_of ls MetricName = None"
    and "pq_ParseExpr pq query = Inr e" "\<forall>vs\<in>set (selectors e). matchers_ok (vs_LabelMatchers vs)"
  shows "\<exists>r. filtered_query ext pq ls query = Ret (Inr r) \<and>
    (case r of
       None \<Rightarrow> \<exists>vs\<in>set (selectors e). \<forall>l. \<not> selects ext (vs_LabelMatchers vs) (addLabels ls l)
     | Some e' \<Rightarrow> list_all2 (selects_with_labels ext ls) (selectors e) (selectors e'))"
proof -
  have "\<forall>vs\<in>set (selectors e). filterable ls vs" using assms(3,5) by (auto simp: filterable_def list_all_iff)
  from filter_visitor.walk_rewrites [OF this, of ext "[]"] obtain ok e' where
    w: "walk (FilterMatcherVisitor ext ls) e [] True = Ret (ok, e', None)"
    "ok \<longleftrightarrow> (\<forall>vs\<in>set (selectors e). filter_selector ext ls vs \<noteq> None)"
    "ok \<longrightarrow> map (filter_selector ext ls) (selectors e) = map Some (selectors e')" by blast
  show ?thesis
  proof (cases ok)
    case True
    have "list_all2 (\<lambda>x y. filter_selector ext ls x = Some y) (selectors e) (selectors e')"
      using w(3) True by (intro map_Some_all2) simp
    then have "list_all2 (selects_with_labels ext ls) (selectors e) (selectors e')"
      by (rule list_all2_mono) (rule filter_selector_selects [OF assms(1,2)])
    with True w(1) assms(4) show ?thesis by (simp add: filtered_query_def)
  next
    case False
    then obtain vs where "vs \<in> set (selectors e)" "filter_selector ext ls vs = None" using w(2) by blast
    then have "\<exists>vs\<in>set (selectors e). \<forall>l. \<not> selects ext (vs_LabelMatchers vs) (addLabels ls l)"
      using filter_selector_None [OF assms(1)] by blast
    with False w(1) assms(4) show ?thesis by (simp add: filtered_query_def)
  qed
qed

text \<open>
  C32. \<open>AddLabelClient.Query\<close>: either a selector of the query can match no series with the
  client's labels, and the answer is empty without a call, or the query sent downstream has
  the same selectors restricted to what the client's labels leave open, and every series of
  the answer gets the client's labels.
\<close>

theorem AddLabelClient_Query_correct:
  assumes "distinct (map fst ls)" "plus_regex_ok ext" "map_of ls MetricName = None"
    and "pq_ParseExpr pq query = Inr e" "\<forall>vs\<in>set (selectors e). matchers_ok (vs_LabelMatchers vs)"
  shows "(Query (AddLabelClient ext pq a ls) query ts = Ret EmptySeriesSet \<and>
       (\<exists>vs\<in>set (selectors e). \<forall>l. \<not> selects ext (vs_LabelMatchers vs) (addLabels ls l))) \<or>
    (\<exists>e'. Query (AddLabelClient ext pq a ls) query ts =
        omap (\<lambda>ss. MapLabelsSeriesSet ss (addLabels ls)) (Query a (pq_String pq e') ts) \<and>
       list_all2 (selects_with_labels ext ls) (selectors e) (selectors e'))"
proof -
  obtain r where r: "filtered_query ext pq ls query = Ret (Inr r)"
    "case r of
       None \<Rightarrow> \<exists>vs\<in>set (selectors e). \<forall>l. \<not> selects ext (vs_LabelMatchers vs) (addLabels ls l)
     | Some e' \<Rightarrow> list_all2 (selects_with_labels ext ls) (selectors e) (selectors e')"
    using filtered_query_spec [OF assms] by blast
  show ?thesis
    using r by (cases r) (auto simp: AddLabelClient_def AddLabel_query_def)
qed


text \<open>A parser and printer for the witnesses: the query \<open>q\<close> is \<open>sum(m{az="a",job="x"})\<close>, matched by table.\<close>

definition sel_of :: "matcher list \<Rightarrow> vector_selector" where
  "sel_of ms = \<lparr>vs_Name = [], vs_OriginalOffset = 0, vs_Timestamp = None, vs_StartOrEnd = 0, vs_LabelMatchers = ms,
     vs_LookbackDelta = 0, vs_UnexpandedSeriesSet = None\<rparr>"

definition example_expr :: expr where
  "example_expr = AggregateExpr Op_SUM (VectorSelector (sel_of [eq_matcher ''az'' ''a'', eq_matcher ''job'' ''x''])) None [] False"

definition example_pq :: promql where
  "example_pq = \<lparr>
     pq_ParseExpr = \<lambda>q. if q = ''q'' then Inr example_expr else Inl (OtherError ''parse error''),
     pq_ParseMetricSelector = \<lambda>s. if s = ''a'' then Inr [eq_matcher ''az'' ''a''] else if s = ''b'' then Inr [eq_matcher ''az'' ''b'']
        else Inl (OtherError ''parse error''),
     pq_String = \<lambda>e. concat (map (\<lambda>vs. concat (map (\<lambda>m. m_Name m @ m_Value m) (vs_LabelMatchers vs))) (selectors e)),
     pq_IsPrint = \<lambda>_. True\<rparr>"

theorem AddLabelClient_Query_correct_witness:
  "(Query (AddLabelClient plus_ext example_pq (set_api EmptySeriesSet) [(''az'', ''a'')]) ''q'' 0 = Ret EmptySeriesSet \<and>
       (\<exists>vs\<in>set (selectors example_expr). \<forall>l. \<not> selects plus_ext (vs_LabelMatchers vs) (addLabels [(''az'', ''a'')] l))) \<or>
    (\<exists>e'. Query (AddLabelClient plus_ext example_pq (set_api EmptySeriesSet) [(''az'', ''a'')]) ''q'' 0 =
        omap (\<lambda>ss. MapLabelsSeriesSet ss (addLabels [(''az'', ''a'')])) (Query (set_api EmptySeriesSet) (pq_String example_pq e') 0) \<and>
       list_all2 (selects_with_labels plus_ext [(''az'', ''a'')]) (selectors example_expr) (selectors e'))"
  by (rule AddLabelClient_Query_correct)
     (simp_all add: plus_ext_ok MetricName_def example_pq_def example_expr_def sel_of_def matcher_ok_def is_regex_def)

text \<open>What the calls with match[] selectors send.\<close>

lemma injectIntoMatches_ok:
  assumes "list_all2 (\<lambda>m sel. pq_ParseMetricSelector pq m = Inr sel) matches sels"
  shows "injectIntoMatches pq ms matches =
    Inr (if matches = [] then [MatcherToString pq ms] else map (\<lambda>sel. MatcherToString pq (appendMatchers sel ms)) sels)"
proof -
  have "inject_each pq ms matches = Inr (map (\<lambda>sel. MatcherToString pq (appendMatchers sel ms)) sels)"
    using assms by (induction rule: list_all2_induct) (simp_all add: injectIntoMatch_def)
  then show ?thesis by (simp add: injectIntoMatches_def)
qed

text \<open>
  C39. \<open>InjectMatchersClient\<close>: the query that is sent downstream by \<open>Query\<close> and \<open>QueryRange\<close> has the selectors of the
  original query, each with the injected matchers added. \<open>LabelNames\<close>, \<open>LabelValues\<close> and \<open>Series\<close> send each of their
  match[] selectors with the injected matchers added, and, called without any, one selector made of the injected
  matchers alone. \<open>GetValue\<close> adds them to its matchers. A selector with the matchers added selects a series when the
  original one does and the injected matchers accept it. For \<open>GetValue\<close>, a client around a client with the same matchers
  adds nothing more.
\<close>

theorem InjectMatchersClient_scopes:
  assumes "pq_ParseExpr pq query = Inr e" "list_all2 (\<lambda>m sel. pq_ParseMetricSelector pq m = Inr sel) matches sels"
  shows "(\<exists>e'. Query (InjectMatchersClient pq a ms) query ts = Query a (pq_String pq e') ts \<and>
      QueryRange (InjectMatchersClient pq a ms) query rng = QueryRange a (pq_String pq e') rng \<and>
      list_all2 (\<lambda>vs w. w = vs\<lparr>vs_LabelMatchers := appendMatchers (vs_LabelMatchers vs) ms\<rparr>) (selectors e) (selectors e')) \<and>
    (let sent = (if matches = [] then [MatcherToString pq ms] else map (\<lambda>sel. MatcherToString pq (appendMatchers sel ms)) sels)
     in LabelNames (InjectMatchersClient pq a ms) matches start end = LabelNames a sent start end \<and>
        LabelValues (InjectMatchersClient pq a ms) label matches start end = LabelValues a label sent start end \<and>
        Series (InjectMatchersClient pq a ms) matches start end = Series a sent start end) \<and>
    GetValue (InjectMatchersClient pq a ms) start end ns = GetValue a start end (appendMatchers ns ms) \<and>
    (\<forall>sel l. selects ext (appendMatchers sel ms) l \<longleftrightarrow> selects ext sel l \<and> selects ext ms l) \<and>
    GetValue (InjectMatchersClient pq (InjectMatchersClient pq a ms) ms) start end ns = GetValue (InjectMatchersClient pq a ms) start end ns"
proof -
  obtain ok e' where w: "walk (injectMatchersVisitor ms) e [] True = Ret (ok, e', None)"
    "ok \<longleftrightarrow> (\<forall>vs\<in>set (selectors e). inject_selector ms vs \<noteq> None)"
    "ok \<longrightarrow> map (inject_selector ms) (selectors e) = map Some (selectors e')"
    using inject_visitor.walk_rewrites [of e ms "[]"] by blast
  have "\<forall>vs. inject_selector ms vs \<noteq> None" by (simp add: inject_selector_def)
  with w(2,3) have "map (inject_selector ms) (selectors e) = map Some (selectors e')" by blast
  from map_Some_all2 [OF this]
  have "list_all2 (\<lambda>vs w. w = vs\<lparr>vs_LabelMatchers := appendMatchers (vs_LabelMatchers vs) ms\<rparr>) (selectors e) (selectors e')"
    by (rule list_all2_mono) (auto simp: inject_selector_def)
  moreover have "inject_query pq ms call query = call (pq_String pq e')" for call
    using w(1) assms(1) by (simp add: inject_query_def injectIntoQuery_def)
  ultimately show ?thesis
    using injectIntoMatches_ok [OF assms(2)] by (auto simp: InjectMatchersClient_def appendMatchers_idem selects_appendMatchers)
qed

definition cluster_A :: matcher where
  "cluster_A = eq_matcher ''c'' ''A''"

theorem InjectMatchersClient_scopes_witness:
  "(\<exists>e'. Query (InjectMatchersClient example_pq (set_api EmptySeriesSet) [cluster_A]) ''q'' 0 =
        Query (set_api EmptySeriesSet) (pq_String example_pq e') 0 \<and>
      QueryRange (InjectMatchersClient example_pq (set_api EmptySeriesSet) [cluster_A]) ''q'' \<lparr>rg_Start = 0, rg_End = 0, rg_Step = 1\<rparr> =
        QueryRange (set_api EmptySeriesSet) (pq_String example_pq e') \<lparr>rg_Start = 0, rg_End = 0, rg_Step = 1\<rparr> \<and>
      list_all2 (\<lambda>vs w. w = vs\<lparr>vs_LabelMatchers := appendMatchers (vs_LabelMatchers vs) [cluster_A]\<rparr>) (selectors example_expr) (selectors e')) \<and>
    (let sent = (if [''a'', ''b''] = [] then [MatcherToString example_pq [cluster_A]]
        else map (\<lambda>sel. MatcherToString example_pq (appendMatchers sel [cluster_A])) [[eq_matcher ''az'' ''a''], [eq_matcher ''az'' ''b'']])
     in LabelNames (InjectMatchersClient example_pq (set_api EmptySeriesSet) [cluster_A]) [''a'', ''b''] 0 0 = LabelNames (set_api EmptySeriesSet) sent 0 0 \<and>
        LabelValues (InjectMatchersClient example_pq (set_api EmptySeriesSet) [cluster_A]) ''l'' [''a'', ''b''] 0 0 =
          LabelValues (set_api EmptySeriesSet) ''l'' sent 0 0 \<and>
        Series (InjectMatchersClient example_pq (set_api EmptySeriesSet) [cluster_A]) [''a'', ''b''] 0 0 = Series (set_api EmptySeriesSet) sent 0 0) \<and>
    GetValue (InjectMatchersClient example_pq (set_api EmptySeriesSet) [cluster_A]) 0 0 [] =
      GetValue (set_api EmptySeriesSet) 0 0 (appendMatchers [] [cluster_A]) \<and>
    (\<forall>sel l. selects plus_ext (appendMatchers sel [cluster_A]) l \<longleftrightarrow> selects plus_ext sel l \<and> selects plus_ext [cluster_A] l) \<and>
    GetValue (InjectMatchersClient example_pq (InjectMatchersClient example_pq (set_api EmptySeriesSet) [cluster_A]) [cluster_A]) 0 0 [] =
      GetValue (InjectMatchersClient example_pq (set_api EmptySeriesSet) [cluster_A]) 0 0 []"
  by (rule InjectMatchersClient_scopes) (simp_all add: example_pq_def)

text \<open>
  The label calls of \<open>AddLabelClient\<close> treat their match[] selectors as if all of them had
  to match: with two selectors of which one fits the client's labels and the other does not,
  nothing is asked downstream, although \<open>Series\<close> with the same selectors asks for the first.
\<close>

lemma AddLabelClient_matches_are_anded:
  assumes "pq_ParseMetricSelector pq s1 = Inr [eq_matcher n v]" "pq_ParseMetricSelector pq s2 = Inr [eq_matcher n u]" "u \<noteq> v"
    and "pq_ParseExpr pq s1 = Inr (VectorSelector (sel_of [eq_matcher n v]))"
    and "pq_ParseExpr pq s2 = Inr (VectorSelector (sel_of [eq_matcher n u]))"
  shows "LabelNames (AddLabelClient ext pq a [(n, v)]) [s1, s2] start end = Ret ([], [], None) \<and>
    Series (AddLabelClient ext pq a [(n, v)]) [s1, s2] start end =
      omap (\<lambda>(ls, w, err). if err \<noteq> None then ([], w, err) else (map (\<lambda>l. LabelSet_Merge l [(n, v)]) ls, w, None))
        (Series a [pq_String pq (VectorSelector (sel_of [any_name]))] start end)"
  using assms
  by (simp add: AddLabelClient_def AddLabel_LabelNames_def AddLabel_Series_def filtered_query_def FilterMatcherVisitor_def
      FilterMatcherVisitor_Visit_def FilterMatchers_def Matches_def sel_of_def)

end
