(* ===== verification/Promxy_Expfmt.thy ===== *)
theory Promxy_Expfmt
  imports Promxy_Filters "HOL-Library.Sublist"
begin

text \<open>
  The text exposition format (\<open>src/pkg/expfmt/encode.go\<close>): the writing of names, values and
  numbers, the reference encoder \<open>MetricFamilyToText\<close>, the streaming \<open>Encoder\<close> that the federation
  handler uses, and the buffered writer with its latched error. Name escaping
  (\<open>model.EscapeName\<close>, \<open>EscapeMetricFamily\<close>) is modelled with it. \<open>fmt\<close> is \<open>strconv.AppendFloat\<close> with
  format \<open>g\<close> and the shortest precision.
\<close>

section \<open>Names and their escaping\<close>

datatype escaping_scheme = NoEscaping | UnderscoreEscaping | DotsEscaping | ValueEncodingEscaping

text \<open>The runes of a string with their byte offsets, as \<open>range\<close> visits them; a stray byte is the replacement rune.\<close>

definition rune_value :: "nat list \<Rightarrow> nat" where
  "rune_value bs =
     (case bs of
        [b0] \<Rightarrow> b0
      | [b0, b1] \<Rightarrow> (b0 mod 32) * 64 + b1 mod 64
      | [b0, b1, b2] \<Rightarrow> (b0 mod 16) * 4096 + (b1 mod 64) * 64 + b2 mod 64
      | [b0, b1, b2, b3] \<Rightarrow> (b0 mod 8) * 262144 + (b1 mod 64) * 4096 + (b2 mod 64) * 64 + b3 mod 64
      | _ \<Rightarrow> 65533)"

fun runes :: "nat \<Rightarrow> string \<Rightarrow> (nat \<times> nat) list" where
  "runes i [] = []"
| "runes i (c # cs) =
     (let n = utf8_width (c # cs)
      in if n = 0 then (i, 65533) # runes (i + 1) cs
         else (i, rune_value (map byte (take n (c # cs)))) # runes (i + n) (drop (n - 1) cs))"

definition isValidLegacyRune :: "nat \<Rightarrow> nat \<Rightarrow> bool" where
  "isValidLegacyRune b i \<longleftrightarrow>
     97 \<le> b \<and> b \<le> 122 \<or> 65 \<le> b \<and> b \<le> 90 \<or> b = 95 \<or> b = 58 \<or> 48 \<le> b \<and> b \<le> 57 \<and> i > 0"

definition IsValidLegacyMetricName :: "string \<Rightarrow> bool" where
  "IsValidLegacyMetricName n \<longleftrightarrow> n \<noteq> [] \<and> list_all (\<lambda>(i, b). isValidLegacyRune b i) (runes 0 n)"

fun hex :: "nat \<Rightarrow> string" where
  "hex n = (let d = (\<lambda>k. if k < 10 then char_of (48 + k) else char_of (87 + k :: nat))
            in if n < 16 then [d n] else hex (n div 16) @ [d (n mod 16)])"

declare hex.simps [simp del]

definition ValidRune :: "nat \<Rightarrow> bool" where
  "ValidRune r \<longleftrightarrow> r < 0xD800 \<or> 0xDFFF < r \<and> r \<le> 0x10FFFF"

definition EscapeName :: "string \<Rightarrow> escaping_scheme \<Rightarrow> string" where
  "EscapeName name scheme =
     (if name = [] then name
      else case scheme of
        NoEscaping \<Rightarrow> name
      | UnderscoreEscaping \<Rightarrow>
          if IsValidLegacyMetricName name then name
          else map (\<lambda>(i, b). if isValidLegacyRune b i then char_of b else CHR ''_'') (runes 0 name)
      | DotsEscaping \<Rightarrow>
          concat (map (\<lambda>(i, b). if b = 95 then ''__'' else if b = 46 then ''_dot_''
                                else if isValidLegacyRune b i then [char_of b] else ''__'') (runes 0 name))
      | ValueEncodingEscaping \<Rightarrow>
          if IsValidLegacyMetricName name then name
          else ''U__'' @ concat (map (\<lambda>(i, b). if b = 95 then ''__'' else if isValidLegacyRune b i then [char_of b]
                                              else if \<not> ValidRune b then ''_FFFD_'' else ''_'' @ hex b @ ''_'') (runes 0 name)))"

section \<open>Writing tokens\<close>

definition quote_char :: char where "quote_char = CHR 0x22"
definition backslash :: char where "backslash = CHR 0x5C"
definition newline :: char where "newline = CHR 0x0A"

definition escaper :: "char \<Rightarrow> string" where
  "escaper c = (if c = backslash then [backslash, backslash] else if c = newline then [backslash, CHR ''n''] else [c])"

definition quotedEscaper :: "char \<Rightarrow> string" where
  "quotedEscaper c = (if c = quote_char then [backslash, quote_char] else escaper c)"

definition writeEscaped :: "string \<Rightarrow> bool \<Rightarrow> string" where
  "writeEscaped s quote =
     (if quote
      then (if \<not> list_ex (\<lambda>c. c \<in> {backslash, newline, quote_char}) s then s else concat (map quotedEscaper s))
      else (if \<not> list_ex (\<lambda>c. c \<in> {backslash, newline}) s then s else concat (map escaper s)))"

definition writeName :: "string \<Rightarrow> string" where
  "writeName name = (if IsValidLegacyMetricName name then name else [quote_char] @ writeEscaped name True @ [quote_char])"

definition writeFloat :: "(f64 \<Rightarrow> string) \<Rightarrow> f64 \<Rightarrow> string" where
  "writeFloat fmt f =
     (if f64_eq f 0x3ff0000000000000 then ''1''
      else if f64_eq f 0 then ''0''
      else if f64_eq f 0xbff0000000000000 then ''-1''
      else if f64_is_nan f then ''NaN''
      else if f = 0x7ff0000000000000 then ''+Inf''
      else if f = 0xfff0000000000000 then ''-Inf''
      else fmt f)"

definition writeInt :: "int \<Rightarrow> string" where
  "writeInt i = (if i < 0 then CHR ''-'' # itoa (nat (- i)) else itoa (nat i))"

section \<open>Metric families\<close>

text \<open>The line under construction: what is written, the next separator, whether a brace is open.\<close>

record metric_line =
  ml_w :: string
  ml_separator :: char
  ml_braces :: bool

definition beginMetric :: "string \<Rightarrow> metric_line" where
  "beginMetric name =
     (if name = [] then \<lparr>ml_w = [], ml_separator = CHR ''{'', ml_braces = False\<rparr>
      else if \<not> IsValidLegacyMetricName name
      then \<lparr>ml_w = ''{'' @ writeName name, ml_separator = CHR '','', ml_braces = True\<rparr>
      else \<lparr>ml_w = writeName name, ml_separator = CHR ''{'', ml_braces = False\<rparr>)"

definition write_pair :: "string \<Rightarrow> string \<Rightarrow> string" where
  "write_pair name value = writeName name @ ''='' @ [quote_char] @ writeEscaped value True @ [quote_char]"

definition metricLine_label :: "string \<Rightarrow> string \<Rightarrow> metric_line \<Rightarrow> metric_line" where
  "metricLine_label name value m =
     \<lparr>ml_w = ml_w m @ [ml_separator m] @ write_pair name value, ml_separator = CHR '','',
      ml_braces = (if ml_separator m = CHR ''{'' then True else ml_braces m)\<rparr>"

definition metricLine_end :: "metric_line \<Rightarrow> string" where
  "metricLine_end m = (if ml_braces m then ml_w m @ ''}'' else ml_w m)"

record dto_metric =
  dm_Label :: "(string \<times> string) list"
  dm_Untyped :: f64
  dm_TimestampMs :: "int option"

record metric_family =
  mf_Name :: "string option"
  mf_Help :: "string option"
  mf_Metric :: "dto_metric list"

definition GetName :: "metric_family \<Rightarrow> string" where
  "GetName mf = (case mf_Name mf of Some n \<Rightarrow> n | None \<Rightarrow> [])"

definition metric_text :: "(f64 \<Rightarrow> string) \<Rightarrow> string \<Rightarrow> dto_metric \<Rightarrow> string" where
  "metric_text fmt name m =
     metricLine_end (fold (\<lambda>(n, v). metricLine_label n v) (dm_Label m) (beginMetric name)) @ '' '' @ writeFloat fmt (dm_Untyped m) @
     (case dm_TimestampMs m of Some t \<Rightarrow> '' '' @ writeInt t | None \<Rightarrow> []) @ [newline]"

definition MetricFamilyToText :: "(f64 \<Rightarrow> string) \<Rightarrow> metric_family \<Rightarrow> string" where
  "MetricFamilyToText fmt mf =
     (let name = GetName mf
      in (case mf_Help mf of Some h \<Rightarrow> ''# HELP '' @ writeName name @ '' '' @ writeEscaped h False @ [newline] | None \<Rightarrow> []) @
         ''# TYPE '' @ writeName name @ '' untyped'' @ [newline] @ concat (map (metric_text fmt name) (mf_Metric mf)))"

text \<open>\<open>model.EscapeMetricFamily\<close>, which \<open>common/expfmt\<close> applies before it encodes.\<close>

definition metricNeedsEscaping :: "dto_metric \<Rightarrow> bool" where
  "metricNeedsEscaping m =
     list_ex (\<lambda>(n, v). n = MetricName \<and> \<not> IsValidLegacyMetricName v \<or> \<not> IsValidLegacyMetricName n) (dm_Label m)"

definition escape_label :: "escaping_scheme \<Rightarrow> string \<times> string \<Rightarrow> string \<times> string" where
  "escape_label scheme = (\<lambda>(n, v).
     if n = MetricName then (n, if IsValidLegacyMetricName v then v else EscapeName v scheme)
     else (if IsValidLegacyMetricName n then n else EscapeName n scheme, v))"

definition EscapeMetricFamily :: "metric_family \<Rightarrow> escaping_scheme \<Rightarrow> metric_family" where
  "EscapeMetricFamily v scheme =
     (if scheme = NoEscaping then v
      else v\<lparr>mf_Name := map_option (\<lambda>n. if IsValidLegacyMetricName n then n else EscapeName n scheme) (mf_Name v),
             mf_Metric := map (\<lambda>m. if metricNeedsEscaping m then m\<lparr>dm_Label := map (escape_label scheme) (dm_Label m)\<rparr> else m) (mf_Metric v)\<rparr>)"

section \<open>The streaming encoder\<close>

record encoder =
  en_scheme :: escaping_scheme
  en_lastName :: string
  en_started :: bool

definition NewEncoder :: "escaping_scheme \<Rightarrow> encoder" where
  "NewEncoder scheme = \<lparr>en_scheme = scheme, en_lastName = [], en_started = False\<rparr>"

text \<open>The text that one call writes, and the encoder after it.\<close>

definition sample_label :: "escaping_scheme \<Rightarrow> string \<times> string \<Rightarrow> metric_line \<Rightarrow> metric_line" where
  "sample_label scheme = (\<lambda>(n, v) m.
     \<lparr>ml_w = ml_w m @ [ml_separator m] @ write_pair (EscapeName n scheme) v, ml_separator = CHR '','', ml_braces = True\<rparr>)"

definition sample_line ::
  "(f64 \<Rightarrow> string) \<Rightarrow> escaping_scheme \<Rightarrow> string \<Rightarrow> labelset \<Rightarrow> (string \<times> string) list \<Rightarrow> f64 \<Rightarrow> int \<Rightarrow> string"
where
  "sample_line fmt scheme name lbls external v t =
     (let m = (if \<not> IsValidLegacyMetricName name then \<lparr>ml_w = ''{'' @ writeName name, ml_separator = CHR '','', ml_braces = True\<rparr>
               else \<lparr>ml_w = writeName name, ml_separator = CHR ''{'', ml_braces = False\<rparr>);
          m = fold (\<lambda>(n, v) m. if n = MetricName \<or> v = [] then m else sample_label scheme (n, v) m) lbls m;
          m = fold (\<lambda>(n, v) m. if labels_Get lbls n \<noteq> [] then m else sample_label scheme (n, v) m) external m
      in ml_w m @ (if ml_braces m then ''}'' else []) @ '' '' @ writeFloat fmt v @ '' '' @ writeInt t @ [newline])"

definition WriteFloatSample ::
  "(f64 \<Rightarrow> string) \<Rightarrow> string \<Rightarrow> labelset \<Rightarrow> (string \<times> string) list \<Rightarrow> f64 \<Rightarrow> int \<Rightarrow> encoder \<Rightarrow> string \<times> encoder"
where
  "WriteFloatSample fmt name lbls external v t e =
     (let name = EscapeName name (en_scheme e);
          (header, e) = (if \<not> en_started e \<or> name \<noteq> en_lastName e
                         then (''# TYPE '' @ writeName name @ '' untyped'' @ [newline], e\<lparr>en_lastName := name, en_started := True\<rparr>)
                         else ([], e))
      in (header @ sample_line fmt (en_scheme e) name lbls external v t, e))"

section \<open>The buffered writer\<close>

text \<open>
  \<open>errWriter\<close> over the connection and \<open>bufio.Writer\<close> over it. The connection is the outcome of
  each write: all of it, or the first bytes and an error. \<open>bufio.Writer\<close> flushes when a byte
  finds the buffer full, also within one \<open>WriteString\<close>, and drops everything after an error.
\<close>

type_synonym sink = "nat \<Rightarrow> (nat \<times> go_error) option"

record writer =
  wr_buf :: string
  wr_err :: "go_error option"
  ew_err :: "go_error option"
  ew_calls :: nat
  ew_out :: string

definition NewWriter :: writer where
  "NewWriter = \<lparr>wr_buf = [], wr_err = None, ew_err = None, ew_calls = 0, ew_out = []\<rparr>"

definition errWriter_Write :: "sink \<Rightarrow> string \<Rightarrow> writer \<Rightarrow> writer \<times> nat \<times> go_error option" where
  "errWriter_Write sink p w =
     (case ew_err w of
        Some e \<Rightarrow> (w, 0, Some e)
      | None \<Rightarrow>
          (case sink (ew_calls w) of
             None \<Rightarrow> (w\<lparr>ew_calls := ew_calls w + 1, ew_out := ew_out w @ p\<rparr>, length p, None)
           | Some (n, e) \<Rightarrow> (w\<lparr>ew_calls := ew_calls w + 1, ew_out := ew_out w @ take n p, ew_err := Some e\<rparr>, n, Some e)))"

definition bufio_Flush :: "sink \<Rightarrow> writer \<Rightarrow> writer" where
  "bufio_Flush sink w =
     (if wr_err w \<noteq> None \<or> wr_buf w = [] then w
      else case errWriter_Write sink (wr_buf w) w of
             (w', _, None) \<Rightarrow> w'\<lparr>wr_buf := []\<rparr>
           | (w', n, Some e) \<Rightarrow> w'\<lparr>wr_buf := drop n (wr_buf w), wr_err := Some e\<rparr>)"

definition bufio_size :: nat where
  "bufio_size = 4096"

definition bufio_WriteByte :: "sink \<Rightarrow> char \<Rightarrow> writer \<Rightarrow> writer" where
  "bufio_WriteByte sink c w =
     (if wr_err w \<noteq> None then w
      else let w = (if bufio_size \<le> length (wr_buf w) then bufio_Flush sink w else w)
           in if wr_err w \<noteq> None then w else w\<lparr>wr_buf := wr_buf w @ [c]\<rparr>)"

definition bufio_WriteString :: "sink \<Rightarrow> string \<Rightarrow> writer \<Rightarrow> writer" where
  "bufio_WriteString sink s w = fold (bufio_WriteByte sink) s w"

section \<open>Lemmas\<close>

lemma concat_map_single: "\<forall>c\<in>set s. f c = [c] \<Longrightarrow> concat (map f s) = s"
  by (induction s) auto

text \<open>The fast paths are the replacers.\<close>

lemma writeEscaped_quoted: "writeEscaped s True = concat (map quotedEscaper s)"
proof -
  have "concat (map quotedEscaper s) = s" if "\<not> list_ex (\<lambda>c. c \<in> {backslash, newline, quote_char}) s"
    using that by (intro concat_map_single) (auto simp: list_ex_iff quotedEscaper_def escaper_def)
  then show ?thesis by (simp add: writeEscaped_def)
qed

lemma writeEscaped_plain: "writeEscaped s False = concat (map escaper s)"
proof -
  have "concat (map escaper s) = s" if "\<not> list_ex (\<lambda>c. c \<in> {backslash, newline}) s"
    using that by (intro concat_map_single) (auto simp: list_ex_iff escaper_def)
  then show ?thesis by (simp add: writeEscaped_def)
qed

text \<open>A reader of the format: quoted strings, names, label pairs and the part of a line before its value.\<close>

fun read_quoted :: "string \<Rightarrow> (string \<times> string) option" where
  "read_quoted [] = None"
| "read_quoted (c # cs) =
     (if c = quote_char then Some ([], cs)
      else if c = backslash
      then (case cs of [] \<Rightarrow> None
            | d # ds \<Rightarrow> map_option (\<lambda>(s, r). ((if d = CHR ''n'' then newline else d) # s, r)) (read_quoted ds))
      else map_option (\<lambda>(s, r). (c # s, r)) (read_quoted cs))"

definition name_char :: "char \<Rightarrow> bool" where
  "name_char c \<longleftrightarrow> isValidLegacyRune (byte c) 1"

definition read_name :: "string \<Rightarrow> (string \<times> string) option" where
  "read_name s =
     (case s of
        [] \<Rightarrow> None
      | c # cs \<Rightarrow> if c = quote_char then read_quoted cs else Some (takeWhile name_char s, dropWhile name_char s))"

fun read_pairs :: "nat \<Rightarrow> string \<Rightarrow> ((string \<times> string) list \<times> string) option" where
  "read_pairs 0 s = None"
| "read_pairs (Suc k) s =
     (case read_name s of
        Some (n, c # q # r) \<Rightarrow>
          if c = CHR ''='' \<and> q = quote_char
          then (case read_quoted r of
                  Some (v, d # r) \<Rightarrow>
                    if d = CHR '','' then map_option (\<lambda>(ps, r). ((n, v) # ps, r)) (read_pairs k r)
                    else if d = CHR ''}'' then Some ([(n, v)], r) else None
                | _ \<Rightarrow> None)
          else None
      | _ \<Rightarrow> None)"

definition read_line :: "string \<Rightarrow> (string \<times> (string \<times> string) list \<times> string) option" where
  "read_line s =
     (case s of
        [] \<Rightarrow> None
      | c # cs \<Rightarrow>
          if c = CHR ''{''
          then (case read_name cs of
                  Some (n, d # r) \<Rightarrow>
                    if d = CHR '','' then map_option (\<lambda>(ps, r). (n, ps, r)) (read_pairs (length r) r)
                    else if d = CHR ''}'' then Some (n, [], r) else None
                | _ \<Rightarrow> None)
          else (case read_name s of
                  Some (n, d # r) \<Rightarrow>
                    if d = CHR ''{'' then map_option (\<lambda>(ps, r). (n, ps, r)) (read_pairs (length r) r)
                    else Some (n, [], d # r)
                | _ \<Rightarrow> None))"

lemma char_constants: "quote_char \<noteq> backslash" "newline \<noteq> backslash" "newline \<noteq> quote_char" "quote_char \<noteq> CHR ''n''" "backslash \<noteq> CHR ''n''"
  "quote_char \<noteq> CHR ''{''" "\<not> name_char quote_char" "\<not> name_char (CHR ''='')" "\<not> name_char (CHR ''{'')" "\<not> name_char (CHR '' '')"
  by (simp_all add: quote_char_def backslash_def newline_def name_char_def isValidLegacyRune_def)

lemma read_quoted_writeEscaped: "read_quoted (writeEscaped s True @ quote_char # r) = Some (s, r)"
proof -
  have "read_quoted (concat (map quotedEscaper s) @ quote_char # r) = Some (s, r)"
    by (induction s) (auto simp: quotedEscaper_def escaper_def char_constants char_constants(1) [symmetric])
  then show ?thesis by (simp add: writeEscaped_quoted)
qed

text \<open>A legacy name is a non-empty run of name characters.\<close>

lemma utf8_width_ascii: "byte c < 128 \<Longrightarrow> utf8_width (c # cs) = 1"
  by (simp add: utf8_width_def utf8_expected_def)

lemma mod_range: "k * m \<le> b \<Longrightarrow> b < k * m + m \<Longrightarrow> b mod m = b - k * m" for b :: nat
  by (metis add_less_cancel_left le_add_diff_inverse mod_less mod_mult_self3)

lemma rune_value_nonascii:
  assumes "\<not> byte c < 128" "utf8_width (c # cs) \<noteq> 0"
  shows "128 \<le> rune_value (map byte (take (utf8_width (c # cs)) (c # cs)))"
proof -
  let ?n = "utf8_expected (byte c)"
  have "?n \<in> {0, 2, 3, 4}" using assms(1) by (simp add: utf8_expected_def)
  moreover have w: "utf8_width (c # cs) = (if ?n \<le> 1 then ?n
      else if length (take (?n - 1) cs) = ?n - 1 \<and> utf8_second (byte c) (byte (hd (take (?n - 1) cs))) \<and>
        list_all (\<lambda>d. utf8_continuation (byte d)) (take (?n - 1) cs) then ?n else 0)"
    by (simp only: utf8_width_def Let_def list.case)
  ultimately have "?n \<in> {2, 3, 4}" using assms(2) by (simp split: if_splits)
  then have big: "\<not> ?n \<le> 1" by auto
  have n: "?n \<in> {2, 3, 4}" "utf8_width (c # cs) = ?n" "length (take (?n - 1) cs) = ?n - 1" "utf8_second (byte c) (byte (hd (take (?n - 1) cs)))"
    using assms(2) \<open>?n \<in> {2, 3, 4}\<close> unfolding w if_not_P [OF big] by (simp_all split: if_splits del: utf8_second.simps)
  from n(1) consider "?n = 2" | "?n = 3" | "?n = 4" by auto
  then show ?thesis
  proof cases
    case 1
    then obtain d ds where cs: "cs = d # ds" using n(3) by (cases cs) auto
    have "194 \<le> byte c" "byte c \<le> 223" using 1 by (auto simp: utf8_expected_def split: if_splits)
    then have "2 \<le> byte c mod 32" using mod_range [of 6 32 "byte c"] by simp
    then show ?thesis using 1 n(2) cs by (simp add: rune_value_def)
  next
    case 2
    then obtain d e ds where cs: "cs = d # e # ds" using n(3) by (cases cs; cases "tl cs") auto
    have "224 \<le> byte c" "byte c \<le> 239" using 2 by (auto simp: utf8_expected_def split: if_splits)
    then have "1 \<le> byte c mod 16 \<or> byte c = 224" using mod_range [of 14 16 "byte c"] by (simp, linarith)
    moreover have "32 \<le> byte d mod 64" if "byte c = 224"
    proof -
      have "160 \<le> byte d" "byte d \<le> 191" using that n(4) 2 cs by simp_all
      then show ?thesis using mod_range [of 2 64 "byte d"] by simp
    qed
    ultimately show ?thesis using 2 n(2) cs by (auto simp: rune_value_def)
  next
    case 3
    then obtain d e f ds where cs: "cs = d # e # f # ds" using n(3) by (cases cs; cases "tl cs"; cases "tl (tl cs)") auto
    have "240 \<le> byte c" "byte c \<le> 244" using 3 by (auto simp: utf8_expected_def split: if_splits)
    then have "1 \<le> byte c mod 8 \<or> byte c = 240" using mod_range [of 30 8 "byte c"] by (simp, linarith)
    moreover have "16 \<le> byte d mod 64" if "byte c = 240"
    proof -
      have "144 \<le> byte d" "byte d \<le> 191" using that n(4) 3 cs by simp_all
      then show ?thesis using mod_range [of 2 64 "byte d"] by simp
    qed
    ultimately show ?thesis using 3 n(2) cs by (auto simp: rune_value_def)
  qed
qed

lemma runes_legacy: "list_all (\<lambda>(i, b). isValidLegacyRune b i) (runes i n) \<Longrightarrow> list_all name_char n"
proof (induction i n rule: runes.induct)
  case (2 i c cs)
  have ascii: "byte c < 128"
  proof (rule ccontr)
    assume c: "\<not> byte c < 128"
    have "isValidLegacyRune (snd (hd (runes i (c # cs)))) i" using 2(3) by (simp add: Let_def split: if_splits)
    with rune_value_nonascii [OF c, of cs] show False
      by (auto simp: isValidLegacyRune_def Let_def split: if_splits)
  qed
  then have "runes i (c # cs) = (i, byte c) # runes (i + 1) cs" by (simp add: utf8_width_ascii rune_value_def)
  with 2 ascii show ?case by (auto simp: utf8_width_ascii name_char_def isValidLegacyRune_def)
qed simp

lemma legacy_name: "IsValidLegacyMetricName n \<Longrightarrow> n \<noteq> [] \<and> list_all name_char n"
  using runes_legacy by (auto simp: IsValidLegacyMetricName_def)

lemma read_name_writeName:
  assumes "\<not> name_char d"
  shows "read_name (writeName n @ d # r) = Some (n, d # r)"
proof (cases "IsValidLegacyMetricName n")
  case True
  then have n: "n \<noteq> []" "list_all name_char n" using legacy_name by auto
  then obtain c cs where "n = c # cs" "name_char c" by (cases n) auto
  then have "c \<noteq> quote_char" using char_constants(7) by auto
  moreover have "takeWhile name_char (n @ d # r) = n" "dropWhile name_char (n @ d # r) = d # r"
    using n(2) assms by (auto simp: list_all_iff takeWhile_append2 dropWhile_append2)
  ultimately show ?thesis using \<open>n = c # cs\<close> True by (simp add: writeName_def read_name_def)
qed (use read_quoted_writeEscaped in \<open>simp add: writeName_def read_name_def\<close>)

text \<open>The text of label pairs after an opening separator, and the line that the encoder builds.\<close>

definition pairs_text :: "(string \<times> string) list \<Rightarrow> string" where
  "pairs_text ps = concat (map (\<lambda>(n, v). CHR '','' # write_pair n v) ps)"

lemma length_write_pair: "0 < length (write_pair n v)"
  by (simp add: write_pair_def)

lemma read_pairs_text:
  assumes "length ps < k"
  shows "read_pairs k (write_pair n v @ pairs_text ps @ ''}'' @ r) = Some ((n, v) # ps, r)"
  using assms
proof (induction ps arbitrary: k n v)
  case Nil
  then obtain j where "k = Suc j" by (cases k) auto
  then show ?case
    using read_name_writeName [of "CHR ''=''" n] read_quoted_writeEscaped [of v] char_constants(8)
    by (simp add: write_pair_def pairs_text_def)
next
  case (Cons p ps)
  then obtain j where k: "k = Suc j" "length ps < j" by (cases k) auto
  obtain n' v' where p: "p = (n', v')" by (cases p)
  have "read_pairs j (write_pair n' v' @ pairs_text ps @ ''}'' @ r) = Some ((n', v') # ps, r)" by (rule Cons.IH [OF k(2)])
  then show ?case
    using read_name_writeName [of "CHR ''=''" n] read_quoted_writeEscaped [of v] char_constants(8)
    by (simp add: k p write_pair_def pairs_text_def)
qed

lemma sample_label_fold:
  "fold (sample_label scheme) ps m =
     (case ps of [] \<Rightarrow> m
      | (n, v) # ps \<Rightarrow> \<lparr>ml_w = ml_w m @ [ml_separator m] @ write_pair (EscapeName n scheme) v @ pairs_text (map (\<lambda>(n, v). (EscapeName n scheme, v)) ps),
          ml_separator = CHR '','', ml_braces = True\<rparr>)"
proof -
  have step: "sample_label scheme (n, v) m = \<lparr>ml_w = ml_w m @ [ml_separator m] @ write_pair (EscapeName n scheme) v, ml_separator = CHR '','', ml_braces = True\<rparr>"
    for n v m by (simp add: sample_label_def)
  have more: "fold (sample_label scheme) ps m = \<lparr>ml_w = ml_w m @ pairs_text (map (\<lambda>(n, v). (EscapeName n scheme, v)) ps), ml_separator = CHR '','', ml_braces = True\<rparr>"
    if "ml_separator m = CHR '',''" "ml_braces m" for ps m
    using that by (induction ps arbitrary: m) (auto simp: pairs_text_def step)
  show ?thesis by (cases ps) (auto simp: more step)
qed

text \<open>The labels of a federated sample: its own non-empty ones, then the external labels it does not have.\<close>

definition line_labels :: "labelset \<Rightarrow> (string \<times> string) list \<Rightarrow> (string \<times> string) list" where
  "line_labels lbls external = filter (\<lambda>(n, v). n \<noteq> MetricName \<and> v \<noteq> []) lbls @ filter (\<lambda>(n, v). labels_Get lbls n = []) external"

definition line_start :: "string \<Rightarrow> metric_line" where
  "line_start name = (if \<not> IsValidLegacyMetricName name then \<lparr>ml_w = ''{'' @ writeName name, ml_separator = CHR '','', ml_braces = True\<rparr>
     else \<lparr>ml_w = writeName name, ml_separator = CHR ''{'', ml_braces = False\<rparr>)"

lemma fold_filter: "fold (\<lambda>(n, v) m. if P n v then m else f (n, v) m) ps m = fold f (filter (\<lambda>(n, v). \<not> P n v) ps) m"
  by (induction ps arbitrary: m) auto

lemma sample_line_eq:
  "sample_line fmt scheme name lbls external v t =
     metricLine_end (fold (sample_label scheme) (line_labels lbls external) (line_start name)) @ '' '' @ writeFloat fmt v @ '' '' @ writeInt t @ [newline]"
  unfolding sample_line_def Let_def line_labels_def fold_append comp_def line_start_def [symmetric]
    fold_filter [where P = "\<lambda>n v. n = MetricName \<or> v = []"] fold_filter [where P = "\<lambda>n v. labels_Get lbls n \<noteq> []"]
  by (simp add: metricLine_end_def)

lemma metricLine_end_line:
  "metricLine_end (fold (sample_label scheme) ps (line_start name)) =
     (if IsValidLegacyMetricName name
      then (case ps of [] \<Rightarrow> name | (n, v) # ps \<Rightarrow> name @ ''{'' @ write_pair (EscapeName n scheme) v @ pairs_text (map (\<lambda>(n, v). (EscapeName n scheme, v)) ps) @ ''}'')
      else ''{'' @ writeName name @ pairs_text (map (\<lambda>(n, v). (EscapeName n scheme, v)) ps) @ ''}'')"
  unfolding sample_label_fold by (auto simp: metricLine_end_def line_start_def pairs_text_def writeName_def split: list.splits)

lemma read_line_text:
  assumes "r = CHR '' '' # r'"
  shows "read_line (metricLine_end (fold (sample_label scheme) ps (line_start name)) @ r) = Some (name, map (\<lambda>(n, v). (EscapeName n scheme, v)) ps, r)"
proof -
  have len: "length ps \<le> length (pairs_text ps)" for ps
    by (induction ps) (auto simp: pairs_text_def)
  show ?thesis
  proof (cases "IsValidLegacyMetricName name")
    case True
    then obtain c cs where name: "name = c # cs" "name_char c" using legacy_name [OF True] by (cases name) auto
    then have c: "c \<noteq> CHR ''{''" using char_constants(9) by auto
    have rn: "read_name (name @ d # x) = Some (name, d # x)" if "\<not> name_char d" for d x
      using read_name_writeName [OF that, of name x] True by (simp add: writeName_def)
    show ?thesis
    proof (cases ps)
      case Nil
      show ?thesis unfolding metricLine_end_line using Nil True c name rn [OF char_constants(10), of r'] by (simp add: read_line_def assms)
    next
      case (Cons p qs)
      obtain n v where p: "p = (n, v)" by (cases p)
      let ?qs = "map (\<lambda>(n, v). (EscapeName n scheme, v)) qs"
      let ?t = "write_pair (EscapeName n scheme) v @ pairs_text ?qs @ ''}'' @ r"
      have "length ?qs < length ?t" using len [of ?qs] length_write_pair [of "EscapeName n scheme" v] by simp
      from read_pairs_text [OF this] True c name rn [OF char_constants(9), of ?t] show ?thesis
        unfolding metricLine_end_line by (simp add: read_line_def Cons p)
    qed
  next
    case False
    show ?thesis
    proof (cases ps)
      case Nil
      show ?thesis
        unfolding metricLine_end_line using Nil False read_name_writeName [of "CHR ''}''" name r]
        by (simp add: read_line_def pairs_text_def name_char_def isValidLegacyRune_def)
    next
      case (Cons p qs)
      obtain n v where p: "p = (n, v)" by (cases p)
      let ?qs = "map (\<lambda>(n, v). (EscapeName n scheme, v)) qs"
      let ?t = "write_pair (EscapeName n scheme) v @ pairs_text ?qs @ ''}'' @ r"
      have "length ?qs < length ?t" using len [of ?qs] length_write_pair [of "EscapeName n scheme" v] by simp
      from read_pairs_text [OF this] False read_name_writeName [of "CHR '',''" name ?t] show ?thesis
        unfolding metricLine_end_line by (simp add: read_line_def Cons p pairs_text_def name_char_def isValidLegacyRune_def)
    qed
  qed
qed

text \<open>Nothing but the end of a line is a newline.\<close>

lemma name_char_newline: "\<not> name_char newline"
  by (simp add: newline_def name_char_def isValidLegacyRune_def)

lemma newline_writeEscaped: "newline \<notin> set (writeEscaped s True)"
  by (simp add: writeEscaped_quoted) (auto simp: quotedEscaper_def escaper_def quote_char_def backslash_def newline_def)

lemma newline_writeName: "newline \<notin> set (writeName n)"
  using legacy_name [of n] name_char_newline newline_writeEscaped [of n] char_constants(3)
  by (auto simp: writeName_def list_all_iff)

lemma newline_itoa: "newline \<notin> set (itoa n)"
proof (induction n rule: itoa.induct)
  case (1 n)
  have digit: "newline \<noteq> char_of (48 + k :: nat)" if "k < 10" for k
  proof
    assume "newline = char_of (48 + k)"
    then have "byte newline = byte (char_of (48 + k))" by (rule arg_cong)
    then have "byte newline = 48 + k" using that by (simp only: of_char_of) (simp add: mod_less)
    then show False by (simp add: newline_def)
  qed
  have "newline \<notin> set (itoa (n div 10))" if "\<not> n < 10" using 1 that by simp
  then show ?case using digit [of n] digit [of "n mod 10"] by (subst itoa.simps) simp
qed

lemma newline_sample_line:
  assumes "\<And>f. newline \<notin> set (fmt f)"
  shows "count_list (sample_line fmt scheme name lbls external v t) newline = 1"
proof -
  have pair: "newline \<notin> set (write_pair n v)" for n v
    using newline_writeName newline_writeEscaped char_constants(3) by (auto simp: write_pair_def newline_def)
  have comma: "CHR '','' \<noteq> newline" by (simp add: newline_def)
  have "newline \<notin> set (pairs_text ps)" for ps using pair comma by (auto simp: pairs_text_def)
  then have "newline \<notin> set (metricLine_end (fold (sample_label scheme) ps (line_start name)))" for ps
    unfolding metricLine_end_line using pair newline_writeName [of name] legacy_name [of name] name_char_newline
    by (auto simp: newline_def list_all_iff split: list.splits)
  moreover have "newline \<notin> set (writeFloat fmt v)" using assms by (auto simp: writeFloat_def newline_def)
  moreover have "newline \<notin> set (writeInt t)" using newline_itoa by (auto simp: writeInt_def newline_def)
  ultimately show ?thesis
    by (simp add: sample_line_eq count_list_0_iff) (simp add: newline_def)
qed

section \<open>Properties\<close>

text \<open>
  C16. The text of a federated sample: a header when the name is not that of the sample before,
  and one line, which ends in its only newline and reads back as the (escaped) name, the labels and the
  rest, whatever bytes the name and the label values have, so that no value can break
  out of its quotes or its line.
\<close>

theorem WriteFloatSample_round_trip:
  assumes "\<forall>f. newline \<notin> set (fmt f)"
  shows "\<exists>line. fst (WriteFloatSample fmt name lbls external v t e) =
      (if en_started e \<and> EscapeName name (en_scheme e) = en_lastName e then []
       else ''# TYPE '' @ writeName (EscapeName name (en_scheme e)) @ '' untyped'' @ [newline]) @ line \<and>
    count_list line newline = 1 \<and> last line = newline \<and>
    read_line line = Some (EscapeName name (en_scheme e), map (\<lambda>(n, v). (EscapeName n (en_scheme e), v)) (line_labels lbls external),
      '' '' @ writeFloat fmt v @ '' '' @ writeInt t @ [newline])"
proof -
  let ?line = "sample_line fmt (en_scheme e) (EscapeName name (en_scheme e)) lbls external v t"
  have "fst (WriteFloatSample fmt name lbls external v t e) =
      (if en_started e \<and> EscapeName name (en_scheme e) = en_lastName e then []
       else ''# TYPE '' @ writeName (EscapeName name (en_scheme e)) @ '' untyped'' @ [newline]) @ ?line"
    by (auto simp: WriteFloatSample_def Let_def)
  moreover have "count_list ?line newline = 1" using newline_sample_line assms by blast
  moreover have "last ?line = newline" by (simp add: sample_line_eq)
  moreover have "read_line ?line = Some (EscapeName name (en_scheme e), map (\<lambda>(n, v). (EscapeName n (en_scheme e), v)) (line_labels lbls external),
      '' '' @ writeFloat fmt v @ '' '' @ writeInt t @ [newline])"
    unfolding sample_line_eq by (rule read_line_text) simp
  ultimately show ?thesis by blast
qed

theorem WriteFloatSample_round_trip_witness:
  "\<exists>line. fst (WriteFloatSample (\<lambda>_. ''0.5'') ''up'' [(''__name__'', ''up''), (''job'', [quote_char, newline])] [(''instance'', [])] 7 5 (NewEncoder NoEscaping)) =
      ''# TYPE '' @ writeName ''up'' @ '' untyped'' @ [newline] @ line \<and> count_list line newline = 1 \<and>
    read_line line = Some (''up'', [(''job'', [quote_char, newline]), (''instance'', [])], '' '' @ writeFloat (\<lambda>_. ''0.5'') 7 @ '' '' @ writeInt 5 @ [newline])"
  using WriteFloatSample_round_trip [of "\<lambda>_. ''0.5''" "''up''" "[(''__name__'', ''up''), (''job'', [quote_char, newline])]" "[(''instance'', [])]" 7 5 "NewEncoder NoEscaping"]
  by (simp add: NewEncoder_def EscapeName_def line_labels_def MetricName_def labels_Get_def) (simp add: newline_def, blast)

end
