(* ===== verification/Promxy_LabelFilter.thy ===== *)
theory Promxy_LabelFilter
  imports Promxy_Filters
begin

text \<open>
  The label filter of \<open>src/pkg/promclient/labelfilter.go\<close>: its configuration, the filter that
  \<open>Sync\<close> builds from the downstream and the static lists, the background loop as a state
  machine, the client that drops calls the filter rules out, and the lookups that decide
  whether a matcher can be satisfied.
\<close>

section \<open>Configuration\<close>

definition IsValidMetricName :: "string \<Rightarrow> bool" where
  "IsValidMetricName n \<longleftrightarrow> n \<noteq> [] \<and> valid_utf8 n"

definition OnSyncErrorAbort :: string where "OnSyncErrorAbort = ''abort''"
definition OnSyncErrorOpen :: string where "OnSyncErrorOpen = ''open''"
definition OnSyncErrorClosed :: string where "OnSyncErrorClosed = ''closed''"

record label_filter_config =
  lf_DynamicLabels :: "string list"
  lf_SyncInterval :: duration
  lf_SyncLookback :: duration
  lf_StaticLabelsInclude :: "(string, string list) smap"
  lf_StaticLabelsExclude :: "(string, string list) smap"
  lf_OnSyncError :: string

text \<open>\<open>Validate\<close> fills in the default of \<open>on_sync_error\<close>.\<close>

definition LabelFilterConfig_Validate :: "(string \<Rightarrow> bool) \<Rightarrow> label_filter_config \<Rightarrow> go_error + label_filter_config" where
  "LabelFilterConfig_Validate isPrint c =
     (case find (\<lambda>l. \<not> IsValidMetricName l) (lf_DynamicLabels c) of
        Some l \<Rightarrow> Inl (OtherError (l @ '' is not a valid label name''))
      | None \<Rightarrow>
          if lf_SyncInterval c > 0 \<and> lf_DynamicLabels c = []
          then Inl (OtherError ''sync_interval requires `dynamic_labels_include` to be set'')
          else if lf_SyncLookback c < 0 then Inl (OtherError ''sync_lookback must not be negative'')
          else if lf_SyncLookback c > 0 \<and> lf_DynamicLabels c = []
          then Inl (OtherError ''sync_lookback requires `dynamic_labels` to be set'')
          else if lf_OnSyncError c = [] then Inr (c\<lparr>lf_OnSyncError := OnSyncErrorAbort\<rparr>)
          else if lf_OnSyncError c \<in> {OnSyncErrorAbort, OnSyncErrorOpen, OnSyncErrorClosed} then Inr c
          else Inl (OtherError (''invalid on_sync_error '' @ Quote isPrint (lf_OnSyncError c) @
                 '', must be one of: abort, open, closed'')))"

section \<open>Sync\<close>

type_synonym value_set = "(string, unit) smap"
type_synonym label_filter = "(string, value_set) smap"

definition add_values :: "string list \<Rightarrow> value_set \<Rightarrow> value_set" where
  "add_values vs m = fold (\<lambda>v m. smap_put v () m) vs m"

definition delete_values :: "string list \<Rightarrow> value_set \<Rightarrow> value_set" where
  "delete_values vs m = fold smap_del vs m"

fun sync_dynamic ::
  "api \<Rightarrow> time \<Rightarrow> time \<Rightarrow> string list \<Rightarrow> label_filter \<Rightarrow> (go_error + label_filter) outcome"
where
  "sync_dynamic a start end [] flt = Ret (Inr flt)"
| "sync_dynamic a start end (label # labels) flt =
     obind (LabelValues a label [] start end) (\<lambda>(vals, _, err).
       case err of
         Some e \<Rightarrow> Ret (Inl e)
       | None \<Rightarrow> sync_dynamic a start end labels (smap_put label (add_values (nilable vals) []) flt))"

definition sync_include :: "(string, string list) smap \<Rightarrow> label_filter \<Rightarrow> label_filter" where
  "sync_include inc flt =
     fold (\<lambda>(k, vList) flt.
       smap_put k (add_values vList (case map_of flt k of Some m \<Rightarrow> m | None \<Rightarrow> [])) flt) inc flt"

definition sync_exclude :: "(string, string list) smap \<Rightarrow> label_filter \<Rightarrow> label_filter" where
  "sync_exclude exc flt =
     fold (\<lambda>(k, vList) flt.
       case map_of flt k of Some m \<Rightarrow> smap_put k (delete_values vList m) flt | None \<Rightarrow> flt) exc flt"

text \<open>
  \<open>now\<close> is the time of the call. The result is the filter that is stored, or the error, which
  leaves the stored filter alone.
\<close>

definition Sync :: "label_filter_config \<Rightarrow> api \<Rightarrow> time \<Rightarrow> (go_error + label_filter) outcome" where
  "Sync cfg a now =
     (let end = timestamp_Time (FromTime now);
          start = (if lf_SyncLookback cfg > 0 then end - lf_SyncLookback cfg else timestamp_Time 0)
      in omap (\<lambda>r. case r of
             Inl e \<Rightarrow> Inl e
           | Inr flt \<Rightarrow> Inr (sync_exclude (lf_StaticLabelsExclude cfg) (sync_include (lf_StaticLabelsInclude cfg) flt)))
           (sync_dynamic a start end (lf_DynamicLabels cfg) []))"

section \<open>The client's state and its loop\<close>

text \<open>
  The stored filter, \<open>None\<close> until the first sync that succeeds, whether the background
  loop runs, and whether the client's context is done.
\<close>

record label_filter_state =
  ls_filter :: "label_filter option"
  ls_running :: bool
  ls_done :: bool

definition NewLabelFilterClient ::
  "label_filter_config \<Rightarrow> api \<Rightarrow> time \<Rightarrow> (go_error + label_filter_state) outcome"
where
  "NewLabelFilterClient cfg a now =
     omap (\<lambda>r. case r of
         Inr flt \<Rightarrow> Inr \<lparr>ls_filter = Some flt, ls_running = lf_SyncInterval cfg > 0, ls_done = False\<rparr>
       | Inl err \<Rightarrow>
           if lf_OnSyncError cfg \<noteq> OnSyncErrorOpen \<and> lf_OnSyncError cfg \<noteq> OnSyncErrorClosed then Inl err
           else Inr \<lparr>ls_filter = None, ls_running = True, ls_done = False\<rparr>)
       (Sync cfg a now)"

text \<open>One round of \<open>syncLoop\<close> after the timer: a sync, and the end of the loop once it has done its work.\<close>

definition syncLoop_tick ::
  "label_filter_config \<Rightarrow> api \<Rightarrow> time \<Rightarrow> label_filter_state \<Rightarrow> label_filter_state outcome"
where
  "syncLoop_tick cfg a now st =
     omap (\<lambda>r.
         let flt = (case r of Inr flt \<Rightarrow> Some flt | Inl _ \<Rightarrow> ls_filter st)
         in st\<lparr>ls_filter := flt, ls_running := \<not> (lf_SyncInterval cfg \<le> 0 \<and> flt \<noteq> None)\<rparr>)
       (Sync cfg a now)"

text \<open>The timer, with whatever the downstream answers then, or the end of the context.\<close>

inductive lf_step :: "label_filter_config \<Rightarrow> label_filter_state \<Rightarrow> label_filter_state \<Rightarrow> bool" for cfg where
  tick: "ls_running st \<Longrightarrow> syncLoop_tick cfg a now st = Ret st' \<Longrightarrow> lf_step cfg st st'"
| stop: "ls_running st \<Longrightarrow> lf_step cfg st (st\<lparr>ls_running := False, ls_done := True\<rparr>)"

inductive lf_reachable :: "label_filter_config \<Rightarrow> label_filter_state \<Rightarrow> bool" for cfg where
  start: "NewLabelFilterClient cfg a now = Ret (Inr st) \<Longrightarrow> lf_reachable cfg st"
| step: "lf_reachable cfg st \<Longrightarrow> lf_step cfg st st' \<Longrightarrow> lf_reachable cfg st'"

inductive_cases lf_stepE: "lf_step cfg st st'"

definition blocked :: "label_filter_config \<Rightarrow> label_filter option \<Rightarrow> bool" where
  "blocked cfg flt \<longleftrightarrow> lf_OnSyncError cfg = OnSyncErrorClosed \<and> flt = None"

section \<open>Matching against the filter\<close>

text \<open>\<open>seen\<close> is nil until the first hit.\<close>

fun countPresent_loop :: "value_set \<Rightarrow> string list \<Rightarrow> string set option \<Rightarrow> nat \<Rightarrow> nat" where
  "countPresent_loop s [] seen n = n"
| "countPresent_loop s (v # vs) seen n =
     (if map_of s v = None then countPresent_loop s vs seen n
      else (case seen of
              None \<Rightarrow> countPresent_loop s vs (Some {v}) (n + 1)
            | Some sn \<Rightarrow>
                (if v \<in> sn then countPresent_loop s vs seen n
                 else countPresent_loop s vs (Some (insert v sn)) (n + 1))))"

definition countPresent :: "value_set \<Rightarrow> string list \<Rightarrow> nat" where
  "countPresent s values = countPresent_loop s values None 0"

fun any_value_matches :: "externals \<Rightarrow> matcher \<Rightarrow> string list \<Rightarrow> bool outcome" where
  "any_value_matches ext m [] = Ret False"
| "any_value_matches ext m (v # vs) =
     obind (Matches ext m v) (\<lambda>ok. if ok then Ret True else any_value_matches ext m vs)"

definition FilterLabelMatchers :: "externals \<Rightarrow> label_filter option \<Rightarrow> matcher \<Rightarrow> bool outcome" where
  "FilterLabelMatchers ext flt m =
     (case (case flt of None \<Rightarrow> None | Some f \<Rightarrow> map_of f (m_Name m)) of
        None \<Rightarrow> Ret True
      | Some lf \<Rightarrow>
          (case m_Type m of
             MatchEqual \<Rightarrow> Ret (map_of lf (m_Value m) \<noteq> None)
           | MatchNotEqual \<Rightarrow>
               (if length lf = 0 then Ret False
                else if length lf = 1 then Ret (map_of lf (m_Value m) = None)
                else Ret True)
           | MatchRegexp \<Rightarrow>
               (if SetMatches ext m \<noteq> [] then Ret (list_ex (\<lambda>v. map_of lf v \<noteq> None) (SetMatches ext m))
                else any_value_matches ext m (map fst lf))
           | MatchNotRegexp \<Rightarrow>
               (if SetMatches ext m \<noteq> [] then Ret (countPresent lf (SetMatches ext m) < length lf)
                else any_value_matches ext m (map fst lf))))"

fun all_satisfiable :: "externals \<Rightarrow> label_filter option \<Rightarrow> matcher list \<Rightarrow> bool outcome" where
  "all_satisfiable ext flt [] = Ret True"
| "all_satisfiable ext flt (m # ms) =
     obind (FilterLabelMatchers ext flt m) (\<lambda>ok. if ok then all_satisfiable ext flt ms else Ret False)"

definition FilterLabelVisitor :: "externals \<Rightarrow> label_filter option \<Rightarrow> bool visitor" where
  "FilterLabelVisitor ext flt = \<lparr>
     visit_vector = \<lambda>vs path s. omap (\<lambda>ok. (if ok then s else False, vs, ok)) (all_satisfiable ext flt (vs_LabelMatchers vs)),
     visit_matrix = \<lambda>vs r path s. Ret (s, vs, True),
     visit_grouping = \<lambda>g. g,
     visit_node = \<lambda>e path s. (s, True, None)\<rparr>"

section \<open>The client's calls\<close>

text \<open>The calls see one filter; a sync that runs at the same time swaps the whole map.\<close>

definition LabelFilter_query ::
  "externals \<Rightarrow> promql \<Rightarrow> label_filter_config \<Rightarrow> label_filter option \<Rightarrow> (string \<Rightarrow> series_set outcome) \<Rightarrow> string \<Rightarrow> series_set outcome"
where
  "LabelFilter_query ext pq cfg flt call query =
     (if blocked cfg flt then Ret EmptySeriesSet
      else (case pq_ParseExpr pq query of
              Inl err \<Rightarrow> Ret (ErrSeriesSet err)
            | Inr e \<Rightarrow>
                obind (walk (FilterLabelVisitor ext flt) e [] True) (\<lambda>(filterMatch, _, err).
                  case err of
                    Some err \<Rightarrow> Ret (ErrSeriesSet err)
                  | None \<Rightarrow> if \<not> filterMatch then Ret EmptySeriesSet else call query)))"

fun series_matches_satisfiable ::
  "externals \<Rightarrow> promql \<Rightarrow> label_filter option \<Rightarrow> string list \<Rightarrow> (go_error + bool) outcome"
where
  "series_matches_satisfiable ext pq flt [] = Ret (Inr True)"
| "series_matches_satisfiable ext pq flt (m # ms) =
     (case pq_ParseMetricSelector pq m of
        Inl err \<Rightarrow> Ret (Inl err)
      | Inr matchers \<Rightarrow>
          obind (all_satisfiable ext flt matchers)
            (\<lambda>ok. if ok then series_matches_satisfiable ext pq flt ms else Ret (Inr False)))"

definition LabelFilter_Series ::
  "externals \<Rightarrow> promql \<Rightarrow> label_filter_config \<Rightarrow> label_filter option \<Rightarrow> api \<Rightarrow> string list \<Rightarrow> time \<Rightarrow> time \<Rightarrow>
   (labelset list \<times> warnings \<times> go_error option) outcome"
where
  "LabelFilter_Series ext pq cfg flt a matches startTime endTime =
     (if blocked cfg flt then Ret ([], [], None)
      else obind (series_matches_satisfiable ext pq flt matches) (\<lambda>r. case r of
          Inl err \<Rightarrow> Ret ([], [], Some err)
        | Inr ok \<Rightarrow> if ok then Series a matches startTime endTime else Ret ([], [], None)))"

definition LabelFilter_GetValue ::
  "externals \<Rightarrow> label_filter_config \<Rightarrow> label_filter option \<Rightarrow> api \<Rightarrow> time \<Rightarrow> time \<Rightarrow> matcher list \<Rightarrow> series_set outcome"
where
  "LabelFilter_GetValue ext cfg flt a start end matchers =
     (if blocked cfg flt then Ret EmptySeriesSet
      else obind (all_satisfiable ext flt matchers)
             (\<lambda>ok. if ok then GetValue a start end matchers else Ret EmptySeriesSet))"

definition LabelFilter_Metadata ::
  "externals \<Rightarrow> label_filter_config \<Rightarrow> label_filter option \<Rightarrow> api \<Rightarrow> string \<Rightarrow> string \<Rightarrow>
   (metadata_map option \<times> go_error option) outcome"
where
  "LabelFilter_Metadata ext cfg flt a metric limit =
     (if blocked cfg flt then Ret (None, None)
      else (case NewMatcher ext MatchEqual MetricName metric of
              Inl err \<Rightarrow> Ret (None, Some err)
            | Inr m \<Rightarrow>
                obind (FilterLabelMatchers ext flt m)
                  (\<lambda>ok. if ok then Metadata a metric limit else Ret (None, None))))"

fun any_satisfiable :: "externals \<Rightarrow> label_filter option \<Rightarrow> matcher list list \<Rightarrow> bool outcome" where
  "any_satisfiable ext flt [] = Ret False"
| "any_satisfiable ext flt (ms # rest) =
     obind (all_satisfiable ext flt ms) (\<lambda>ok. if ok then Ret True else any_satisfiable ext flt rest)"

definition LabelFilter_QueryExemplars ::
  "externals \<Rightarrow> promql \<Rightarrow> label_filter_config \<Rightarrow> label_filter option \<Rightarrow> api \<Rightarrow> string \<Rightarrow> time \<Rightarrow> time \<Rightarrow>
   (exemplar_result list \<times> go_error option) outcome"
where
  "LabelFilter_QueryExemplars ext pq cfg flt a query startTime endTime =
     (if blocked cfg flt then Ret ([], None)
      else (case pq_ParseExpr pq query of
              Inl _ \<Rightarrow> QueryExemplars a query startTime endTime
            | Inr e \<Rightarrow>
                if ExtractSelectors e = [] then QueryExemplars a query startTime endTime
                else obind (any_satisfiable ext flt (ExtractSelectors e))
                       (\<lambda>ok. if ok then QueryExemplars a query startTime endTime else Ret ([], None))))"

definition LabelFilterClient ::
  "externals \<Rightarrow> promql \<Rightarrow> label_filter_config \<Rightarrow> label_filter option \<Rightarrow> api \<Rightarrow> api"
where
  "LabelFilterClient ext pq cfg flt a = a\<lparr>
     Query := \<lambda>q ts. LabelFilter_query ext pq cfg flt (\<lambda>q. Query a q ts) q,
     QueryRange := \<lambda>q r. LabelFilter_query ext pq cfg flt (\<lambda>q. QueryRange a q r) q,
     Series := LabelFilter_Series ext pq cfg flt a,
     GetValue := LabelFilter_GetValue ext cfg flt a,
     Metadata := LabelFilter_Metadata ext cfg flt a,
     QueryExemplars := LabelFilter_QueryExemplars ext pq cfg flt a,
     api_Key := None\<rparr>"

section \<open>The lookups are the scan\<close>

abbreviation keys :: "('k \<times> 'v) list \<Rightarrow> 'k set" where
  "keys m \<equiv> fst ` set m"

definition seen_set :: "string set option \<Rightarrow> string set" where
  "seen_set seen = (case seen of None \<Rightarrow> {} | Some sn \<Rightarrow> sn)"

lemma countPresent_loop_step:
  "countPresent_loop s (v # vs) seen n =
     (if v \<notin> keys s \<or> v \<in> seen_set seen then countPresent_loop s vs seen n
      else countPresent_loop s vs (Some (insert v (seen_set seen))) (n + 1))"
  by (cases seen) (auto simp: seen_set_def map_of_eq_None_iff)

lemma countPresent_loop_card:
  "countPresent_loop s vs seen n = n + card ((set vs \<inter> keys s) - seen_set seen)"
proof (induction vs arbitrary: seen n)
  case (Cons v vs)
  show ?case
  proof (cases "v \<notin> keys s \<or> v \<in> seen_set seen")
    case True
    then have "(set (v # vs) \<inter> keys s) - seen_set seen = (set vs \<inter> keys s) - seen_set seen" by auto
    with Cons.IH True show ?thesis by (simp only: countPresent_loop_step if_True)
  next
    case False
    let ?seen = "Some (insert v (seen_set seen))"
    have eq: "(set (v # vs) \<inter> keys s) - seen_set seen = insert v ((set vs \<inter> keys s) - seen_set ?seen)"
      using False by (auto simp: seen_set_def)
    have "card ((set (v # vs) \<inter> keys s) - seen_set seen) = Suc (card ((set vs \<inter> keys s) - seen_set ?seen))"
      unfolding eq by (subst card_insert_disjoint) (auto simp: seen_set_def)
    with Cons.IH [of ?seen "n + 1"] False show ?thesis by (simp only: countPresent_loop_step if_False)
  qed
qed simp

lemma countPresent_card: "countPresent s vs = card (set vs \<inter> keys s)"
  by (simp add: countPresent_def countPresent_loop_card seen_set_def)

lemma any_value_matches_iff: "matcher_ok m \<Longrightarrow> any_value_matches ext m vs = Ret (\<exists>v\<in>set vs. accepts ext m v)"
  by (induction vs) (auto simp: Matches_ok)

text \<open>\<open>SetMatches\<close> lists the strings a pattern matches, when it lists any.\<close>

definition set_matches_ok :: "externals \<Rightarrow> bool" where
  "set_matches_ok ext \<longleftrightarrow>
     (\<forall>p. ext_SetMatches ext p \<noteq> [] \<longrightarrow> (\<forall>s. ext_MatchString ext p s \<longleftrightarrow> s \<in> set (ext_SetMatches ext p)))"

definition satisfiable :: "externals \<Rightarrow> label_filter option \<Rightarrow> matcher \<Rightarrow> bool" where
  "satisfiable ext flt m \<longleftrightarrow>
     (case flt of None \<Rightarrow> True | Some f \<Rightarrow>
       (case map_of f (m_Name m) of None \<Rightarrow> True | Some lf \<Rightarrow> \<exists>v\<in>keys lf. accepts ext m v))"

definition filter_ok :: "label_filter \<Rightarrow> bool" where
  "filter_ok f \<longleftrightarrow> smap_ok f \<and> (\<forall>lf\<in>snd ` set f. smap_ok lf)"

lemma card_keys: "smap_ok lf \<Longrightarrow> card (keys lf) = length lf"
  by (metis card_image distinct_card list.set_map smap_ok_distinct distinct_map length_map)

lemma not_equal_lookup:
  assumes "smap_ok lf"
  shows "(\<exists>v\<in>keys lf. v \<noteq> x) \<longleftrightarrow> (if length lf = 0 then False else if length lf = 1 then map_of lf x = None else True)"
proof -
  consider "lf = []" | k u where "lf = [(k, u)]" | "2 \<le> length lf"
    by (cases lf rule: remdups_adj.cases) auto
  then show ?thesis
  proof cases
    case 3
    have "\<not> keys lf \<subseteq> {x}"
    proof
      assume "keys lf \<subseteq> {x}"
      then have "card (keys lf) \<le> 1" using card_mono [of "{x}" "keys lf"] by simp
      with 3 card_keys [OF assms] show False by simp
    qed
    with 3 show ?thesis by auto
  qed auto
qed

lemma FilterLabelMatchers_eq:
  assumes "matcher_ok m" "set_matches_ok ext" "\<forall>f. flt = Some f \<longrightarrow> filter_ok f"
  shows "FilterLabelMatchers ext flt m = Ret (satisfiable ext flt m)"
proof (cases "case flt of None \<Rightarrow> None | Some f \<Rightarrow> map_of f (m_Name m)")
  case None
  then show ?thesis by (auto simp: FilterLabelMatchers_def satisfiable_def split: option.splits)
next
  case (Some lf)
  then obtain f where f: "flt = Some f" "map_of f (m_Name m) = Some lf" by (auto split: option.splits)
  have lf: "smap_ok lf" using assms(3) f by (force simp: filter_ok_def dest: map_of_SomeD)
  have sat: "satisfiable ext (Some f) m \<longleftrightarrow> (\<exists>v\<in>keys lf. accepts ext m v)" using f by (simp add: satisfiable_def)
  have look: "map_of lf v \<noteq> None \<longleftrightarrow> v \<in> keys lf" for v by (auto simp: map_of_eq_None_iff)
  have sets: "SetMatches ext m \<noteq> [] \<Longrightarrow> ext_MatchString ext (m_Value m) v \<longleftrightarrow> v \<in> set (SetMatches ext m)" for v
    using assms(2) by (auto simp: SetMatches_def set_matches_ok_def split: if_splits)
  have "FilterLabelMatchers ext (Some f) m = Ret (satisfiable ext (Some f) m)"
  proof (cases "m_Type m")
    case MatchEqual
    with f look show ?thesis by (simp add: FilterLabelMatchers_def sat accepts_def)
  next
    case MatchNotEqual
    with f not_equal_lookup [OF lf, of "m_Value m"] show ?thesis by (simp add: FilterLabelMatchers_def sat accepts_def)
  next
    case MatchRegexp
    with f look sets show ?thesis
      by (auto simp: FilterLabelMatchers_def sat accepts_def any_value_matches_iff [OF assms(1)] list_ex_iff)
  next
    case MatchNotRegexp
    have "countPresent lf (SetMatches ext m) < length lf \<longleftrightarrow> (\<exists>v\<in>keys lf. v \<notin> set (SetMatches ext m))"
    proof -
      have "set (SetMatches ext m) \<inter> keys lf \<subset> keys lf \<longleftrightarrow> card (set (SetMatches ext m) \<inter> keys lf) < card (keys lf)"
        using psubset_card_mono [of "keys lf"] card_mono [of "keys lf"] by (metis Int_lower2 List.finite_set finite_imageI less_irrefl psubsetI)
      then show ?thesis unfolding countPresent_card card_keys [OF lf] by blast
    qed
    with MatchNotRegexp f look sets show ?thesis
      by (auto simp: FilterLabelMatchers_def sat accepts_def any_value_matches_iff [OF assms(1)])
  qed
  then show ?thesis by (simp add: f(1))
qed

section \<open>What a sync stores\<close>

lemma keys_add_values [simp]: "keys (add_values vs m) = set vs \<union> keys m"
  by (simp add: add_values_def keys_fold_put)

lemma keys_delete_values [simp]: "keys (delete_values vs m) = keys m - set vs"
  unfolding delete_values_def by (induction vs arbitrary: m) (auto simp: smap_del_def)

lemma smap_ok_add_values [simp]: "smap_ok m \<Longrightarrow> smap_ok (add_values vs m)"
  by (simp add: add_values_def smap_ok_fold_unit)

lemma smap_ok_delete_values [simp]: "smap_ok m \<Longrightarrow> smap_ok (delete_values vs m)"
  unfolding delete_values_def by (induction vs arbitrary: m) auto

text \<open>The values of a label in a filter, \<open>None\<close> when the filter says nothing about it.\<close>

definition filter_values :: "label_filter \<Rightarrow> string \<Rightarrow> string set option" where
  "filter_values f k = map_option keys (map_of f k)"

lemma filter_values_put: "filter_values (smap_put k m f) = (filter_values f)(k \<mapsto> keys m)"
  by (auto simp: filter_values_def label_simps fun_eq_iff)

lemma filter_ok_put:
  assumes "filter_ok f" "smap_ok m"
  shows "filter_ok (smap_put k m f)"
proof -
  have "snd ` set (smap_put k m f) \<subseteq> insert m (snd ` set f)" by (induction k m f rule: smap_put.induct) auto
  then have "\<forall>lf\<in>snd ` set (smap_put k m f). smap_ok lf" using assms unfolding filter_ok_def by blast
  with assms(1) show ?thesis by (simp add: filter_ok_def)
qed

lemma filter_ok_lookup: "filter_ok f \<Longrightarrow> map_of f k = Some m \<Longrightarrow> smap_ok m"
  by (force simp: filter_ok_def dest: map_of_SomeD)

definition or_empty :: "'a set option \<Rightarrow> 'a set" where
  "or_empty s = (case s of None \<Rightarrow> {} | Some x \<Rightarrow> x)"

lemma sync_include_spec:
  assumes "filter_ok f" "distinct (map fst inc)"
  shows "filter_ok (sync_include inc f) \<and>
    filter_values (sync_include inc f) k = (case map_of inc k of
        Some vs \<Rightarrow> Some (set vs \<union> or_empty (filter_values f k)) | None \<Rightarrow> filter_values f k)"
  using assms unfolding sync_include_def
proof (induction inc arbitrary: f)
  case (Cons kv inc)
  obtain k' vs where kv: "kv = (k', vs)" by (cases kv)
  let ?m = "add_values vs (case map_of f k' of Some m \<Rightarrow> m | None \<Rightarrow> [])"
  have "smap_ok ?m" using filter_ok_lookup Cons.prems(1) by (auto split: option.split)
  then have "filter_ok (smap_put k' ?m f)" using Cons.prems(1) filter_ok_put by blast
  moreover have "map_of inc k' = None" using Cons.prems(2) kv by (simp add: map_of_eq_None_iff)
  moreover have "keys ?m = set vs \<union> or_empty (filter_values f k')" by (auto simp: or_empty_def filter_values_def split: option.split)
  ultimately show ?case
    using Cons.IH [of "smap_put k' ?m f"] Cons.prems(2) kv by (auto simp: filter_values_put split: option.split)
qed simp

lemma sync_exclude_spec:
  assumes "filter_ok f" "distinct (map fst exc)"
  shows "filter_ok (sync_exclude exc f) \<and>
    filter_values (sync_exclude exc f) k =
      map_option (\<lambda>s. s - (case map_of exc k of Some vs \<Rightarrow> set vs | None \<Rightarrow> {})) (filter_values f k)"
  using assms unfolding sync_exclude_def
proof (induction exc arbitrary: f)
  case Nil
  then show ?case by (cases "filter_values f k") simp_all
next
  case (Cons kv exc)
  obtain k' vs where kv: "kv = (k', vs)" by (cases kv)
  have none: "map_of exc k' = None" using Cons.prems(2) kv by (simp add: map_of_eq_None_iff)
  show ?case
  proof (cases "map_of f k'")
    case None
    then show ?thesis using Cons.IH [of f] Cons.prems kv none
      by (auto simp: filter_values_def split: option.split)
  next
    case (Some m)
    have "filter_ok (smap_put k' (delete_values vs m) f)"
      using filter_ok_lookup [OF Cons.prems(1) Some] Cons.prems(1) filter_ok_put by simp
    then show ?thesis using Cons.IH [of "smap_put k' (delete_values vs m) f"] Cons.prems kv none Some
      by (auto simp: filter_values_put filter_values_def split: option.split)
  qed
qed
lemma sync_dynamic_spec:
  assumes "\<forall>l\<in>set labels. LabelValues a l [] start end = Ret (vs l)" "filter_ok f"
  shows "\<exists>r. sync_dynamic a start end labels f = Ret r \<and>
    (case r of
       Inl e \<Rightarrow> \<exists>l\<in>set labels. ans_e (vs l) = Some e
     | Inr f' \<Rightarrow> (\<forall>l\<in>set labels. ans_e (vs l) = None) \<and> filter_ok f' \<and>
         (\<forall>k. filter_values f' k = (if k \<in> set labels then Some (set (nilable (ans_v (vs k)))) else filter_values f k)))"
  using assms
proof (induction labels arbitrary: f)
  case (Cons l labels)
  obtain v w e where vs: "vs l = (v, w, e)" by (cases "vs l")
  show ?case
  proof (cases e)
    case (Some x)
    with Cons.prems vs show ?thesis by auto
  next
    case None
    let ?f = "smap_put l (add_values (nilable v) []) f"
    have "filter_ok ?f" using Cons.prems(2) by (intro filter_ok_put) simp_all
    then obtain r where r: "sync_dynamic a start end labels ?f = Ret r"
      "case r of
         Inl e \<Rightarrow> \<exists>l\<in>set labels. ans_e (vs l) = Some e
       | Inr f' \<Rightarrow> (\<forall>l\<in>set labels. ans_e (vs l) = None) \<and> filter_ok f' \<and>
           (\<forall>k. filter_values f' k = (if k \<in> set labels then Some (set (nilable (ans_v (vs k)))) else filter_values ?f k))"
      using Cons.IH [of ?f] Cons.prems(1) by auto
    then show ?thesis using None vs Cons.prems(1) by (cases r) (auto simp: filter_values_put)
  qed
qed simp

definition config_ok :: "label_filter_config \<Rightarrow> bool" where
  "config_ok cfg \<longleftrightarrow> smap_ok (lf_StaticLabelsInclude cfg) \<and> smap_ok (lf_StaticLabelsExclude cfg)"

definition sync_start :: "label_filter_config \<Rightarrow> time \<Rightarrow> time" where
  "sync_start cfg now = (if lf_SyncLookback cfg > 0 then timestamp_Time (FromTime now) - lf_SyncLookback cfg else 0)"

definition listed :: "(string, string list) smap \<Rightarrow> string \<Rightarrow> string set" where
  "listed m k = (case map_of m k of Some vs \<Rightarrow> set vs | None \<Rightarrow> {})"

text \<open>What the filter should hold: the downstream's and the included values, without the excluded.\<close>

definition expected_values ::
  "label_filter_config \<Rightarrow> (string \<Rightarrow> string list option \<times> warnings \<times> go_error option) \<Rightarrow> string \<Rightarrow> string set option"
where
  "expected_values cfg vs k =
     (if k \<in> set (lf_DynamicLabels cfg) \<or> map_of (lf_StaticLabelsInclude cfg) k \<noteq> None
      then Some (((if k \<in> set (lf_DynamicLabels cfg) then set (nilable (ans_v (vs k))) else {}) \<union>
                  listed (lf_StaticLabelsInclude cfg) k) - listed (lf_StaticLabelsExclude cfg) k)
      else None)"

lemma Sync_alt:
  "Sync cfg a now =
     omap (\<lambda>r. case r of
         Inl e \<Rightarrow> Inl e
       | Inr flt \<Rightarrow> Inr (sync_exclude (lf_StaticLabelsExclude cfg) (sync_include (lf_StaticLabelsInclude cfg) flt)))
       (sync_dynamic a (sync_start cfg now) (timestamp_Time (FromTime now)) (lf_DynamicLabels cfg) [])"
  by (simp add: Sync_def Let_def sync_start_def timestamp_Time_def)

lemma Sync_spec:
  assumes "config_ok cfg"
    and "\<forall>l\<in>set (lf_DynamicLabels cfg). LabelValues a l [] (sync_start cfg now) (timestamp_Time (FromTime now)) = Ret (vs l)"
  shows "\<exists>r. Sync cfg a now = Ret r \<and>
    (case r of
       Inl e \<Rightarrow> \<exists>l\<in>set (lf_DynamicLabels cfg). ans_e (vs l) = Some e
     | Inr f \<Rightarrow> (\<forall>l\<in>set (lf_DynamicLabels cfg). ans_e (vs l) = None) \<and> filter_ok f \<and>
         filter_values f = expected_values cfg vs)"
proof -
  have ok0: "filter_ok []" by (simp add: filter_ok_def)
  obtain r where r: "sync_dynamic a (sync_start cfg now) (timestamp_Time (FromTime now)) (lf_DynamicLabels cfg) [] = Ret r"
    "case r of
       Inl e \<Rightarrow> \<exists>l\<in>set (lf_DynamicLabels cfg). ans_e (vs l) = Some e
     | Inr f' \<Rightarrow> (\<forall>l\<in>set (lf_DynamicLabels cfg). ans_e (vs l) = None) \<and> filter_ok f' \<and>
         (\<forall>k. filter_values f' k = (if k \<in> set (lf_DynamicLabels cfg) then Some (set (nilable (ans_v (vs k)))) else filter_values [] k))"
    using sync_dynamic_spec [OF assms(2) ok0] by blast
  show ?thesis
  proof (cases r)
    case (Inl e)
    with r show ?thesis by (simp add: Sync_alt)
  next
    case (Inr f)
    let ?inc = "lf_StaticLabelsInclude cfg" and ?exc = "lf_StaticLabelsExclude cfg"
    have d: "distinct (map fst ?inc)" "distinct (map fst ?exc)" using assms(1) by (simp_all add: config_ok_def smap_ok_distinct)
    have f: "filter_ok f" "filter_values f k = (if k \<in> set (lf_DynamicLabels cfg) then Some (set (nilable (ans_v (vs k)))) else None)" for k
      using r(2) Inr by (simp_all add: filter_values_def)
    have i: "filter_ok (sync_include ?inc f)" using sync_include_spec [OF f(1) d(1)] by blast
    have "filter_values (sync_exclude ?exc (sync_include ?inc f)) k = expected_values cfg vs k" for k
      using sync_exclude_spec [OF i d(2), of k] sync_include_spec [OF f(1) d(1), of k] f(2) [of k]
      by (auto simp: expected_values_def listed_def or_empty_def split: option.splits if_splits)
    with r Inr sync_exclude_spec [OF i d(2)] show ?thesis by (auto simp: Sync_alt)
  qed
qed

section \<open>Properties\<close>

text \<open>
  C35. \<open>FilterLabelMatchers\<close>: the map lookups and the counting give the answer of the plain
  scan, whether some value of the label in the filter is accepted by the matcher; a label
  the filter does not know is never filtered. Made for compiled matchers; \<open>SetMatches\<close> must
  list exactly the strings the pattern matches.
\<close>

theorem FilterLabelMatchers_is_scan:
  assumes "matcher_ok m" "set_matches_ok ext" "filter_ok f"
  shows "FilterLabelMatchers ext (Some f) m =
    Ret (case map_of f (m_Name m) of None \<Rightarrow> True | Some lf \<Rightarrow> \<exists>v\<in>keys lf. accepts ext m v)"
  using FilterLabelMatchers_eq [OF assms(1,2), of "Some f"] assms(3) by (simp add: satisfiable_def)

text \<open>Externals for the witnesses: the pattern \<open>a|b\<close>, which lists its strings with a repetition.\<close>

definition alt_ext :: externals where
  "alt_ext = plus_ext\<lparr>ext_MatchString := \<lambda>p s. p = ''a|b'' \<and> s \<in> {''a'', ''b''}, ext_SetMatches := \<lambda>p. if p = ''a|b'' then [''a'', ''b'', ''a''] else []\<rparr>"

theorem FilterLabelMatchers_is_scan_witness:
  "FilterLabelMatchers alt_ext (Some [(''job'', [(''a'', ()), (''b'', ())])])
     \<lparr>m_Type = MatchNotRegexp, m_Name = ''job'', m_Value = ''a|b'', m_compiled = True\<rparr> = Ret False"
proof -
  have "set_matches_ok alt_ext" by (auto simp: set_matches_ok_def alt_ext_def)
  moreover have "filter_ok [(''job'', [(''a'', ()), (''b'', ())])]" by (simp add: filter_ok_def smap_ok_def)
  ultimately show ?thesis
    using FilterLabelMatchers_is_scan [of "\<lparr>m_Type = MatchNotRegexp, m_Name = ''job'', m_Value = ''a|b'', m_compiled = True\<rparr>" alt_ext
        "[(''job'', [(''a'', ()), (''b'', ())])]"]
    by (simp add: matcher_ok_def accepts_def alt_ext_def)
qed

text \<open>
  \<open>Sync\<close>: when every dynamic label is answered, the stored filter knows exactly the dynamic
  labels and the statically included ones, each with the values of the downstream and the
  include list minus those of the exclude list; when a label's answer is an error, that
  error is returned and nothing is stored.
\<close>

lemma Sync_content:
  assumes "config_ok cfg"
    and "\<forall>l\<in>set (lf_DynamicLabels cfg). LabelValues a l [] (sync_start cfg now) (timestamp_Time (FromTime now)) = Ret (vs l)"
  shows "if \<forall>l\<in>set (lf_DynamicLabels cfg). ans_e (vs l) = None
    then \<exists>f. Sync cfg a now = Ret (Inr f) \<and> filter_ok f \<and> filter_values f = expected_values cfg vs
    else \<exists>e l. Sync cfg a now = Ret (Inl e) \<and> l \<in> set (lf_DynamicLabels cfg) \<and> ans_e (vs l) = Some e"
  using Sync_spec [OF assms] by (force split: sum.splits)

definition job_config :: label_filter_config where
  "job_config = \<lparr>lf_DynamicLabels = [''job''], lf_SyncInterval = 0, lf_SyncLookback = 0, lf_StaticLabelsInclude = [(''env'', [''p''])],
     lf_StaticLabelsExclude = [(''job'', [''b''])], lf_OnSyncError = OnSyncErrorClosed\<rparr>"

section \<open>The loop\<close>

lemma sync_dynamic_answers:
  "sync_dynamic a start end labels f = Ret (Inr f') \<Longrightarrow>
   \<forall>l\<in>set labels. \<exists>v w. LabelValues a l [] start end = Ret (v, w, None)"
proof (induction labels arbitrary: f)
  case (Cons l labels)
  then obtain v w e where lv: "LabelValues a l [] start end = Ret (v, w, e)"
    by (cases "LabelValues a l [] start end") auto
  with Cons show ?case by (cases e) auto
qed simp

definition filter_shape :: "label_filter_config \<Rightarrow> label_filter \<Rightarrow> bool" where
  "filter_shape cfg f \<longleftrightarrow> filter_ok f \<and>
     (\<forall>k. filter_values f k \<noteq> None \<longleftrightarrow> k \<in> set (lf_DynamicLabels cfg) \<or> map_of (lf_StaticLabelsInclude cfg) k \<noteq> None) \<and>
     (\<forall>k S. filter_values f k = Some S \<longrightarrow>
        S \<inter> listed (lf_StaticLabelsExclude cfg) k = {} \<and>
        listed (lf_StaticLabelsInclude cfg) k - listed (lf_StaticLabelsExclude cfg) k \<subseteq> S)"

lemma Sync_shape:
  assumes "config_ok cfg" "Sync cfg a now = Ret (Inr f)"
  shows "filter_shape cfg f"
proof -
  let ?till = "timestamp_Time (FromTime now)"
  obtain r where r: "sync_dynamic a (sync_start cfg now) ?till (lf_DynamicLabels cfg) [] = Ret r"
    "Inr f = (case r of Inl e \<Rightarrow> Inl e | Inr flt \<Rightarrow> Inr (sync_exclude (lf_StaticLabelsExclude cfg) (sync_include (lf_StaticLabelsInclude cfg) flt)))"
    using assms(2) unfolding Sync_alt omap_eq_Ret by blast
  then obtain f0 where "sync_dynamic a (sync_start cfg now) ?till (lf_DynamicLabels cfg) [] = Ret (Inr f0)"
    by (cases r) auto
  from sync_dynamic_answers [OF this]
  have "\<forall>l\<in>set (lf_DynamicLabels cfg). \<exists>t. LabelValues a l [] (sync_start cfg now) ?till = Ret t" by blast
  from bchoice [OF this] obtain vs where
    "\<forall>l\<in>set (lf_DynamicLabels cfg). LabelValues a l [] (sync_start cfg now) ?till = Ret (vs l)" by blast
  from Sync_spec [OF assms(1) this] assms(2) have "filter_ok f" "filter_values f = expected_values cfg vs" by auto
  then show ?thesis by (auto simp: filter_shape_def expected_values_def split: if_splits)
qed

definition lf_inv :: "label_filter_config \<Rightarrow> label_filter_state \<Rightarrow> bool" where
  "lf_inv cfg st \<longleftrightarrow>
     (case ls_filter st of
        Some f \<Rightarrow> filter_shape cfg f
      | None \<Rightarrow> (lf_OnSyncError cfg = OnSyncErrorOpen \<or> lf_OnSyncError cfg = OnSyncErrorClosed) \<and>
          (ls_running st \<or> ls_done st)) \<and>
     (lf_SyncInterval cfg \<le> 0 \<and> ls_running st \<longrightarrow> ls_filter st = None) \<and>
     (ls_done st \<longrightarrow> \<not> ls_running st)"

lemma NewLabelFilterClient_inv: "config_ok cfg \<Longrightarrow> NewLabelFilterClient cfg a now = Ret (Inr st) \<Longrightarrow> lf_inv cfg st"
proof -
  assume cfg: "config_ok cfg" and new: "NewLabelFilterClient cfg a now = Ret (Inr st)"
  then obtain r where "Sync cfg a now = Ret r" by (auto simp: NewLabelFilterClient_def omap_eq_Ret)
  with cfg new show ?thesis
    by (cases r) (auto simp: NewLabelFilterClient_def lf_inv_def Sync_shape split: if_splits)
qed

lemma tick_cases:
  assumes "syncLoop_tick cfg a now st = Ret st'"
  obtains f where "Sync cfg a now = Ret (Inr f)" "st' = st\<lparr>ls_filter := Some f, ls_running := 0 < lf_SyncInterval cfg\<rparr>"
  | e where "Sync cfg a now = Ret (Inl e)" "st' = st\<lparr>ls_running := \<not> (lf_SyncInterval cfg \<le> 0 \<and> ls_filter st \<noteq> None)\<rparr>"
proof -
  obtain r where "Sync cfg a now = Ret r" using assms by (auto simp: syncLoop_tick_def omap_eq_Ret)
  with assms that show ?thesis by (cases r) (auto simp: syncLoop_tick_def Let_def not_le)
qed

lemma lf_step_inv: "config_ok cfg \<Longrightarrow> lf_step cfg st st' \<Longrightarrow> lf_inv cfg st \<Longrightarrow> lf_inv cfg st'"
  by (erule lf_stepE, erule tick_cases) (auto simp: lf_inv_def Sync_shape split: option.splits)

lemma lf_reachable_inv: "config_ok cfg \<Longrightarrow> lf_reachable cfg st \<Longrightarrow> lf_inv cfg st"
  by (rotate_tac, induction rule: lf_reachable.induct) (auto intro: NewLabelFilterClient_inv lf_step_inv)

lemma lf_step_keeps_filter: "lf_step cfg st st' \<Longrightarrow> ls_filter st \<noteq> None \<Longrightarrow> ls_filter st' \<noteq> None"
  by (erule lf_stepE, erule tick_cases) auto

lemma lf_steps_keep_filter: "(lf_step cfg)\<^sup>*\<^sup>* st st' \<Longrightarrow> ls_filter st \<noteq> None \<Longrightarrow> ls_filter st' \<noteq> None"
  by (induction rule: rtranclp_induct) (auto dest: lf_step_keeps_filter)

text \<open>
  C36. The state of the client in every reachable state: a loaded filter knows exactly the
  configured labels, holds every included and no excluded value; without a filter the mode is
  open or closed and the loop still runs unless the context is done; without a sync interval
  the loop runs only until the first filter is there.
\<close>

theorem lf_reachable_invariant:
  assumes "config_ok cfg" "lf_reachable cfg st"
  shows "lf_inv cfg st"
  by (rule lf_reachable_inv [OF assms])

lemma job_state: "NewLabelFilterClient job_config (names_api [] (Some DeadlineExceeded) None) 0 = Ret (Inr \<lparr>ls_filter = None, ls_running = True, ls_done = False\<rparr>)"
  by (simp add: NewLabelFilterClient_def Sync_def job_config_def names_api_def const_api_def Let_def OnSyncErrorOpen_def OnSyncErrorClosed_def)

lemma job_config_ok: "config_ok job_config"
  by (simp add: config_ok_def job_config_def smap_ok_def)

theorem lf_reachable_invariant_witness:
  "lf_inv job_config \<lparr>ls_filter = None, ls_running = True, ls_done = False\<rparr>"
  by (rule lf_reachable_invariant [OF job_config_ok lf_reachable.start [OF job_state]])

text \<open>
  C37. A client that fails closed does not stay blocked: while it has no filter and its context
  is alive, the next sync that succeeds stores the filter, and from then on, whatever
  happens, the client has a filter and is not blocked.
\<close>

theorem lf_sync_unblocks:
  assumes "config_ok cfg" "lf_reachable cfg st" "\<not> ls_done st" "ls_filter st = None" "Sync cfg a now = Ret (Inr f)"
  shows "\<exists>st'. lf_step cfg st st' \<and> ls_filter st' = Some f \<and>
    (\<forall>st''. (lf_step cfg)\<^sup>*\<^sup>* st' st'' \<longrightarrow> ls_filter st'' \<noteq> None \<and> \<not> blocked cfg (ls_filter st''))"
proof -
  have "ls_running st" using lf_reachable_inv [OF assms(1,2)] assms(3,4) by (simp add: lf_inv_def)
  let ?st' = "st\<lparr>ls_filter := Some f, ls_running := \<not> lf_SyncInterval cfg \<le> 0\<rparr>"
  have "syncLoop_tick cfg a now st = Ret ?st'" using assms(5) by (simp add: syncLoop_tick_def Let_def)
  with \<open>ls_running st\<close> have "lf_step cfg st ?st'" by (rule lf_step.tick)
  moreover have "ls_filter st'' \<noteq> None \<and> \<not> blocked cfg (ls_filter st'')" if "(lf_step cfg)\<^sup>*\<^sup>* ?st' st''" for st''
    using lf_steps_keep_filter [OF that] by (simp add: blocked_def)
  ultimately show ?thesis by (intro exI [of _ ?st']) simp
qed

theorem lf_sync_unblocks_witness:
  "\<exists>st'. lf_step job_config \<lparr>ls_filter = None, ls_running = True, ls_done = False\<rparr> st' \<and> ls_filter st' = Some [(''env'', [(''p'', ())]), (''job'', [(''a'', ())])] \<and>
    (\<forall>st''. (lf_step job_config)\<^sup>*\<^sup>* st' st'' \<longrightarrow> ls_filter st'' \<noteq> None \<and> \<not> blocked job_config (ls_filter st''))"
  by (rule lf_sync_unblocks [OF job_config_ok lf_reachable.start [OF job_state], of "names_api [''a'', ''b''] None None" 0])
     (simp_all, simp add: Sync_def job_config_def names_api_def const_api_def Let_def nilable_def add_values_def delete_values_def sync_include_def sync_exclude_def smap_del_def)

section \<open>Dropped calls\<close>

lemma all_satisfiable_eq:
  assumes "matchers_ok ms" "set_matches_ok ext" "filter_ok f"
  shows "all_satisfiable ext (Some f) ms = Ret (\<forall>m\<in>set ms. satisfiable ext (Some f) m)"
  using assms(1) by (induction ms) (auto simp: FilterLabelMatchers_eq [OF _ assms(2)] assms(3))

text \<open>The filter knows every value that a label of a downstream series has.\<close>

definition covers :: "label_filter \<Rightarrow> labelset \<Rightarrow> bool" where
  "covers f l \<longleftrightarrow> (\<forall>k S. filter_values f k = Some S \<longrightarrow> labels_Get l k = [] \<or> labels_Get l k \<in> S)"

lemma unsatisfiable_selects:
  assumes "\<not> satisfiable ext (Some f) m" "covers f l" "accepts ext m (labels_Get l (m_Name m))"
  shows "filter_values f (m_Name m) \<noteq> None \<and> labels_Get l (m_Name m) = []"
proof -
  obtain lf where lf: "map_of f (m_Name m) = Some lf" "\<forall>v\<in>keys lf. \<not> accepts ext m v"
    using assms(1) by (auto simp: satisfiable_def split: option.splits)
  then have "labels_Get l (m_Name m) = [] \<or> labels_Get l (m_Name m) \<in> keys lf"
    using assms(2) by (simp add: covers_def filter_values_def)
  with lf assms(3) show ?thesis by (auto simp: filter_values_def)
qed

text \<open>
  C40. \<open>LabelFilterClient.GetValue\<close> with a loaded filter passes the call on unchanged when the filter holds, for every
  matcher on a filtered label, a value that the matcher accepts, and otherwise drops it. Provided the filter covers the
  downstream, that is, holds every value its filtered labels have, a dropped call loses only series that lack one of the
  filtered labels where the matcher on that label accepts the empty value. In particular it loses nothing when the
  matchers on the filtered labels reject the empty value.
\<close>

theorem LabelFilter_GetValue_sound:
  assumes "matchers_ok ms" "set_matches_ok ext" "filter_ok f"
  shows "(if \<forall>m\<in>set ms. satisfiable ext (Some f) m
     then GetValue (LabelFilterClient ext pq cfg (Some f) a) start end ms = GetValue a start end ms
     else GetValue (LabelFilterClient ext pq cfg (Some f) a) start end ms = Ret EmptySeriesSet \<and>
       (\<forall>l. covers f l \<and> selects ext ms l \<longrightarrow>
          (\<exists>m\<in>set ms. filter_values f (m_Name m) \<noteq> None \<and> labels_Get l (m_Name m) = [] \<and> accepts ext m [])) \<and>
       ((\<forall>m\<in>set ms. filter_values f (m_Name m) \<noteq> None \<longrightarrow> \<not> accepts ext m []) \<longrightarrow> (\<forall>l. covers f l \<longrightarrow> \<not> selects ext ms l)))"
proof (cases "\<forall>m\<in>set ms. satisfiable ext (Some f) m")
  case True
  then show ?thesis
    by (simp add: LabelFilterClient_def LabelFilter_GetValue_def blocked_def all_satisfiable_eq [OF assms])
next
  case False
  then obtain m where m: "m \<in> set ms" "\<not> satisfiable ext (Some f) m" by blast
  have "filter_values f (m_Name m) \<noteq> None \<and> labels_Get l (m_Name m) = [] \<and> accepts ext m []" if "covers f l" "selects ext ms l" for l
  proof -
    have acc: "accepts ext m (labels_Get l (m_Name m))" using that(2) m(1) by (simp add: selects_def)
    from unsatisfiable_selects [OF m(2) that(1) acc] acc show ?thesis by simp
  qed
  with m(1) have lost: "\<forall>l. covers f l \<and> selects ext ms l \<longrightarrow>
      (\<exists>m\<in>set ms. filter_values f (m_Name m) \<noteq> None \<and> labels_Get l (m_Name m) = [] \<and> accepts ext m [])" by blast
  then have "(\<forall>m\<in>set ms. filter_values f (m_Name m) \<noteq> None \<longrightarrow> \<not> accepts ext m []) \<longrightarrow> (\<forall>l. covers f l \<longrightarrow> \<not> selects ext ms l)" by blast
  moreover have "GetValue (LabelFilterClient ext pq cfg (Some f) a) start end ms = Ret EmptySeriesSet"
    using False by (auto simp: LabelFilterClient_def LabelFilter_GetValue_def blocked_def all_satisfiable_eq [OF assms])
  ultimately show ?thesis unfolding if_not_P [OF False] using lost by (intro conjI)
qed

lemma job_filter_ok: "filter_ok [(''job'', [(''a'', ())])]"
  by (simp add: filter_ok_def smap_ok_def)

lemma alt_ext_set_matches: "set_matches_ok alt_ext"
  by (auto simp: set_matches_ok_def alt_ext_def)

theorem LabelFilter_GetValue_sound_witness:
  "GetValue (LabelFilterClient alt_ext example_pq job_config (Some [(''job'', [(''a'', ())])]) (set_api EmptySeriesSet)) 0 0 [eq_matcher ''job'' ''b''] = Ret EmptySeriesSet \<and>
   \<not> (\<exists>l. covers [(''job'', [(''a'', ())])] l \<and> selects alt_ext [eq_matcher ''job'' ''b''] l)"
  using LabelFilter_GetValue_sound [of "[eq_matcher ''job'' ''b'']" alt_ext "[(''job'', [(''a'', ())])]" example_pq job_config "set_api EmptySeriesSet" 0 0]
    job_filter_ok alt_ext_set_matches
  by (simp add: matcher_ok_def is_regex_def satisfiable_def accepts_def)

text \<open>
  The exception is real: when the only known value of a label is \<open>v\<close>, a selector
  \<open>label!="v"\<close> is dropped, although it selects every series without that label.
\<close>

lemma LabelFilter_drops_unlabelled:
  "GetValue (LabelFilterClient ext pq cfg (Some [(n, [(v, ())])]) a) start end
     [\<lparr>m_Type = MatchNotEqual, m_Name = n, m_Value = v, m_compiled = False\<rparr>] = Ret EmptySeriesSet \<and>
   (v \<noteq> [] \<longrightarrow> selects ext [\<lparr>m_Type = MatchNotEqual, m_Name = n, m_Value = v, m_compiled = False\<rparr>] [] \<and> covers [(n, [(v, ())])] [])"
  by (simp add: LabelFilterClient_def LabelFilter_GetValue_def blocked_def FilterLabelMatchers_def accepts_def labels_Get_def covers_def)

end
