(* ===== verification/Promxy_Relabel.thy ===== *)
theory Promxy_Relabel
  imports Promxy_LabelFilter
begin

text \<open>
  \<open>src/pkg/promclient/metric_relabel.go\<close>: a server group may rename, drop or change the case of
  labels in its answers; the client then rewrites the matchers and groupings of every query
  from the new names to the old ones. The actions of \<open>relabel.Process\<close> that its configurations
  can have are modelled with it.
\<close>

section \<open>Configuration\<close>

datatype action = Replace | LabelDrop | Lowercase | Uppercase | OtherAction string

definition action_string :: "action \<Rightarrow> string" where
  "action_string a =
     (case a of Replace \<Rightarrow> ''replace'' | LabelDrop \<Rightarrow> ''labeldrop'' | Lowercase \<Rightarrow> ''lowercase''
              | Uppercase \<Rightarrow> ''uppercase'' | OtherAction s \<Rightarrow> s)"

record metric_relabel_config =
  rl_SourceLabel :: string
  rl_TargetLabel :: string
  rl_Action :: action

text \<open>The \<open>relabel.Config\<close>s that \<open>ToRelabelConfig\<close> builds: source, target, replacement or pattern.\<close>

datatype relabel_config =
    ReplaceConfig string string string
  | LabelDropConfig string
  | LowercaseConfig string string
  | UppercaseConfig string string

text \<open>
  The round trip through YAML runs \<open>relabel.Config\<close>'s validation: the source labels must be valid
  names, and so must the target label, which may not be empty.
\<close>

definition validated :: "(string \<Rightarrow> bool) \<Rightarrow> metric_relabel_config \<Rightarrow> relabel_config \<Rightarrow> go_error + relabel_config" where
  "validated isPrint c cfg =
     (if \<not> IsValidMetricName (rl_SourceLabel c)
      then Inl (OtherError (Quote isPrint (rl_SourceLabel c) @ '' is not a valid label name''))
      else if rl_TargetLabel c = []
      then Inl (OtherError (''relabel configuration for '' @ action_string (rl_Action c) @ '' action requires 'target_label' value''))
      else if \<not> IsValidMetricName (rl_TargetLabel c)
      then Inl (OtherError (Quote isPrint (rl_TargetLabel c) @ '' is invalid 'target_label' for '' @ action_string (rl_Action c) @ '' action''))
      else Inr cfg)"

definition ToRelabelConfig :: "externals \<Rightarrow> (string \<Rightarrow> bool) \<Rightarrow> metric_relabel_config \<Rightarrow> go_error + relabel_config" where
  "ToRelabelConfig ext isPrint c =
     (case rl_Action c of
        Replace \<Rightarrow> validated isPrint c (ReplaceConfig (rl_SourceLabel c) (rl_TargetLabel c) ''$1'')
      | LabelDrop \<Rightarrow>
          (if ext_RegexOk ext (rl_SourceLabel c) then Inr (LabelDropConfig (rl_SourceLabel c))
           else Inl (OtherError ''error parsing regexp''))
      | Lowercase \<Rightarrow> validated isPrint c (LowercaseConfig (rl_SourceLabel c) (rl_TargetLabel c))
      | Uppercase \<Rightarrow> validated isPrint c (UppercaseConfig (rl_SourceLabel c) (rl_TargetLabel c))
      | OtherAction s \<Rightarrow> Inl (OtherError (''unsupported action '' @ s)))"

definition MetricRelabelConfig_Validate :: "metric_relabel_config \<Rightarrow> go_error option" where
  "MetricRelabelConfig_Validate c =
     (if rl_SourceLabel c \<noteq> [] \<and> \<not> IsValidMetricName (rl_SourceLabel c)
      then Some (OtherError (''source_label '' @ rl_SourceLabel c @ '' must be a valid label name''))
      else if rl_TargetLabel c \<noteq> [] \<and> \<not> IsValidMetricName (rl_TargetLabel c)
      then Some (OtherError (''target_label '' @ rl_TargetLabel c @ '' must be a valid label name''))
      else
        (let needs_both = (if rl_SourceLabel c = [] \<or> rl_TargetLabel c = []
               then Some (OtherError (''relabel configuration for '' @ action_string (rl_Action c) @ '' action requires SourceLabel and TargetLabel''))
               else None)
         in case rl_Action c of
              Replace \<Rightarrow> needs_both
            | LabelDrop \<Rightarrow>
                (if rl_SourceLabel c = []
                 then Some (OtherError (''relabel configuration for '' @ action_string (rl_Action c) @ '' action requires SourceLabel''))
                 else if rl_TargetLabel c \<noteq> []
                 then Some (OtherError (CHR 0x27 # ''TargetLabel' can not be set for '' @ action_string (rl_Action c) @ '' action''))
                 else None)
            | Lowercase \<Rightarrow> needs_both
            | Uppercase \<Rightarrow> needs_both
            | OtherAction s \<Rightarrow> Some (OtherError (''action '' @ s @ '' not supported''))))"

section \<open>relabel.Process\<close>

text \<open>
  What the standard library knows of runes beyond ASCII: the case mappings of strings that have
  such runes, and which encoded runes are letters or digits.
\<close>

record unicode =
  uc_ToLower :: "string \<Rightarrow> string"
  uc_ToUpper :: "string \<Rightarrow> string"
  uc_IsWord :: "string \<Rightarrow> bool"

definition ascii :: "string \<Rightarrow> bool" where
  "ascii s \<longleftrightarrow> list_all (\<lambda>c. byte c < 128) s"

definition ascii_lower :: "char \<Rightarrow> char" where
  "ascii_lower c = (if 65 \<le> byte c \<and> byte c \<le> 90 then char_of (byte c + 32 :: nat) else c)"

definition ascii_upper :: "char \<Rightarrow> char" where
  "ascii_upper c = (if 97 \<le> byte c \<and> byte c \<le> 122 then char_of (byte c - 32 :: nat) else c)"

definition strings_ToLower :: "unicode \<Rightarrow> string \<Rightarrow> string" where
  "strings_ToLower uc s = (if ascii s then map ascii_lower s else uc_ToLower uc s)"

definition strings_ToUpper :: "unicode \<Rightarrow> string \<Rightarrow> string" where
  "strings_ToUpper uc s = (if ascii s then map ascii_upper s else uc_ToUpper uc s)"

text \<open>
  \<open>Regexp.ExpandString\<close> of a template against a match of \<open>(.*)\<close>, whose groups 0 and 1 are the
  whole value: \<open>$$\<close> is a dollar, \<open>$name\<close> or \<open>${name}\<close> the group, empty when there is none, and a
  dollar without a name stands for itself.
\<close>

definition word_byte :: "char \<Rightarrow> bool" where
  "word_byte c \<longleftrightarrow> name_byte c \<or> (48 \<le> byte c \<and> byte c \<le> 57)"

fun name_width :: "unicode \<Rightarrow> string \<Rightarrow> nat" where
  "name_width uc [] = 0"
| "name_width uc (c # cs) =
     (if byte c < 128 then (if word_byte c then Suc (name_width uc cs) else 0)
      else (let n = utf8_width (c # cs)
            in if n > 0 \<and> uc_IsWord uc (take n (c # cs)) then n + name_width uc (drop (n - 1) cs) else 0))"

definition group_value :: "string \<Rightarrow> string \<Rightarrow> string" where
  "group_value name val = (if name = ''0'' \<or> name = ''1'' then val else [])"

text \<open>\<open>extract\<close>: the name after a dollar and what follows it.\<close>

definition extract_name :: "unicode \<Rightarrow> string \<Rightarrow> (string \<times> string) option" where
  "extract_name uc str =
     (case str of
        [] \<Rightarrow> None
      | c # cs \<Rightarrow>
          (let brace = (c = CHR ''{''); s = (if brace then cs else str); i = name_width uc s
           in if i = 0 then None
              else if brace then (case drop i s of d # rest \<Rightarrow> if d = CHR ''}'' then Some (take i s, rest) else None | [] \<Rightarrow> None)
              else Some (take i s, drop i s)))"

function expand :: "unicode \<Rightarrow> string \<Rightarrow> string \<Rightarrow> string" where
  "expand uc [] val = []"
| "expand uc (c # cs) val =
     (if c \<noteq> CHR ''$'' then c # expand uc cs val
      else if cs \<noteq> [] \<and> hd cs = CHR ''$'' then CHR ''$'' # expand uc (tl cs) val
      else (case extract_name uc cs of
              None \<Rightarrow> CHR ''$'' # expand uc cs val
            | Some (name, rest) \<Rightarrow> group_value name val @ expand uc rest val))"
  by pat_completeness auto

lemma extract_name_shorter: "extract_name uc cs = Some (name, rest) \<Longrightarrow> length rest < length cs"
proof (cases cs)
  case (Cons c ds)
  assume ex: "extract_name uc cs = Some (name, rest)"
  show ?thesis
  proof (cases "c = CHR ''{''")
    case True
    let ?i = "name_width uc ds"
    from ex Cons True obtain d where "drop ?i ds = d # rest"
      by (auto simp: extract_name_def Let_def split: list.splits if_splits)
    from arg_cong [OF this, of length] Cons show ?thesis by simp
  next
    case False
    with ex Cons show ?thesis by (auto simp: extract_name_def Let_def split: if_splits)
  qed
qed (simp add: extract_name_def)

termination expand
  by (relation "measure (\<lambda>(_, t, _). length t)") (auto dest: extract_name_shorter)

text \<open>
  The regular expression of a replacement is promxy's own \<open>(.*)\<close>, not the default one, so the
  fast path for empty values is never taken; it matches every value.
\<close>

definition relabel :: "externals \<Rightarrow> unicode \<Rightarrow> relabel_config \<Rightarrow> labelset \<Rightarrow> labelset \<times> bool" where
  "relabel ext uc cfg lb =
     (case cfg of
        ReplaceConfig source target replacement \<Rightarrow>
          (let val = labels_Get lb source; tgt = expand uc target val; res = expand uc replacement val
           in (if \<not> IsValidMetricName tgt then lb
               else if res = [] then smap_del tgt lb
               else Builder_Set tgt res lb, True))
      | LabelDropConfig pattern \<Rightarrow> (filter (\<lambda>(n, _). \<not> ext_MatchString ext pattern n) lb, True)
      | LowercaseConfig source target \<Rightarrow> (Builder_Set target (strings_ToLower uc (labels_Get lb source)) lb, True)
      | UppercaseConfig source target \<Rightarrow> (Builder_Set target (strings_ToUpper uc (labels_Get lb source)) lb, True))"

fun ProcessBuilder :: "externals \<Rightarrow> unicode \<Rightarrow> relabel_config list \<Rightarrow> labelset \<Rightarrow> labelset \<times> bool" where
  "ProcessBuilder ext uc [] lb = (lb, True)"
| "ProcessBuilder ext uc (cfg # cfgs) lb =
     (case relabel ext uc cfg lb of (lb, keep) \<Rightarrow> if keep then ProcessBuilder ext uc cfgs lb else (lb, False))"

definition Process :: "externals \<Rightarrow> unicode \<Rightarrow> relabel_config list \<Rightarrow> labelset \<Rightarrow> labelset \<times> bool" where
  "Process ext uc cfgs lbls =
     (case ProcessBuilder ext uc cfgs lbls of (lb, keep) \<Rightarrow> if keep then (lb, True) else ([], False))"

section \<open>Rewriting labels and matchers\<close>

text \<open>One configuration on one label name, and the loop over the configurations from the last.\<close>

definition rewrite_label :: "metric_relabel_config \<Rightarrow> string \<Rightarrow> string" where
  "rewrite_label cfg label =
     (case rl_Action cfg of
        Replace \<Rightarrow> if label = rl_TargetLabel cfg then rl_SourceLabel cfg else label
      | LabelDrop \<Rightarrow> if label = rl_SourceLabel cfg then [] else label
      | OtherAction _ \<Rightarrow> label
      | _ \<Rightarrow>
          if rl_SourceLabel cfg \<noteq> rl_TargetLabel cfg \<and> label = rl_TargetLabel cfg
          then rl_SourceLabel cfg else label)"

definition RewriteLabels :: "metric_relabel_config list \<Rightarrow> string list \<Rightarrow> string list" where
  "RewriteLabels cfgs labels = filter (\<lambda>l. l \<noteq> []) (map (fold rewrite_label (rev cfgs)) labels)"

definition caseInsensitiveRegexPrefix :: string where
  "caseInsensitiveRegexPrefix = ''(?i)''"

text \<open>One configuration on one matcher; \<open>None\<close> when nothing can match it. New matchers are not compiled.\<close>

definition rewrite_matcher :: "metric_relabel_config \<Rightarrow> matcher \<Rightarrow> matcher option" where
  "rewrite_matcher cfg m =
     (case rl_Action cfg of
        Replace \<Rightarrow>
          Some (if m_Name m = rl_TargetLabel cfg
                then \<lparr>m_Type = m_Type m, m_Name = rl_SourceLabel cfg, m_Value = m_Value m, m_compiled = False\<rparr> else m)
      | LabelDrop \<Rightarrow>
          (if m_Name m = rl_SourceLabel cfg
           then (if m_Type m = MatchEqual \<and> m_Value m = [] then Some m
                 else if m_Type m = MatchNotRegexp \<and> m_Value m = ''.+'' then Some m
                 else None)
           else Some m)
      | OtherAction _ \<Rightarrow> Some m
      | _ \<Rightarrow>
          Some (if m_Name m = rl_TargetLabel cfg
                then \<lparr>m_Type = (case m_Type m of MatchEqual \<Rightarrow> MatchRegexp | MatchNotEqual \<Rightarrow> MatchNotRegexp | t \<Rightarrow> t),
                      m_Name = rl_SourceLabel cfg, m_Value = caseInsensitiveRegexPrefix @ m_Value m, m_compiled = False\<rparr>
                else m))"

definition rewrite_matcher_all :: "metric_relabel_config list \<Rightarrow> matcher \<Rightarrow> matcher option" where
  "rewrite_matcher_all cfgs m = fold (\<lambda>cfg r. Option.bind r (rewrite_matcher cfg)) (rev cfgs) (Some m)"

fun RewriteMatchers :: "metric_relabel_config list \<Rightarrow> matcher list \<Rightarrow> matcher list option" where
  "RewriteMatchers cfgs [] = Some []"
| "RewriteMatchers cfgs (m # ms) =
     (case rewrite_matcher_all cfgs m of
        None \<Rightarrow> None
      | Some r \<Rightarrow> map_option (\<lambda>rs. r # rs) (RewriteMatchers cfgs ms))"

text \<open>The visitor; its state is \<open>badLabel\<close>. A selector that cannot match loses its matchers.\<close>

definition relabel_selector ::
  "metric_relabel_config list \<Rightarrow> vector_selector \<Rightarrow> bool \<Rightarrow> (bool \<times> vector_selector \<times> bool) outcome"
where
  "relabel_selector cfgs vs badLabel =
     (case RewriteMatchers cfgs (vs_LabelMatchers vs) of
        Some ms \<Rightarrow> Ret (badLabel, vs\<lparr>vs_LabelMatchers := ms\<rparr>, True)
      | None \<Rightarrow> Ret (True, vs\<lparr>vs_LabelMatchers := []\<rparr>, False))"

definition vector_matching_unsupported :: go_error where
  "vector_matching_unsupported = OtherError ''metricsrelabelvisitor does not support BinaryExprs with vector matching''"

definition MetricsRelabelVisitor :: "metric_relabel_config list \<Rightarrow> bool visitor" where
  "MetricsRelabelVisitor cfgs = \<lparr>
     visit_vector = \<lambda>vs path. relabel_selector cfgs vs,
     visit_matrix = \<lambda>vs r path. relabel_selector cfgs vs,
     visit_grouping = RewriteLabels cfgs,
     visit_node = \<lambda>e path s. (case e of
         BinaryExpr op l r vm b \<Rightarrow>
           (if expr_Type l \<noteq> ValueTypeVector \<or> expr_Type r \<noteq> ValueTypeVector then (s, True, None)
            else (s, False, Some vector_matching_unsupported))
       | _ \<Rightarrow> (s, True, None))\<rparr>"

section \<open>The client\<close>

fun strings_Contains :: "string \<Rightarrow> string \<Rightarrow> bool" where
  "strings_Contains [] sub \<longleftrightarrow> sub = []"
| "strings_Contains (c # cs) sub \<longleftrightarrow> HasPrefix (c # cs) sub \<or> strings_Contains cs sub"

record metrics_relabel_client =
  mr_MetricsRelabelConfigs :: "metric_relabel_config list"
  mr_RelabelConfigs :: "relabel_config list"

fun to_relabel_configs :: "externals \<Rightarrow> (string \<Rightarrow> bool) \<Rightarrow> metric_relabel_config list \<Rightarrow> go_error + relabel_config list" where
  "to_relabel_configs ext isPrint [] = Inr []"
| "to_relabel_configs ext isPrint (c # cs) =
     (case ToRelabelConfig ext isPrint c of
        Inl err \<Rightarrow> Inl err
      | Inr r \<Rightarrow> (case to_relabel_configs ext isPrint cs of Inl err \<Rightarrow> Inl err | Inr rs \<Rightarrow> Inr (r # rs)))"

definition NewMetricsRelabelClient ::
  "externals \<Rightarrow> (string \<Rightarrow> bool) \<Rightarrow> metric_relabel_config list \<Rightarrow> go_error + metrics_relabel_client"
where
  "NewMetricsRelabelClient ext isPrint cfgs =
     (if list_ex (\<lambda>c. strings_Contains (rl_TargetLabel c) ''${'') cfgs
      then Inl (OtherError ''MetricsRelabelClient does not support regex in TargetLabel'')
      else (case to_relabel_configs ext isPrint cfgs of
              Inl err \<Rightarrow> Inl err
            | Inr rs \<Rightarrow> Inr \<lparr>mr_MetricsRelabelConfigs = cfgs, mr_RelabelConfigs = rs\<rparr>))"

definition relabelLabels :: "externals \<Rightarrow> unicode \<Rightarrow> metrics_relabel_client \<Rightarrow> labelset \<Rightarrow> labelset" where
  "relabelLabels ext uc c l = (case Process ext uc (mr_RelabelConfigs c) l of (lbls, keep) \<Rightarrow> if \<not> keep then [] else lbls)"

text \<open>The match[] selectors of the label and series calls: \<open>None\<close> when one of them cannot match.\<close>

fun rewrite_selectors ::
  "promql \<Rightarrow> metric_relabel_config list \<Rightarrow> string list \<Rightarrow> go_error + string list option"
where
  "rewrite_selectors pq cfgs [] = Inr (Some [])"
| "rewrite_selectors pq cfgs (s # ss) =
     (case pq_ParseMetricSelector pq s of
        Inl err \<Rightarrow> Inl err
      | Inr matchers \<Rightarrow>
          (case RewriteMatchers cfgs matchers of
             None \<Rightarrow> Inr None
           | Some ms \<Rightarrow>
               (case rewrite_selectors pq cfgs ss of
                  Inl err \<Rightarrow> Inl err
                | Inr r \<Rightarrow> Inr (map_option (\<lambda>rest. MatcherToString pq ms # rest) r))))"

text \<open>The names that a downstream returns are distinct; \<open>ScratchBuilder\<close> sorts them.\<close>

definition Relabel_LabelNames ::
  "externals \<Rightarrow> unicode \<Rightarrow> promql \<Rightarrow> api \<Rightarrow> metrics_relabel_client \<Rightarrow> string list \<Rightarrow> time \<Rightarrow> time \<Rightarrow>
   (string list \<times> warnings \<times> go_error option) outcome"
where
  "Relabel_LabelNames ext uc pq a c matchers startTime endTime =
     (case rewrite_selectors pq (mr_MetricsRelabelConfigs c) matchers of
        Inl err \<Rightarrow> Ret ([], [], Some err)
      | Inr None \<Rightarrow> Ret ([], [], None)
      | Inr (Some ms) \<Rightarrow>
          omap (\<lambda>(labelNames, w, err).
              if err \<noteq> None then ([], w, err)
              else (case Process ext uc (mr_RelabelConfigs c) (sort_key fst (map (\<lambda>n. (n, ''placeholder'')) labelNames)) of
                      (lbls, keep) \<Rightarrow> (if keep then map fst lbls else [], w, None)))
            (LabelNames a ms startTime endTime))"

definition Relabel_query ::
  "externals \<Rightarrow> unicode \<Rightarrow> promql \<Rightarrow> metrics_relabel_client \<Rightarrow> (string \<Rightarrow> series_set outcome) \<Rightarrow> string \<Rightarrow> series_set outcome"
where
  "Relabel_query ext uc pq c call query =
     (case pq_ParseExpr pq query of
        Inl err \<Rightarrow> Ret (ErrSeriesSet err)
      | Inr e \<Rightarrow>
          obind (walk (MetricsRelabelVisitor (mr_MetricsRelabelConfigs c)) e [] False) (\<lambda>(badLabel, e, err).
            case err of
              Some err \<Rightarrow> Ret (ErrSeriesSet err)
            | None \<Rightarrow>
                if badLabel then Ret EmptySeriesSet
                else omap (\<lambda>ss. MapLabelsSeriesSet ss (relabelLabels ext uc c)) (call (pq_String pq e))))"

definition Relabel_Series ::
  "externals \<Rightarrow> unicode \<Rightarrow> promql \<Rightarrow> api \<Rightarrow> metrics_relabel_client \<Rightarrow> string list \<Rightarrow> time \<Rightarrow> time \<Rightarrow>
   (labelset list \<times> warnings \<times> go_error option) outcome"
where
  "Relabel_Series ext uc pq a c matchers startTime endTime =
     (case rewrite_selectors pq (mr_MetricsRelabelConfigs c) matchers of
        Inl err \<Rightarrow> Ret ([], [], Some err)
      | Inr None \<Rightarrow> Ret ([], [], None)
      | Inr (Some ms) \<Rightarrow>
          omap (\<lambda>(labelsets, w, err). (map (relabelLabels ext uc c) labelsets, w, err)) (Series a ms startTime endTime))"

definition Relabel_GetValue ::
  "externals \<Rightarrow> unicode \<Rightarrow> api \<Rightarrow> metrics_relabel_client \<Rightarrow> time \<Rightarrow> time \<Rightarrow> matcher list \<Rightarrow> series_set outcome"
where
  "Relabel_GetValue ext uc a c start end matchers =
     (case RewriteMatchers (mr_MetricsRelabelConfigs c) matchers of
        None \<Rightarrow> Ret EmptySeriesSet
      | Some ms \<Rightarrow> omap (\<lambda>ss. MapLabelsSeriesSet ss (relabelLabels ext uc c)) (GetValue a start end ms))"

definition Relabel_QueryExemplars ::
  "externals \<Rightarrow> unicode \<Rightarrow> api \<Rightarrow> metrics_relabel_client \<Rightarrow> string \<Rightarrow> time \<Rightarrow> time \<Rightarrow>
   (exemplar_result list \<times> go_error option) outcome"
where
  "Relabel_QueryExemplars ext uc a c query startTime endTime =
     omap (\<lambda>(v, err).
         if err \<noteq> None then ([], err)
         else if mr_RelabelConfigs c = [] then (v, None)
         else (concat (map (\<lambda>qr. case Process ext uc (mr_RelabelConfigs c) (er_SeriesLabels qr) of
                   (lbls, keep) \<Rightarrow> if keep then [qr\<lparr>er_SeriesLabels := lbls\<rparr>] else []) v), None))
       (QueryExemplars a query startTime endTime)"

text \<open>\<open>LabelValues\<close> and \<open>Metadata\<close> are the embedded API's.\<close>

definition MetricsRelabelClient ::
  "externals \<Rightarrow> unicode \<Rightarrow> promql \<Rightarrow> api \<Rightarrow> metrics_relabel_client \<Rightarrow> api"
where
  "MetricsRelabelClient ext uc pq a c = a\<lparr>
     LabelNames := Relabel_LabelNames ext uc pq a c,
     Query := \<lambda>q ts. Relabel_query ext uc pq c (\<lambda>q. Query a q ts) q,
     QueryRange := \<lambda>q r. Relabel_query ext uc pq c (\<lambda>q. QueryRange a q r) q,
     Series := Relabel_Series ext uc pq a c,
     GetValue := Relabel_GetValue ext uc a c,
     QueryExemplars := Relabel_QueryExemplars ext uc a c,
     api_Key := None\<rparr>"

section \<open>What rewriting keeps\<close>

text \<open>
  A configuration that can be undone on matchers: a replacement whose target is a plain valid
  name, or the drop of one label, given by its name. \<open>source_name\<close> is the label that a name of
  the relabelled series was before, and \<open>drop_free\<close> says that no drop was met on the way.
\<close>

definition reversible :: "externals \<Rightarrow> metric_relabel_config \<Rightarrow> bool" where
  "reversible ext cfg \<longleftrightarrow>
     rl_Action cfg = Replace \<and> CHR ''$'' \<notin> set (rl_TargetLabel cfg) \<or>
     rl_Action cfg = LabelDrop \<and> (\<forall>n. ext_MatchString ext (rl_SourceLabel cfg) n \<longleftrightarrow> n = rl_SourceLabel cfg)"

fun source_name :: "metric_relabel_config list \<Rightarrow> string \<Rightarrow> string" where
  "source_name [] n = n"
| "source_name (cfg # cfgs) n =
     (if rl_Action cfg = Replace \<and> source_name cfgs n = rl_TargetLabel cfg then rl_SourceLabel cfg else source_name cfgs n)"

fun drop_free :: "metric_relabel_config list \<Rightarrow> string \<Rightarrow> bool" where
  "drop_free [] n \<longleftrightarrow> True"
| "drop_free (cfg # cfgs) n \<longleftrightarrow>
     drop_free cfgs n \<and> (rl_Action cfg = LabelDrop \<longrightarrow> source_name cfgs n \<noteq> rl_SourceLabel cfg)"

lemma expand_plain [simp]: "CHR ''$'' \<notin> set t \<Longrightarrow> expand uc t val = t"
  by (induction t) auto

lemma expand_group [simp]: "expand uc ''$1'' val = val"
  by (simp add: extract_name_def Let_def word_byte_def name_byte_def group_value_def)

lemma rewrite_matcher_all_Cons [simp]:
  "rewrite_matcher_all [] m = Some m"
  "rewrite_matcher_all (cfg # cfgs) m = Option.bind (rewrite_matcher_all cfgs m) (rewrite_matcher cfg)"
  by (simp_all add: rewrite_matcher_all_def)

lemma relabel_keeps: "relabel ext uc cfg lb = (fst (relabel ext uc cfg lb), True)"
  by (simp add: relabel_def Let_def split: relabel_config.split)

lemma ProcessBuilder_fold: "ProcessBuilder ext uc cfgs lb = (fold (\<lambda>cfg lb. fst (relabel ext uc cfg lb)) cfgs lb, True)"
  by (induction cfgs arbitrary: lb) (subst ProcessBuilder.simps, subst relabel_keeps, simp)+

lemma relabelLabels_fold:
  "relabelLabels ext uc c l = fold (\<lambda>cfg lb. fst (relabel ext uc cfg lb)) (mr_RelabelConfigs c) l"
  by (simp add: relabelLabels_def Process_def ProcessBuilder_fold)

lemma smap_ok_filter: "smap_ok l \<Longrightarrow> smap_ok (filter P l)"
  by (simp add: smap_ok_def sorted_wrt_map sorted_wrt_filter)

lemma set_smap_put: "set (smap_put k v m) \<subseteq> insert (k, v) (set m)"
  by (induction m) (auto split: if_splits)

text \<open>One relabelling step undone on one matcher.\<close>

lemma relabel_matcher:
  assumes "ToRelabelConfig ext isPrint cfg = Inr rc" "reversible ext cfg"
    and "rl_Action cfg = LabelDrop \<longrightarrow> m_Name m \<noteq> rl_SourceLabel cfg"
  shows "\<exists>m'. rewrite_matcher cfg m = Some m' \<and>
     m_Name m' = (if rl_Action cfg = Replace \<and> m_Name m = rl_TargetLabel cfg then rl_SourceLabel cfg else m_Name m) \<and>
     (\<forall>l. accepts ext m' (labels_Get l (m_Name m')) \<longleftrightarrow> accepts ext m (labels_Get (fst (relabel ext uc rc l)) (m_Name m)))"
proof (cases "rl_Action cfg = Replace")
  case True
  then have rc: "rc = ReplaceConfig (rl_SourceLabel cfg) (rl_TargetLabel cfg) ''$1''" "IsValidMetricName (rl_TargetLabel cfg)"
    using assms(1) by (auto simp: ToRelabelConfig_def validated_def split: if_splits)
  have "CHR ''$'' \<notin> set (rl_TargetLabel cfg)" using assms(2) True by (simp add: reversible_def)
  then have "labels_Get (fst (relabel ext uc rc l)) n =
      (if n = rl_TargetLabel cfg then labels_Get l (rl_SourceLabel cfg) else labels_Get l n)" for l n
    using rc by (simp add: relabel_def Let_def label_simps del: expand.simps) (auto simp: labels_Get_def label_simps)
  with True show ?thesis by (cases "m_Type m") (simp_all add: rewrite_matcher_def accepts_def)
next
  case False
  then have d: "rl_Action cfg = LabelDrop" "\<forall>n. ext_MatchString ext (rl_SourceLabel cfg) n \<longleftrightarrow> n = rl_SourceLabel cfg"
    using assms(2) by (auto simp: reversible_def)
  then have rc: "rc = LabelDropConfig (rl_SourceLabel cfg)"
    using assms(1) by (auto simp: ToRelabelConfig_def split: if_splits)
  have get: "labels_Get (filter (\<lambda>(n, _). n \<noteq> k) l) n = labels_Get l n" if "n \<noteq> k" for k n and l :: labelset
    using that by (induction l) (auto simp: labels_Get_def)
  from d rc assms(3) show ?thesis by (auto simp: rewrite_matcher_def relabel_def get)
qed

lemma rewrite_matcher_all_exact:
  assumes "to_relabel_configs ext isPrint cfgs = Inr rcs" "\<forall>cfg\<in>set cfgs. reversible ext cfg" "drop_free cfgs (m_Name m)"
  shows "\<exists>m'. rewrite_matcher_all cfgs m = Some m' \<and> m_Name m' = source_name cfgs (m_Name m) \<and>
     (\<forall>l. accepts ext m' (labels_Get l (m_Name m')) \<longleftrightarrow>
        accepts ext m (labels_Get (fold (\<lambda>cfg lb. fst (relabel ext uc cfg lb)) rcs l) (m_Name m)))"
  using assms
proof (induction cfgs arbitrary: rcs)
  case (Cons cfg cfgs)
  from Cons.prems(1) obtain rc rcs' where rc: "ToRelabelConfig ext isPrint cfg = Inr rc"
    "to_relabel_configs ext isPrint cfgs = Inr rcs'" "rcs = rc # rcs'" by (auto split: sum.splits)
  from Cons.IH [OF rc(2)] Cons.prems(2,3) obtain m1 where m1: "rewrite_matcher_all cfgs m = Some m1"
    "m_Name m1 = source_name cfgs (m_Name m)"
    "\<forall>l. accepts ext m1 (labels_Get l (m_Name m1)) \<longleftrightarrow>
        accepts ext m (labels_Get (fold (\<lambda>cfg lb. fst (relabel ext uc cfg lb)) rcs' l) (m_Name m))" by auto
  have "rl_Action cfg = LabelDrop \<longrightarrow> m_Name m1 \<noteq> rl_SourceLabel cfg" using Cons.prems(3) m1(2) by simp
  from relabel_matcher [OF rc(1) _ this, of uc] Cons.prems(2) obtain m2 where
    "rewrite_matcher cfg m1 = Some m2"
    "m_Name m2 = (if rl_Action cfg = Replace \<and> m_Name m1 = rl_TargetLabel cfg then rl_SourceLabel cfg else m_Name m1)"
    "\<forall>l. accepts ext m2 (labels_Get l (m_Name m2)) \<longleftrightarrow> accepts ext m1 (labels_Get (fst (relabel ext uc rc l)) (m_Name m1))"
    by auto
  with m1 rc(3) show ?case by auto
qed simp

lemma RewriteMatchers_selects:
  assumes "to_relabel_configs ext isPrint cfgs = Inr rcs" "\<forall>cfg\<in>set cfgs. reversible ext cfg"
    and "\<forall>m\<in>set ms. drop_free cfgs (m_Name m)"
  shows "\<exists>ms'. RewriteMatchers cfgs ms = Some ms' \<and>
     (\<forall>l. selects ext ms' l \<longleftrightarrow> selects ext ms (fold (\<lambda>cfg lb. fst (relabel ext uc cfg lb)) rcs l))"
  using assms(3)
proof (induction ms)
  case (Cons m ms)
  from Cons obtain ms' where "RewriteMatchers cfgs ms = Some ms'"
    "\<forall>l. selects ext ms' l \<longleftrightarrow> selects ext ms (fold (\<lambda>cfg lb. fst (relabel ext uc cfg lb)) rcs l)" by auto
  moreover from rewrite_matcher_all_exact [OF assms(1,2), of m uc] Cons.prems obtain m' where
    "rewrite_matcher_all cfgs m = Some m'"
    "\<forall>l. accepts ext m' (labels_Get l (m_Name m')) \<longleftrightarrow>
        accepts ext m (labels_Get (fold (\<lambda>cfg lb. fst (relabel ext uc cfg lb)) rcs l) (m_Name m))" by auto
  ultimately show ?case by (simp add: selects_def)
qed (simp add: selects_def)

lemma relabel_ok:
  assumes "smap_ok l" "[] \<notin> snd ` set l"
  shows "smap_ok (fst (relabel ext uc cfg l)) \<and> [] \<notin> snd ` set (fst (relabel ext uc cfg l))"
proof -
  have set: "[] \<notin> snd ` set (Builder_Set n v l)" for n v
    using assms(2) set_smap_put [of n v l] by (auto simp: Builder_Set_def smap_del_def)
  have del: "[] \<notin> snd ` set (filter P l)" for P using assms(2) by auto
  show ?thesis
    using assms set del by (auto simp: relabel_def Let_def smap_ok_filter smap_del_def split: relabel_config.split)
qed

section \<open>Properties\<close>

text \<open>
  C33. \<open>MetricsRelabelClient.GetValue\<close> with configurations that rename labels or drop a label the
  matchers do not ask for: the matchers sent downstream select exactly the series that satisfy
  the original matchers once they are relabelled, and every series of the answer is relabelled.
\<close>

theorem MetricsRelabelClient_GetValue_exact:
  assumes "NewMetricsRelabelClient ext isPrint cfgs = Inr c" "\<forall>cfg\<in>set cfgs. reversible ext cfg"
    and "\<forall>m\<in>set ms. drop_free cfgs (m_Name m)"
  shows "\<exists>ms'. GetValue (MetricsRelabelClient ext uc pq a c) start end ms =
       omap (\<lambda>ss. MapLabelsSeriesSet ss (relabelLabels ext uc c)) (GetValue a start end ms') \<and>
     (\<forall>l. selects ext ms' l \<longleftrightarrow> selects ext ms (relabelLabels ext uc c l))"
proof -
  from assms(1) obtain rcs where c: "to_relabel_configs ext isPrint cfgs = Inr rcs"
    "c = \<lparr>mr_MetricsRelabelConfigs = cfgs, mr_RelabelConfigs = rcs\<rparr>"
    by (auto simp: NewMetricsRelabelClient_def split: if_splits sum.splits)
  from RewriteMatchers_selects [OF c(1) assms(2,3), of uc] c(2) show ?thesis
    by (auto simp: MetricsRelabelClient_def Relabel_GetValue_def relabelLabels_fold)
qed

definition relabel_of :: "action \<Rightarrow> string \<Rightarrow> string \<Rightarrow> metric_relabel_config" where
  "relabel_of act source target = \<lparr>rl_SourceLabel = source, rl_TargetLabel = target, rl_Action = act\<rparr>"


lemma relabel_of_simps [simp]:
  "rl_SourceLabel (relabel_of act s t) = s" "rl_TargetLabel (relabel_of act s t) = t" "rl_Action (relabel_of act s t) = act"
  by (simp_all add: relabel_of_def)

definition ascii_only :: unicode where
  "ascii_only = \<lparr>uc_ToLower = \<lambda>s. s, uc_ToUpper = \<lambda>s. s, uc_IsWord = \<lambda>_. False\<rparr>"

definition zone_configs :: "metric_relabel_config list" where
  "zone_configs = [relabel_of Replace ''az'' ''zone'']"

definition zone_client :: metrics_relabel_client where
  "zone_client = \<lparr>mr_MetricsRelabelConfigs = zone_configs, mr_RelabelConfigs = [ReplaceConfig ''az'' ''zone'' ''$1'']\<rparr>"

lemma zone_client_new: "NewMetricsRelabelClient plus_ext (\<lambda>_. True) zone_configs = Inr zone_client"
  by (simp add: NewMetricsRelabelClient_def zone_configs_def zone_client_def relabel_of_def ToRelabelConfig_def
      validated_def IsValidMetricName_def utf8_width_def utf8_expected_def)

theorem MetricsRelabelClient_GetValue_exact_witness:
  "\<exists>ms'. GetValue (MetricsRelabelClient plus_ext ascii_only example_pq (set_api EmptySeriesSet) zone_client) 0 0 [eq_matcher ''zone'' ''a''] =
       omap (\<lambda>ss. MapLabelsSeriesSet ss (relabelLabels plus_ext ascii_only zone_client)) (GetValue (set_api EmptySeriesSet) 0 0 ms') \<and>
     (\<forall>l. selects plus_ext ms' l \<longleftrightarrow> selects plus_ext [eq_matcher ''zone'' ''a''] (relabelLabels plus_ext ascii_only zone_client l))"
  by (rule MetricsRelabelClient_GetValue_exact [OF zone_client_new]) (auto simp: zone_configs_def reversible_def)

text \<open>
  Relabelled labels stay well-formed: sorted by name, without a repeated name and without
  an empty value, as \<open>labels.Labels\<close> and the series set merge require.
\<close>

lemma relabelLabels_well_formed:
  assumes "smap_ok l" "[] \<notin> snd ` set l"
  shows "smap_ok (relabelLabels ext uc c l) \<and> [] \<notin> snd ` set (relabelLabels ext uc c l)"
proof -
  have "smap_ok (fold (\<lambda>cfg lb. fst (relabel ext uc cfg lb)) cfgs l) \<and>
      [] \<notin> snd ` set (fold (\<lambda>cfg lb. fst (relabel ext uc cfg lb)) cfgs l)" for cfgs
    using assms by (induction cfgs arbitrary: l) (simp_all add: relabel_ok)
  then show ?thesis by (simp add: relabelLabels_fold)
qed

text \<open>
  A regular expression on a renamed label stops a raw read: the rewritten matcher is not
  compiled, and when the server group adds the label it was renamed from, \<open>AddLabelClient\<close>
  matches with it and dereferences nil.
\<close>

lemma renamed_regex_panics:
  assumes "rl_Action cfg = Replace" "m_Name m = rl_TargetLabel cfg" "is_regex (m_Type m)"
    and "map_of ls (rl_SourceLabel cfg) \<noteq> None" "mr_MetricsRelabelConfigs c = [cfg]"
  shows "GetValue (MetricsRelabelClient ext uc pq (AddLabelClient ext pq a ls) c) start end (m # ms) = Panic ''nil pointer dereference''"
proof -
  obtain ms' where "RewriteMatchers [cfg] ms = Some ms'"
    using assms(1) by (induction ms) (auto simp: rewrite_matcher_def)
  with assms show ?thesis
    by (auto simp: MetricsRelabelClient_def Relabel_GetValue_def AddLabelClient_def AddLabel_GetValue_def rewrite_matcher_def
        FilterMatchers_def Matches_def is_regex_def)
qed

text \<open>
  A dropped label is asked for in vain: with the label dropped every relabelled series
  satisfies \<open>label!="v"\<close> and \<open>label=""\<close>, but the first is answered without a call, and the second
  is sent downstream as it is, where it selects only the series without the label.
\<close>

lemma LabelDrop_matchers_inexact:
  assumes "NewMetricsRelabelClient ext isPrint [cfg] = Inr c" "rl_Action cfg = LabelDrop" "reversible ext cfg" "v \<noteq> []"
  shows "(\<forall>l. selects ext [\<lparr>m_Type = MatchNotEqual, m_Name = rl_SourceLabel cfg, m_Value = v, m_compiled = False\<rparr>] (relabelLabels ext uc c l) \<and>
       selects ext [eq_matcher (rl_SourceLabel cfg) []] (relabelLabels ext uc c l)) \<and>
     GetValue (MetricsRelabelClient ext uc pq a c) start end
       [\<lparr>m_Type = MatchNotEqual, m_Name = rl_SourceLabel cfg, m_Value = v, m_compiled = False\<rparr>] = Ret EmptySeriesSet \<and>
     GetValue (MetricsRelabelClient ext uc pq a c) start end [eq_matcher (rl_SourceLabel cfg) []] =
       omap (\<lambda>ss. MapLabelsSeriesSet ss (relabelLabels ext uc c)) (GetValue a start end [eq_matcher (rl_SourceLabel cfg) []]) \<and>
     \<not> selects ext [eq_matcher (rl_SourceLabel cfg) []] [(rl_SourceLabel cfg, v)]"
proof -
  have c: "c = \<lparr>mr_MetricsRelabelConfigs = [cfg], mr_RelabelConfigs = [LabelDropConfig (rl_SourceLabel cfg)]\<rparr>"
    using assms(1,2) by (auto simp: NewMetricsRelabelClient_def ToRelabelConfig_def split: if_splits)
  have d: "\<forall>n. ext_MatchString ext (rl_SourceLabel cfg) n \<longleftrightarrow> n = rl_SourceLabel cfg"
    using assms(2,3) by (simp add: reversible_def)
  have "labels_Get (filter (\<lambda>(n, _). n \<noteq> k) l) k = []" for k and l :: labelset
    by (induction l) (auto simp: labels_Get_def)
  with c d assms(2,4) show ?thesis
    by (simp add: relabelLabels_fold relabel_def accepts_def MetricsRelabelClient_def Relabel_GetValue_def rewrite_matcher_def labels_Get_def)
qed

text \<open>
  A range selector is rewritten twice, as the node and as its child: with \<open>b\<close> renamed to \<open>c\<close> and then
  \<open>a\<close> to \<open>b\<close>, an instant selector on \<open>c\<close> is sent as one on \<open>b\<close>, a range selector as one on \<open>a\<close>.
\<close>

definition chained_configs :: "metric_relabel_config list" where
  "chained_configs = [relabel_of Replace ''b'' ''c'', relabel_of Replace ''a'' ''b'']"

lemma range_selector_rewritten_twice:
  "walk (MetricsRelabelVisitor chained_configs) (VectorSelector (sel_of [eq_matcher ''c'' ''x''])) [] False =
     Ret (False, VectorSelector (sel_of [eq_matcher ''b'' ''x'']), None) \<and>
   walk (MetricsRelabelVisitor chained_configs) (MatrixSelector (sel_of [eq_matcher ''c'' ''x'']) d) [] False =
     Ret (False, MatrixSelector (sel_of [eq_matcher ''a'' ''x'']) d, None)"
  by (simp add: MetricsRelabelVisitor_def relabel_selector_def chained_configs_def rewrite_matcher_def sel_of_def)

end
