(* ===== verification/Promxy_TimeFilter.thy ===== *)
theory Promxy_TimeFilter
  imports Promxy_Api
begin

text \<open>
  The time filters of \<open>src/pkg/promclient/timefilter.go\<close>: a server group with an absolute or a
  relative window answers nothing for requests outside the window and, when it truncates,
  narrows the others to it.
\<close>

section \<open>Definitions\<close>

definition truncateWindow :: "time \<Rightarrow> time \<Rightarrow> time \<Rightarrow> time \<Rightarrow> time \<times> time" where
  "truncateWindow start end winStart winEnd =
     (if \<not> IsZero winStart \<and> Before start winStart then winStart else start,
      if \<not> IsZero winEnd \<and> After end winEnd then winEnd else end)"

text \<open>The guard that all calls begin with.\<close>

definition outside :: "time \<Rightarrow> time \<Rightarrow> time \<Rightarrow> time \<Rightarrow> bool" where
  "outside tfStart tfEnd startTime endTime \<longleftrightarrow>
     (\<not> IsZero tfStart \<and> Before endTime tfStart) \<or> (\<not> IsZero tfEnd \<and> After startTime tfEnd)"

text \<open>The narrowing of a range query. A step of zero makes Go's remainder panic.\<close>

definition truncate_range :: "time \<Rightarrow> time \<Rightarrow> range \<Rightarrow> range outcome" where
  "truncate_range tfStart tfEnd r =
     omap (\<lambda>start. r\<lparr>rg_Start := start,
              rg_End := (if \<not> IsZero tfEnd \<and> After (rg_End r) tfEnd then tfEnd else rg_End r)\<rparr>)
       (if \<not> IsZero tfStart \<and> Before (rg_Start r) tfStart
        then (if rg_Step r = 0 then Panic ''integer divide by zero''
              else (let remainder = time_Sub tfStart (rg_Start r) smod rg_Step r
                    in Ret (if remainder > 0 then tfStart + i64 (rg_Step r - remainder) else tfStart)))
        else Ret (rg_Start r))"

definition windowed :: "bool \<Rightarrow> time \<Rightarrow> time \<Rightarrow> (time \<Rightarrow> time \<Rightarrow> 'a) \<Rightarrow> time \<Rightarrow> time \<Rightarrow> 'a" where
  "windowed trunc tfStart tfEnd call startTime endTime =
     (if trunc then (case truncateWindow startTime endTime tfStart tfEnd of (s, e) \<Rightarrow> call s e)
      else call startTime endTime)"

definition AbsoluteTimeFilter :: "api \<Rightarrow> time \<Rightarrow> time \<Rightarrow> bool \<Rightarrow> api" where
  "AbsoluteTimeFilter a tfStart tfEnd trunc = a\<lparr>
     LabelNames := \<lambda>ms s e. (if outside tfStart tfEnd s e then Ret ([], [], None)
        else windowed trunc tfStart tfEnd (LabelNames a ms) s e),
     LabelValues := \<lambda>label ms s e. (if outside tfStart tfEnd s e then Ret (None, [], None)
        else windowed trunc tfStart tfEnd (LabelValues a label ms) s e),
     Query := \<lambda>q ts. (if outside tfStart tfEnd ts ts then Ret EmptySeriesSet else Query a q ts),
     QueryRange := \<lambda>q r. (if outside tfStart tfEnd (rg_Start r) (rg_End r) then Ret EmptySeriesSet
        else if trunc then obind (truncate_range tfStart tfEnd r) (QueryRange a q)
        else QueryRange a q r),
     Series := \<lambda>ms s e. (if outside tfStart tfEnd s e then Ret ([], [], None)
        else windowed trunc tfStart tfEnd (Series a ms) s e),
     GetValue := \<lambda>s e ms. (if outside tfStart tfEnd s e then Ret EmptySeriesSet
        else windowed trunc tfStart tfEnd (\<lambda>s e. GetValue a s e ms) s e),
     QueryExemplars := \<lambda>q s e. (if outside tfStart tfEnd s e then Ret ([], None)
        else windowed trunc tfStart tfEnd (QueryExemplars a q) s e),
     api_Key := None\<rparr>"

text \<open>The window of a relative filter at the time of the call; a missing bound is the zero time.\<close>

definition relative_window :: "duration option \<Rightarrow> duration option \<Rightarrow> time \<Rightarrow> time \<times> time" where
  "relative_window tfStart tfEnd now =
     (case tfStart of Some d \<Rightarrow> now + d | None \<Rightarrow> zero_time,
      case tfEnd of Some d \<Rightarrow> now + d | None \<Rightarrow> zero_time)"

definition RelativeTimeFilter :: "api \<Rightarrow> duration option \<Rightarrow> duration option \<Rightarrow> bool \<Rightarrow> time \<Rightarrow> api" where
  "RelativeTimeFilter a tfStart tfEnd trunc now =
     (case relative_window tfStart tfEnd now of (s, e) \<Rightarrow> AbsoluteTimeFilter a s e trunc)"

section \<open>The points of a range query\<close>

definition points :: "range \<Rightarrow> time set" where
  "points r = {t. \<exists>k::nat. t = rg_Start r + int k * rg_Step r \<and> t \<le> rg_End r}"

definition in_window :: "time \<Rightarrow> time \<Rightarrow> time \<Rightarrow> bool" where
  "in_window tfStart tfEnd t \<longleftrightarrow> (IsZero tfStart \<or> tfStart \<le> t) \<and> (IsZero tfEnd \<or> t \<le> tfEnd)"

lemma points_shift:
  assumes "0 < rg_Step r" "(s - rg_Start r) mod rg_Step r = 0" "rg_Start r \<le> s"
  shows "points (r\<lparr>rg_Start := s, rg_End := e\<rparr>) = {t \<in> points (r\<lparr>rg_End := e\<rparr>). s \<le> t}"
proof -
  obtain j where j: "s = rg_Start r + int j * rg_Step r"
  proof -
    have "s - rg_Start r = ((s - rg_Start r) div rg_Step r) * rg_Step r" using assms(2) by (simp add: minus_mod_eq_div_mult [symmetric])
    moreover have "0 \<le> (s - rg_Start r) div rg_Step r" using assms by (simp add: pos_imp_zdiv_nonneg_iff)
    ultimately have "s = rg_Start r + int (nat ((s - rg_Start r) div rg_Step r)) * rg_Step r" by simp
    then show ?thesis by (rule that)
  qed
  show ?thesis
  proof (intro set_eqI iffI)
    fix t assume "t \<in> points (r\<lparr>rg_Start := s, rg_End := e\<rparr>)"
    then obtain k :: nat where "t = s + int k * rg_Step r" "t \<le> e" by (auto simp: points_def)
    moreover from this have "t = rg_Start r + int (j + k) * rg_Step r" by (simp add: j algebra_simps)
    ultimately have "t \<in> points (r\<lparr>rg_End := e\<rparr>)" unfolding points_def by (intro CollectI exI [of _ "j + k"]) simp
    moreover have "s \<le> t" using \<open>t = s + int k * rg_Step r\<close> assms(1) by simp
    ultimately show "t \<in> {t \<in> points (r\<lparr>rg_End := e\<rparr>). s \<le> t}" by simp
  next
    fix t assume "t \<in> {t \<in> points (r\<lparr>rg_End := e\<rparr>). s \<le> t}"
    then obtain k :: nat where k: "t = rg_Start r + int k * rg_Step r" "t \<le> e" "s \<le> t" by (auto simp: points_def)
    then have "j \<le> k" using assms(1) j by simp
    then have "t = s + int (k - j) * rg_Step r" using k(1) j by (simp add: of_nat_diff algebra_simps)
    with k(2) show "t \<in> points (r\<lparr>rg_Start := s, rg_End := e\<rparr>)" by (auto simp: points_def)
  qed
qed

text \<open>The start that the truncation chooses is the first point of the grid in the window.\<close>

lemma aligned_start:
  fixes w s step :: int
  assumes "0 < step" "s < w"
  defines "m \<equiv> (w - s) mod step"
  defines "s' \<equiv> if m > 0 then w + (step - m) else w"
  shows "(s' - s) mod step = 0" "w \<le> s'" "\<And>k. s + int k * step \<ge> w \<longleftrightarrow> s + int k * step \<ge> s'"
proof -
  have m: "0 \<le> m" "m < step" using assms(1) by (simp_all add: m_def)
  have "w + (step - m) - s = (w - s - m) + step" by simp
  then have "(w + (step - m) - s) mod step = (w - s - m) mod step" by (simp only: mod_add_self2)
  also have "\<dots> = 0" by (simp add: m_def minus_mod_eq_mult_div)
  finally show 1: "(s' - s) mod step = 0" using m by (auto simp: s'_def m_def)
  show "w \<le> s'" using m by (simp add: s'_def)
  fix k
  show "s + int k * step \<ge> w \<longleftrightarrow> s + int k * step \<ge> s'"
  proof
    assume k: "w \<le> s + int k * step"
    show "s' \<le> s + int k * step"
    proof (rule ccontr)
      assume "\<not> s' \<le> s + int k * step"
      then have "0 < s' - (s + int k * step)" "s' - (s + int k * step) < step" using k m by (auto simp: s'_def split: if_splits)
      moreover have "(s' - (s + int k * step)) mod step = 0"
        using 1 by (simp add: mod_eq_0_iff_dvd diff_diff_eq [symmetric])
      ultimately show False by (simp add: mod_pos_pos_trivial)
    qed
  qed (use m in \<open>auto simp: s'_def split: if_splits\<close>)
qed

definition clipped_end :: "time \<Rightarrow> range \<Rightarrow> time" where
  "clipped_end tfEnd r = (if \<not> IsZero tfEnd \<and> After (rg_End r) tfEnd then tfEnd else rg_End r)"

lemma points_clipped: "points (r\<lparr>rg_End := clipped_end tfEnd r\<rparr>) = {t \<in> points r. IsZero tfEnd \<or> t \<le> tfEnd}"
  by (auto simp: points_def clipped_end_def After_def)

lemma truncate_range_grid:
  assumes "0 < rg_Step r" "in_i64 (rg_Step r)" "tfStart - rg_Start r < 2 ^ 63"
  shows "\<exists>r'. truncate_range tfStart tfEnd r = Ret r' \<and> rg_Step r' = rg_Step r \<and>
    points r' = {t \<in> points r. in_window tfStart tfEnd t}"
proof (cases "\<not> IsZero tfStart \<and> Before (rg_Start r) tfStart")
  case False
  have "points r \<subseteq> {t. rg_Start r \<le> t}" using assms(1) by (auto simp: points_def)
  with False have "{t \<in> points r. in_window tfStart tfEnd t} = {t \<in> points r. IsZero tfEnd \<or> t \<le> tfEnd}"
    by (auto simp: in_window_def Before_def not_less)
  moreover have "truncate_range tfStart tfEnd r = Ret (r\<lparr>rg_End := clipped_end tfEnd r\<rparr>)"
    using False by (auto simp: truncate_range_def clipped_end_def)
  ultimately show ?thesis using points_clipped by simp
next
  case True
  then have lt: "rg_Start r < tfStart" by (simp add: Before_def)
  define m where "m = (tfStart - rg_Start r) mod rg_Step r"
  let ?s = "if m > 0 then tfStart + (rg_Step r - m) else tfStart"
  have m: "0 \<le> m" "m < rg_Step r" using assms(1) by (simp_all add: m_def)
  have sub: "time_Sub tfStart (rg_Start r) = tfStart - rg_Start r" using lt assms(3) by (simp add: time_Sub_def)
  have rem: "time_Sub tfStart (rg_Start r) smod rg_Step r = m" unfolding sub m_def using lt assms(1) by (intro smod_pos) simp_all
  have i: "i64 (rg_Step r - m) = rg_Step r - m" using m assms(2) by (intro i64_id) (auto simp: in_i64_def)
  have "truncate_range tfStart tfEnd r = Ret (r\<lparr>rg_Start := ?s, rg_End := clipped_end tfEnd r\<rparr>)"
    unfolding truncate_range_def clipped_end_def if_P [OF True] Let_def rem i using assms(1) by simp
  moreover have "points (r\<lparr>rg_Start := ?s, rg_End := clipped_end tfEnd r\<rparr>) = {t \<in> points r. in_window tfStart tfEnd t}"
  proof -
    note al = aligned_start [OF assms(1) lt, folded m_def]
    have "rg_Start r \<le> ?s" using al(2) lt by linarith
    then have "points (r\<lparr>rg_Start := ?s, rg_End := clipped_end tfEnd r\<rparr>) = {t \<in> points (r\<lparr>rg_End := clipped_end tfEnd r\<rparr>). ?s \<le> t}"
      by (rule points_shift [OF assms(1) al(1)])
    also have "\<dots> = {t \<in> points r. (IsZero tfEnd \<or> t \<le> tfEnd) \<and> ?s \<le> t}" unfolding points_clipped by blast
    also have "\<dots> = {t \<in> points r. in_window tfStart tfEnd t}"
    proof -
      have "tfStart \<le> t \<longleftrightarrow> ?s \<le> t" if "t \<in> points r" for t
      proof -
        from that obtain k :: nat where k: "t = rg_Start r + int k * rg_Step r" unfolding points_def by blast
        show ?thesis unfolding k by (rule al(3))
      qed
      then show ?thesis unfolding in_window_def using True by blast
    qed
    finally show ?thesis .
  qed
  ultimately show ?thesis by simp
qed

section \<open>Properties\<close>

text \<open>
  C38. Truncating a range query keeps its grid: for a positive step the narrowed range has
  exactly the evaluation points of the request that lie in the window, so the answer has
  the timestamps the caller expects. (The distance to the window must fit a
  \<open>time.Duration\<close>.)
\<close>

theorem truncate_range_points:
  assumes "0 < rg_Step r" "in_i64 (rg_Step r)" "tfStart - rg_Start r < 2 ^ 63"
  shows "\<exists>r'. truncate_range tfStart tfEnd r = Ret r' \<and> rg_Step r' = rg_Step r \<and>
    points r' = {t \<in> points r. in_window tfStart tfEnd t}"
  by (rule truncate_range_grid [OF assms])

theorem truncate_range_points_witness:
  "\<exists>r'. truncate_range 12 32 \<lparr>rg_Start = 0, rg_End = 45, rg_Step = 10\<rparr> = Ret r' \<and> rg_Step r' = 10 \<and>
    points r' = {t \<in> points \<lparr>rg_Start = 0, rg_End = 45, rg_Step = 10\<rparr>. in_window 12 32 t}"
  using truncate_range_points [of "\<lparr>rg_Start = 0, rg_End = 45, rg_Step = 10\<rparr>" 12 32] by (simp add: in_i64_def)

text \<open>
  Every call of a time filter with a window is answered empty when the request does not
  meet the window, and otherwise reaches the API with a request inside the window and
  inside the original request: here for \<open>GetValue\<close>, with truncation.
\<close>

lemma AbsoluteTimeFilter_GetValue:
  assumes "start \<le> end" "\<not> IsZero tfStart" "\<not> IsZero tfEnd" "tfStart \<le> tfEnd"
  shows "if {start..end} \<inter> {tfStart..tfEnd} = {} then GetValue (AbsoluteTimeFilter a tfStart tfEnd True) start end ms = Ret EmptySeriesSet
    else \<exists>s e. GetValue (AbsoluteTimeFilter a tfStart tfEnd True) start end ms = GetValue a s e ms \<and>
      {s..e} = {start..end} \<inter> {tfStart..tfEnd}"
  using assms
  by (auto simp: AbsoluteTimeFilter_def outside_def windowed_def truncateWindow_def Before_def After_def not_less max_def min_def)

text \<open>
  Two range queries that truncation mishandles: with a step of zero it panics, and when the
  next grid point after the window's start lies beyond the end of the request it asks the
  API for a range whose start is after its end, instead of answering empty.
\<close>

lemma AbsoluteTimeFilter_bad_ranges:
  assumes "\<not> IsZero tfStart" "rg_Start r < tfStart" "tfStart \<le> rg_End r" "IsZero tfEnd"
  shows "(rg_Step r = 0 \<longrightarrow> QueryRange (AbsoluteTimeFilter a tfStart tfEnd True) q r = Panic ''integer divide by zero'') \<and>
    (0 < rg_Step r \<and> in_i64 (rg_Step r) \<and> tfStart - rg_Start r < 2 ^ 63 \<and> {t \<in> points r. tfStart \<le> t} = {} \<longrightarrow>
       (\<exists>r'. QueryRange (AbsoluteTimeFilter a tfStart tfEnd True) q r = QueryRange a q r' \<and> rg_End r' < rg_Start r'))"
proof -
  have out: "\<not> outside tfStart tfEnd (rg_Start r) (rg_End r)"
    using assms by (simp add: outside_def Before_def)
  have "\<exists>r'. truncate_range tfStart tfEnd r = Ret r' \<and> rg_End r' < rg_Start r'"
    if r: "0 < rg_Step r" "in_i64 (rg_Step r)" "tfStart - rg_Start r < 2 ^ 63" "{t \<in> points r. tfStart \<le> t} = {}"
  proof -
    obtain r' where r': "truncate_range tfStart tfEnd r = Ret r'" "points r' = {t \<in> points r. in_window tfStart tfEnd t}"
      using truncate_range_grid [OF r(1,2,3), of tfEnd] by blast
    then have "points r' = {}" using r(4) assms(1) by (auto simp: in_window_def)
    then have "rg_Start r' \<notin> points r'" by simp
    then have "rg_End r' < rg_Start r'" unfolding points_def by (auto dest: spec [of _ 0])
    with r'(1) show ?thesis by blast
  qed
  moreover have "rg_Step r = 0 \<longrightarrow> truncate_range tfStart tfEnd r = Panic ''integer divide by zero''"
    using assms by (simp add: truncate_range_def Before_def)
  moreover have "QueryRange (AbsoluteTimeFilter a tfStart tfEnd True) q r = obind (truncate_range tfStart tfEnd r) (QueryRange a q)"
    using out by (simp add: AbsoluteTimeFilter_def)
  ultimately show ?thesis by fastforce
qed

end
