(* ===== verification/Promxy_Client.thy ===== *)
theory Promxy_Client
  imports Promxy_Filters
begin

text \<open>
  The clients at the bottom of a server group (\<open>src/pkg/promclient/api.go\<close>, \<open>api_query.go\<close> and
  \<open>DecodeResponse\<close> of \<open>src/pkg/promapi/decode.go\<close>): \<open>PromAPIV1\<close>, which speaks the HTTP API, and
  \<open>PromAPIRemoteRead\<close>, which reads raw data over remote_read. The HTTP round trip, the JSON
  reader and client_golang's API are parameters.
\<close>

section \<open>Seconds of a duration\<close>

text \<open>
  \<open>Duration.Seconds\<close> adds two \<open>float64\<close>: the whole seconds and the rest divided by 1e9. Both the
  division and the sum are rounded to 53 bits, half to even; \<open>round_even p q\<close> rounds \<open>p / q\<close> to an
  integer and \<open>doublings p q\<close> counts how often \<open>p\<close> can be doubled before it reaches \<open>q\<close>, which
  gives the exponent of the rounded number.
\<close>

definition round_even :: "nat \<Rightarrow> nat \<Rightarrow> nat" where
  "round_even p q =
     (let f = p div q; r = p mod q
      in if 2 * r < q \<or> (2 * r = q \<and> even f) then f else f + 1)"

function doublings :: "nat \<Rightarrow> nat \<Rightarrow> nat" where
  "doublings p q = (if p = 0 \<or> q \<le> p then 0 else Suc (doublings (2 * p) q))"
  by pat_completeness auto
termination
  by (relation "measure (\<lambda>(p, q). q - p)") auto

declare doublings.simps [simp del]

definition trunc_seconds_nat :: "nat \<Rightarrow> nat" where
  "trunc_seconds_nat d =
     (let sec = d div 1000000000; nsec = d mod 1000000000;
          k = doublings nsec (1000000000 * 2 ^ 52);
          f = round_even (nsec * 2 ^ k) 1000000000;
          p = sec * 2 ^ k + f;
          j = doublings p (2 ^ (k + 52))
      in round_even (p * 2 ^ j) (2 ^ k) div 2 ^ j)"

definition trunc_seconds :: "duration \<Rightarrow> int" where
  "trunc_seconds d = (if 0 \<le> d then int (trunc_seconds_nat (nat d)) else - int (trunc_seconds_nat (nat (- d))))"

section \<open>Times of the HTTP API\<close>

definition minTime :: time where
  "minTime = (- 9223372036854775 + 62135596801) * nanos_per_second"

definition maxTime :: time where
  "maxTime = time_Truncate ((9223372036854775 - 62135596801) * nanos_per_second + 999999999) nanos_per_milli"

text \<open>The bounds of a label call that stand for no bound are not sent.\<close>

definition unset_start :: "time \<Rightarrow> time" where
  "unset_start t = (if t = minTime then zero_time else t)"

definition unset_end :: "time \<Rightarrow> time" where
  "unset_end t = (if t = maxTime then zero_time else t)"

definition Unix :: "time \<Rightarrow> int" where
  "Unix t = t div nanos_per_second"

definition Nanosecond :: "time \<Rightarrow> int" where
  "Nanosecond t = t mod nanos_per_second"

definition hasNegativeFractionalSecond :: "time \<Rightarrow> bool" where
  "hasNegativeFractionalSecond t =
     (if Unix t \<ge> 0 \<and> Nanosecond t = 0 then False else Unix t < 0 \<and> Nanosecond t \<noteq> 0)"

definition errNegativeFractionalTimestamp :: go_error where
  "errNegativeFractionalTimestamp = OtherError
     (''promxy: pushdown not supported for pre-epoch timestamps with sub-second precision '' @
      ''(https://github.com/prometheus/common model.Time.UnmarshalJSON bug)'')"

section \<open>The HTTP API\<close>

text \<open>
  A request carries its form arguments before they are printed; a time that is the zero time
  is left out. The reply is a transport error or a status with a body.
\<close>

datatype http_request =
    QueryRequest string "time option"
  | QueryRangeRequest string time time duration

datatype http_reply = HttpFailed go_error | HttpReply nat string

text \<open>client_golang's \<open>v1.API\<close>, the transport of \<open>api.Client\<close> where there is one, and the decoder of bodies.\<close>

record downstream =
  ds_LabelNames :: "string list \<Rightarrow> time \<Rightarrow> time \<Rightarrow> string list \<times> warnings \<times> go_error option"
  ds_LabelValues :: "string \<Rightarrow> string list \<Rightarrow> time \<Rightarrow> time \<Rightarrow> string list option \<times> warnings \<times> go_error option"
  ds_Query :: "string \<Rightarrow> time \<Rightarrow> model_value \<times> warnings \<times> go_error option"
  ds_QueryRange :: "string \<Rightarrow> range \<Rightarrow> model_value \<times> warnings \<times> go_error option"
  ds_Series :: "string list \<Rightarrow> time \<Rightarrow> time \<Rightarrow> labelset list \<times> warnings \<times> go_error option"
  ds_Metadata :: "string \<Rightarrow> string \<Rightarrow> (string, metadata list) smap option \<times> go_error option"
  ds_QueryExemplars :: "string \<Rightarrow> time \<Rightarrow> time \<Rightarrow> exemplar_result list \<times> go_error option"
  ds_Client :: "(http_request \<Rightarrow> http_reply) option"
  ds_DecodeSeriesSet :: "string \<Rightarrow> series_set"

definition badResponse :: string where
  "badResponse = ''bad_response''"

definition DecodeResponse :: "(string \<Rightarrow> series_set) \<Rightarrow> nat \<Rightarrow> string \<Rightarrow> series_set" where
  "DecodeResponse decode status body =
     (let ss = decode body
      in if status div 100 = 2 then ss
         else (case Option.bind (ss_err ss) (\<lambda>e. errors_As e is_ResponseError) of
                 Some re \<Rightarrow>
                   (if re_Type re \<noteq> badResponse then ss
                    else NewSeriesSet [] (ss_warnings ss) (Some (HTTPError status (ErrorBody body))))
               | None \<Rightarrow> NewSeriesSet [] (ss_warnings ss) (Some (HTTPError status (ErrorBody body)))))"

definition queryWithInfos :: "downstream \<Rightarrow> (http_request \<Rightarrow> http_reply) \<Rightarrow> http_request \<Rightarrow> series_set" where
  "queryWithInfos d send req =
     (case send req of
        HttpFailed err \<Rightarrow> ErrSeriesSet err
      | HttpReply status body \<Rightarrow>
          (if status = 204 then NewSeriesSet [] [] None else DecodeResponse (ds_DecodeSeriesSet d) status body))"

definition v1_query :: "downstream \<Rightarrow> string \<Rightarrow> time \<Rightarrow> series_set" where
  "v1_query d query ts =
     (if hasNegativeFractionalSecond ts then ErrSeriesSet errNegativeFractionalTimestamp
      else case ds_Client d of
        None \<Rightarrow> (case ds_Query d query ts of (v, w, err) \<Rightarrow> ModelValueToSeriesSet v (WarningsConvert w) err)
      | Some send \<Rightarrow> queryWithInfos d send (QueryRequest query (if IsZero ts then None else Some ts)))"

definition v1_queryRange :: "downstream \<Rightarrow> string \<Rightarrow> range \<Rightarrow> series_set" where
  "v1_queryRange d query r =
     (if hasNegativeFractionalSecond (rg_Start r) then ErrSeriesSet errNegativeFractionalTimestamp
      else case ds_Client d of
        None \<Rightarrow> (case ds_QueryRange d query r of (v, w, err) \<Rightarrow> ModelValueToSeriesSet v (WarningsConvert w) err)
      | Some send \<Rightarrow> queryWithInfos d send (QueryRangeRequest query (rg_Start r) (rg_End r) (rg_Step r)))"

definition v1_Query :: "externals \<Rightarrow> downstream \<Rightarrow> string \<Rightarrow> time \<Rightarrow> series_set" where
  "v1_Query ext d query ts = MapErrSeriesSet (v1_query d query ts) (NormalizePromError (ext_Unmarshal ext))"

text \<open>\<open>%d\<close> of a signed number.\<close>

definition format_int :: "int \<Rightarrow> string" where
  "format_int n = (if n < 0 then ''-'' @ itoa (nat (- n)) else itoa (nat n))"

definition v1_GetValue :: "externals \<Rightarrow> promql \<Rightarrow> downstream \<Rightarrow> time \<Rightarrow> time \<Rightarrow> matcher list \<Rightarrow> series_set" where
  "v1_GetValue ext pq d start stop matchers =
     (let query = MatcherToString pq matchers @ ''['' @ format_int (trunc_seconds (time_Sub stop start) + 1) @ ''s]''
      in v1_Query ext d query stop)"

definition PromAPIV1 :: "externals \<Rightarrow> promql \<Rightarrow> downstream \<Rightarrow> api" where
  "PromAPIV1 ext pq d =
     (let normalize = NormalizePromError (ext_Unmarshal ext)
      in \<lparr>LabelNames = \<lambda>ms s e. Ret (case ds_LabelNames d ms (unset_start s) (unset_end e) of (v, w, err) \<Rightarrow> (v, w, normalize err)),
          LabelValues = \<lambda>l ms s e. Ret (case ds_LabelValues d l ms (unset_start s) (unset_end e) of (v, w, err) \<Rightarrow> (v, w, normalize err)),
          Query = \<lambda>q t. Ret (v1_Query ext d q t),
          QueryRange = \<lambda>q r. Ret (MapErrSeriesSet (v1_queryRange d q r) normalize),
          Series = \<lambda>ms s e. Ret (case ds_Series d ms (unset_start s) (unset_end e) of (v, w, err) \<Rightarrow> (v, w, normalize err)),
          GetValue = \<lambda>s e ms. Ret (v1_GetValue ext pq d s e ms),
          Metadata = \<lambda>m l. Ret (ds_Metadata d m l),
          QueryExemplars = \<lambda>q s e. Ret (case ds_QueryExemplars d q s e of (v, err) \<Rightarrow> (v, normalize err)),
          api_Key = None\<rparr>)"

section \<open>Remote read\<close>

text \<open>
  \<open>remote.ReadClient.Read\<close> of a query for a window in milliseconds. \<open>remote.ToQuery\<close> fails only on
  a matcher type that does not exist.
\<close>

type_synonym read_client = "int \<Rightarrow> int \<Rightarrow> matcher list \<Rightarrow> go_error + series_set"

definition PromAPIRemoteRead :: "api \<Rightarrow> read_client \<Rightarrow> api" where
  "PromAPIRemoteRead a rc = a\<lparr>
     GetValue := \<lambda>s e ms. Ret (case rc (FromTime s) (FromTime e) ms of
         Inl err \<Rightarrow> ErrSeriesSet err | Inr ss \<Rightarrow> materializeSeriesSet ss),
     api_Key := None\<rparr>"

section \<open>Lemmas\<close>

lemma round_even_ge: "0 < q \<Longrightarrow> n * q \<le> p \<Longrightarrow> n \<le> round_even p q"
  using div_le_mono [of "n * q" p q] by (auto simp: round_even_def Let_def)

lemma round_even_le:
  assumes "0 < q" "p \<le> n * q"
  shows "round_even p q \<le> n"
proof (cases "p = n * q")
  case True
  with assms show ?thesis by (simp add: round_even_def)
next
  case False
  with assms have "p div q < n" by (simp add: less_mult_imp_div_less)
  then show ?thesis by (auto simp: round_even_def Let_def)
qed

text \<open>The two roundings keep the whole seconds and add at most one.\<close>

lemma trunc_seconds_nat_bounds:
  "d div 1000000000 \<le> trunc_seconds_nat d \<and> trunc_seconds_nat d \<le> d div 1000000000 + 1"
proof -
  define sec nsec where "sec = d div 1000000000" and "nsec = d mod 1000000000"
  define k where "k = doublings nsec (1000000000 * 2 ^ 52)"
  define f where "f = round_even (nsec * 2 ^ k) 1000000000"
  define p where "p = sec * 2 ^ k + f"
  define j where "j = doublings p (2 ^ (k + 52))"
  have "nsec \<le> 1000000000" unfolding nsec_def by simp
  then have "nsec * 2 ^ k \<le> 2 ^ k * 1000000000" by (simp add: mult.commute)
  then have f: "f \<le> 2 ^ k" unfolding f_def by (intro round_even_le) simp_all
  have lo: "sec * 2 ^ j * 2 ^ k \<le> p * 2 ^ j" and hi: "p * 2 ^ j \<le> (sec + 1) * 2 ^ j * 2 ^ k"
    using f by (simp_all add: p_def algebra_simps)
  have "sec * 2 ^ j \<le> round_even (p * 2 ^ j) (2 ^ k)" using lo by (intro round_even_ge) simp_all
  moreover have "round_even (p * 2 ^ j) (2 ^ k) \<le> (sec + 1) * 2 ^ j" using hi by (intro round_even_le) simp_all
  ultimately have "sec \<le> round_even (p * 2 ^ j) (2 ^ k) div 2 ^ j" "round_even (p * 2 ^ j) (2 ^ k) div 2 ^ j \<le> sec + 1"
    using div_le_mono [of "sec * 2 ^ j" _ "2 ^ j"] div_le_mono [of _ "(sec + 1) * 2 ^ j" "2 ^ j"] by fastforce+
  then show ?thesis
    by (simp add: trunc_seconds_nat_def Let_def sec_def nsec_def k_def f_def p_def j_def)
qed

lemma trunc_seconds_bounds:
  assumes "0 \<le> d"
  shows "d < (trunc_seconds d + 1) * nanos_per_second" "(trunc_seconds d + 1) * nanos_per_second \<le> d + 2 * nanos_per_second"
proof -
  have "int (nat d div 1000000000) = d div 1000000000" using assms by (simp add: zdiv_int)
  then have "d div 1000000000 \<le> trunc_seconds d" "trunc_seconds d \<le> d div 1000000000 + 1"
    using trunc_seconds_nat_bounds [of "nat d"] assms by (simp_all add: trunc_seconds_def)
  moreover have "d < (d div 1000000000 + 1) * 1000000000" "d div 1000000000 * 1000000000 \<le> d" by simp_all
  ultimately show "d < (trunc_seconds d + 1) * nanos_per_second" "(trunc_seconds d + 1) * nanos_per_second \<le> d + 2 * nanos_per_second"
    by (simp_all add: nanos_per_second_def)
qed

section \<open>Properties\<close>

text \<open>
  C30. A raw read over the HTTP API asks for a range selector that ends at the end of the window
  and reaches back past its start, by at most two seconds, although the length of the window
  goes through two roundings to \<open>float64\<close>: every sample of the window is selected.
\<close>

theorem PromAPIV1_GetValue_window:
  assumes "start \<le> stop" "stop - start < 2 ^ 63"
  shows "\<exists>n. GetValue (PromAPIV1 ext pq d) start stop ms = Query (PromAPIV1 ext pq d) (MatcherToString pq ms @ ''['' @ itoa n @ ''s]'') stop \<and>
     stop - int n * nanos_per_second < start \<and> start - 2 * nanos_per_second \<le> stop - int n * nanos_per_second"
proof -
  let ?n = "trunc_seconds (stop - start) + 1"
  have sub: "time_Sub stop start = stop - start" using assms by (simp add: time_Sub_def)
  have b: "stop - start < ?n * nanos_per_second" "?n * nanos_per_second \<le> stop - start + 2 * nanos_per_second"
    using trunc_seconds_bounds [of "stop - start"] assms by simp_all
  then have pos: "0 < ?n" using assms(1) by (smt (verit) mult_nonpos_nonneg nanos_per_second_def)
  then have "GetValue (PromAPIV1 ext pq d) start stop ms =
      Query (PromAPIV1 ext pq d) (MatcherToString pq ms @ ''['' @ itoa (nat ?n) @ ''s]'') stop"
    by (simp add: PromAPIV1_def v1_GetValue_def Let_def sub format_int_def)
  with b pos show ?thesis by (intro exI [of _ "nat ?n"]) (simp add: algebra_simps)
qed

text \<open>
  A response whose status is not 2xx is never data, whatever its body decodes to: the set of
  such a response carries an error, the API's own or the HTTP status.
\<close>

lemma DecodeResponse_error: "status div 100 \<noteq> 2 \<Longrightarrow> ss_err (DecodeResponse decode status body) \<noteq> None"
  by (auto simp: DecodeResponse_def Let_def NewSeriesSet_def split: option.splits bind_splits)

definition silent :: downstream where
  "silent = \<lparr>ds_LabelNames = \<lambda>_ _ _. ([], [], None), ds_LabelValues = \<lambda>_ _ _ _. (None, [], None),
     ds_Query = \<lambda>_ _. (OtherValue, [], None), ds_QueryRange = \<lambda>_ _. (OtherValue, [], None),
     ds_Series = \<lambda>_ _ _. ([], [], None), ds_Metadata = \<lambda>_ _. (None, None), ds_QueryExemplars = \<lambda>_ _ _. ([], None),
     ds_Client = None, ds_DecodeSeriesSet = \<lambda>_. EmptySeriesSet\<rparr>"

theorem PromAPIV1_GetValue_window_witness:
  "\<exists>n. GetValue (PromAPIV1 example_ext example_pq silent) 500000000 90000000000 [] =
       Query (PromAPIV1 example_ext example_pq silent) (MatcherToString example_pq [] @ ''['' @ itoa n @ ''s]'') 90000000000 \<and>
     90000000000 - int n * nanos_per_second < 500000000 \<and> 500000000 - 2 * nanos_per_second \<le> 90000000000 - int n * nanos_per_second"
  by (rule PromAPIV1_GetValue_window) simp_all

end
