(* ===== verification/Promxy_StepSeries.thy ===== *)
theory Promxy_StepSeries
  imports Promxy_Api
begin

text \<open>
  The series set conversions of \<open>src/pkg/proxystorage\<close>: \<open>containsLossyHistogram\<close>
  (\<open>histogram_routing.go\<close>), which copies a set and reports histograms, \<open>vectorToStepMatrix\<close>, which
  repeats an instant result at every step, and \<open>fillStaleNaNGapsDetectHistogram\<close>, which marks the
  steps without a value (both \<open>proxy.go\<close>). Request times are bounded by the query API, far from
  the ends of int64, so the step arithmetic is on unbounded integers.
\<close>

section \<open>Definitions\<close>

definition is_hist :: "sample \<Rightarrow> bool" where
  "is_hist p = (case p of FloatSample _ _ \<Rightarrow> False | HistogramSample _ _ \<Rightarrow> True)"

text \<open>
  The loops over a series set, with what each does to a series' samples: the series collected,
  whether a histogram was seen, and the error of the first iterator that ends with one.
\<close>

fun drain_set ::
  "(series \<Rightarrow> series outcome) \<Rightarrow> series list \<Rightarrow> bool \<Rightarrow> (series list \<times> bool \<times> go_error option) outcome"
where
  "drain_set f [] hasHist = Ret ([], hasHist, None)"
| "drain_set f (s # ss) hasHist =
     obind (f s) (\<lambda>s'.
       let hasHist = (hasHist \<or> list_ex is_hist (sr_samples s))
       in case sr_iterErr s of
            Some err \<Rightarrow> Ret ([], hasHist, Some err)
          | None \<Rightarrow>
              omap (\<lambda>(out, hasHist, err). (if err = None then s' # out else [], hasHist, err)) (drain_set f ss hasHist))"

definition drained :: "series_set \<Rightarrow> series list \<times> bool \<times> go_error option \<Rightarrow> series_set \<times> bool" where
  "drained ss r =
     (case r of (out, hasHist, err) \<Rightarrow>
        (NewSeriesSet out (ss_warnings ss) (if err = None then ss_err ss else err), hasHist))"

definition containsLossyHistogram :: "series_set \<Rightarrow> (series_set \<times> bool) outcome" where
  "containsLossyHistogram ss =
     omap (drained ss) (drain_set (\<lambda>s. Ret (NewSeries (sr_labels s) (sr_samples s))) (ss_series ss) False)"

text \<open>The step grid: \<open>n\<close> timestamps from \<open>ts\<close>.\<close>

fun grid :: "int \<Rightarrow> int \<Rightarrow> nat \<Rightarrow> int list" where
  "grid ts step 0 = []"
| "grid ts step (Suc n) = ts # grid (ts + step) step n"

text \<open>The value of the last sample at each step; a series without samples stays empty.\<close>

definition at_time :: "int \<Rightarrow> sample \<Rightarrow> sample" where
  "at_time t p = (case p of FloatSample _ v \<Rightarrow> FloatSample t v | HistogramSample _ h \<Rightarrow> HistogramSample t h)"

definition is_nil_hist :: "sample \<Rightarrow> bool" where
  "is_nil_hist p = (case p of HistogramSample _ None \<Rightarrow> True | _ \<Rightarrow> False)"

definition replicate_steps :: "int \<Rightarrow> int \<Rightarrow> nat \<Rightarrow> series \<Rightarrow> series" where
  "replicate_steps startMs stepMs n s =
     NewSeries (sr_labels s)
       (if sr_samples s = [] \<or> is_nil_hist (last (sr_samples s)) then []
        else map (\<lambda>t. at_time t (last (sr_samples s))) (grid startMs stepMs n))"

definition vectorToStepMatrix :: "series_set \<Rightarrow> time \<Rightarrow> time \<Rightarrow> duration \<Rightarrow> series_set outcome" where
  "vectorToStepMatrix vec start end step =
     (if step \<le> 0 then Ret (NewSeriesSet [] (ss_warnings vec) (ss_err vec))
      else (let startMs = FromTime start; endMs = FromTime end; stepMs = Milliseconds step
            in if stepMs \<le> 0 \<or> endMs < startMs then Ret (NewSeriesSet [] (ss_warnings vec) (ss_err vec))
               else (let n = nat ((endMs - startMs) div stepMs + 1)
                     in omap (\<lambda>r. fst (drained vec r)) (drain_set (\<lambda>s. Ret (replicate_steps startMs stepMs n s)) (ss_series vec) False))))"

text \<open>The markers for the steps from \<open>ts\<close> before \<open>lim\<close>, and the first step that is left.\<close>

function stale_before :: "int \<Rightarrow> int \<Rightarrow> int \<Rightarrow> int \<Rightarrow> sample list \<times> int" where
  "stale_before interval endTs lim ts =
     (if 0 < interval \<and> ts \<le> endTs \<and> ts < lim
      then (case stale_before interval endTs lim (ts + interval) of (ps, ts') \<Rightarrow> (FloatSample ts StaleNaN # ps, ts'))
      else ([], ts))"
  by auto
termination
  by (relation "measure (\<lambda>(interval, _, lim, ts). nat (lim - ts))") auto

declare stale_before.simps [simp del]

fun fill_steps :: "int \<Rightarrow> int \<Rightarrow> sample list \<Rightarrow> int \<Rightarrow> sample list" where
  "fill_steps interval endTs [] ts = fst (stale_before interval endTs (endTs + 1) ts)"
| "fill_steps interval endTs (p # ps) ts =
     (case stale_before interval endTs (sample_T p) ts of (markers, ts) \<Rightarrow>
        markers @ p # fill_steps interval endTs ps (if ts \<le> endTs \<and> ts = sample_T p then ts + interval else ts))"

text \<open>The slice is allocated for the number of steps; a negative capacity panics.\<close>

definition fillStaleNaNGapsDetectHistogram :: "series_set \<Rightarrow> int \<Rightarrow> int \<Rightarrow> int \<Rightarrow> (series_set \<times> bool) outcome" where
  "fillStaleNaNGapsDetectHistogram ss startTs endTs interval =
     (if interval \<le> 0 then containsLossyHistogram ss
      else (let steps = (endTs - startTs) sdiv interval + 1
            in omap (drained ss)
                 (drain_set (\<lambda>s. if steps < 0 then Panic ''makeslice: cap out of range''
                                 else Ret (NewSeries (sr_labels s) (fill_steps interval endTs (sr_samples s) startTs)))
                    (ss_series ss) False)))"

definition fillStaleNaNGaps :: "series_set \<Rightarrow> int \<Rightarrow> int \<Rightarrow> int \<Rightarrow> series_set outcome" where
  "fillStaleNaNGaps ss startTs endTs interval =
     (if interval \<le> 0 then Ret ss else omap fst (fillStaleNaNGapsDetectHistogram ss startTs endTs interval))"

section \<open>The markers\<close>

definition steps_from :: "int \<Rightarrow> int \<Rightarrow> int \<Rightarrow> int set" where
  "steps_from interval endTs ts = {t. ts \<le> t \<and> t \<le> endTs \<and> interval dvd t - ts}"

definition stale_at :: "int \<Rightarrow> sample" where
  "stale_at t = FloatSample t StaleNaN"

lemma sample_T_stale_at [simp]: "sample_T (stale_at t) = t"
  by (simp add: stale_at_def)

abbreviation sorted_T :: "sample list \<Rightarrow> bool" where
  "sorted_T \<equiv> sorted_wrt (\<lambda>p q. sample_T p < sample_T q)"

lemma steps_from_step:
  assumes "0 < interval"
  shows "steps_from interval endTs ts = (if ts \<le> endTs then insert ts (steps_from interval endTs (ts + interval)) else {})"
proof -
  have "ts + interval \<le> t" if "ts < t" "interval dvd t - ts" for t
    using zdvd_imp_le [OF that(2)] that(1) by simp
  moreover have "interval dvd t - ts \<longleftrightarrow> interval dvd t - (ts + interval)" for t
    by (metis add_diff_cancel_right' diff_diff_add dvd_minus_self dvd_refl dvd_diff_left_iff dvd_add_left_iff diff_add_cancel)
  ultimately show ?thesis using assms by (force simp: steps_from_def)
qed

lemma stale_before_spec:
  assumes "0 < interval"
  shows "case stale_before interval endTs lim ts of (ps, ts') \<Rightarrow>
     ts \<le> ts' \<and> (endTs < ts' \<or> lim \<le> ts') \<and>
     steps_from interval endTs ts = sample_T ` set ps \<union> steps_from interval endTs ts' \<and>
     set ps = stale_at ` sample_T ` set ps \<and> sorted_T ps \<and> (\<forall>p\<in>set ps. ts \<le> sample_T p \<and> sample_T p < ts' \<and> sample_T p < lim)"
  using assms
proof (induction interval endTs lim ts rule: stale_before.induct)
  case (1 interval endTs lim ts)
  show ?case
  proof (cases "ts \<le> endTs \<and> ts < lim")
    case True
    obtain ps ts' where r: "stale_before interval endTs lim (ts + interval) = (ps, ts')" by fastforce
    have "0 < interval \<and> ts \<le> endTs \<and> ts < lim" using True 1(2) by simp
    from 1(1) [OF this 1(2)] r show ?thesis
      using True 1(2) steps_from_step [OF 1(2), of endTs ts]
      by (subst stale_before.simps) (auto simp: stale_at_def [symmetric])
  next
    case False
    then show ?thesis by (subst stale_before.simps) auto
  qed
qed

lemma fill_steps_spec:
  assumes "0 < interval" "sorted_T ps"
  shows "sorted_T (fill_steps interval endTs ps ts) \<and>
     set (fill_steps interval endTs ps ts) = set ps \<union> stale_at ` (steps_from interval endTs ts - sample_T ` set ps)"
  using assms(2)
proof (induction ps arbitrary: ts)
  case Nil
  have "steps_from interval endTs ts' = {}" if "endTs < ts'" for ts' using that by (simp add: steps_from_def)
  with stale_before_spec [OF assms(1), where endTs = endTs and lim = "endTs + 1" and ts = ts] show ?case by (auto split: prod.splits)
next
  case (Cons p ps)
  obtain ms ts' where r: "stale_before interval endTs (sample_T p) ts = (ms, ts')" by fastforce
  let ?ts = "if ts' \<le> endTs \<and> ts' = sample_T p then ts' + interval else ts'"
  let ?rest = "fill_steps interval endTs ps ?ts"
  note s = stale_before_spec [OF assms(1), where endTs = endTs and lim = "sample_T p" and ts = ts, unfolded r prod.case]
  have steps: "steps_from interval endTs ts' - {sample_T p} = steps_from interval endTs ?ts"
    "\<forall>t\<in>steps_from interval endTs ?ts. sample_T p < t"
    using s assms(1) steps_from_step [OF assms(1), of endTs ts'] by (auto simp: steps_from_def)
  from Cons have ih: "sorted_T ?rest" "set ?rest = set ps \<union> stale_at ` (steps_from interval endTs ?ts - sample_T ` set ps)" by auto
  have "\<forall>q\<in>set ?rest. sample_T p < sample_T q" unfolding ih(2) using Cons.prems steps(2) by auto
  then have "sorted_T (ms @ p # ?rest)" using ih(1) s by (force simp: sorted_wrt_append)
  moreover have "set (ms @ p # ?rest) = set (p # ps) \<union> stale_at ` (steps_from interval endTs ts - sample_T ` set (p # ps))"
  proof -
    have split: "steps_from interval endTs ts = sample_T ` set ms \<union> steps_from interval endTs ts'" using s by blast
    have ms: "sample_T ` set ms \<inter> sample_T ` set (p # ps) = {}"
    proof -
      have "t < sample_T p" if "t \<in> sample_T ` set ms" for t using that s by blast
      moreover have "sample_T p \<le> t" if "t \<in> sample_T ` set (p # ps)" for t using that Cons.prems by fastforce
      ultimately show ?thesis by fastforce
    qed
    have "steps_from interval endTs ts - sample_T ` set (p # ps) =
        sample_T ` set ms \<union> (steps_from interval endTs ts' - {sample_T p} - sample_T ` set ps)"
      unfolding split using ms by auto
    then have "steps_from interval endTs ts - sample_T ` set (p # ps) =
        sample_T ` set ms \<union> (steps_from interval endTs ?ts - sample_T ` set ps)" unfolding steps(1) .
    then have "stale_at ` (steps_from interval endTs ts - sample_T ` set (p # ps)) =
        set ms \<union> stale_at ` (steps_from interval endTs ?ts - sample_T ` set ps)"
      using s by (metis image_Un)
    then show ?thesis using ih(2) by auto
  qed
  ultimately show ?case using r by simp
qed

lemma drain_set_ok:
  assumes "\<forall>s\<in>set ss. f s = Ret (g s) \<and> sr_iterErr s = None"
  shows "drain_set f ss h = Ret (map g ss, h \<or> (\<exists>s\<in>set ss. \<exists>p\<in>set (sr_samples s). is_hist p), None)"
  using assms by (induction ss arbitrary: h) (auto simp: Let_def list_ex_iff)

lemma drain_set_error:
  assumes "\<forall>s\<in>set ss. f s = Ret (g s)" "\<exists>s\<in>set ss. sr_iterErr s \<noteq> None"
  shows "\<exists>h' e. drain_set f ss h = Ret ([], h', Some e)"
  using assms
proof (induction ss arbitrary: h)
  case (Cons s ss)
  show ?case
  proof (cases "sr_iterErr s")
    case None
    with Cons.prems Cons.IH [of "h \<or> list_ex is_hist (sr_samples s)"] show ?thesis by (auto simp: Let_def)
  qed (use Cons.prems in \<open>simp add: Let_def\<close>)
qed simp

text \<open>What filling must do to one series.\<close>

definition filled :: "int \<Rightarrow> int \<Rightarrow> int \<Rightarrow> series \<Rightarrow> series \<Rightarrow> bool" where
  "filled startTs endTs interval s s' \<longleftrightarrow>
     sr_labels s' = sr_labels s \<and> sr_iterErr s' = None \<and> sorted_T (sr_samples s') \<and>
     set (sr_samples s') = set (sr_samples s) \<union> stale_at ` (steps_from interval endTs startTs - sample_T ` set (sr_samples s))"

section \<open>Properties\<close>

text \<open>
  C31. Filling a range answer: every sample of the downstream is kept, every step of the request
  without a sample gets exactly one stale marker, nothing else is added, the samples stay in
  order, and the flag tells whether a histogram was among them.
\<close>

theorem fillStaleNaNGaps_complete:
  assumes "0 < interval" "startTs \<le> endTs" "\<forall>s\<in>set (ss_series ss). sorted_T (sr_samples s) \<and> sr_iterErr s = None"
  shows "\<exists>out. fillStaleNaNGapsDetectHistogram ss startTs endTs interval =
       Ret (NewSeriesSet out (ss_warnings ss) (ss_err ss), \<exists>s\<in>set (ss_series ss). \<exists>p\<in>set (sr_samples s). is_hist p) \<and>
     list_all2 (filled startTs endTs interval) (ss_series ss) out"
proof -
  let ?g = "\<lambda>s. NewSeries (sr_labels s) (fill_steps interval endTs (sr_samples s) startTs)"
  have steps: "\<not> (endTs - startTs) sdiv interval + 1 < 0"
    using assms(1,2) pos_imp_zdiv_nonneg_iff [of interval "endTs - startTs"]
    by (auto simp: signed_divide_int_def sgn_if)
  have "fillStaleNaNGapsDetectHistogram ss startTs endTs interval =
      omap (drained ss) (Ret (map ?g (ss_series ss), \<exists>s\<in>set (ss_series ss). \<exists>p\<in>set (sr_samples s). is_hist p, None))"
    using drain_set_ok [of "ss_series ss" "\<lambda>s. Ret (?g s)" ?g False] assms(1,3) steps
    by (simp add: fillStaleNaNGapsDetectHistogram_def Let_def)
  moreover have "list_all2 (filled startTs endTs interval) (ss_series ss) (map ?g (ss_series ss))"
    using assms(3) fill_steps_spec [OF assms(1)]
    by (auto simp: list_all2_conv_all_nth filled_def NewSeries_def dest: nth_mem)
  ultimately show ?thesis by (auto simp: drained_def)
qed

definition sparse_set :: series_set where
  "sparse_set = NewSeriesSet [NewSeries [(''a'', ''b'')] [FloatSample 20 1]] [] None"

theorem fillStaleNaNGaps_complete_witness:
  "\<exists>out. fillStaleNaNGapsDetectHistogram sparse_set 0 30 10 =
       Ret (NewSeriesSet out (ss_warnings sparse_set) (ss_err sparse_set),
            \<exists>s\<in>set (ss_series sparse_set). \<exists>p\<in>set (sr_samples s). is_hist p) \<and>
     list_all2 (filled 0 30 10) (ss_series sparse_set) out"
  by (rule fillStaleNaNGaps_complete) (simp_all add: sparse_set_def NewSeriesSet_def NewSeries_def)

lemma containsLossyHistogram_ok:
  assumes "\<forall>s\<in>set (ss_series ss). sr_iterErr s = None"
  shows "containsLossyHistogram ss = Ret (ss, \<exists>s\<in>set (ss_series ss). \<exists>p\<in>set (sr_samples s). is_hist p)"
proof -
  have "map (\<lambda>s. NewSeries (sr_labels s) (sr_samples s)) (ss_series ss) = ss_series ss"
    using assms by (intro map_idI) (simp add: NewSeries_def)
  then show ?thesis
    using drain_set_ok [of "ss_series ss" "\<lambda>s. Ret (NewSeries (sr_labels s) (sr_samples s))" "\<lambda>s. NewSeries (sr_labels s) (sr_samples s)" False] assms
    by (simp add: containsLossyHistogram_def drained_def NewSeriesSet_def)
qed

lemma vectorToStepMatrix_ok:
  assumes "0 < Milliseconds step" "FromTime start \<le> FromTime end" "\<forall>s\<in>set (ss_series vec). sr_iterErr s = None"
  shows "vectorToStepMatrix vec start end step =
     Ret (vec\<lparr>ss_series := map (replicate_steps (FromTime start) (Milliseconds step)
       (nat ((FromTime end - FromTime start) div Milliseconds step + 1))) (ss_series vec)\<rparr>)"
proof -
  have "0 \<le> - step div 1000000" if "step \<le> 0" using that by (simp add: pos_imp_zdiv_nonneg_iff)
  then have "0 < step" using assms(1)
    by (auto simp: Milliseconds_def nanos_per_milli_def signed_divide_int_def sgn_if split: if_splits intro: ccontr)
  with assms drain_set_ok [of "ss_series vec" "\<lambda>s. Ret (replicate_steps (FromTime start) (Milliseconds step) (nat ((FromTime end - FromTime start) div Milliseconds step + 1)) s)"
      "replicate_steps (FromTime start) (Milliseconds step) (nat ((FromTime end - FromTime start) div Milliseconds step + 1))" False]
  show ?thesis by (simp add: vectorToStepMatrix_def Let_def drained_def NewSeriesSet_def)
qed

end
