(* ===== verification/Promxy_Pushdown.thy ===== *)
theory Promxy_Pushdown
  imports Promxy_Filters Promxy_StepSeries
begin

text \<open>
  Query pushdown: \<open>ProxyStorage.NodeReplacer\<close> (\<open>src/pkg/proxystorage/proxy.go\<close>) with the tree
  visitors it runs (\<open>src/pkg/promclient/util.go\<close>) and the histogram routing
  (\<open>histogram_routing.go\<close>), and the tree walk that applies it (\<open>parser.Walk\<close> with a node replacer).
  The replacer changes nodes in place even where it returns no replacement, so its model
  returns the changed node next to the replacement.
\<close>

section \<open>The finders\<close>

text \<open>
  The state of the visitors that \<open>NodeReplacer\<close> runs: the counts of the \<open>BooleanFinder\<close>s, the
  \<open>OffsetFinder\<close> (whose error is only tested for nil), the \<open>TimestampFinder\<close> and the
  \<open>histogramFinder\<close>.
\<close>

record found =
  fd_agg :: nat
  fd_offset :: "duration option"
  fd_offsetError :: bool
  fd_vec :: nat
  fd_timestamp :: nat
  fd_at :: "int option"
  fd_atUnsafe :: nat
  fd_hist :: bool

definition isAgg :: "expr \<Rightarrow> bool" where
  "isAgg e = (case e of AggregateExpr _ _ _ _ _ \<Rightarrow> True | _ \<Rightarrow> False)"

definition isSubQuery :: "expr \<Rightarrow> bool" where
  "isSubQuery e = (case e of SubqueryExpr _ _ \<Rightarrow> True | _ \<Rightarrow> False)"

definition isBinaryExpr :: "expr \<Rightarrow> bool" where
  "isBinaryExpr e = (case e of BinaryExpr _ _ _ _ _ \<Rightarrow> True | _ \<Rightarrow> False)"

definition isVectorSelector :: "expr \<Rightarrow> bool" where
  "isVectorSelector e = (case e of VectorSelector _ \<Rightarrow> True | _ \<Rightarrow> False)"

definition hasTimestamp :: "expr \<Rightarrow> bool" where
  "hasTimestamp e = (case e of VectorSelector vs \<Rightarrow> vs_Timestamp vs \<noteq> None | _ \<Rightarrow> False)"

definition AtModifierUnsafeFunctions :: "string set" where
  "AtModifierUnsafeFunctions =
     {''days_in_month'', ''day_of_month'', ''day_of_week'', ''day_of_year'', ''hour'', ''minute'', ''month'', ''year'',
      ''predict_linear'', ''time'', ''timestamp''}"

definition isAtModifierUnsafeCall :: "expr \<Rightarrow> bool" where
  "isAtModifierUnsafeCall e = (case e of Call f _ \<Rightarrow> fn_Name f \<in> AtModifierUnsafeFunctions | _ \<Rightarrow> False)"

definition histogramOnlyFuncs :: "string set" where
  "histogramOnlyFuncs =
     {''histogram_avg'', ''histogram_count'', ''histogram_sum'', ''histogram_stddev'', ''histogram_stdvar'', ''histogram_fraction''}"

text \<open>\<open>BooleanFinder\<close>, with the counter it increments.\<close>

definition BooleanFinder :: "(expr \<Rightarrow> bool) \<Rightarrow> (found \<Rightarrow> found) \<Rightarrow> found finder" where
  "BooleanFinder p inc node path s = (if p node then inc s else s, True)"

definition see_offset :: "duration \<Rightarrow> found \<Rightarrow> found" where
  "see_offset d s =
     (case fd_offset s of
        None \<Rightarrow> s\<lparr>fd_offset := Some d\<rparr>
      | Some d' \<Rightarrow> if d \<noteq> d' then s\<lparr>fd_offsetError := True\<rparr> else s)"

definition OffsetFinder :: "found finder" where
  "OffsetFinder node path s =
     (case node of
        SubqueryExpr _ sq \<Rightarrow>
          (if fd_offset s = None \<and> path = [] then (see_offset (sq_OriginalOffset sq) s, False)
           else (let s = see_offset (sq_OriginalOffset sq) s in (s, \<not> fd_offsetError s)))
      | VectorSelector vs \<Rightarrow> (let s = see_offset (vs_OriginalOffset vs) s in (s, \<not> fd_offsetError s))
      | _ \<Rightarrow> (s, \<not> fd_offsetError s))"

definition TimestampFinder :: "found finder" where
  "TimestampFinder node path s =
     (if fd_at s \<noteq> None then (s, True)
      else (case node of
              VectorSelector vs \<Rightarrow> (s\<lparr>fd_at := vs_Timestamp vs\<rparr>, True)
            | SubqueryExpr _ sq \<Rightarrow> (s\<lparr>fd_at := sq_Timestamp sq\<rparr>, True)
            | _ \<Rightarrow> (s, True)))"

text \<open>\<open>isHistogramName\<close> is nil when no server group keeps the metadata cache.\<close>

definition histogram_node :: "(string \<Rightarrow> bool) option \<Rightarrow> expr \<Rightarrow> bool" where
  "histogram_node isHistogramName node =
     (case node of
        Call f _ \<Rightarrow> fn_Name f \<in> histogramOnlyFuncs
      | VectorSelector vs \<Rightarrow> (case isHistogramName of Some p \<Rightarrow> p (vs_Name vs) | None \<Rightarrow> False)
      | _ \<Rightarrow> False)"

definition histogramFinder :: "(string \<Rightarrow> bool) option \<Rightarrow> found finder" where
  "histogramFinder isHistogramName node path s =
     (if fd_hist s then (s, True)
      else (if histogram_node isHistogramName node then s\<lparr>fd_hist := True\<rparr> else s, True))"

definition node_finders :: "(string \<Rightarrow> bool) option \<Rightarrow> found finder option list" where
  "node_finders isHistogramName =
     map Some
       [BooleanFinder isAgg (fd_agg_update Suc), OffsetFinder, BooleanFinder isVectorSelector (fd_vec_update Suc),
        BooleanFinder hasTimestamp (fd_timestamp_update Suc), TimestampFinder,
        BooleanFinder isAtModifierUnsafeCall (fd_atUnsafe_update Suc), histogramFinder isHistogramName]"

definition nothing_found :: found where
  "nothing_found =
     \<lparr>fd_agg = 0, fd_offset = None, fd_offsetError = False, fd_vec = 0, fd_timestamp = 0, fd_at = None, fd_atUnsafe = 0, fd_hist = False\<rparr>"

definition find_nodes :: "(string \<Rightarrow> bool) option \<Rightarrow> expr \<Rightarrow> found outcome" where
  "find_nodes isHistogramName node =
     omap (\<lambda>((_, s), _, _). s) (walk MultiVisitor node [] (node_finders isHistogramName, nothing_found))"

text \<open>\<open>OffsetRemover\<close>.\<close>

definition OffsetRemover :: "unit visitor" where
  "OffsetRemover = \<lparr>
     visit_vector = \<lambda>vs path s. Ret (s, vs\<lparr>vs_OriginalOffset := 0\<rparr>, True),
     visit_matrix = \<lambda>vs r path s. Ret (s, vs, True),
     visit_grouping = \<lambda>g. g,
     visit_node = \<lambda>e path s. (s, True, None)\<rparr>"

definition remove_offsets :: "expr \<Rightarrow> expr outcome" where
  "remove_offsets e = omap (\<lambda>(_, e, _). e) (walk OffsetRemover e [] ())"

section \<open>Expressions\<close>

text \<open>Printing and parsing back; a nil expression would be dereferenced.\<close>

definition CloneExpr :: "promql \<Rightarrow> expr \<Rightarrow> expr outcome" where
  "CloneExpr pq e = (case pq_ParseExpr pq (pq_String pq e) of Inr e \<Rightarrow> Ret e | Inl _ \<Rightarrow> Panic ''nil expression'')"

definition PreserveLabel :: "promql \<Rightarrow> expr \<Rightarrow> string \<Rightarrow> string \<Rightarrow> expr outcome" where
  "PreserveLabel pq e srcLabel dstLabel =
     (case pq_ParseExpr pq (''label_replace('' @ pq_String pq e @ '',`'' @ dstLabel @ ''`,`$1`,`'' @ srcLabel @ ''`,`(.*)`)'') of
        Inr e \<Rightarrow> Ret e | Inl _ \<Rightarrow> Panic ''nil expression'')"

definition UnwrapExpr :: "expr \<Rightarrow> expr" where
  "UnwrapExpr e = (case e of StepInvariantExpr e \<Rightarrow> e | _ \<Rightarrow> e)"

definition ExprIsLiteral :: "expr \<Rightarrow> bool" where
  "ExprIsLiteral e = (case e of StringLiteral _ \<Rightarrow> True | NumberLiteral _ \<Rightarrow> True | _ \<Rightarrow> False)"

section \<open>Histogram routing\<close>

text \<open>What the routing reads of a server group: its configuration, when there is one, and its metadata cache.\<close>

record histogram_config =
  hc_Ordinal :: nat
  hc_RemoteRead :: bool
  hc_AllowLossy :: bool
  hc_MetadataRefresh :: duration

record group_view =
  gv_Config :: "histogram_config option"
  gv_IsHistogramMetric :: "string \<Rightarrow> bool"

definition pathHasHistogramOnlyCall :: "expr list \<Rightarrow> bool" where
  "pathHasHistogramOnlyCall path = list_ex (\<lambda>p. case p of Call f _ \<Rightarrow> fn_Name f \<in> histogramOnlyFuncs | _ \<Rightarrow> False) path"

definition strictMissingRemoteRead :: "group_view list \<Rightarrow> nat list" where
  "strictMissingRemoteRead sgs =
     concat (map (\<lambda>sg. case gv_Config sg of
         None \<Rightarrow> []
       | Some cfg \<Rightarrow> if \<not> hc_RemoteRead cfg \<and> \<not> hc_AllowLossy cfg then [hc_Ordinal cfg] else []) sgs)"

definition histogramNamePredicate :: "group_view list \<Rightarrow> (string \<Rightarrow> bool) option" where
  "histogramNamePredicate sgs =
     (if list_ex (\<lambda>sg. case gv_Config sg of Some cfg \<Rightarrow> hc_MetadataRefresh cfg > 0 | None \<Rightarrow> False) sgs
      then Some (\<lambda>name. list_ex (\<lambda>sg. gv_IsHistogramMetric sg name) sgs) else None)"

fun space_separated :: "string list \<Rightarrow> string" where
  "space_separated [] = []"
| "space_separated [x] = x"
| "space_separated (x # xs) = x @ '' '' @ space_separated xs"

definition histogramFidelityError :: "nat list \<Rightarrow> go_error" where
  "histogramFidelityError missing =
     OtherError (''native histogram query targets server_group(s) ordinal=['' @ space_separated (map itoa missing) @
       ''] without remote_read; configure remote_read on those groups (preferred '' @ [CHR 0xE2, CHR 0x80, CHR 0x94] @
       '' preserves sparse-span schema) or set native_histogram.allow_lossy: true to accept JSON-API fidelity loss'')"

definition isHistogramExpr :: "expr \<Rightarrow> expr list \<Rightarrow> (string \<Rightarrow> bool) option \<Rightarrow> bool outcome" where
  "isHistogramExpr node path isHistogramName =
     (if pathHasHistogramOnlyCall path then Ret True
      else omap (\<lambda>((_, s), _, _). fd_hist s) (walk MultiVisitor node [] ([Some (histogramFinder isHistogramName)], nothing_found)))"

section \<open>The statement and the downstream request\<close>

record eval_stmt =
  st_Start :: time
  st_End :: time
  st_Interval :: duration

text \<open>What \<open>NodeReplacer\<close> uses of the storage: the client of its state, the server groups, the default subquery step.\<close>

record proxy_storage =
  ps_client :: api
  ps_sgs :: "group_view list"
  ps_NoStepSubqueryIntervalFn :: "int \<Rightarrow> int"

definition metricNameWorkaroundLabel :: string where
  "metricNameWorkaroundLabel = ''__name''"

text \<open>
  The variables the branches share: whether the subtree has an @ modifier, the common offset,
  the shift of the request and the offset of the new selector, and the request itself.
\<close>

record replace_ctx =
  rx_hasAt :: bool
  rx_offset :: duration
  rx_synthOffset :: duration
  rx_query :: "string \<Rightarrow> series_set outcome"

definition queryDownstream :: "proxy_storage \<Rightarrow> eval_stmt \<Rightarrow> found \<Rightarrow> duration \<Rightarrow> string \<Rightarrow> series_set outcome" where
  "queryDownstream p s fd reqOffset queryStr =
     (if st_Interval s \<le> 0 then Query (ps_client p) queryStr (st_Start s - reqOffset)
      else (case (if fd_timestamp fd > 0 \<and> fd_atUnsafe fd = 0 then fd_at fd else None) of
              Some at \<Rightarrow>
                obind (Query (ps_client p) queryStr (timestamp_Time at)) (\<lambda>result.
                  if ss_err result \<noteq> None then Ret result
                  else vectorToStepMatrix result (st_Start s - reqOffset) (st_End s - reqOffset) (st_Interval s))
            | None \<Rightarrow>
                QueryRange (ps_client p) queryStr
                  \<lparr>rg_Start = st_Start s - reqOffset, rg_End = st_End s - reqOffset, rg_Step = st_Interval s\<rparr>))"

definition replace_context :: "proxy_storage \<Rightarrow> eval_stmt \<Rightarrow> found \<Rightarrow> duration \<Rightarrow> replace_ctx" where
  "replace_context p s fd offset =
     (let hasAt = fd_timestamp fd > 0; reqOffset = (if hasAt then 0 else offset)
      in \<lparr>rx_hasAt = hasAt, rx_offset = offset, rx_synthOffset = reqOffset, rx_query = queryDownstream p s fd reqOffset\<rparr>)"

definition removeOffsetFn :: "replace_ctx \<Rightarrow> expr \<Rightarrow> expr outcome" where
  "removeOffsetFn cx node = (if rx_hasAt cx then Ret node else remove_offsets node)"

text \<open>The selector that stands for fetched data, and the lookback that pushed-down selectors get.\<close>

definition step_lookback :: "eval_stmt \<Rightarrow> duration \<Rightarrow> duration" where
  "step_lookback s d = (if st_Interval s > 0 then st_Interval s - 1 else d)"

definition synth_selector :: "eval_stmt \<Rightarrow> replace_ctx \<Rightarrow> series_set \<Rightarrow> vector_selector" where
  "synth_selector s cx result =
     \<lparr>vs_Name = [], vs_OriginalOffset = rx_synthOffset cx, vs_Timestamp = None, vs_StartOrEnd = 0, vs_LabelMatchers = [],
      vs_LookbackDelta = step_lookback s 0, vs_UnexpandedSeriesSet = Some result\<rparr>"

section \<open>NodeReplacer\<close>

text \<open>The node as changed in place, the replacement, the error.\<close>

type_synonym replaced = "(expr \<times> expr option \<times> go_error option) outcome"

definition no_replacement :: "expr \<Rightarrow> replaced" where
  "no_replacement node = Ret (node, None, None)"

text \<open>A request and its two early returns: the error, and no replacement for histograms.\<close>

definition fetched :: "replace_ctx \<Rightarrow> expr \<Rightarrow> expr \<Rightarrow> string \<Rightarrow> (series_set \<Rightarrow> replaced) \<Rightarrow> replaced" where
  "fetched cx node lossyNode queryStr k =
     obind (rx_query cx queryStr) (\<lambda>result.
       case ss_err result of
         Some err \<Rightarrow> Ret (node, None, Some err)
       | None \<Rightarrow> obind (containsLossyHistogram result) (\<lambda>(result, lossy). if lossy then no_replacement lossyNode else k result))"

definition with_expr :: "expr \<Rightarrow> item \<Rightarrow> expr \<Rightarrow> expr" where
  "with_expr n op e = (case n of AggregateExpr _ _ p g w \<Rightarrow> AggregateExpr op e p g w | _ \<Rightarrow> n)"

definition one_to_one :: vector_matching where
  "one_to_one = \<lparr>vm_Card = 0, vm_MatchingLabels = [], vm_On = False, vm_Include = []\<rparr>"

text \<open>\<open>avg\<close> as \<open>sum / count\<close>, with the metric name carried through another label when it is grouped by.\<close>

definition replace_avg :: "promql \<Rightarrow> expr \<Rightarrow> expr option \<Rightarrow> string list \<Rightarrow> bool \<Rightarrow> expr outcome" where
  "replace_avg pq e p g w =
     (if MetricName \<in> set g
      then (let g' = map (\<lambda>l. if l = MetricName then metricNameWorkaroundLabel else l) g
            in obind (CloneExpr pq e) (\<lambda>e1. obind (PreserveLabel pq e1 MetricName metricNameWorkaroundLabel) (\<lambda>lhs.
               obind (CloneExpr pq e) (\<lambda>e2. obind (PreserveLabel pq e2 MetricName metricNameWorkaroundLabel) (\<lambda>rhs.
               omap (\<lambda>q. AggregateExpr Op_MAX q None g w)
                 (PreserveLabel pq
                   (BinaryExpr Op_DIV (AggregateExpr Op_SUM lhs p g' w) (AggregateExpr Op_COUNT rhs p g' w) (Some one_to_one) False)
                   metricNameWorkaroundLabel MetricName))))))
      else obind (CloneExpr pq e) (\<lambda>lhs. omap (\<lambda>rhs.
             BinaryExpr Op_DIV (AggregateExpr Op_SUM lhs p g w) (AggregateExpr Op_COUNT rhs p g w) (Some one_to_one) False)
             (CloneExpr pq e)))"

definition replace_aggregate ::
  "promql \<Rightarrow> eval_stmt \<Rightarrow> replace_ctx \<Rightarrow> item \<Rightarrow> expr \<Rightarrow> expr option \<Rightarrow> string list \<Rightarrow> bool \<Rightarrow> replaced"
where
  "replace_aggregate pq s cx op e p g w =
     (let n = AggregateExpr op e p g w
      in if (case e of VectorSelector vs \<Rightarrow> vs_UnexpandedSeriesSet vs \<noteq> None | _ \<Rightarrow> False) then no_replacement n
         else if op \<in> {Op_SUM, Op_MIN, Op_MAX, Op_TOPK, Op_BOTTOMK, Op_GROUP}
         then obind (removeOffsetFn cx n) (\<lambda>n. fetched cx n n (pq_String pq n) (\<lambda>result.
                let n = with_expr n op (VectorSelector (synth_selector s cx result)) in Ret (n, Some n, None)))
         else if op = Op_AVG then omap (\<lambda>r. (n, Some r, None)) (replace_avg pq e p g w)
         else if op = Op_COUNT
         then obind (removeOffsetFn cx n) (\<lambda>n. fetched cx n n (pq_String pq n) (\<lambda>result.
                let n = with_expr n Op_SUM (VectorSelector (synth_selector s cx result)) in Ret (n, Some n, None)))
         else if op = Op_COUNT_VALUES
         then fetched cx n n (pq_String pq n) (\<lambda>result.
                case p of
                  Some (StringLiteral v) \<Rightarrow>
                    Ret (n, Some (AggregateExpr Op_SUM (VectorSelector (synth_selector s cx result)) None (g @ [v]) w), None)
                | _ \<Rightarrow> Panic ''interface conversion'')
         else no_replacement n)"

text \<open>A call; for range requests the steps without a value get stale markers.\<close>

definition replace_call :: "promql \<Rightarrow> eval_stmt \<Rightarrow> replace_ctx \<Rightarrow> duration \<Rightarrow> promql_function \<Rightarrow> expr list \<Rightarrow> replaced" where
  "replace_call pq s cx reqOffset f args =
     (if fn_Name f \<in> {''absent'', ''absent_over_time'', ''label_join'', ''label_replace'', ''info''} then no_replacement (Call f args)
      else obind (removeOffsetFn cx (Call f args)) (\<lambda>n.
        obind (rx_query cx (pq_String pq n)) (\<lambda>result.
          case ss_err result of
            Some err \<Rightarrow> Ret (n, None, Some err)
          | None \<Rightarrow>
              obind (if st_Interval s > 0
                     then fillStaleNaNGapsDetectHistogram result (FromTime (st_Start s - reqOffset)) (FromTime (st_End s - reqOffset))
                            (Milliseconds (st_Interval s))
                     else containsLossyHistogram result)
                (\<lambda>(result, lossy).
                  if lossy then no_replacement n
                  else (let ret = VectorSelector (synth_selector s cx result)
                        in case n of
                             Call f args \<Rightarrow>
                               (if fn_Name f = ''scalar''
                                then (if args = [] then Panic ''index out of range''
                                      else (let n = Call f (args[0 := ret]) in Ret (n, Some n, None)))
                                else if fn_Name f \<in> {''sort'', ''sort_desc''} then Ret (n, Some (Call f [ret]), None)
                                else Ret (n, Some ret, None))
                           | _ \<Rightarrow> no_replacement n)))))"

definition replace_vector :: "promql \<Rightarrow> eval_stmt \<Rightarrow> replace_ctx \<Rightarrow> expr list \<Rightarrow> vector_selector \<Rightarrow> replaced" where
  "replace_vector pq s cx path vs =
     (if vs_UnexpandedSeriesSet vs \<noteq> None then no_replacement (VectorSelector vs)
      else if path \<noteq> [] \<and> (case last path of MatrixSelector _ _ \<Rightarrow> True | _ \<Rightarrow> False) then no_replacement (VectorSelector vs)
      else (let vs = (if rx_hasAt cx then vs else vs\<lparr>vs_OriginalOffset := 0\<rparr>);
                n = vs\<lparr>vs_LookbackDelta := step_lookback s (vs_LookbackDelta vs)\<rparr>
            in fetched cx (VectorSelector n) (VectorSelector vs) (pq_String pq (VectorSelector n)) (\<lambda>result.
                 if vs_Timestamp n \<noteq> None
                 then Ret (VectorSelector n,
                   Some (VectorSelector ((synth_selector s cx result)\<lparr>vs_Name := vs_Name n, vs_LabelMatchers := vs_LabelMatchers n\<rparr>)), None)
                 else (let n = n\<lparr>vs_OriginalOffset := rx_offset cx, vs_UnexpandedSeriesSet := Some result\<rparr>
                       in Ret (VectorSelector n, Some (VectorSelector n), None)))))"

text \<open>The statement that a subquery is evaluated with.\<close>

definition subquery_stmt :: "proxy_storage \<Rightarrow> eval_stmt \<Rightarrow> subquery \<Rightarrow> eval_stmt" where
  "subquery_stmt p s sq =
     (let subEnd = (case sq_Timestamp sq of Some t \<Rightarrow> timestamp_Time t - sq_Offset sq | None \<Rightarrow> st_End s - sq_Offset sq);
          interval = (if sq_Step sq = 0
                      then i64 (ps_NoStepSubqueryIntervalFn p (Milliseconds (sq_Range sq)) * nanos_per_milli) else sq_Step sq);
          subStart = (case sq_Timestamp sq of Some _ \<Rightarrow> subEnd - sq_Range sq | None \<Rightarrow> st_Start s - sq_Offset sq - sq_Range sq);
          start = time_Truncate subStart interval
      in \<lparr>st_Start = (if start < subStart then start + interval else start), st_End = subEnd, st_Interval = interval\<rparr>)"

text \<open>A binary expression with a literal on one side; \<open>side\<close> is the other one, \<open>put\<close> sets it.\<close>

definition replace_side ::
  "promql \<Rightarrow> eval_stmt \<Rightarrow> replace_ctx \<Rightarrow> expr \<Rightarrow> expr \<Rightarrow> (expr \<Rightarrow> expr) \<Rightarrow> replaced"
where
  "replace_side pq s cx n side put =
     (case side of
        VectorSelector vs \<Rightarrow>
          (let n = put (VectorSelector (vs\<lparr>vs_LookbackDelta := step_lookback s (vs_LookbackDelta vs)\<rparr>))
           in fetched cx n n (pq_String pq n) (\<lambda>result. Ret (n, Some (VectorSelector (synth_selector s cx result)), None)))
      | AggregateExpr op _ _ _ _ \<Rightarrow>
          (if op \<in> {Op_MIN, Op_MAX, Op_TOPK, Op_BOTTOMK}
           then fetched cx n n (pq_String pq n) (\<lambda>result.
                  Ret (put (with_expr side op (VectorSelector (synth_selector s cx result))),
                       Some (with_expr side op (VectorSelector (synth_selector s cx result))), None))
           else no_replacement n)
      | _ \<Rightarrow> no_replacement n)"

definition pushable_side :: "expr \<Rightarrow> bool" where
  "pushable_side e =
     (case e of VectorSelector _ \<Rightarrow> True | AggregateExpr op _ _ _ _ \<Rightarrow> op \<in> {Op_MIN, Op_MAX, Op_TOPK, Op_BOTTOMK} | _ \<Rightarrow> False)"

definition replace_binary ::
  "promql \<Rightarrow> eval_stmt \<Rightarrow> replace_ctx \<Rightarrow> item \<Rightarrow> expr \<Rightarrow> expr \<Rightarrow> vector_matching option \<Rightarrow> bool \<Rightarrow> replaced"
where
  "replace_binary pq s cx op l r vm b =
     (let left = ExprIsLiteral (UnwrapExpr l)
      in if (left \<or> ExprIsLiteral (UnwrapExpr r)) \<and> pushable_side (if left then r else l)
         then obind (removeOffsetFn cx (BinaryExpr op l r vm b)) (\<lambda>n.
                case n of
                  BinaryExpr op l r vm b \<Rightarrow>
                    (if left then replace_side pq s cx n r (\<lambda>r. BinaryExpr op l r vm b)
                     else replace_side pq s cx n l (\<lambda>l. BinaryExpr op l r vm b))
                | _ \<Rightarrow> no_replacement n)
         else no_replacement (BinaryExpr op l r vm b))"

text \<open>
  \<open>inspect\<close> is the walk with the replacer on the statement of a subquery.
\<close>

definition NodeReplacer ::
  "promql \<Rightarrow> proxy_storage \<Rightarrow> (eval_stmt \<Rightarrow> expr \<Rightarrow> (expr \<times> go_error option) outcome) \<Rightarrow> eval_stmt \<Rightarrow> expr \<Rightarrow> expr list \<Rightarrow> replaced"
where
  "NodeReplacer pq p inspect s node path =
     (if list_ex isSubQuery path then no_replacement node
      else obind (find_nodes (histogramNamePredicate (ps_sgs p)) node) (\<lambda>fd.
        if pathHasHistogramOnlyCall path \<or> fd_hist fd
        then (if strictMissingRemoteRead (ps_sgs p) \<noteq> []
              then Ret (node, None, Some (histogramFidelityError (strictMissingRemoteRead (ps_sgs p))))
              else no_replacement node)
        else if fd_agg fd > 0 \<and> \<not> ((isAgg node \<or> isBinaryExpr node) \<and> fd_agg fd = 1) \<and> \<not> isSubQuery node
        then no_replacement node
        else if fd_vec fd > 1 \<and> \<not> isSubQuery node then no_replacement node
        else (case fd_offset fd of
                None \<Rightarrow> no_replacement node
              | Some offset \<Rightarrow>
                  if fd_offsetError fd then no_replacement node
                  else (let cx = replace_context p s fd offset
                        in case node of
                             AggregateExpr op e pa g w \<Rightarrow> replace_aggregate pq s cx op e pa g w
                           | Call f args \<Rightarrow> replace_call pq s cx (rx_synthOffset cx) f args
                           | VectorSelector vs \<Rightarrow> replace_vector pq s cx path vs
                           | SubqueryExpr e sq \<Rightarrow>
                               omap (\<lambda>(e', err). case err of
                                   Some err \<Rightarrow> (SubqueryExpr e sq, None, Some err)
                                 | None \<Rightarrow> (SubqueryExpr e' sq, Some (SubqueryExpr e' sq), None))
                                 (inspect (subquery_stmt p s sq) e)
                           | BinaryExpr op l r vm b \<Rightarrow> replace_binary pq s cx op l r vm b
                           | _ \<Rightarrow> no_replacement node))))"

section \<open>Walk with the replacer\<close>

text \<open>
  The children of a node are walked side by side; the first error in their order is returned.
  The child of a range selector is walked but not set. Fuel bounds the depth of the walk, and \<open>out\<close> is what it
  returns when the fuel runs out.
\<close>

type_synonym inspected = "(expr \<times> go_error option) outcome"

fun inspect_list :: "(expr \<Rightarrow> inspected) \<Rightarrow> expr list \<Rightarrow> (expr list \<times> go_error option) outcome" where
  "inspect_list w [] = Ret ([], None)"
| "inspect_list w (e # es) =
     obind (w e) (\<lambda>(e', err). omap (\<lambda>(es', errs). (e' # es', if err = None then errs else err)) (inspect_list w es))"

definition set_children :: "expr \<Rightarrow> expr list \<Rightarrow> expr" where
  "set_children node es =
     (case (node, es) of
        (AggregateExpr op _ None g w, [e]) \<Rightarrow> AggregateExpr op e None g w
      | (AggregateExpr op _ (Some _) g w, [e, p]) \<Rightarrow> AggregateExpr op e (Some p) g w
      | (BinaryExpr op _ _ vm b, [l, r]) \<Rightarrow> BinaryExpr op l r vm b
      | (Call f _, args) \<Rightarrow> Call f args
      | (SubqueryExpr _ sq, [e]) \<Rightarrow> SubqueryExpr e sq
      | (ParenExpr _, [e]) \<Rightarrow> ParenExpr e
      | (UnaryExpr op _, [e]) \<Rightarrow> UnaryExpr op e
      | (StepInvariantExpr _, [e]) \<Rightarrow> StepInvariantExpr e
      | _ \<Rightarrow> node)"

definition children :: "expr \<Rightarrow> expr list" where
  "children node =
     (case node of
        AggregateExpr _ e p _ _ \<Rightarrow> e # (case p of None \<Rightarrow> [] | Some q \<Rightarrow> [q])
      | BinaryExpr _ l r _ _ \<Rightarrow> [l, r]
      | Call _ args \<Rightarrow> args
      | MatrixSelector vs _ \<Rightarrow> [VectorSelector vs]
      | SubqueryExpr e _ \<Rightarrow> [e]
      | ParenExpr e \<Rightarrow> [e]
      | UnaryExpr _ e \<Rightarrow> [e]
      | StepInvariantExpr e \<Rightarrow> [e]
      | _ \<Rightarrow> [])"

primrec inspect :: "inspected \<Rightarrow> nat \<Rightarrow> promql \<Rightarrow> proxy_storage \<Rightarrow> eval_stmt \<Rightarrow> expr \<Rightarrow> expr list \<Rightarrow> inspected" where
  "inspect out 0 pq p s node path = out"
| "inspect out (Suc n) pq p s node path =
     obind (NodeReplacer pq p (\<lambda>s e. inspect out n pq p s e []) s node path) (\<lambda>(node', replacement, err).
       let node = (case replacement of Some r \<Rightarrow> r | None \<Rightarrow> node')
       in if err \<noteq> None then Ret (node, err)
          else omap (\<lambda>(es, err). (if err = None then set_children node es else node, err))
                 (inspect_list (\<lambda>e. inspect out n pq p s e (path @ [node])) (children node)))"

section \<open>What the finders count\<close>

text \<open>The nodes of a tree with the paths that lead to them, in the order of the walk.\<close>

fun visits :: "expr \<Rightarrow> expr list \<Rightarrow> (expr \<times> expr list) list"
and visits_list :: "expr list \<Rightarrow> expr list \<Rightarrow> (expr \<times> expr list) list"
and visits_option :: "expr option \<Rightarrow> expr list \<Rightarrow> (expr \<times> expr list) list"
where
  "visits (VectorSelector vs) path = [(VectorSelector vs, path)]"
| "visits (MatrixSelector vs r) path = [(MatrixSelector vs r, path), (VectorSelector vs, path @ [MatrixSelector vs r])]"
| "visits (AggregateExpr op e p g w) path =
     (AggregateExpr op e p g w, path) #
     visits e (path @ [AggregateExpr op e p g w]) @ visits_option p (path @ [AggregateExpr op e p g w])"
| "visits (BinaryExpr op l r vm b) path =
     (BinaryExpr op l r vm b, path) # visits l (path @ [BinaryExpr op l r vm b]) @ visits r (path @ [BinaryExpr op l r vm b])"
| "visits (Call f args) path = (Call f args, path) # visits_list args (path @ [Call f args])"
| "visits (SubqueryExpr e sq) path = (SubqueryExpr e sq, path) # visits e (path @ [SubqueryExpr e sq])"
| "visits (ParenExpr e) path = (ParenExpr e, path) # visits e (path @ [ParenExpr e])"
| "visits (UnaryExpr op e) path = (UnaryExpr op e, path) # visits e (path @ [UnaryExpr op e])"
| "visits (StepInvariantExpr e) path = (StepInvariantExpr e, path) # visits e (path @ [StepInvariantExpr e])"
| "visits (NumberLiteral f) path = [(NumberLiteral f, path)]"
| "visits (StringLiteral t) path = [(StringLiteral t, path)]"
| "visits_list [] path = []"
| "visits_list (e # es) path = visits e path @ visits_list es path"
| "visits_option None path = []"
| "visits_option (Some e) path = visits e path"

definition nodes :: "expr \<Rightarrow> expr list" where
  "nodes e = map fst (visits e [])"

definition visit_all :: "(expr \<times> expr list) list \<Rightarrow> 's finder option list \<times> 's \<Rightarrow> 's finder option list \<times> 's" where
  "visit_all vs st = fold (\<lambda>(n, p) (fs, s). MultiVisitor_Visit n p fs s) vs st"

lemma visit_all_simps [simp]:
  "visit_all [] st = st"
  "visit_all ((n, p) # vs) st = visit_all vs (MultiVisitor_Visit n p (fst st) (snd st))"
  "visit_all (vs @ ws) st = visit_all ws (visit_all vs st)"
  by (simp_all add: visit_all_def split: prod.split)

lemma MultiVisitor_simps [simp]:
  "visit_vector MultiVisitor vs path st = Ret (MultiVisitor_Visit (VectorSelector vs) path (fst st) (snd st), vs, True)"
  "visit_matrix MultiVisitor vs r path st = Ret (MultiVisitor_Visit (MatrixSelector vs r) path (fst st) (snd st), vs, True)"
  "visit_grouping MultiVisitor g = g"
  "visit_node MultiVisitor e path st = (MultiVisitor_Visit e path (fst st) (snd st), True, None)"
  by (simp_all add: MultiVisitor_def split: prod.split)

lemma walk_MultiVisitor:
  fixes st :: "'s finder option list \<times> 's"
  shows "walk MultiVisitor e path st = Ret (visit_all (visits e path) st, e, None)"
    and "walk_list MultiVisitor es path st = Ret (visit_all (visits_list es path) st, es, None)"
    and "walk_option MultiVisitor eo path st = Ret (visit_all (visits_option eo path) st, eo, None)"
  by (induction e path and es path and eo path arbitrary: st and st and st rule: visits_visits_list_visits_option.induct)
     (simp_all add: descend_def rebuild_def and_then_def)

lemma find_nodes_eq: "find_nodes h node = Ret (snd (visit_all (visits node []) (node_finders h, nothing_found)))"
  by (simp add: find_nodes_def walk_MultiVisitor split: prod.split)

text \<open>The finders' state while they run: all but the offset finder stay.\<close>

definition running :: "(string \<Rightarrow> bool) option \<Rightarrow> bool \<Rightarrow> found finder option list" where
  "running h keep = (node_finders h)[1 := if keep then Some OffsetFinder else None]"

lemma running_True: "running h True = node_finders h"
  by (simp add: running_def node_finders_def)

definition count_found :: "(string \<Rightarrow> bool) option \<Rightarrow> expr \<Rightarrow> found \<Rightarrow> found" where
  "count_found h n s = s\<lparr>
     fd_agg := fd_agg s + (if isAgg n then 1 else 0), fd_vec := fd_vec s + (if isVectorSelector n then 1 else 0),
     fd_timestamp := fd_timestamp s + (if hasTimestamp n then 1 else 0),
     fd_atUnsafe := fd_atUnsafe s + (if isAtModifierUnsafeCall n then 1 else 0),
     fd_at := (if fd_at s \<noteq> None then fd_at s
        else (case n of VectorSelector vs \<Rightarrow> vs_Timestamp vs | SubqueryExpr _ sq \<Rightarrow> sq_Timestamp sq | _ \<Rightarrow> None)),
     fd_hist := (fd_hist s \<or> histogram_node h n)\<rparr>"

lemma OffsetFinder_fields:
  "OffsetFinder n path (fd_agg_update f s) = (fd_agg_update f (fst (OffsetFinder n path s)), snd (OffsetFinder n path s))"
  by (cases n) (auto simp: OffsetFinder_def see_offset_def Let_def split: option.split)

lemma MultiVisitor_running:
  "MultiVisitor_Visit n path (running h True) s =
     (running h (snd (OffsetFinder n path s)), count_found h n (fst (OffsetFinder n path s)))"
  "MultiVisitor_Visit n path (running h False) s = (running h False, count_found h n s)"
proof -
  let ?a = "BooleanFinder isAgg (fd_agg_update Suc)"
  define rest where "rest = drop 2 (node_finders h)"
  have running: "running h k = Some ?a # (if k then Some OffsetFinder else None) # rest" for k
    by (simp add: running_def node_finders_def rest_def)
  have rest: "fst (MultiVisitor_Visit n path rest s) = rest" for s
    by (simp add: rest_def node_finders_def BooleanFinder_def TimestampFinder_def histogramFinder_def split: expr.split)
  have off: "MultiVisitor_Visit n path (running h False) s = (running h False, count_found h n s)" for s
    by (cases s; cases n) (auto simp: running_def node_finders_def BooleanFinder_def TimestampFinder_def histogramFinder_def count_found_def)
  then show "MultiVisitor_Visit n path (running h False) s = (running h False, count_found h n s)" .
  obtain so keep where so: "OffsetFinder n path s = (so, keep)" by fastforce
  have "fst (?a n path s) = fd_agg_update (if isAgg n then Suc else id) s" "snd (?a n path s)" for s
    by (cases s; simp add: BooleanFinder_def)+
  then have "MultiVisitor_Visit n path (running h True) s =
      (running h keep, snd (MultiVisitor_Visit n path rest (fd_agg_update (if isAgg n then Suc else id) so)))"
    using rest OffsetFinder_fields [of n path "if isAgg n then Suc else id" s] so
    by (simp add: running split_beta Let_def)
  moreover have "snd (MultiVisitor_Visit n path (running h False) so) =
      snd (MultiVisitor_Visit n path rest (fd_agg_update (if isAgg n then Suc else id) so))"
    using \<open>\<And>s. fst (?a n path s) = fd_agg_update (if isAgg n then Suc else id) s\<close> by (simp add: running split_beta Let_def)
  ultimately show "MultiVisitor_Visit n path (running h True) s =
     (running h (snd (OffsetFinder n path s)), count_found h n (fst (OffsetFinder n path s)))"
    using off [of so] so by simp
qed

lemma OffsetFinder_keeps [simp]:
  "fd_agg (fst (OffsetFinder n path s)) = fd_agg s" "fd_vec (fst (OffsetFinder n path s)) = fd_vec s"
  "fd_timestamp (fst (OffsetFinder n path s)) = fd_timestamp s" "fd_at (fst (OffsetFinder n path s)) = fd_at s"
  "fd_atUnsafe (fst (OffsetFinder n path s)) = fd_atUnsafe s" "fd_hist (fst (OffsetFinder n path s)) = fd_hist s"
  by (cases n; simp add: OffsetFinder_def see_offset_def Let_def split: option.split)+

lemma visit_all_counts:
  "let s' = snd (visit_all vs (running h keep, s)) in
     fd_agg s' = fd_agg s + length (filter isAgg (map fst vs)) \<and>
     fd_vec s' = fd_vec s + length (filter isVectorSelector (map fst vs)) \<and>
     fd_timestamp s' = fd_timestamp s + length (filter hasTimestamp (map fst vs)) \<and>
     fd_atUnsafe s' = fd_atUnsafe s + length (filter isAtModifierUnsafeCall (map fst vs)) \<and>
     fd_hist s' = (fd_hist s \<or> list_ex (histogram_node h) (map fst vs))"
proof (induction vs arbitrary: keep s)
  case (Cons v vs)
  obtain n path where v: "v = (n, path)" by fastforce
  show ?case
  proof (cases keep)
    case True
    with Cons [of "snd (OffsetFinder n path s)" "count_found h n (fst (OffsetFinder n path s))"] v show ?thesis
      by (simp add: MultiVisitor_running count_found_def Let_def)
  next
    case False
    with Cons [of False "count_found h n s"] v show ?thesis by (simp add: MultiVisitor_running count_found_def Let_def)
  qed
qed simp

text \<open>The offsets a tree mentions, and what the offset finder concludes about them.\<close>

definition offsets :: "expr \<Rightarrow> duration set" where
  "offsets n = (case n of SubqueryExpr _ sq \<Rightarrow> {sq_OriginalOffset sq} | VectorSelector vs \<Rightarrow> {vs_OriginalOffset vs} | _ \<Rightarrow> {})"

lemma see_offset_cases:
  "see_offset d s = (if fd_offset s = None then s\<lparr>fd_offset := Some d\<rparr> else if fd_offset s = Some d then s else s\<lparr>fd_offsetError := True\<rparr>)"
  by (auto simp: see_offset_def split: option.split)

lemma OffsetFinder_step:
  assumes "\<not> fd_offsetError s" "isSubQuery n \<longrightarrow> path \<noteq> [] \<or> fd_offset s \<noteq> None"
  shows "case OffsetFinder n path s of (s', keep) \<Rightarrow>
     keep = (\<not> fd_offsetError s') \<and> (fd_offset s \<noteq> None \<longrightarrow> fd_offset s' = fd_offset s) \<and>
     (\<not> fd_offsetError s' \<longrightarrow> (\<forall>d\<in>offsets n. fd_offset s' = Some d))"
  using assms by (cases n; cases "fd_offset s"; simp add: OffsetFinder_def offsets_def see_offset_cases isSubQuery_def Let_def)

lemma count_found_offset [simp]:
  "fd_offset (count_found h n s) = fd_offset s" "fd_offsetError (count_found h n s) = fd_offsetError s"
  by (simp_all add: count_found_def)

lemma visit_all_stopped: "fd_offset (snd (visit_all vs (running h False, s))) = fd_offset s \<and>
    fd_offsetError (snd (visit_all vs (running h False, s))) = fd_offsetError s"
proof (induction vs arbitrary: s)
  case (Cons v vs)
  then show ?case by (cases v) (simp add: MultiVisitor_running)
qed simp

lemma visit_all_offsets:
  assumes "\<forall>(n, path)\<in>set vs. isSubQuery n \<longrightarrow> path \<noteq> []" "\<not> fd_offsetError s"
    and "s' = snd (visit_all vs (running h True, s))" "\<not> fd_offsetError s'"
  shows "(fd_offset s \<noteq> None \<longrightarrow> fd_offset s' = fd_offset s) \<and> (\<forall>n\<in>set (map fst vs). \<forall>d\<in>offsets n. fd_offset s' = Some d)"
  using assms
proof (induction vs arbitrary: s)
  case (Cons v vs)
  obtain n path where v: "v = (n, path)" by fastforce
  obtain so keep where so: "OffsetFinder n path s = (so, keep)" by fastforce
  have st: "keep = (\<not> fd_offsetError so)" "fd_offset s \<noteq> None \<longrightarrow> fd_offset so = fd_offset s"
    "\<not> fd_offsetError so \<longrightarrow> (\<forall>d\<in>offsets n. fd_offset so = Some d)"
    using OffsetFinder_step [of s n path] Cons.prems(1,2) v so by auto
  have s': "s' = snd (visit_all vs (running h keep, count_found h n so))"
    using Cons.prems(3) v so by (simp add: MultiVisitor_running)
  have keep: "keep" "\<not> fd_offsetError so"
    using visit_all_stopped [of vs h "count_found h n so"] s' Cons.prems(4) st(1) by (cases keep; simp)+
  from Cons.IH [of "count_found h n so"] Cons.prems(1,4) s' keep
  have "(fd_offset so \<noteq> None \<longrightarrow> fd_offset s' = fd_offset so)" "\<forall>n\<in>set (map fst vs). \<forall>d\<in>offsets n. fd_offset s' = Some d" by auto
  with st keep v show ?case by auto
qed simp

lemma visits_paths:
  "\<forall>(n, q)\<in>set (visits e path). path = [] \<or> q \<noteq> []"
  "\<forall>(n, q)\<in>set (visits_list es path). path = [] \<or> q \<noteq> []"
  "\<forall>(n, q)\<in>set (visits_option eo path). path = [] \<or> q \<noteq> []"
  by (induction e path and es path and eo path rule: visits_visits_list_visits_option.induct) auto

lemma visits_hd:
  obtains vs where "visits e [] = (e, []) # vs" "\<forall>(n, q)\<in>set vs. q \<noteq> []"
proof -
  have "\<exists>vs. visits e [] = (e, []) # vs \<and> (\<forall>(n, q)\<in>set vs. q \<noteq> [])"
    using visits_paths [where path = "[e]"] by (cases e) (force simp: split_beta)+
  then show ?thesis using that by blast
qed

lemma find_nodes_spec:
  assumes "find_nodes h node = Ret fd"
  shows "fd_agg fd = length (filter isAgg (nodes node)) \<and> fd_vec fd = length (filter isVectorSelector (nodes node)) \<and>
     fd_timestamp fd = length (filter hasTimestamp (nodes node)) \<and> fd_hist fd = list_ex (histogram_node h) (nodes node) \<and>
     (\<not> isSubQuery node \<longrightarrow> \<not> fd_offsetError fd \<longrightarrow> (\<forall>n\<in>set (nodes node). \<forall>d\<in>offsets n. fd_offset fd = Some d))"
proof -
  obtain vs where vs: "visits node [] = (node, []) # vs" "\<forall>(n, q)\<in>set vs. q \<noteq> []" by (rule visits_hd)
  have fd: "fd = snd (visit_all (visits node []) (running h True, nothing_found))"
    using assms by (simp add: find_nodes_eq running_True)
  have "\<forall>n\<in>set (nodes node). \<forall>d\<in>offsets n. fd_offset fd = Some d" if "\<not> isSubQuery node" "\<not> fd_offsetError fd"
    using visit_all_offsets [OF _ _ fd that(2)] vs that(1) by (fastforce simp: nothing_found_def nodes_def)
  then show ?thesis
    using visit_all_counts [of "visits node []" h True nothing_found] fd by (simp add: Let_def nodes_def nothing_found_def)
qed

section \<open>Properties\<close>

text \<open>
  C21. What is pushed down: apart from subqueries, \<open>NodeReplacer\<close> replaces a node only outside
  subqueries, when its tree has at most one selector, all offsets in it agree, the only
  aggregation in it is the node itself or the side of a binary expression, and neither the
  tree nor its path asks for native histograms.
\<close>

theorem NodeReplacer_pushdown_guard:
  assumes "NodeReplacer pq p insp s node path = Ret (n', Some r, err)" "\<not> isSubQuery node"
  shows "\<not> list_ex isSubQuery path \<and> length (filter isVectorSelector (nodes node)) \<le> 1 \<and>
     length (filter isAgg (nodes node)) \<le> (if isAgg node \<or> isBinaryExpr node then 1 else 0) \<and>
     (\<exists>d. \<forall>n\<in>set (nodes node). offsets n \<subseteq> {d}) \<and>
     \<not> pathHasHistogramOnlyCall path \<and> \<not> list_ex (histogram_node (histogramNamePredicate (ps_sgs p))) (nodes node)"
proof -
  obtain fd where fd: "find_nodes (histogramNamePredicate (ps_sgs p)) node = Ret fd" by (simp add: find_nodes_eq)
  have path: "\<not> list_ex isSubQuery path" using assms(1) by (auto simp: NodeReplacer_def no_replacement_def)
  note eq = assms(1) [unfolded NodeReplacer_def if_not_P [OF path] fd obind.simps]
  have g: "\<not> pathHasHistogramOnlyCall path \<and> \<not> fd_hist fd" "\<not> fd_offsetError fd" "fd_offset fd \<noteq> None"
    "fd_agg fd \<le> (if isAgg node \<or> isBinaryExpr node then 1 else 0)" "fd_vec fd \<le> 1"
    using eq assms(2) by (auto simp: no_replacement_def split: if_splits option.splits)
  moreover have "\<exists>d. \<forall>n\<in>set (nodes node). offsets n \<subseteq> {d}"
    using find_nodes_spec [OF fd] assms(2) g(2,3) by (intro exI [of _ "the (fd_offset fd)"]) fastforce
  ultimately show ?thesis using path find_nodes_spec [OF fd] by metis
qed

section \<open>Offsets are applied once\<close>

text \<open>
  What \<open>OffsetRemover\<close> makes of a tree: the offsets of its selectors are gone, the offset of a subquery stays.
\<close>

fun strip :: "expr \<Rightarrow> expr" where
  "strip (VectorSelector vs) = VectorSelector (vs\<lparr>vs_OriginalOffset := 0\<rparr>)"
| "strip (MatrixSelector vs r) = MatrixSelector (vs\<lparr>vs_OriginalOffset := 0\<rparr>) r"
| "strip (AggregateExpr op e p g w) = AggregateExpr op (strip e) (map_option strip p) g w"
| "strip (BinaryExpr op l r vm b) = BinaryExpr op (strip l) (strip r) vm b"
| "strip (Call f args) = Call f (map strip args)"
| "strip (SubqueryExpr e sq) = SubqueryExpr (strip e) sq"
| "strip (ParenExpr e) = ParenExpr (strip e)"
| "strip (UnaryExpr op e) = UnaryExpr op (strip e)"
| "strip (StepInvariantExpr e) = StepInvariantExpr (strip e)"
| "strip (NumberLiteral f) = NumberLiteral f"
| "strip (StringLiteral t) = StringLiteral t"

lemma OffsetRemover_simps [simp]:
  "visit_vector OffsetRemover vs path s = Ret (s, vs\<lparr>vs_OriginalOffset := 0\<rparr>, True)"
  "visit_matrix OffsetRemover vs r path s = Ret (s, vs, True)"
  "visit_grouping OffsetRemover g = g" "visit_node OffsetRemover e path s = (s, True, None)"
  by (simp_all add: OffsetRemover_def)

lemma walk_OffsetRemover:
  "walk OffsetRemover e path s = Ret (s, strip e, None)"
  "walk_list OffsetRemover es path s = Ret (s, map strip es, None)"
  "walk_option OffsetRemover eo path s = Ret (s, map_option strip eo, None)"
  by (induction OffsetRemover e path s and OffsetRemover es path s and OffsetRemover eo path s rule: walk_walk_list_walk_option.induct)
     (simp_all add: descend_def rebuild_def and_then_def)

lemma remove_offsets_strip [simp]: "remove_offsets e = Ret (strip e)"
  by (simp add: remove_offsets_def walk_OffsetRemover)

lemma selectors_strip: "selectors (strip e) = map (\<lambda>vs. vs\<lparr>vs_OriginalOffset := 0\<rparr>) (selectors e)"
  by (induction e rule: strip.induct) (auto simp: map_concat o_def split: option.split intro: arg_cong [where f = concat])

text \<open>A tree up to the lookback of its selectors, which is not part of its text.\<close>

fun without_lookback :: "expr \<Rightarrow> expr" where
  "without_lookback (VectorSelector vs) = VectorSelector (vs\<lparr>vs_LookbackDelta := 0\<rparr>)"
| "without_lookback (MatrixSelector vs r) = MatrixSelector (vs\<lparr>vs_LookbackDelta := 0\<rparr>) r"
| "without_lookback (AggregateExpr op e p g w) = AggregateExpr op (without_lookback e) (map_option without_lookback p) g w"
| "without_lookback (BinaryExpr op l r vm b) = BinaryExpr op (without_lookback l) (without_lookback r) vm b"
| "without_lookback (Call f args) = Call f (map without_lookback args)"
| "without_lookback (SubqueryExpr e sq) = SubqueryExpr (without_lookback e) sq"
| "without_lookback (ParenExpr e) = ParenExpr (without_lookback e)"
| "without_lookback (UnaryExpr op e) = UnaryExpr op (without_lookback e)"
| "without_lookback (StepInvariantExpr e) = StepInvariantExpr (without_lookback e)"
| "without_lookback (NumberLiteral f) = NumberLiteral f"
| "without_lookback (StringLiteral t) = StringLiteral t"

lemma selectors_without_lookback: "selectors (without_lookback e) = map (\<lambda>vs. vs\<lparr>vs_LookbackDelta := 0\<rparr>) (selectors e)"
  by (induction e rule: without_lookback.induct) (auto simp: map_concat o_def split: option.split intro: arg_cong [where f = concat])

lemma without_lookback_offsets:
  assumes "without_lookback a = without_lookback b"
  shows "map vs_OriginalOffset (selectors a) = map vs_OriginalOffset (selectors b)"
proof -
  have "map vs_OriginalOffset (selectors (without_lookback e)) = map vs_OriginalOffset (selectors e)" for e
    by (simp add: selectors_without_lookback o_def)
  then show ?thesis using assms by metis
qed

definition dataless :: "expr \<Rightarrow> bool" where
  "dataless e \<longleftrightarrow> (\<forall>vs\<in>set (selectors e). vs_UnexpandedSeriesSet vs = None)"

lemma dataless_strip [simp]: "dataless (strip e) = dataless e"
  by (simp add: dataless_def selectors_strip)

text \<open>What a pushdown asks for: the tree as it is when it has an @ modifier, without offsets otherwise.\<close>

definition unshifted :: "replace_ctx \<Rightarrow> expr \<Rightarrow> expr" where
  "unshifted cx n = (if rx_hasAt cx then n else strip n)"

definition requested :: "replace_ctx \<Rightarrow> expr \<Rightarrow> expr \<Rightarrow> bool" where
  "requested cx node n0 \<longleftrightarrow> without_lookback n0 = without_lookback (unshifted cx node)"

definition answered :: "promql \<Rightarrow> replace_ctx \<Rightarrow> expr \<Rightarrow> expr \<Rightarrow> bool" where
  "answered pq cx node r \<longleftrightarrow>
     (\<exists>n0 raw. rx_query cx (pq_String pq n0) = Ret raw \<and> ss_err raw = None \<and> requested cx node n0) \<and>
     (\<forall>vs\<in>set (selectors r). vs_UnexpandedSeriesSet vs \<noteq> None \<longrightarrow> vs_OriginalOffset vs = rx_synthOffset cx)"

lemma removeOffsetFn_eq [simp]: "removeOffsetFn cx n = Ret (unshifted cx n)"
  by (simp add: removeOffsetFn_def unshifted_def)

lemma unshifted_simps [simp]:
  "dataless (unshifted cx n) = dataless n" "requested cx n (unshifted cx n)"
  "unshifted cx (AggregateExpr op e p g w) = AggregateExpr op (unshifted cx e) (map_option (unshifted cx) p) g w"
  "unshifted cx (BinaryExpr op l r vm b) = BinaryExpr op (unshifted cx l) (unshifted cx r) vm b"
  "unshifted cx (Call f args) = Call f (map (unshifted cx) args)"
  by (auto simp: unshifted_def requested_def map_idI split: option.split) (cases p; simp add: unshifted_def)+

lemma fetchedE:
  assumes "fetched cx node lossyNode q k = Ret (n', Some r, err)"
  obtains raw res where "rx_query cx q = Ret raw" "ss_err raw = None" "k res = Ret (n', Some r, err)"
  using assms by (auto simp: fetched_def no_replacement_def obind_eq_Ret split: option.splits prod.splits if_splits)

lemma synth_selector_simps [simp]: "vs_OriginalOffset (synth_selector s cx result) = rx_synthOffset cx"
  by (simp add: synth_selector_def)

lemma answered_aggregate:
  assumes "replace_aggregate pq s cx op e p g w = Ret (n', Some r, err)" "op \<noteq> Op_AVG" "op \<noteq> Op_COUNT_VALUES"
    and "dataless (AggregateExpr op e p g w)"
  shows "answered pq cx (AggregateExpr op e p g w) r"
proof -
  let ?n = "unshifted cx (AggregateExpr op e p g w)"
  obtain k where k: "fetched cx ?n ?n (pq_String pq ?n) k = Ret (n', Some r, err)"
    "\<And>res. k res = (let n = with_expr ?n (if op = Op_COUNT then Op_SUM else op) (VectorSelector (synth_selector s cx res)) in Ret (n, Some n, None))"
    using assms(1-3) by (auto simp: replace_aggregate_def no_replacement_def Let_def split: if_splits)
  from fetchedE [OF k(1)] obtain raw res where f: "rx_query cx (pq_String pq ?n) = Ret raw" "ss_err raw = None"
    "k res = Ret (n', Some r, err)" .
  then have r: "r = with_expr ?n (if op = Op_COUNT then Op_SUM else op) (VectorSelector (synth_selector s cx res))"
    unfolding k(2) Let_def by auto
  have "\<forall>vs\<in>set (selectors r). vs_UnexpandedSeriesSet vs \<noteq> None \<longrightarrow> vs_OriginalOffset vs = rx_synthOffset cx"
    using r assms(4) unshifted_simps(1) [of cx "AggregateExpr op e p g w"]
    by (auto simp: with_expr_def dataless_def split: option.splits)
  with f show ?thesis unfolding answered_def using unshifted_simps(2) by blast
qed

lemma answered_call:
  assumes "replace_call pq s cx reqOffset f args = Ret (n', Some r, err)" "dataless (Call f args)"
  shows "answered pq cx (Call f args) r"
proof -
  let ?n = "unshifted cx (Call f args)"
  obtain raw res where f: "rx_query cx (pq_String pq ?n) = Ret raw" "ss_err raw = None"
    "r \<in> {VectorSelector (synth_selector s cx res), Call f [VectorSelector (synth_selector s cx res)],
       Call f ((map (unshifted cx) args)[0 := VectorSelector (synth_selector s cx res)])}"
    using assms(1)
    by (auto simp: replace_call_def no_replacement_def Let_def obind_eq_Ret split: option.splits prod.splits if_splits)
  have "x \<in> unshifted cx ` set args \<or> x = VectorSelector (synth_selector s cx res)"
    if "x \<in> set ((map (unshifted cx) args)[0 := VectorSelector (synth_selector s cx res)])" for x
    using subsetD [OF set_update_subset_insert that] by auto
  then have "vs \<in> set (selectors ?n) \<or> vs = synth_selector s cx res" if "vs \<in> set (selectors r)" for vs
    using that f(3) by fastforce
  moreover have "dataless ?n" using assms(2) by (simp only: unshifted_simps(1))
  ultimately have "\<forall>vs\<in>set (selectors r). vs_UnexpandedSeriesSet vs \<noteq> None \<longrightarrow> vs_OriginalOffset vs = rx_synthOffset cx"
    unfolding dataless_def using synth_selector_simps by metis
  with f show ?thesis unfolding answered_def using unshifted_simps(2) by blast
qed

lemma answered_vector:
  assumes "replace_vector pq s cx path vs = Ret (n', Some r, err)"
    and "vs_Timestamp vs = None \<longrightarrow> rx_offset cx = rx_synthOffset cx"
  shows "answered pq cx (VectorSelector vs) r"
proof -
  define vs0 where "vs0 = (if rx_hasAt cx then vs else vs\<lparr>vs_OriginalOffset := 0\<rparr>)"
  define n where "n = vs0\<lparr>vs_LookbackDelta := step_lookback s (vs_LookbackDelta vs0)\<rparr>"
  obtain k where k: "fetched cx (VectorSelector n) (VectorSelector vs0) (pq_String pq (VectorSelector n)) k = Ret (n', Some r, err)"
    "\<And>res. k res = (if vs_Timestamp n \<noteq> None
         then Ret (VectorSelector n,
           Some (VectorSelector ((synth_selector s cx res)\<lparr>vs_Name := vs_Name n, vs_LabelMatchers := vs_LabelMatchers n\<rparr>)), None)
         else (let n = n\<lparr>vs_OriginalOffset := rx_offset cx, vs_UnexpandedSeriesSet := Some res\<rparr>
               in Ret (VectorSelector n, Some (VectorSelector n), None)))"
    using assms(1) by (auto simp: replace_vector_def no_replacement_def n_def vs0_def Let_def split: if_splits)
  from fetchedE [OF k(1)] obtain raw res where f: "rx_query cx (pq_String pq (VectorSelector n)) = Ret raw" "ss_err raw = None"
    "k res = Ret (n', Some r, err)" .
  have "vs_Timestamp n = vs_Timestamp vs" by (simp add: n_def vs0_def)
  then have "\<forall>w\<in>set (selectors r). vs_OriginalOffset w = rx_synthOffset cx"
    using f(3) assms(2) unfolding k(2) Let_def by (auto split: if_splits)
  moreover have "requested cx (VectorSelector vs) (VectorSelector n)" by (simp add: requested_def unshifted_def n_def vs0_def)
  ultimately show ?thesis using f unfolding answered_def by blast
qed

lemma requested_lookback:
  "requested cx node (BinaryExpr op (VectorSelector (v\<lparr>vs_LookbackDelta := d\<rparr>)) r vm b) =
     requested cx node (BinaryExpr op (VectorSelector v) r vm b)"
  "requested cx node (BinaryExpr op l (VectorSelector (v\<lparr>vs_LookbackDelta := d\<rparr>)) vm b) =
     requested cx node (BinaryExpr op l (VectorSelector v) vm b)"
  by (auto simp: requested_def)

lemma answered_side:
  assumes "replace_side pq s cx n side put = Ret (n', Some r, err)" "dataless side" "requested cx node n"
    and "\<And>v d. side = VectorSelector v \<Longrightarrow> requested cx node (put (VectorSelector (v\<lparr>vs_LookbackDelta := d\<rparr>)))"
  shows "answered pq cx node r"
proof (cases side)
  case (VectorSelector v)
  let ?n = "put (VectorSelector (v\<lparr>vs_LookbackDelta := step_lookback s (vs_LookbackDelta v)\<rparr>))"
  from assms(1) VectorSelector have
    "fetched cx ?n ?n (pq_String pq ?n) (\<lambda>result. Ret (?n, Some (VectorSelector (synth_selector s cx result)), None)) = Ret (n', Some r, err)"
    by (simp add: replace_side_def Let_def)
  from fetchedE [OF this] obtain raw res where "rx_query cx (pq_String pq ?n) = Ret raw" "ss_err raw = None"
    "Ret (?n, Some (VectorSelector (synth_selector s cx res)), None) = Ret (n', Some r, err)" .
  with assms(4) [OF VectorSelector] show ?thesis by (auto simp: answered_def)
next
  case (AggregateExpr op e p g w)
  let ?r = "\<lambda>result. with_expr side op (VectorSelector (synth_selector s cx result))"
  from assms(1) AggregateExpr have
    "fetched cx n n (pq_String pq n) (\<lambda>result. Ret (put (?r result), Some (?r result), None)) = Ret (n', Some r, err)"
    by (auto simp: replace_side_def no_replacement_def split: if_splits)
  from fetchedE [OF this] obtain raw res where "rx_query cx (pq_String pq n) = Ret raw" "ss_err raw = None"
    "Ret (put (?r res), Some (?r res), None) = Ret (n', Some r, err)" .
  with assms(2,3) AggregateExpr show ?thesis by (auto simp: answered_def with_expr_def dataless_def split: option.splits)
qed (use assms(1) in \<open>simp_all add: replace_side_def no_replacement_def\<close>)

lemma answered_binary:
  assumes "replace_binary pq s cx op l r vm b = Ret (n', Some rep, err)" "dataless (BinaryExpr op l r vm b)"
  shows "answered pq cx (BinaryExpr op l r vm b) rep"
proof -
  let ?l = "unshifted cx l" and ?r = "unshifted cx r" and ?node = "BinaryExpr op l r vm b"
  have req: "requested cx ?node (BinaryExpr op ?l ?r vm b)" using unshifted_simps(2) [of cx ?node] by simp
  have "dataless l" "dataless r" using assms(2) by (auto simp: dataless_def)
  then have dl: "dataless ?l" "dataless ?r" by simp_all
  show ?thesis
  proof (cases "ExprIsLiteral (UnwrapExpr l)")
    case True
    with assms(1) have "replace_side pq s cx (BinaryExpr op ?l ?r vm b) ?r (\<lambda>r. BinaryExpr op ?l r vm b) = Ret (n', Some rep, err)"
      by (auto simp: replace_binary_def no_replacement_def Let_def split: if_splits)
    then show ?thesis by (rule answered_side) (use dl req requested_lookback in auto)
  next
    case False
    with assms(1) have "replace_side pq s cx (BinaryExpr op ?l ?r vm b) ?l (\<lambda>l. BinaryExpr op l ?r vm b) = Ret (n', Some rep, err)"
      by (auto simp: replace_binary_def no_replacement_def Let_def split: if_splits)
    then show ?thesis by (rule answered_side) (use dl req requested_lookback in auto)
  qed
qed

lemma selectors_nodes:
  "\<forall>vs\<in>set (selectors e). VectorSelector vs \<in> fst ` set (visits e path)"
  "\<forall>e\<in>set es. \<forall>vs\<in>set (selectors e). VectorSelector vs \<in> fst ` set (visits_list es path)"
  "\<forall>e\<in>set_option eo. \<forall>vs\<in>set (selectors e). VectorSelector vs \<in> fst ` set (visits_option eo path)"
  by (induction e path and es path and eo path rule: visits_visits_list_visits_option.induct)
     (auto simp: image_Un split: option.splits)

text \<open>
  C20. A pushed-down query without subqueries is asked for the right time. Without an @ modifier the query sent is the
  tree with the offsets of its selectors removed, all of which were the same, the request is shifted by that offset,
  and the data is handed to the engine in a selector with that offset, so that it is applied exactly once; with one,
  the query is the tree as it stands and neither the request nor the selector is shifted. Averages, which are
  rewritten first, and \<open>count_values\<close> are excepted.
\<close>

theorem NodeReplacer_offset_once:
  assumes "NodeReplacer pq p insp s node path = Ret (n', Some r, err)" "\<not> list_ex isSubQuery (nodes node)" "dataless node"
    and "\<nexists>op e pa g w. node = AggregateExpr op e pa g w \<and> op \<in> {Op_AVG, Op_COUNT_VALUES}"
    and "vs \<in> set (selectors r)" "vs_UnexpandedSeriesSet vs \<noteq> None"
  shows "\<exists>fd n0 raw. find_nodes (histogramNamePredicate (ps_sgs p)) node = Ret fd \<and>
     queryDownstream p s fd (vs_OriginalOffset vs) (pq_String pq n0) = Ret raw \<and> ss_err raw = None \<and>
     without_lookback n0 = without_lookback (if fd_timestamp fd > 0 then node else strip node) \<and>
     (if fd_timestamp fd > 0
      then vs_OriginalOffset vs = 0 \<and> map vs_OriginalOffset (selectors n0) = map vs_OriginalOffset (selectors node)
      else (\<forall>w\<in>set (selectors node). vs_OriginalOffset w = vs_OriginalOffset vs) \<and>
        (\<forall>w\<in>set (selectors n0). vs_OriginalOffset w = 0))"
proof -
  obtain vs0 where "visits node [] = (node, []) # vs0" by (rule visits_hd)
  then have sub: "\<not> isSubQuery node" using assms(2) by (simp add: nodes_def)
  obtain fd where fd: "find_nodes (histogramNamePredicate (ps_sgs p)) node = Ret fd" by (simp add: find_nodes_eq)
  have path: "\<not> list_ex isSubQuery path" using assms(1) by (auto simp: NodeReplacer_def no_replacement_def)
  note eq = assms(1) [unfolded NodeReplacer_def if_not_P [OF path] fd obind.simps]
  obtain off where off: "fd_offset fd = Some off" "\<not> fd_offsetError fd"
    using eq by (auto simp: no_replacement_def split: if_splits option.splits)
  define cx where "cx = replace_context p s fd off"
  have cx: "rx_hasAt cx = (fd_timestamp fd > 0)" "rx_offset cx = off" "rx_synthOffset cx = (if fd_timestamp fd > 0 then 0 else off)"
    "rx_query cx = queryDownstream p s fd (rx_synthOffset cx)"
    by (simp_all add: cx_def replace_context_def Let_def)
  have ts: "vs_Timestamp v = None \<longrightarrow> rx_offset cx = rx_synthOffset cx" if "node = VectorSelector v" for v
    using that find_nodes_spec [OF fd] cx by (simp add: nodes_def hasTimestamp_def)
  have ans: "answered pq cx node r"
    using eq off sub assms(3,4)
    by (cases node)
       (auto simp: no_replacement_def Let_def cx_def [symmetric] isSubQuery_def split: if_splits
         intro: answered_aggregate answered_call answered_vector [OF _ ts] answered_binary)
  have same: "\<forall>w\<in>set (selectors node). vs_OriginalOffset w = off"
    using find_nodes_spec [OF fd] sub off selectors_nodes(1) [of node "[]"] by (force simp: nodes_def offsets_def)
  from ans obtain n0 raw where n0: "rx_query cx (pq_String pq n0) = Ret raw" "ss_err raw = None" "requested cx node n0"
    "vs_OriginalOffset vs = rx_synthOffset cx"
    using assms(5,6) unfolding answered_def by blast
  have req: "without_lookback n0 = without_lookback (if fd_timestamp fd > 0 then node else strip node)"
    using n0(3) by (simp add: requested_def unshifted_def cx(1))
  note off0 = without_lookback_offsets [OF req]
  have "(if fd_timestamp fd > 0 then vs_OriginalOffset vs = 0 \<and> map vs_OriginalOffset (selectors n0) = map vs_OriginalOffset (selectors node)
     else (\<forall>w\<in>set (selectors node). vs_OriginalOffset w = vs_OriginalOffset vs) \<and> (\<forall>w\<in>set (selectors n0). vs_OriginalOffset w = 0))"
  proof (cases "fd_timestamp fd > 0")
    case False
    then have "map vs_OriginalOffset (selectors n0) = map (\<lambda>_. 0) (selectors node)" using off0 by (simp add: selectors_strip o_def)
    then have "set (map vs_OriginalOffset (selectors n0)) \<subseteq> {0}" by (simp del: set_map) auto
    then show ?thesis using False n0(4) same cx(3) by auto
  qed (use off0 n0(4) cx(3) in simp)
  then show ?thesis using fd n0(1,2) req unfolding n0(4) cx(4) by blast
qed

text \<open>A selector with an offset and a storage that answers every query with one sample, for the witnesses.\<close>

definition up_selector :: vector_selector where
  "up_selector = (sel_of [eq_matcher MetricName ''up''])\<lparr>vs_OriginalOffset := 300\<rparr>"

definition up_set :: series_set where
  "up_set = NewSeriesSet [NewSeries [(''a'', ''b'')] [FloatSample 0 1]] [] None"

definition answering :: "series_set \<Rightarrow> proxy_storage" where
  "answering ss = \<lparr>ps_client = set_api ss, ps_sgs = [], ps_NoStepSubqueryIntervalFn = \<lambda>x. x\<rparr>"

definition instant_stmt :: eval_stmt where
  "instant_stmt = \<lparr>st_Start = 1000, st_End = 1000, st_Interval = 0\<rparr>"

lemmas finder_defs = node_finders_def nothing_found_def BooleanFinder_def OffsetFinder_def TimestampFinder_def histogramFinder_def
  histogram_node_def see_offset_def isAgg_def isSubQuery_def isBinaryExpr_def isVectorSelector_def hasTimestamp_def isAtModifierUnsafeCall_def

lemma find_vector:
  "find_nodes None (VectorSelector vs) =
     Ret (nothing_found\<lparr>fd_offset := Some (vs_OriginalOffset vs), fd_vec := 1,
       fd_timestamp := (if vs_Timestamp vs = None then 0 else 1), fd_at := vs_Timestamp vs\<rparr>)"
  by (simp add: find_nodes_eq finder_defs)

lemma find_aggregate_vector:
  "find_nodes None (AggregateExpr op (VectorSelector vs) (Some (StringLiteral l)) g w) =
     Ret (nothing_found\<lparr>fd_agg := 1, fd_offset := Some (vs_OriginalOffset vs), fd_vec := 1,
       fd_timestamp := (if vs_Timestamp vs = None then 0 else 1), fd_at := vs_Timestamp vs\<rparr>)"
  "find_nodes None (AggregateExpr op (VectorSelector vs) (Some (ParenExpr (StringLiteral l))) g w) =
     Ret (nothing_found\<lparr>fd_agg := 1, fd_offset := Some (vs_OriginalOffset vs), fd_vec := 1,
       fd_timestamp := (if vs_Timestamp vs = None then 0 else 1), fd_at := vs_Timestamp vs\<rparr>)"
  by (simp_all add: find_nodes_eq finder_defs)

lemma set_api_queries [simp]: "Query (set_api ss) q t = Ret ss" "QueryRange (set_api ss) q r = Ret ss"
  by (simp_all add: set_api_def const_api_def)

lemma histogramNamePredicate_Nil [simp]: "histogramNamePredicate [] = None" "strictMissingRemoteRead [] = []"
  by (simp_all add: histogramNamePredicate_def strictMissingRemoteRead_def)

lemma replace_up:
  "\<exists>n'. NodeReplacer pq (answering up_set) insp instant_stmt (VectorSelector up_selector) [] =
     Ret (n', Some (VectorSelector (up_selector\<lparr>vs_UnexpandedSeriesSet := Some up_set\<rparr>)), None)"
proof -
  have "containsLossyHistogram up_set = Ret (up_set, False)"
    using containsLossyHistogram_ok [of up_set] by (simp add: up_set_def NewSeriesSet_def NewSeries_def is_hist_def)
  then show ?thesis
    by (simp add: NodeReplacer_def answering_def find_vector up_selector_def sel_of_def nothing_found_def pathHasHistogramOnlyCall_def
        replace_context_def Let_def replace_vector_def fetched_def queryDownstream_def instant_stmt_def step_lookback_def
        isSubQuery_def NewSeriesSet_def) (simp add: up_set_def NewSeriesSet_def Let_def)
qed

theorem NodeReplacer_pushdown_guard_witness:
  "\<not> list_ex isSubQuery [] \<and> length (filter isVectorSelector (nodes (VectorSelector up_selector))) \<le> 1 \<and>
     length (filter isAgg (nodes (VectorSelector up_selector))) \<le>
       (if isAgg (VectorSelector up_selector) \<or> isBinaryExpr (VectorSelector up_selector) then 1 else 0) \<and>
     (\<exists>d. \<forall>n\<in>set (nodes (VectorSelector up_selector)). offsets n \<subseteq> {d}) \<and>
     \<not> pathHasHistogramOnlyCall [] \<and>
     \<not> list_ex (histogram_node (histogramNamePredicate (ps_sgs (answering up_set)))) (nodes (VectorSelector up_selector))"
proof -
  obtain n' where "NodeReplacer example_pq (answering up_set) (\<lambda>s e. Ret (e, None)) instant_stmt (VectorSelector up_selector) [] =
     Ret (n', Some (VectorSelector (up_selector\<lparr>vs_UnexpandedSeriesSet := Some up_set\<rparr>)), None)" using replace_up by blast
  from NodeReplacer_pushdown_guard [OF this] show ?thesis by (simp add: isSubQuery_def)
qed

definition up_fetched :: vector_selector where
  "up_fetched = up_selector\<lparr>vs_UnexpandedSeriesSet := Some up_set\<rparr>"

theorem NodeReplacer_offset_once_witness:
  "\<exists>fd n0 raw. find_nodes (histogramNamePredicate (ps_sgs (answering up_set))) (VectorSelector up_selector) = Ret fd \<and>
     queryDownstream (answering up_set) instant_stmt fd (vs_OriginalOffset up_fetched) (pq_String example_pq n0) = Ret raw \<and> ss_err raw = None \<and>
     without_lookback n0 = without_lookback (if fd_timestamp fd > 0 then VectorSelector up_selector else strip (VectorSelector up_selector)) \<and>
     (if fd_timestamp fd > 0
      then vs_OriginalOffset up_fetched = 0 \<and> map vs_OriginalOffset (selectors n0) = map vs_OriginalOffset (selectors (VectorSelector up_selector))
      else (\<forall>w\<in>set (selectors (VectorSelector up_selector)). vs_OriginalOffset w = vs_OriginalOffset up_fetched) \<and>
        (\<forall>w\<in>set (selectors n0). vs_OriginalOffset w = 0))"
proof -
  obtain n' where r: "NodeReplacer example_pq (answering up_set) (\<lambda>s e. Ret (e, None)) instant_stmt (VectorSelector up_selector) [] =
     Ret (n', Some (VectorSelector up_fetched), None)" using replace_up up_fetched_def by auto
  show ?thesis
    by (rule NodeReplacer_offset_once [OF r]) (simp_all add: isSubQuery_def nodes_def dataless_def up_fetched_def up_selector_def sel_of_def)
qed

text \<open>
  The fallback for histograms loses the offset: when the answer to a pushed-down selector
  contains a native histogram, the selector is left for local evaluation, but with its offset
  already removed, so that the engine reads the data of another time.
\<close>

lemma lossy_fallback_drops_offset:
  assumes "vs_UnexpandedSeriesSet vs = None" "vs_Timestamp vs = None" "histogramNamePredicate (ps_sgs p) = None" "st_Interval s \<le> 0"
    and "Query (ps_client p) (pq_String pq (VectorSelector (vs\<lparr>vs_OriginalOffset := 0\<rparr>))) (st_Start s - vs_OriginalOffset vs) = Ret raw"
    and "ss_err raw = None" "\<forall>sr\<in>set (ss_series raw). sr_iterErr sr = None" "\<exists>sr\<in>set (ss_series raw). \<exists>q\<in>set (sr_samples sr). is_hist q"
  shows "NodeReplacer pq p insp s (VectorSelector vs) [] = Ret (VectorSelector (vs\<lparr>vs_OriginalOffset := 0\<rparr>), None, None)"
proof -
  have "vs\<lparr>vs_OriginalOffset := 0, vs_LookbackDelta := vs_LookbackDelta vs\<rparr> = vs\<lparr>vs_OriginalOffset := 0\<rparr>" by (cases vs) simp
  with assms containsLossyHistogram_ok [of raw] show ?thesis
    by (simp add: NodeReplacer_def find_vector nothing_found_def pathHasHistogramOnlyCall_def isAgg_def isBinaryExpr_def isSubQuery_def
        replace_context_def Let_def replace_vector_def fetched_def queryDownstream_def step_lookback_def no_replacement_def)
qed

definition hist_set :: series_set where
  "hist_set = NewSeriesSet [NewSeries [(''a'', ''b'')] [HistogramSample 0 (Some empty_float_histogram)]] [] None"

text \<open>
  \<open>count_values\<close> applies an offset twice: the query text keeps it, the request is shifted by it
  and the answer is read with it. The label of the values joins the grouping also when the
  grouping lists the labels to remove, where the sum then removes it. And the label has to be
  a bare string: in parentheses it makes the replacer panic.
\<close>

lemma count_values_pushdown:
  assumes "vs_UnexpandedSeriesSet vs = None" "vs_Timestamp vs = None" "histogramNamePredicate (ps_sgs p) = None" "st_Interval s \<le> 0"
    and "\<And>q. Query (ps_client p) q (st_Start s - vs_OriginalOffset vs) = Ret (answer q)"
    and "\<And>q. ss_err (answer q) = None" "\<And>q. \<forall>sr\<in>set (ss_series (answer q)). sr_iterErr sr = None \<and> (\<forall>x\<in>set (sr_samples sr). \<not> is_hist x)"
  shows "NodeReplacer pq p insp s (AggregateExpr Op_COUNT_VALUES (VectorSelector vs) (Some (StringLiteral l)) g w) [] =
      Ret (AggregateExpr Op_COUNT_VALUES (VectorSelector vs) (Some (StringLiteral l)) g w,
        Some (AggregateExpr Op_SUM (VectorSelector
          \<lparr>vs_Name = [], vs_OriginalOffset = vs_OriginalOffset vs, vs_Timestamp = None, vs_StartOrEnd = 0, vs_LabelMatchers = [],
           vs_LookbackDelta = 0, vs_UnexpandedSeriesSet =
             Some (answer (pq_String pq (AggregateExpr Op_COUNT_VALUES (VectorSelector vs) (Some (StringLiteral l)) g w)))\<rparr>)
          None (g @ [l]) w), None) \<and>
    NodeReplacer pq p insp s (AggregateExpr Op_COUNT_VALUES (VectorSelector vs) (Some (ParenExpr (StringLiteral l))) g w) [] =
      Panic ''interface conversion''"
proof -
  have lossy: "containsLossyHistogram (answer q) = Ret (answer q, False)" for q
    using containsLossyHistogram_ok [of "answer q"] assms(7) by simp
  show ?thesis
    using assms lossy
    by (simp add: NodeReplacer_def find_aggregate_vector nothing_found_def pathHasHistogramOnlyCall_def isAgg_def isBinaryExpr_def isSubQuery_def
        replace_context_def Let_def replace_aggregate_def fetched_def queryDownstream_def step_lookback_def no_replacement_def synth_selector_def)
qed

text \<open>
  A subquery below the node is not covered: its offset shifts the request and stays in the text, so that it is applied
  twice, and an @ modifier on it does not count as one.
\<close>

lemma subquery_offset_twice:
  assumes "vs_UnexpandedSeriesSet vs = None" "vs_OriginalOffset vs = sq_OriginalOffset sq" "vs_Timestamp vs = None"
    and "histogramNamePredicate (ps_sgs p) = None" "st_Interval s \<le> 0"
    and "fn_Name f \<notin> {''absent'', ''absent_over_time'', ''label_join'', ''label_replace'', ''info'', ''scalar'', ''sort'', ''sort_desc''}" "fn_Name f \<notin> histogramOnlyFuncs"
    and "Query (ps_client p) (pq_String pq (Call f [SubqueryExpr (VectorSelector (vs\<lparr>vs_OriginalOffset := 0\<rparr>)) sq])) (st_Start s - sq_OriginalOffset sq) = Ret answer"
    and "ss_err answer = None" "\<forall>sr\<in>set (ss_series answer). sr_iterErr sr = None \<and> (\<forall>x\<in>set (sr_samples sr). \<not> is_hist x)"
  shows "\<exists>n'. NodeReplacer pq p insp s (Call f [SubqueryExpr (VectorSelector vs) sq]) [] =
    Ret (n', Some (VectorSelector \<lparr>vs_Name = [], vs_OriginalOffset = sq_OriginalOffset sq, vs_Timestamp = None, vs_StartOrEnd = 0, vs_LabelMatchers = [],
      vs_LookbackDelta = 0, vs_UnexpandedSeriesSet = Some answer\<rparr>), None)"
proof -
  have lossy: "containsLossyHistogram answer = Ret (answer, False)" using containsLossyHistogram_ok [of answer] assms(10) by simp
  have fd: "find_nodes None (Call f [SubqueryExpr (VectorSelector vs) sq]) =
     Ret (nothing_found\<lparr>fd_offset := Some (sq_OriginalOffset sq), fd_vec := 1, fd_at := sq_Timestamp sq,
       fd_atUnsafe := (if fn_Name f \<in> AtModifierUnsafeFunctions then 1 else 0)\<rparr>)"
    using assms(2,3,7) by (simp add: find_nodes_eq finder_defs)
  show ?thesis using assms lossy
    by (simp add: NodeReplacer_def fd nothing_found_def pathHasHistogramOnlyCall_def isAgg_def isBinaryExpr_def isSubQuery_def
        replace_context_def Let_def replace_call_def unshifted_def queryDownstream_def step_lookback_def synth_selector_def)
qed

text \<open>The window of a subquery ignores the offset that the parser records for it.\<close>

lemma subquery_window_ignores_offset: "subquery_stmt p s (sq\<lparr>sq_OriginalOffset := d\<rparr>) = subquery_stmt p s sq"
  by (simp add: subquery_stmt_def Let_def cong: option.case_cong)

end
