(* ===== verification/Promxy_ServerGroup.thy ===== *)
theory Promxy_ServerGroup
  imports Promxy_Relabel Promxy_TimeFilter Promxy_Client Promxy_Pushdown
begin

text \<open>
  Server groups (\<open>src/pkg/servergroup\<close>): the configuration and its validation, the labels and the
  client of a discovered target with every wrapper in the order in which \<open>loadTargetGroupMap\<close>
  puts them on, the group's \<open>MultiAPI\<close>, the cache of histogram names, and the life of a group as
  a state machine. The HTTP transport, service discovery and the relabelling of targets by
  \<open>relabel_configs\<close> are parameters.
\<close>

section \<open>Configuration\<close>

record absolute_time_range =
  ar_Start :: time
  ar_End :: time
  ar_Truncate :: bool

definition AbsoluteTimeRangeConfig_validate :: "absolute_time_range \<Rightarrow> go_error option" where
  "AbsoluteTimeRangeConfig_validate tr =
     (if \<not> IsZero (ar_Start tr) \<and> \<not> IsZero (ar_End tr) \<and> Before (ar_End tr) (ar_Start tr)
      then Some (OtherError ''AbsoluteTimeRangeConfig: End must be after start'') else None)"

record relative_time_range =
  rr_Start :: "duration option"
  rr_End :: "duration option"
  rr_Truncate :: bool

definition RelativeTimeRangeConfig_validate :: "relative_time_range \<Rightarrow> go_error option" where
  "RelativeTimeRangeConfig_validate tr =
     (case (rr_End tr, rr_Start tr) of
        (Some e, Some s) \<Rightarrow> if e < s then Some (OtherError ''RelativeTimeRangeConfig: End must be after start'') else None
      | _ \<Rightarrow> None)"

record http_client_config =
  hh_DialNetwork :: string
  hh_BasicAuth :: bool
  hh_Authorization :: bool
  hh_BearerToken :: string
  hh_BearerTokenFile :: string
  hh_SigV4Config :: bool

definition HTTPClientConfig_validate :: "(string \<Rightarrow> bool) \<Rightarrow> http_client_config \<Rightarrow> go_error option" where
  "HTTPClientConfig_validate isPrint c =
     (if hh_DialNetwork c \<in> {'''', ''tcp'', ''tcp4'', ''tcp6''} then None
      else Some (OtherError (''invalid dial_network '' @ Quote isPrint (hh_DialNetwork c) @ '': must be one of tcp, tcp4, tcp6'')))"

definition DialNetworkOrDefault :: "http_client_config \<Rightarrow> string" where
  "DialNetworkOrDefault c = (if hh_DialNetwork c = [] then ''tcp'' else hh_DialNetwork c)"

text \<open>
  The options that shape the clients of a group. \<open>sc_Process\<close> is the effect of the
  \<open>relabel_configs\<close> on the labels of a target, with the verdict whether to keep it.
\<close>

record server_group_config =
  sc_Ordinal :: nat
  sc_Name :: string
  sc_RemoteRead :: bool
  sc_RemoteReadPath :: string
  sc_MetadataRefresh :: duration
  sc_AllowLossy :: bool
  sc_HTTPConfig :: http_client_config
  sc_Scheme :: string
  sc_Labels :: labelset
  sc_Process :: "labelset \<Rightarrow> labelset \<times> bool"
  sc_MetricsRelabelConfigs :: "metric_relabel_config list"
  sc_PathPrefix :: string
  sc_QueryParams :: "(string, string) smap"
  sc_AntiAffinity :: duration
  sc_AntiAffinityDynamic :: bool
  sc_IgnoreError :: bool
  sc_DowngradeError :: bool
  sc_RelativeTimeRange :: "relative_time_range option"
  sc_AbsoluteTimeRange :: "absolute_time_range option"
  sc_LabelFilter :: "label_filter_config option"
  sc_InjectMatchers :: "string list"
  sc_PreferMax :: bool
  sc_AlignQueryRangeWithStep :: bool

definition GetAntiAffinity :: "server_group_config \<Rightarrow> int" where
  "GetAntiAffinity c = i64 (trunc_seconds (sc_AntiAffinity c) * 1000)"

definition GetInjectMatchers :: "promql \<Rightarrow> server_group_config \<Rightarrow> go_error + matcher list" where
  "GetInjectMatchers pq c =
     (if sc_InjectMatchers c = [] then Inr []
      else case pq_ParseMetricSelector pq (''{'' @ intercalate_comma (sc_InjectMatchers c) @ ''}'') of
        Inl err \<Rightarrow> Inl (FmtWrap (''error parsing inject_matchers: '' @ error_string err) err)
      | Inr ms \<Rightarrow> Inr ms)"

definition authMethods :: "http_client_config \<Rightarrow> string list" where
  "authMethods c =
     (if hh_BasicAuth c then [''basic_auth''] else []) @
     (if hh_Authorization c then [''authorization''] else []) @
     (if hh_BearerToken c \<noteq> [] then [''bearer_token''] else []) @
     (if hh_BearerTokenFile c \<noteq> [] then [''bearer_token_file''] else []) @
     (if hh_SigV4Config c then [''sigv4''] else [])"

definition validateAuthConfig :: "http_client_config \<Rightarrow> go_error option" where
  "validateAuthConfig c =
     (if length (authMethods c) > 1
      then Some (OtherError (''at most one of basic_auth, authorization, bearer_token, bearer_token_file, sigv4 must be configured''))
      else None)"

text \<open>The checks of \<open>UnmarshalYAML\<close> on a configuration that the YAML library has read.\<close>

definition Config_check :: "promql \<Rightarrow> server_group_config \<Rightarrow> go_error option" where
  "Config_check pq c =
     (case validateAuthConfig (sc_HTTPConfig c) of
        Some err \<Rightarrow> Some err
      | None \<Rightarrow>
          (case HTTPClientConfig_validate (pq_IsPrint pq) (sc_HTTPConfig c) of
             Some err \<Rightarrow> Some err
           | None \<Rightarrow> (case GetInjectMatchers pq c of Inl err \<Rightarrow> Some err | Inr _ \<Rightarrow> None)))"

definition configIdentifier :: "server_group_config option \<Rightarrow> string" where
  "configIdentifier c =
     (case c of
        None \<Rightarrow> ''unknown''
      | Some cfg \<Rightarrow>
          ''ord='' @ itoa (sc_Ordinal cfg) @ (if sc_Name cfg \<noteq> [] then '' name='' @ sc_Name cfg else []))"

section \<open>URLs\<close>

record url =
  url_Scheme :: string
  url_Host :: string
  url_Path :: string

definition alphanumeric :: "char \<Rightarrow> bool" where
  "alphanumeric c \<longleftrightarrow> (97 \<le> byte c \<and> byte c \<le> 122) \<or> (65 \<le> byte c \<and> byte c \<le> 90) \<or> (48 \<le> byte c \<and> byte c \<le> 57)"

definition host_byte :: "char \<Rightarrow> bool" where
  "host_byte c \<longleftrightarrow> alphanumeric c \<or> c \<in> set (''!$&()*+,;=:[]<>-_.~'' @ [CHR 0x22, CHR 0x27])"

definition path_byte :: "char \<Rightarrow> bool" where
  "path_byte c \<longleftrightarrow> alphanumeric c \<or> c \<in> set ''-_.~$&+,/:;=@''"

definition hex_digit :: "nat \<Rightarrow> char" where
  "hex_digit n = (if n < 10 then char_of (48 + n) else char_of (55 + n))"

definition url_escape :: "(char \<Rightarrow> bool) \<Rightarrow> string \<Rightarrow> string" where
  "url_escape keep s =
     concat (map (\<lambda>c. if keep c then [c] else [CHR 0x25, hex_digit (byte c div 16), hex_digit (byte c mod 16)]) s)"

text \<open>\<open>URL.String\<close> for a URL with a host.\<close>

definition url_String :: "url \<Rightarrow> string" where
  "url_String u =
     (let path = (if url_Path u = ''*'' then ''*'' else url_escape path_byte (url_Path u))
      in (if url_Scheme u \<noteq> [] then url_Scheme u @ '':'' else []) @ ''//'' @ url_escape host_byte (url_Host u) @
         (if path \<noteq> [] \<and> hd path \<noteq> CHR ''/'' then ''/'' else []) @ path)"

text \<open>\<open>path.Join\<close> cleans what it joins: no empty or dot elements, and \<open>..\<close> resolved.\<close>

fun split_slash :: "string \<Rightarrow> string \<Rightarrow> string list" where
  "split_slash cur [] = [cur]"
| "split_slash cur (c # cs) = (if c = CHR ''/'' then cur # split_slash [] cs else split_slash (cur @ [c]) cs)"

definition clean_element :: "bool \<Rightarrow> string list \<Rightarrow> string \<Rightarrow> string list" where
  "clean_element rooted out e =
     (if e = [] \<or> e = ''.'' then out
      else if e = ''..'' then
        (if out \<noteq> [] \<and> last out \<noteq> ''..'' then butlast out else if rooted then out else out @ [e])
      else out @ [e])"

definition join_slash :: "string list \<Rightarrow> string" where
  "join_slash es = concat (map (\<lambda>(i, e). (if i = 0 then [] else ''/'') @ e) (zip [0..<length es] es))"

definition path_Clean :: "string \<Rightarrow> string" where
  "path_Clean p =
     (let rooted = (p \<noteq> [] \<and> hd p = CHR ''/'');
          r = (if rooted then ''/'' else []) @ join_slash (foldl (clean_element rooted) [] (split_slash [] p))
      in if r = [] then ''.'' else r)"

definition path_Join :: "string \<Rightarrow> string \<Rightarrow> string" where
  "path_Join a b =
     (let es = filter (\<lambda>e. e \<noteq> []) [a, b] in if es = [] then [] else path_Clean (join_slash es))"

section \<open>The labels of a target\<close>

definition SchemeLabel :: string where "SchemeLabel = ''__scheme__''"
definition AddressLabel :: string where "AddressLabel = ''__address__''"
definition PathPrefixLabel :: string where "PathPrefixLabel = ''__path_prefix__''"
definition ReservedLabelPrefix :: string where "ReservedLabelPrefix = ''__''"

text \<open>A group of discovered targets, each the labels of one target.\<close>

record target_group =
  tg_Targets :: "labelset list"
  tg_Labels :: labelset

text \<open>
  \<open>labels.New\<close> sorts by name. A target that carries its own scheme or path prefix keeps it
  before the one of the configuration; the sort is taken to be stable.
\<close>

definition labels_New :: "(string \<times> string) list \<Rightarrow> labelset" where
  "labels_New ls = sort_key fst ls"

definition discovered_labels :: "server_group_config \<Rightarrow> labelset \<Rightarrow> labelset \<Rightarrow> labelset" where
  "discovered_labels cfg target groupLabels =
     labels_New (target @ filter (\<lambda>(ln, _). map_of target ln = None) groupLabels @
       [(SchemeLabel, sc_Scheme cfg), (PathPrefixLabel, sc_PathPrefix cfg)])"

text \<open>The labels without the private ones, overridden by the labels of the configuration.\<close>

definition model_labels :: "server_group_config \<Rightarrow> labelset \<Rightarrow> labelset" where
  "model_labels cfg lset =
     LabelSet_Merge (smap_of_list (filter (\<lambda>(n, _). \<not> HasPrefix n ReservedLabelPrefix) lset)) (sc_Labels cfg)"

definition target_url :: "labelset \<Rightarrow> url" where
  "target_url lset = \<lparr>url_Scheme = labels_Get lset SchemeLabel, url_Host = labels_Get lset AddressLabel,
     url_Path = labels_Get lset PathPrefixLabel\<rparr>"

section \<open>The client of a target\<close>

text \<open>
  What the group creates clients with: \<open>api.NewClient\<close> with the query parameters, and
  \<open>remote.NewReadClient\<close>; building the HTTP transport and configuring discovery may fail.
\<close>

record environment =
  ev_NewClient :: "string \<Rightarrow> (string, string) smap \<Rightarrow> go_error + downstream"
  ev_NewReadClient :: "string \<Rightarrow> go_error + read_client"
  ev_newTransport :: "server_group_config \<Rightarrow> go_error option"
  ev_discovery :: "server_group_config \<Rightarrow> go_error option"

text \<open>
  The wrappers around the client of a target, innermost first, up to the label filter; the
  relative time filter reads the clock at each call.
\<close>

definition target_client ::
  "externals \<Rightarrow> unicode \<Rightarrow> promql \<Rightarrow> server_group_config \<Rightarrow> labelset \<Rightarrow> downstream \<Rightarrow> read_client option \<Rightarrow>
   matcher list \<Rightarrow> metrics_relabel_client option \<Rightarrow> time \<Rightarrow> api"
where
  "target_client ext uc pq cfg lset d rc injectMatchers mr now =
     (let a = PromAPIV1 ext pq d;
          a = (case rc of None \<Rightarrow> a | Some r \<Rightarrow> PromAPIRemoteRead a r);
          a = (case sc_AbsoluteTimeRange cfg of None \<Rightarrow> a
               | Some tr \<Rightarrow> AbsoluteTimeFilter a (ar_Start tr) (ar_End tr) (ar_Truncate tr));
          a = (case sc_RelativeTimeRange cfg of None \<Rightarrow> a
               | Some tr \<Rightarrow> RelativeTimeFilter a (rr_Start tr) (rr_End tr) (rr_Truncate tr) now);
          a = (if sc_AlignQueryRangeWithStep cfg then StepAlignClient a else a);
          a = (if injectMatchers = [] then a else InjectMatchersClient pq a injectMatchers);
          a = AddLabelClient ext pq a (model_labels cfg lset)
      in case mr of None \<Rightarrow> a | Some c \<Rightarrow> MetricsRelabelClient ext uc pq a c)"

record target =
  tr_Host :: string
  tr_URL :: string
  tr_client :: "time \<Rightarrow> api"
  tr_filter :: "label_filter_state option"

definition target_api :: "externals \<Rightarrow> promql \<Rightarrow> server_group_config \<Rightarrow> time \<Rightarrow> target \<Rightarrow> api" where
  "target_api ext pq cfg now t =
     ErrorWrap (case (tr_filter t, sc_LabelFilter cfg) of
         (Some st, Some lf) \<Rightarrow> LabelFilterClient ext pq lf (ls_filter st) (tr_client t now)
       | _ \<Rightarrow> tr_client t now)
       (''error in target='' @ tr_URL t)"

text \<open>One round of the loops over the discovered targets: nothing for a dropped target.\<close>

definition read_client_for :: "environment \<Rightarrow> server_group_config \<Rightarrow> url \<Rightarrow> go_error + (url \<times> read_client option)" where
  "read_client_for env cfg u =
     (if \<not> sc_RemoteRead cfg then Inr (u, None)
      else let u = u\<lparr>url_Path := path_Join (url_Path u) (sc_RemoteReadPath cfg)\<rparr>
           in case ev_NewReadClient env (url_String u) of Inl err \<Rightarrow> Inl err | Inr r \<Rightarrow> Inr (u, Some r))"

definition relabel_client_for :: "externals \<Rightarrow> promql \<Rightarrow> server_group_config \<Rightarrow> go_error + metrics_relabel_client option" where
  "relabel_client_for ext pq cfg =
     (if sc_MetricsRelabelConfigs cfg = [] then Inr None
      else case NewMetricsRelabelClient ext (pq_IsPrint pq) (sc_MetricsRelabelConfigs cfg) of
        Inl err \<Rightarrow> Inl err | Inr c \<Rightarrow> Inr (Some c))"

definition filtered_target :: "server_group_config \<Rightarrow> string \<Rightarrow> string \<Rightarrow> (time \<Rightarrow> api) \<Rightarrow> time \<Rightarrow> (go_error + target) outcome" where
  "filtered_target cfg host u client now =
     (let t = \<lparr>tr_Host = host, tr_URL = u, tr_client = client, tr_filter = None\<rparr>
      in case sc_LabelFilter cfg of
           None \<Rightarrow> Ret (Inr t)
         | Some lf \<Rightarrow>
             omap (\<lambda>r. case r of Inl err \<Rightarrow> Inl err | Inr st \<Rightarrow> Inr (t\<lparr>tr_filter := Some st\<rparr>))
               (NewLabelFilterClient lf (client now) now))"

definition new_target ::
  "externals \<Rightarrow> unicode \<Rightarrow> promql \<Rightarrow> environment \<Rightarrow> server_group_config \<Rightarrow> time \<Rightarrow> labelset \<times> labelset \<Rightarrow>
   (go_error + target option) outcome"
where
  "new_target ext uc pq env cfg now discovered =
     (case sc_Process cfg (discovered_labels cfg (fst discovered) (snd discovered)) of
        (lset, keep) \<Rightarrow>
          if \<not> keep \<or> lset = [] then Ret (Inr None)
          else if labels_Get lset AddressLabel = []
          then Ret (Inl (OtherError (''discovery target is missing address label: '' @ ext_LabelString ext lset)))
          else let u = target_url lset
               in case ev_NewClient env (url_String u) (sc_QueryParams cfg) of
                    Inl err \<Rightarrow> Ret (Inl err)
                  | Inr d \<Rightarrow>
                      (case read_client_for env cfg u of
                         Inl err \<Rightarrow> Ret (Inl err)
                       | Inr (u', rc) \<Rightarrow>
                           (case GetInjectMatchers pq cfg of
                              Inl err \<Rightarrow> Ret (Inl err)
                            | Inr ims \<Rightarrow>
                                (case relabel_client_for ext pq cfg of
                                   Inl err \<Rightarrow> Ret (Inl err)
                                 | Inr mr \<Rightarrow>
                                     omap (map_sum id Some)
                                       (filtered_target cfg (url_Host u) (url_String u')
                                          (target_client ext uc pq cfg lset d rc ims mr) now)))))"

fun load_targets ::
  "('d \<Rightarrow> (go_error + target option) outcome) \<Rightarrow> 'd list \<Rightarrow> (go_error + target list) outcome"
where
  "load_targets new [] = Ret (Inr [])"
| "load_targets new (d # ds) =
     obind (new d) (\<lambda>r. case r of
         Inl err \<Rightarrow> Ret (Inl err)
       | Inr t \<Rightarrow> omap (map_sum id (\<lambda>ts. (case t of None \<Rightarrow> ts | Some t \<Rightarrow> t # ts))) (load_targets new ds))"

section \<open>The state of a group\<close>

text \<open>What discovery reports: groups of targets by name, in the order in which the map is ranged over.\<close>

type_synonym target_group_map = "(string \<times> target_group list) list"

definition discovered :: "target_group_map \<Rightarrow> (labelset \<times> labelset) list" where
  "discovered tgm = concat (map (\<lambda>(_, gs). concat (map (\<lambda>g. map (\<lambda>t. (t, tg_Labels g)) (tg_Targets g)) gs)) tgm)"

record server_group_state =
  st_Targets :: "string list"
  st_clients :: "target list"
  st_cfg :: server_group_config
  st_multiAPI :: multi_api

record server_group =
  sg_cfg :: "server_group_config option"
  sg_client :: bool
  sg_state :: "server_group_state option"
  sg_loaded :: bool
  sg_Ready :: bool
  sg_done :: bool
  sg_pending :: "target_group_map option"
  sg_histogramNames :: "string list option"
  sg_cacheStarted :: bool

definition NewServerGroup :: server_group where
  "NewServerGroup = \<lparr>sg_cfg = None, sg_client = False, sg_state = None, sg_loaded = False, sg_Ready = False,
     sg_done = False, sg_pending = None, sg_histogramNames = None, sg_cacheStarted = False\<rparr>"

definition new_state :: "externals \<Rightarrow> promql \<Rightarrow> server_group_config \<Rightarrow> time \<Rightarrow> target list \<Rightarrow> go_error + server_group_state" where
  "new_state ext pq cfg now ts =
     (case NewMultiAPI (map (target_api ext pq cfg now) ts) (GetAntiAffinity cfg) (sc_AntiAffinityDynamic cfg) 1 (sc_PreferMax cfg) of
        Inl err \<Rightarrow> Inl err
      | Inr m \<Rightarrow> Inr \<lparr>st_Targets = map tr_Host ts, st_clients = ts, st_cfg = cfg, st_multiAPI = m\<rparr>)"

text \<open>\<open>close(s.Ready)\<close> at the first load; closing it twice would panic.\<close>

definition store_state :: "server_group_state \<Rightarrow> server_group \<Rightarrow> server_group outcome" where
  "store_state st sg =
     (let sg = sg\<lparr>sg_state := Some st\<rparr>
      in if sg_loaded sg then Ret sg
         else if sg_Ready sg then Panic ''close of closed channel''
         else Ret (sg\<lparr>sg_loaded := True, sg_Ready := True\<rparr>))"

definition loadTargetGroupMap ::
  "externals \<Rightarrow> unicode \<Rightarrow> promql \<Rightarrow> environment \<Rightarrow> target_group_map \<Rightarrow> time \<Rightarrow> server_group \<Rightarrow> (server_group \<times> go_error option) outcome"
where
  "loadTargetGroupMap ext uc pq env tgm now sg =
     (case sg_cfg sg of
        None \<Rightarrow> Ret (sg, Some (OtherError ''no configuration applied to servergroup yet''))
      | Some cfg \<Rightarrow>
          obind (load_targets (new_target ext uc pq env cfg now) (discovered tgm)) (\<lambda>r. case r of
              Inl err \<Rightarrow> Ret (sg, Some err)
            | Inr ts \<Rightarrow>
                (case new_state ext pq cfg now ts of
                   Inl err \<Rightarrow> Ret (sg, Some err)
                 | Inr st \<Rightarrow> omap (\<lambda>sg. (sg, None)) (store_state st sg))))"

text \<open>The transport is built and published, then the configuration, then discovery is told.\<close>

definition ServerGroup_ApplyConfig :: "environment \<Rightarrow> server_group_config \<Rightarrow> server_group \<Rightarrow> server_group \<times> go_error option" where
  "ServerGroup_ApplyConfig env cfg sg =
     (case ev_newTransport env cfg of
        Some err \<Rightarrow> (sg, Some err)
      | None \<Rightarrow>
          (let sg = sg\<lparr>sg_client := True, sg_cfg := Some cfg\<rparr>
           in case ev_discovery env cfg of
                Some err \<Rightarrow> (sg, Some err)
              | None \<Rightarrow> (if sc_MetadataRefresh cfg > 0 then sg\<lparr>sg_cacheStarted := True\<rparr> else sg, None)))"

section \<open>The methods of a group\<close>

text \<open>A \<open>MultiAPI\<close> as an API, for the arrival order of the replies of one call.\<close>

definition MultiAPI_api :: "externals \<Rightarrow> multi_api \<Rightarrow> schedule \<Rightarrow> api" where
  "MultiAPI_api ext m sched = \<lparr>
     LabelNames = \<lambda>ms s e. MultiAPI_LabelNames ext m ms s e sched,
     LabelValues = \<lambda>l ms s e. MultiAPI_LabelValues ext m l ms s e sched,
     Query = \<lambda>q t. MultiAPI_Query ext m q t sched,
     QueryRange = \<lambda>q r. MultiAPI_QueryRange ext m q r sched,
     Series = \<lambda>ms s e. MultiAPI_Series ext m ms s e sched,
     GetValue = \<lambda>s e ms. MultiAPI_GetValue ext m s e ms sched,
     Metadata = \<lambda>mt l. MultiAPI_Metadata ext m mt l sched,
     QueryExemplars = \<lambda>q s e. MultiAPI_QueryExemplars ext m q s e sched,
     api_Key = None\<rparr>"

text \<open>The group's \<open>MultiAPI\<close> at a time: its members read the clock and their label filter when called.\<close>

definition state_multiAPI :: "externals \<Rightarrow> promql \<Rightarrow> server_group_state \<Rightarrow> time \<Rightarrow> multi_api" where
  "state_multiAPI ext pq st now = (st_multiAPI st)\<lparr>ma_apis := map (target_api ext pq (st_cfg st) now) (st_clients st)\<rparr>"

definition state_apiClient :: "externals \<Rightarrow> promql \<Rightarrow> server_group_state \<Rightarrow> time \<Rightarrow> schedule \<Rightarrow> api" where
  "state_apiClient ext pq st now sched =
     (let a = ErrorWrap (MultiAPI_api ext (state_multiAPI ext pq st now) sched) (''error in servergroup ord='' @ itoa (sc_Ordinal (st_cfg st)));
          a = (if sc_IgnoreError (st_cfg st) then IgnoreErrorAPI a else a)
      in if sc_DowngradeError (st_cfg st) then DowngradeErrorAPI a else a)"

definition nil_dereference :: string where
  "nil_dereference = ''invalid memory address or nil pointer dereference''"

definition with_state :: "server_group \<Rightarrow> (server_group_state \<Rightarrow> 'a outcome) \<Rightarrow> 'a outcome" where
  "with_state sg f = (case sg_state sg of None \<Rightarrow> Panic nil_dereference | Some st \<Rightarrow> f st)"

definition ServerGroup_api :: "externals \<Rightarrow> promql \<Rightarrow> server_group \<Rightarrow> time \<Rightarrow> schedule \<Rightarrow> api" where
  "ServerGroup_api ext pq sg now sched =
     (let client = (\<lambda>st. state_apiClient ext pq st now sched)
      in \<lparr>LabelNames = \<lambda>ms s e. with_state sg (\<lambda>st. LabelNames (client st) ms s e),
          LabelValues = \<lambda>l ms s e. with_state sg (\<lambda>st. LabelValues (client st) l ms s e),
          Query = \<lambda>q t. with_state sg (\<lambda>st. Query (client st) q t),
          QueryRange = \<lambda>q r. with_state sg (\<lambda>st. QueryRange (client st) q r),
          Series = \<lambda>ms s e. with_state sg (\<lambda>st. Series (client st) ms s e),
          GetValue = \<lambda>s e ms. with_state sg (\<lambda>st. GetValue (client st) s e ms),
          Metadata = \<lambda>mt l. with_state sg (\<lambda>st. Metadata (client st) mt l),
          QueryExemplars = \<lambda>q s e. with_state sg (\<lambda>st. QueryExemplars (client st) q s e),
          api_Key = None\<rparr>)"

section \<open>The cache of histogram names\<close>

definition IsHistogramMetric :: "server_group \<Rightarrow> string \<Rightarrow> bool" where
  "IsHistogramMetric sg name = (case sg_histogramNames sg of None \<Rightarrow> False | Some names \<Rightarrow> name \<in> set names)"

definition histogram_names :: "(string, metadata list) smap option \<Rightarrow> string list" where
  "histogram_names md =
     (case md of None \<Rightarrow> [] | Some m \<Rightarrow> map fst (filter (\<lambda>(_, entries). list_ex (\<lambda>e. md_Type e = ''histogram'') entries) m))"

definition cache_refresh :: "externals \<Rightarrow> promql \<Rightarrow> time \<Rightarrow> server_group \<Rightarrow> server_group outcome" where
  "cache_refresh ext pq now sg =
     (case sg_state sg of
        None \<Rightarrow> Ret sg
      | Some st \<Rightarrow>
          omap (\<lambda>((md, err), m).
              let sg = sg\<lparr>sg_state := Some (st\<lparr>st_multiAPI := (st_multiAPI st)\<lparr>ma_metadataRotation := ma_metadataRotation m\<rparr>\<rparr>)\<rparr>
              in if err \<noteq> None then sg else sg\<lparr>sg_histogramNames := Some (histogram_names md)\<rparr>)
            (MultiAPI_MetadataOnePerKey ext (state_multiAPI ext pq st now) [] []))"

text \<open>What the query routing sees of a group.\<close>

definition group_view_of :: "server_group \<Rightarrow> group_view" where
  "group_view_of sg =
     \<lparr>gv_Config = map_option (\<lambda>c. \<lparr>hc_Ordinal = sc_Ordinal c, hc_RemoteRead = sc_RemoteRead c, hc_AllowLossy = sc_AllowLossy c,
        hc_MetadataRefresh = sc_MetadataRefresh c\<rparr>) (sg_cfg sg),
      gv_IsHistogramMetric = IsHistogramMetric sg\<rparr>"

section \<open>The life of a group\<close>

text \<open>
  \<open>Sync\<close> receives a map of targets and loads it; on an error it keeps the map and tries again
  after a second, and receives nothing else before that. A configuration may be applied, a
  label filter may resync, the cache may refresh and the group may be cancelled at any time.
\<close>

definition after_load :: "target_group_map \<Rightarrow> server_group \<times> go_error option \<Rightarrow> server_group" where
  "after_load tgm r = (fst r)\<lparr>sg_pending := (if snd r = None then None else Some tgm)\<rparr>"

inductive sg_step :: "externals \<Rightarrow> unicode \<Rightarrow> promql \<Rightarrow> environment \<Rightarrow> server_group \<Rightarrow> server_group \<Rightarrow> bool"
  for ext uc pq env
where
  apply_config: "sg_step ext uc pq env sg (fst (ServerGroup_ApplyConfig env cfg sg))"
| receive: "\<not> sg_done sg \<Longrightarrow> sg_pending sg = None \<Longrightarrow> loadTargetGroupMap ext uc pq env tgm now sg = Ret r \<Longrightarrow>
     sg_step ext uc pq env sg (after_load tgm r)"
| retry: "\<not> sg_done sg \<Longrightarrow> sg_pending sg = Some tgm \<Longrightarrow> loadTargetGroupMap ext uc pq env tgm now sg = Ret r \<Longrightarrow>
     sg_step ext uc pq env sg (after_load tgm r)"
| resync: "sg_state sg = Some st \<Longrightarrow> i < length (st_clients st) \<Longrightarrow> tr_filter (st_clients st ! i) = Some lf \<Longrightarrow>
     sc_LabelFilter (st_cfg st) = Some lfc \<Longrightarrow> lf_step lfc lf lf' \<Longrightarrow>
     sg_step ext uc pq env sg (sg\<lparr>sg_state := Some (st\<lparr>st_clients := (st_clients st)[i := (st_clients st ! i)\<lparr>tr_filter := Some lf'\<rparr>]\<rparr>)\<rparr>)"
| refresh: "\<not> sg_done sg \<Longrightarrow> sg_cacheStarted sg \<Longrightarrow> cache_refresh ext pq now sg = Ret sg' \<Longrightarrow> sg_step ext uc pq env sg sg'"
| cancel: "sg_step ext uc pq env sg (sg\<lparr>sg_done := True, sg_pending := None\<rparr>)"

inductive sg_reachable :: "externals \<Rightarrow> unicode \<Rightarrow> promql \<Rightarrow> environment \<Rightarrow> server_group \<Rightarrow> bool"
  for ext uc pq env
where
  start: "sg_reachable ext uc pq env NewServerGroup"
| step: "sg_reachable ext uc pq env sg \<Longrightarrow> sg_step ext uc pq env sg sg' \<Longrightarrow> sg_reachable ext uc pq env sg'"

section \<open>Lemmas\<close>

inductive_cases sg_stepE: "sg_step ext uc pq env sg sg'"

text \<open>What every stored state satisfies: one fingerprint for all targets, one required answer, and reachable label filters.\<close>

definition filter_ok :: "server_group_config \<Rightarrow> target \<Rightarrow> bool" where
  "filter_ok cfg t \<longleftrightarrow>
     (case sc_LabelFilter cfg of
        None \<Rightarrow> tr_filter t = None
      | Some lfc \<Rightarrow> (case tr_filter t of None \<Rightarrow> False | Some lf \<Rightarrow> lf_reachable lfc lf))"

definition state_ok :: "server_group_state \<Rightarrow> bool" where
  "state_ok st \<longleftrightarrow> st_Targets st = map tr_Host (st_clients st) \<and>
     ma_apiFingerprints (st_multiAPI st) = replicate (length (st_clients st)) 0 \<and>
     ma_requiredCount (st_multiAPI st) = 1 \<and> ma_antiAffinity (st_multiAPI st) = GetAntiAffinity (st_cfg st) \<and>
     list_all (filter_ok (st_cfg st)) (st_clients st)"

definition sg_ok :: "server_group \<Rightarrow> bool" where
  "sg_ok sg \<longleftrightarrow> sg_loaded sg = sg_Ready sg \<and> (sg_Ready sg \<longleftrightarrow> sg_state sg \<noteq> None) \<and>
     (sg_state sg \<noteq> None \<longrightarrow> sg_cfg sg \<noteq> None) \<and> (\<forall>st. sg_state sg = Some st \<longrightarrow> state_ok st)"

lemma sum_Inr_cases:
  "(case r of Inl e \<Rightarrow> Inl e | Inr x \<Rightarrow> Inr (g x)) = Inr y \<longleftrightarrow> (\<exists>x. r = Inr x \<and> y = g x)"
  "(case r of Inl e \<Rightarrow> Ret (Inl e) | Inr x \<Rightarrow> f x) = Ret (Inr z) \<longleftrightarrow> (\<exists>x. r = Inr x \<and> f x = Ret (Inr z))"
  "map_sum id h r = Inr y \<longleftrightarrow> (\<exists>x. r = Inr x \<and> y = h x)"
  "Inr y = map_sum id h r \<longleftrightarrow> (\<exists>x. r = Inr x \<and> y = h x)"
  "Inr y = (case r of Inl e \<Rightarrow> Inl e | Inr x \<Rightarrow> Inr (g x)) \<longleftrightarrow> (\<exists>x. r = Inr x \<and> y = g x)"
  "(case r of Inl e \<Rightarrow> Ret (c, Some e) | Inr x \<Rightarrow> k x) = Ret (c', None) \<longleftrightarrow> (\<exists>x. r = Inr x \<and> k x = Ret (c', None))"
  by (cases r; auto)+

lemma sum_Some_cases:
  "(case r of Inl e \<Rightarrow> Ret (c, Some e) | Inr x \<Rightarrow> k x) = Ret (c', Some y) \<longleftrightarrow>
     (r = Inl y \<and> c = c') \<or> (\<exists>x. r = Inr x \<and> k x = Ret (c', Some y))"
  by (cases r) auto

lemma target_api_keyless [simp]: "api_fingerprint (target_api ext pq cfg now t) = 0"
  by (simp add: api_fingerprint_def labels_key_def target_api_def ErrorWrap_def)

lemma keyless_fingerprints: "map api_fingerprint (map (target_api ext pq cfg now) ts) = replicate (length ts) 0"
  by (intro replicate_eqI) auto

lemma filtered_target_ok: "filtered_target cfg host u client now = Ret (Inr t) \<Longrightarrow> filter_ok cfg t"
  by (auto simp: filtered_target_def filter_ok_def Let_def omap_eq_Ret sum_Inr_cases intro: lf_reachable.start split: option.splits)

lemma new_target_ok: "new_target ext uc pq env cfg now d = Ret (Inr (Some t)) \<Longrightarrow> filter_ok cfg t"
  by (auto simp: new_target_def Let_def omap_eq_Ret sum_Inr_cases dest: filtered_target_ok
      split: prod.splits if_splits)

lemma load_targets_all:
  assumes "load_targets new ds = Ret (Inr ts)" "\<And>d t. new d = Ret (Inr (Some t)) \<Longrightarrow> P t"
  shows "list_all P ts"
  using assms(1)
proof (induction ds arbitrary: ts)
  case (Cons d ds)
  then obtain r where r: "new d = Ret (Inr r)" by (auto simp: obind_eq_Ret sum_Inr_cases)
  with Cons.prems obtain ts' where "load_targets new ds = Ret (Inr ts')" "ts = (case r of None \<Rightarrow> ts' | Some t \<Rightarrow> t # ts')"
    by (auto simp: obind_eq_Ret omap_eq_Ret sum_Inr_cases)
  with Cons.IH r assms(2) show ?case by (auto split: option.splits)
qed simp

lemma new_state_ok:
  assumes "new_state ext pq cfg now ts = Inr st" "list_all (filter_ok cfg) ts"
  shows "state_ok st \<and> st_cfg st = cfg \<and> st_clients st = ts"
  using assms
  by (auto simp: new_state_def NewMultiAPI_def Let_def keyless_fingerprints state_ok_def simp del: map_map split: sum.splits if_splits)

lemma new_state_total: "\<exists>st. new_state ext pq cfg now ts = Inr st"
proof -
  have "count_list (replicate n x) x = n" for n and x :: fingerprint by (induction n) auto
  then show ?thesis
    by (auto simp: new_state_def NewMultiAPI_def Let_def keyless_fingerprints list_ex_iff simp del: map_map split: sum.splits)
qed

text \<open>A load: it fails and changes nothing, or stores the state of the targets it built.\<close>

lemma loadTargetGroupMap_cases:
  assumes "loadTargetGroupMap ext uc pq env tgm now sg = Ret (sg', err)" "sg_ok sg"
  shows "err \<noteq> None \<and> sg' = sg \<or>
    err = None \<and> (\<exists>cfg ts st. sg_cfg sg = Some cfg \<and> load_targets (new_target ext uc pq env cfg now) (discovered tgm) = Ret (Inr ts) \<and>
      new_state ext pq cfg now ts = Inr st \<and> state_ok st \<and> sg' = sg\<lparr>sg_state := Some st, sg_loaded := True, sg_Ready := True\<rparr>)"
proof -
  show ?thesis
  proof (cases "err = None")
    case True
    then obtain cfg ts st where cfg: "sg_cfg sg = Some cfg" "load_targets (new_target ext uc pq env cfg now) (discovered tgm) = Ret (Inr ts)"
      "new_state ext pq cfg now ts = Inr st" "store_state st sg = Ret sg'"
      using assms(1) by (auto simp: loadTargetGroupMap_def obind_eq_Ret omap_eq_Ret sum_Inr_cases split: option.splits)
    moreover have "list_all (filter_ok cfg) ts" by (rule load_targets_all [OF cfg(2)]) (rule new_target_ok)
    moreover have "sg' = sg\<lparr>sg_state := Some st, sg_loaded := True, sg_Ready := True\<rparr>"
      using cfg(4) assms(2) by (auto simp: store_state_def Let_def sg_ok_def split: if_splits)
    ultimately show ?thesis using True new_state_ok by blast
  next
    case False
    then show ?thesis
      using assms(1) by (auto simp: loadTargetGroupMap_def obind_eq_Ret omap_eq_Ret sum_Some_cases split: option.splits)
  qed
qed

lemma sg_ok_after_load:
  assumes "loadTargetGroupMap ext uc pq env tgm now sg = Ret r" "sg_ok sg"
  shows "sg_ok (after_load tgm r)"
proof -
  obtain sg' err where r: "r = (sg', err)" by (cases r)
  from loadTargetGroupMap_cases [OF assms(1) [unfolded r] assms(2)] assms(2) show ?thesis
    by (auto simp: r after_load_def sg_ok_def)
qed

lemma state_ok_resync:
  assumes "state_ok st" "i < length (st_clients st)" "tr_filter (st_clients st ! i) = Some lf"
    "sc_LabelFilter (st_cfg st) = Some lfc" "lf_step lfc lf lf'"
  shows "state_ok (st\<lparr>st_clients := (st_clients st)[i := (st_clients st ! i)\<lparr>tr_filter := Some lf'\<rparr>]\<rparr>)"
proof -
  have "filter_ok (st_cfg st) (st_clients st ! i)" using assms(1,2) by (simp add: state_ok_def list_all_length)
  then have "filter_ok (st_cfg st) ((st_clients st ! i)\<lparr>tr_filter := Some lf'\<rparr>)"
    using assms by (auto simp: filter_ok_def intro: lf_reachable.step)
  moreover have "map tr_Host ((st_clients st)[i := (st_clients st ! i)\<lparr>tr_filter := Some lf'\<rparr>]) = map tr_Host (st_clients st)"
    using assms(2) by (simp add: map_update list_update_same_conv)
  ultimately show ?thesis
    using assms(1) by (auto simp: state_ok_def list_all_iff dest!: set_update_subset_insert [THEN subsetD])
qed

lemma sg_ok_refresh: "cache_refresh ext pq now sg = Ret sg' \<Longrightarrow> sg_ok sg \<Longrightarrow> sg_ok sg'"
  by (auto simp: cache_refresh_def omap_eq_Ret sg_ok_def state_ok_def Let_def split: option.splits if_splits)

lemma sg_ok_step: "sg_step ext uc pq env sg sg' \<Longrightarrow> sg_ok sg \<Longrightarrow> sg_ok sg'"
proof (erule sg_stepE, goal_cases)
  case (1 cfg)
  then show ?case by (auto simp: ServerGroup_ApplyConfig_def sg_ok_def Let_def split: option.splits)
next
  case (4 st i lf lfc lf')
  then show ?case using state_ok_resync by (auto simp: sg_ok_def)
next
  case 6
  then show ?case by (simp add: sg_ok_def)
qed (simp_all add: sg_ok_after_load sg_ok_refresh)

lemma sg_reachable_ok: "sg_reachable ext uc pq env sg \<Longrightarrow> sg_ok sg"
  by (induction rule: sg_reachable.induct) (simp add: NewServerGroup_def sg_ok_def, rule sg_ok_step)

text \<open>APIs without keys share one bucket.\<close>

lemma keyless_quorum:
  assumes "ma_apiFingerprints m = replicate (length (ma_apis m)) 0"
  shows "quorum m vs \<longleftrightarrow> ma_apis m = [] \<or>
    ma_requiredCount m \<le> int (length (filter (\<lambda>i. snd (vs i) = None) [0..<length (ma_apis m)]))"
proof -
  have "filter (\<lambda>i. replicate (length (ma_apis m)) (0 :: fingerprint) ! i = 0 \<and> snd (vs i) = None) [0..<length (ma_apis m)] =
      filter (\<lambda>i. snd (vs i) = None) [0..<length (ma_apis m)]"
    by (intro filter_cong) auto
  moreover have "set (replicate (length (ma_apis m)) (0 :: fingerprint)) = (if ma_apis m = [] then {} else {0})" by simp
  ultimately show ?thesis unfolding quorum_def assms by simp
qed

lemma one_of: "Suc 0 \<le> length (filter P [0..<n]) \<longleftrightarrow> (\<exists>i<n. P i)"
proof -
  have "Suc 0 \<le> length (filter P [0..<n]) \<longleftrightarrow> filter P [0..<n] \<noteq> []" by (cases "filter P [0..<n]") auto
  also have "\<dots> \<longleftrightarrow> (\<exists>i<n. P i)" by (auto simp: filter_empty_conv)
  finally show ?thesis .
qed

lemma all_of: "n \<le> length (filter P [0..<n]) \<longleftrightarrow> (\<forall>i<n. P i)"
proof -
  have "n \<le> length (filter P [0..<n]) \<longleftrightarrow> length (filter P [0..<n]) = length [0..<n]"
    using length_filter_le [of P "[0..<n]"] by auto
  also have "\<dots> \<longleftrightarrow> filter P [0..<n] = [0..<n]" by (metis length_filter_less filter_id_conv less_irrefl)
  also have "\<dots> \<longleftrightarrow> (\<forall>i<n. P i)" by (auto simp: filter_id_conv)
  finally show ?thesis .
qed

lemma state_multi_ok:
  assumes "state_ok st"
  shows "multi_ok (state_multiAPI ext pq st now)"
    "quorum (state_multiAPI ext pq st now) vs \<longleftrightarrow> st_clients st = [] \<or> (\<exists>i<length (st_clients st). snd (vs i) = None)"
proof -
  have "count_list (replicate n x) x = n" for n and x :: fingerprint by (induction n) auto
  with assms show "multi_ok (state_multiAPI ext pq st now)"
    by (auto simp: multi_ok_def state_multiAPI_def state_ok_def Suc_le_eq)
  show "quorum (state_multiAPI ext pq st now) vs \<longleftrightarrow> st_clients st = [] \<or> (\<exists>i<length (st_clients st). snd (vs i) = None)"
    using assms by (subst keyless_quorum) (auto simp: state_multiAPI_def state_ok_def one_of)
qed

lemma state_apiClient_Query:
  assumes "scatterMerge ext (state_multiAPI ext pq st now) (\<lambda>a. Query a q ts) sched = Ret ss"
  shows "\<exists>ss'. Query (state_apiClient ext pq st now sched) q ts = Ret ss' \<and>
    ss_series ss' = ss_series ss \<and> (ss_err ss' = None \<longleftrightarrow> sc_IgnoreError (st_cfg st) \<or> sc_DowngradeError (st_cfg st) \<or> ss_err ss = None)"
  using assms
  by (auto simp: state_apiClient_def Let_def MultiAPI_api_def MultiAPI_Query_def ErrorWrap_def IgnoreErrorAPI_def DowngradeErrorAPI_def
      MapErrSeriesSet_def clearErr_def wrap_def errors_Wrap_def DowngradeErrSeriesSet_def)

lemma omap_eq_Panic: "omap f x = Panic p \<longleftrightarrow> x = Panic p"
  by (cases x) auto

text \<open>A ready group stays ready: what \<open>sg_ok\<close> and the cases of a load give.\<close>

lemma sg_Ready_step:
  assumes "sg_step ext uc pq env sg sg'" "sg_reachable ext uc pq env sg" "sg_Ready sg"
  shows "sg_Ready sg'"
  using assms(1)
proof cases
  case (receive tgm now r)
  with assms(3) sg_reachable_ok [OF assms(2)] loadTargetGroupMap_cases [of ext uc pq env tgm now sg "fst r" "snd r"] show ?thesis
    by (auto simp: after_load_def)
next
  case (retry tgm now r)
  with assms(3) sg_reachable_ok [OF assms(2)] loadTargetGroupMap_cases [of ext uc pq env tgm now sg "fst r" "snd r"] show ?thesis
    by (auto simp: after_load_def)
qed (use assms(3) in \<open>auto simp: ServerGroup_ApplyConfig_def cache_refresh_def omap_eq_Ret Let_def split: option.splits if_splits\<close>)

section \<open>Properties\<close>

text \<open>
  C6. The life of a server group: in every reachable state the group is ready exactly when it
  has been loaded and holds a client, so that no call on a ready group dereferences nil; a
  ready group stays ready; a load that fails leaves the group as it was; and a load panics
  only if a call to a downstream does, never by closing the ready channel twice.
\<close>

theorem sg_reachable_invariant:
  assumes "sg_reachable ext uc pq env sg"
  shows "(sg_Ready sg \<longleftrightarrow> sg_state sg \<noteq> None) \<and> sg_loaded sg = sg_Ready sg \<and>
    (sg_Ready sg \<longrightarrow> (\<exists>st. \<forall>q ts now sched. Query (ServerGroup_api ext pq sg now sched) q ts = Query (state_apiClient ext pq st now sched) q ts)) \<and>
    (\<forall>sg'. sg_step ext uc pq env sg sg' \<longrightarrow> sg_Ready sg \<longrightarrow> sg_Ready sg') \<and>
    (\<forall>tgm now sg' err. loadTargetGroupMap ext uc pq env tgm now sg = Ret (sg', Some err) \<longrightarrow> sg' = sg) \<and>
    (\<forall>tgm now p. loadTargetGroupMap ext uc pq env tgm now sg = Panic p \<longrightarrow>
       (\<exists>cfg. sg_cfg sg = Some cfg \<and> load_targets (new_target ext uc pq env cfg now) (discovered tgm) = Panic p))"
proof -
  have ok: "sg_ok sg" by (rule sg_reachable_ok [OF assms])
  have "sg_Ready sg'" if "sg_step ext uc pq env sg sg'" "sg_Ready sg" for sg'
    using sg_Ready_step [OF that(1) assms that(2)] .
  moreover have "\<exists>cfg. sg_cfg sg = Some cfg \<and> load_targets (new_target ext uc pq env cfg now) (discovered tgm) = Panic p"
    if "loadTargetGroupMap ext uc pq env tgm now sg = Panic p" for tgm now p
  proof (cases "sg_cfg sg")
    case (Some cfg)
    have "\<nexists>p. store_state st sg = Panic p" for st using ok by (auto simp: store_state_def sg_ok_def Let_def)
    with that Some show ?thesis
      by (cases "load_targets (new_target ext uc pq env cfg now) (discovered tgm)")
         (auto simp: loadTargetGroupMap_def omap_eq_Panic split: sum.split_asm)
  qed (use that in \<open>simp add: loadTargetGroupMap_def\<close>)
  moreover have "\<exists>st. \<forall>q ts now sched. Query (ServerGroup_api ext pq sg now sched) q ts = Query (state_apiClient ext pq st now sched) q ts"
    if "sg_Ready sg"
    using that ok by (auto simp: sg_ok_def ServerGroup_api_def with_state_def)
  ultimately show ?thesis using ok loadTargetGroupMap_cases [OF _ ok] by (fastforce simp: sg_ok_def)
qed

text \<open>
  C5. High availability of a server group: whatever labels its targets have, a query to a
  loaded group fails exactly when it has targets and all of them fail, unless the group ignores or downgrades
  errors, in which case it never fails.
\<close>

theorem ServerGroup_Query_available:
  assumes "sg_reachable ext uc pq env sg" "sg_state sg = Some st"
    and "\<forall>i<length (st_clients st). Query (target_api ext pq (st_cfg st) now (st_clients st ! i)) q ts = Ret (vs i)"
    and "\<forall>i<length (st_clients st). ss_err (vs i) = None \<longrightarrow> labels_distinct (vs i)"
  shows "\<exists>ss. Query (ServerGroup_api ext pq sg now (order, None)) q ts = Ret ss \<and>
    (ss_err ss = None \<longleftrightarrow> sc_IgnoreError (st_cfg st) \<or> sc_DowngradeError (st_cfg st) \<or>
       st_clients st = [] \<or> (\<exists>i<length (st_clients st). ss_err (vs i) = None))"
proof -
  have st: "state_ok st" using sg_reachable_ok [OF assms(1)] assms(2) by (simp add: sg_ok_def)
  let ?m = "state_multiAPI ext pq st now"
  have apis: "ma_apis ?m = map (target_api ext pq (st_cfg st) now) (st_clients st)" by (simp add: state_multiAPI_def)
  have "\<forall>i<length (ma_apis ?m). Query (ma_apis ?m ! i) q ts = Ret (vs i)"
    "\<forall>i<length (ma_apis ?m). ss_err (vs i) = None \<longrightarrow> labels_distinct (vs i)"
    using assms(3,4) by (simp_all add: apis)
  from scatterMerge_error_iff [OF state_multi_ok(1) [OF st], where call = "\<lambda>a. Query a q ts", OF this, of ext order]
  obtain ss where ss: "scatterMerge ext ?m (\<lambda>a. Query a q ts) (order, None) = Ret ss"
    "ss_err ss = None \<longleftrightarrow> quorum ?m (\<lambda>i. set_answer (vs i))" by (elim exE conjE)
  have "Query (ServerGroup_api ext pq sg now (order, None)) q ts = Query (state_apiClient ext pq st now (order, None)) q ts"
    using assms(2) by (simp add: ServerGroup_api_def with_state_def)
  with state_apiClient_Query [OF ss(1)] ss(2) show ?thesis
    unfolding state_multi_ok(2) [OF st] set_answer_def snd_conv by metis
qed

text \<open>
  Cancelling a group does not end the label filters of its targets: their context is the one of
  the loaded state, which only the next load cancels, so they keep asking their downstreams.
\<close>

lemma cancelled_group_keeps_syncing:
  assumes "sg_state sg = Some st" "i < length (st_clients st)" "tr_filter (st_clients st ! i) = Some lf"
    and "sc_LabelFilter (st_cfg st) = Some lfc" "ls_running lf" "syncLoop_tick lfc a now lf = Ret lf'"
  shows "\<exists>sg'. sg_step ext uc pq env sg (sg\<lparr>sg_done := True, sg_pending := None\<rparr>) \<and>
    sg_step ext uc pq env (sg\<lparr>sg_done := True, sg_pending := None\<rparr>) sg' \<and>
    (\<exists>st'. sg_state sg' = Some st' \<and> tr_filter (st_clients st' ! i) = Some lf')"
proof -
  let ?st' = "st\<lparr>st_clients := (st_clients st)[i := (st_clients st ! i)\<lparr>tr_filter := Some lf'\<rparr>]\<rparr>"
  have "sg_step ext uc pq env (sg\<lparr>sg_done := True, sg_pending := None\<rparr>) (sg\<lparr>sg_done := True, sg_pending := None, sg_state := Some ?st'\<rparr>)"
    using assms sg_step.resync [of "sg\<lparr>sg_done := True, sg_pending := None\<rparr>" st i lf lfc lf' ext uc pq env] by (simp add: lf_step.tick)
  then show ?thesis using assms(2) sg_step.cancel by (intro exI conjI) auto
qed

text \<open>For the witnesses: a group of two targets, one of which is down.\<close>

definition plain_cfg :: server_group_config where
  "plain_cfg = \<lparr>sc_Ordinal = 0, sc_Name = [], sc_RemoteRead = False, sc_RemoteReadPath = ''api/v1/read'', sc_MetadataRefresh = 0,
     sc_AllowLossy = False, sc_HTTPConfig = \<lparr>hh_DialNetwork = [], hh_BasicAuth = False, hh_Authorization = False, hh_BearerToken = [],
     hh_BearerTokenFile = [], hh_SigV4Config = False\<rparr>, sc_Scheme = ''http'', sc_Labels = [], sc_Process = \<lambda>l. (l, True),
     sc_MetricsRelabelConfigs = [], sc_PathPrefix = [], sc_QueryParams = [], sc_AntiAffinity = 10000000000, sc_AntiAffinityDynamic = False,
     sc_IgnoreError = False, sc_DowngradeError = False, sc_RelativeTimeRange = None, sc_AbsoluteTimeRange = None, sc_LabelFilter = None,
     sc_InjectMatchers = [], sc_PreferMax = False, sc_AlignQueryRangeWithStep = False\<rparr>"

definition down :: downstream where
  "down = silent\<lparr>ds_Query := \<lambda>_ _. (OtherValue, [], Some DeadlineExceeded)\<rparr>"

definition plain_env :: environment where
  "plain_env = \<lparr>ev_NewClient = \<lambda>u _. Inr (if u = ''http://a:9090'' then silent else down), ev_NewReadClient = \<lambda>_. Inr (\<lambda>_ _ _. Inr EmptySeriesSet),
     ev_newTransport = \<lambda>_. None, ev_discovery = \<lambda>_. None\<rparr>"

definition plain_tgm :: target_group_map where
  "plain_tgm = [(''foo'', [\<lparr>tg_Targets = [[(''__address__'', ''a:9090'')], [(''__address__'', ''b:9090''), (''az'', ''b'')]], tg_Labels = []\<rparr>])]"

definition up_pq :: promql where
  "up_pq = example_pq\<lparr>pq_ParseExpr := \<lambda>_. Inr (VectorSelector (sel_of []))\<rparr>"

definition plain_target :: "string \<Rightarrow> labelset \<Rightarrow> downstream \<Rightarrow> target" where
  "plain_target host lset d = \<lparr>tr_Host = host, tr_URL = ''http://'' @ host,
     tr_client = target_client example_ext ascii_only up_pq plain_cfg lset d None [] None, tr_filter = None\<rparr>"

definition plain_labels :: "string \<Rightarrow> labelset \<Rightarrow> labelset" where
  "plain_labels host ls = [(''__address__'', host), (''__path_prefix__'', []), (''__scheme__'', ''http'')] @ ls"

definition plain_targets :: "target list" where
  "plain_targets = [plain_target ''a:9090'' (plain_labels ''a:9090'' []) silent,
     plain_target ''b:9090'' (plain_labels ''b:9090'' [(''az'', ''b'')]) down]"

lemma plain_url: "url_String (target_url (plain_labels ''a:9090'' [])) = ''http://a:9090''"
  "url_String (target_url (plain_labels ''b:9090'' [(''az'', ''b'')])) = ''http://b:9090''"
  by code_simp+

lemma plain_discovered:
  "discovered_labels plain_cfg [(''__address__'', ''a:9090'')] [] = plain_labels ''a:9090'' []"
  "discovered_labels plain_cfg [(''__address__'', ''b:9090''), (''az'', ''b'')] [] = plain_labels ''b:9090'' [(''az'', ''b'')]"
  by code_simp+

lemma plain_host: "url_Host (target_url (plain_labels h m)) = h" "labels_Get (plain_labels h m) AddressLabel = h"
  "plain_labels h m \<noteq> []"
  by (simp_all add: target_url_def plain_labels_def labels_Get_def AddressLabel_def)

lemma plain_load:
  "load_targets (new_target example_ext ascii_only up_pq plain_env plain_cfg 0) (discovered plain_tgm) = Ret (Inr plain_targets)"
  by (simp add: discovered_def plain_tgm_def new_target_def plain_discovered)
     (simp add: plain_cfg_def plain_host plain_url Let_def plain_env_def read_client_for_def GetInjectMatchers_def relabel_client_for_def
        filtered_target_def plain_targets_def plain_target_def)

definition plain_state :: server_group_state where
  "plain_state = \<lparr>st_Targets = [''a:9090'', ''b:9090''], st_clients = plain_targets, st_cfg = plain_cfg,
     st_multiAPI = \<lparr>ma_apis = map (target_api example_ext up_pq plain_cfg 0) plain_targets, ma_apiFingerprints = [0, 0],
       ma_antiAffinity = GetAntiAffinity plain_cfg, ma_antiAffinityDynamic = False, ma_requiredCount = 1, ma_preferMax = False, ma_metadataRotation = 0\<rparr>\<rparr>"

definition plain_group :: server_group where
  "plain_group = NewServerGroup\<lparr>sg_client := True, sg_cfg := Some plain_cfg, sg_state := Some plain_state, sg_loaded := True, sg_Ready := True\<rparr>"

lemma plain_new_state: "new_state example_ext up_pq plain_cfg 0 plain_targets = Inr plain_state"
  by (simp add: new_state_def NewMultiAPI_def Let_def plain_targets_def plain_state_def)
     (simp add: plain_cfg_def plain_target_def)

lemma plain_group_step:
  "sg_step example_ext ascii_only up_pq plain_env (NewServerGroup\<lparr>sg_client := True, sg_cfg := Some plain_cfg\<rparr>) plain_group"
proof -
  let ?sg = "NewServerGroup\<lparr>sg_client := True, sg_cfg := Some plain_cfg\<rparr>"
  have "loadTargetGroupMap example_ext ascii_only up_pq plain_env plain_tgm 0 ?sg = Ret (plain_group, None)"
    by (simp add: loadTargetGroupMap_def plain_load plain_new_state store_state_def Let_def plain_group_def NewServerGroup_def)
  then have "sg_step example_ext ascii_only up_pq plain_env ?sg (after_load plain_tgm (plain_group, None))"
    by (rule sg_step.receive [rotated 2]) (simp_all add: NewServerGroup_def)
  then show ?thesis by (simp add: after_load_def plain_group_def NewServerGroup_def)
qed

lemma plain_reachable: "sg_reachable example_ext ascii_only up_pq plain_env plain_group"
proof -
  let ?sg = "NewServerGroup\<lparr>sg_client := True, sg_cfg := Some plain_cfg\<rparr>"
  have "fst (ServerGroup_ApplyConfig plain_env plain_cfg NewServerGroup) = ?sg"
    by (simp add: ServerGroup_ApplyConfig_def plain_env_def plain_cfg_def)
  then have "sg_reachable example_ext ascii_only up_pq plain_env ?sg"
    using sg_reachable.step [OF sg_reachable.start sg_step.apply_config] by metis
  then show ?thesis using plain_group_step by (metis sg_reachable.step)
qed

lemma plain_answers:
  "Query (target_api example_ext up_pq plain_cfg 0 (plain_targets ! 0)) ''up'' 0 = Ret EmptySeriesSet"
  "Query (target_api example_ext up_pq plain_cfg 0 (plain_targets ! Suc 0)) ''up'' 0 =
     Ret (ErrSeriesSet (PkgWrap ''error in target=http://b:9090'' (ErrQueryTimeout ''context deadline exceeded'')))"
  by code_simp+

theorem sg_reachable_invariant_witness:
  "(sg_Ready plain_group \<longleftrightarrow> sg_state plain_group \<noteq> None) \<and> sg_loaded plain_group = sg_Ready plain_group \<and> sg_Ready plain_group"
  using sg_reachable_invariant [OF plain_reachable] by (simp add: plain_group_def)

theorem ServerGroup_Query_available_witness:
  "\<exists>ss. Query (ServerGroup_api example_ext up_pq plain_group 0 ([1, 0], None)) ''up'' 0 = Ret ss \<and> ss_err ss = None"
proof -
  let ?vs = "\<lambda>i. if i = 0 then EmptySeriesSet
    else ErrSeriesSet (PkgWrap ''error in target=http://b:9090'' (ErrQueryTimeout ''context deadline exceeded''))"
  have st: "sg_state plain_group = Some plain_state" "st_clients plain_state = plain_targets" "st_cfg plain_state = plain_cfg"
    "length plain_targets = 2"
    by (simp_all add: plain_group_def plain_state_def plain_targets_def)
  have "\<forall>i<length (st_clients plain_state). Query (target_api example_ext up_pq (st_cfg plain_state) 0 (st_clients plain_state ! i)) ''up'' 0 = Ret (?vs i)"
    using plain_answers by (simp add: st numeral_2_eq_2 All_less_Suc)
  moreover have "\<forall>i<length (st_clients plain_state). ss_err (?vs i) = None \<longrightarrow> labels_distinct (?vs i)"
    by (simp add: st numeral_2_eq_2 All_less_Suc labels_distinct_def EmptySeriesSet_def ErrSeriesSet_def NewSeriesSet_def)
  ultimately have "\<exists>ss. Query (ServerGroup_api example_ext up_pq plain_group 0 ([1, 0], None)) ''up'' 0 = Ret ss \<and>
    (ss_err ss = None \<longleftrightarrow> sc_IgnoreError (st_cfg plain_state) \<or> sc_DowngradeError (st_cfg plain_state) \<or>
       st_clients plain_state = [] \<or> (\<exists>i<length (st_clients plain_state). ss_err (?vs i) = None))"
    by (rule ServerGroup_Query_available [OF plain_reachable st(1)])
  moreover have "\<exists>i<length (st_clients plain_state). ss_err (?vs i) = None"
    by (intro exI [of _ 0]) (simp add: st EmptySeriesSet_def NewSeriesSet_def)
  ultimately show ?thesis by metis
qed

end
