(* ===== verification/Promxy_Storage.thy ===== *)
theory Promxy_Storage
  imports Promxy_ServerGroup
begin

text \<open>
  \<open>ProxyStorage\<close> (\<open>src/pkg/proxystorage/proxy.go\<close>): the state with its server groups and the client
  over all of them, the application of a configuration with the hand-over from the old state,
  the life of the storage as a state machine, and the answer to a query in terms of the
  answers of the targets.
\<close>

section \<open>The state\<close>

record proxy_config =
  pc_ServerGroups :: "server_group_config list"
  pc_RemoteWrite :: bool

text \<open>
  A remote_write storage with its write-ahead log is a handle: the state names the one it
  appends to, and the appender of a state without one is a stub.
\<close>

record proxy_state =
  px_sgs :: "server_group list"
  px_cfg :: "proxy_config option"
  px_multiAPI :: "multi_api option"
  px_remoteStorage :: "nat option"

text \<open>\<open>GetState\<close> before the first configuration: an empty state, whose client is nil.\<close>

definition empty_state :: proxy_state where
  "empty_state = \<lparr>px_sgs = [], px_cfg = None, px_multiAPI = None, px_remoteStorage = None\<rparr>"

definition nil_api :: api where
  "nil_api = \<lparr>LabelNames = \<lambda>_ _ _. Panic nil_dereference, LabelValues = \<lambda>_ _ _ _. Panic nil_dereference,
     Query = \<lambda>_ _. Panic nil_dereference, QueryRange = \<lambda>_ _. Panic nil_dereference, Series = \<lambda>_ _ _. Panic nil_dereference,
     GetValue = \<lambda>_ _ _. Panic nil_dereference, Metadata = \<lambda>_ _. Panic nil_dereference,
     QueryExemplars = \<lambda>_ _ _. Panic nil_dereference, api_Key = None\<rparr>"

text \<open>The client over all groups, for the arrival orders of one call: \<open>outer\<close> of the groups, \<open>inner i\<close> within group \<open>i\<close>.\<close>

definition group_apis :: "externals \<Rightarrow> promql \<Rightarrow> server_group list \<Rightarrow> time \<Rightarrow> (nat \<Rightarrow> schedule) \<Rightarrow> api list" where
  "group_apis ext pq sgs now inner = map (\<lambda>i. ServerGroup_api ext pq (sgs ! i) now (inner i)) [0..<length sgs]"

definition state_client :: "externals \<Rightarrow> promql \<Rightarrow> proxy_state \<Rightarrow> time \<Rightarrow> (nat \<Rightarrow> schedule) \<Rightarrow> schedule \<Rightarrow> api" where
  "state_client ext pq st now inner outer =
     (case px_multiAPI st of
        None \<Rightarrow> nil_api
      | Some m \<Rightarrow> TimeTruncate (MultiAPI_api ext (m\<lparr>ma_apis := group_apis ext pq (px_sgs st) now inner\<rparr>) outer))"

text \<open>The view that the query rewriting of \<open>NodeReplacer\<close> has of the storage.\<close>

definition proxy_storage_of ::
  "externals \<Rightarrow> promql \<Rightarrow> (int \<Rightarrow> int) \<Rightarrow> proxy_state \<Rightarrow> time \<Rightarrow> (nat \<Rightarrow> schedule) \<Rightarrow> schedule \<Rightarrow> proxy_storage"
where
  "proxy_storage_of ext pq noStep st now inner outer =
     \<lparr>ps_client = state_client ext pq st now inner outer, ps_sgs = map group_view_of (px_sgs st), ps_NoStepSubqueryIntervalFn = noStep\<rparr>"

section \<open>Applying a configuration\<close>

text \<open>What may go wrong: creating a group, telling the running remote_write storage, opening a new one.\<close>

record reload =
  ro_NewServerGroup :: "nat \<Rightarrow> go_error option"
  ro_reconfigure :: "go_error option"
  ro_open :: "go_error option"

fun apply_groups :: "environment \<Rightarrow> reload \<Rightarrow> nat \<Rightarrow> server_group_config list \<Rightarrow> (server_group option \<times> go_error option) list" where
  "apply_groups env ro i [] = []"
| "apply_groups env ro i (c # cs) =
     (case ro_NewServerGroup ro i of
        Some err \<Rightarrow> (None, Some err)
      | None \<Rightarrow> (case ServerGroup_ApplyConfig env (c\<lparr>sc_Ordinal := i\<rparr>) NewServerGroup of (sg, err) \<Rightarrow> (Some sg, err)))
     # apply_groups env ro (i + 1) cs"

definition ServerGroup_Cancel :: "server_group \<Rightarrow> server_group" where
  "ServerGroup_Cancel sg = sg\<lparr>sg_done := True, sg_pending := None\<rparr>"

text \<open>\<open>proxyStorageState.Cancel\<close> on the groups; a group that was not created is a nil pointer.\<close>

definition cancel_groups :: "server_group option list \<Rightarrow> server_group list outcome" where
  "cancel_groups sgs =
     (if None \<in> set sgs then Panic nil_dereference else Ret (map (\<lambda>sg. ServerGroup_Cancel (the sg)) sgs))"

text \<open>
  \<open>ApplyConfig\<close> up to the wait for the groups: a new state, with the next unused handle, or an
  error, with the groups that were created for nothing.
\<close>

datatype reload_result =
    Reloading proxy_state nat
  | Refused go_error "server_group list"

definition groups_failed :: go_error where
  "groups_failed = OtherError ''error applying config to one or more server group(s)''"

definition remote_storage ::
  "reload \<Rightarrow> proxy_config \<Rightarrow> proxy_state \<Rightarrow> nat \<Rightarrow> go_error + (nat option \<times> nat)"
where
  "remote_storage ro c oldState fresh =
     (if \<not> pc_RemoteWrite c then Inr (None, fresh)
      else case px_remoteStorage oldState of
        Some r \<Rightarrow> (case ro_reconfigure ro of Some err \<Rightarrow> Inl err | None \<Rightarrow> Inr (Some r, fresh))
      | None \<Rightarrow> (case ro_open ro of Some err \<Rightarrow> Inl err | None \<Rightarrow> Inr (Some fresh, fresh + 1)))"

definition ApplyConfig ::
  "externals \<Rightarrow> promql \<Rightarrow> environment \<Rightarrow> reload \<Rightarrow> proxy_config \<Rightarrow> time \<Rightarrow> proxy_state \<Rightarrow> nat \<Rightarrow> reload_result outcome"
where
  "ApplyConfig ext pq env ro c now oldState fresh =
     (let rs = apply_groups env ro 0 (pc_ServerGroups c)
      in if list_ex (\<lambda>(_, err). err \<noteq> None) rs
         then omap (Refused groups_failed) (cancel_groups (map fst rs))
         else let sgs = map (the \<circ> fst) rs
              in case NewMultiAPI (group_apis ext pq sgs now (\<lambda>_. ([], None))) 0 False (int (length sgs)) False of
                   Inl err \<Rightarrow> Ret (Refused err sgs)
                 | Inr m \<Rightarrow>
                     (case remote_storage ro c oldState fresh of
                        Inl err \<Rightarrow> Ret (Refused err sgs)
                      | Inr (remote, fresh') \<Rightarrow>
                          Ret (Reloading \<lparr>px_sgs = sgs, px_cfg = Some c, px_multiAPI = Some m, px_remoteStorage = remote\<rparr> fresh')))"

text \<open>\<open>proxyStorageState.Ready\<close> returns once every group is ready.\<close>

definition state_Ready :: "proxy_state \<Rightarrow> bool" where
  "state_Ready st = list_all sg_Ready (px_sgs st)"

section \<open>The life of the storage\<close>

text \<open>
  The storage with its current state, the state that an \<open>ApplyConfig\<close> in progress waits for, the
  groups that no state holds any more, the handles that were closed and the next unused one.
\<close>

record proxy =
  pr_state :: proxy_state
  pr_pending :: "proxy_state option"
  pr_abandoned :: "server_group list"
  pr_closed :: "nat set"
  pr_fresh :: nat

definition NewProxyStorage :: proxy where
  "NewProxyStorage = \<lparr>pr_state = empty_state, pr_pending = None, pr_abandoned = [], pr_closed = {}, pr_fresh = 0\<rparr>"

text \<open>\<open>oldState.Cancel(newState)\<close>: the old groups are cancelled and the old storage is closed unless the new state reuses it.\<close>

definition install :: "proxy_state \<Rightarrow> proxy \<Rightarrow> proxy" where
  "install new p =
     p\<lparr>pr_state := new, pr_pending := None,
       pr_abandoned := map ServerGroup_Cancel (px_sgs (pr_state p)) @ pr_abandoned p,
       pr_closed := (case px_remoteStorage (pr_state p) of
           Some r \<Rightarrow> (if px_remoteStorage new = Some r then pr_closed p else insert r (pr_closed p))
         | None \<Rightarrow> pr_closed p)\<rparr>"

inductive proxy_step :: "externals \<Rightarrow> unicode \<Rightarrow> promql \<Rightarrow> environment \<Rightarrow> proxy \<Rightarrow> proxy \<Rightarrow> bool"
  for ext uc pq env
where
  reload: "pr_pending p = None \<Longrightarrow> ApplyConfig ext pq env ro c now (pr_state p) (pr_fresh p) = Ret (Reloading new fresh) \<Longrightarrow>
     proxy_step ext uc pq env p (p\<lparr>pr_pending := Some new, pr_fresh := fresh\<rparr>)"
| refuse: "pr_pending p = None \<Longrightarrow> ApplyConfig ext pq env ro c now (pr_state p) (pr_fresh p) = Ret (Refused err sgs) \<Longrightarrow>
     proxy_step ext uc pq env p (p\<lparr>pr_abandoned := sgs @ pr_abandoned p\<rparr>)"
| switch: "pr_pending p = Some new \<Longrightarrow> state_Ready new \<Longrightarrow> proxy_step ext uc pq env p (install new p)"
| group: "i < length (px_sgs (pr_state p)) \<Longrightarrow> sg_step ext uc pq env (px_sgs (pr_state p) ! i) sg \<Longrightarrow>
     proxy_step ext uc pq env p (p\<lparr>pr_state := (pr_state p)\<lparr>px_sgs := (px_sgs (pr_state p))[i := sg]\<rparr>\<rparr>)"
| new_group: "pr_pending p = Some new \<Longrightarrow> i < length (px_sgs new) \<Longrightarrow> sg_step ext uc pq env (px_sgs new ! i) sg \<Longrightarrow>
     proxy_step ext uc pq env p (p\<lparr>pr_pending := Some (new\<lparr>px_sgs := (px_sgs new)[i := sg]\<rparr>)\<rparr>)"

inductive proxy_reachable :: "externals \<Rightarrow> unicode \<Rightarrow> promql \<Rightarrow> environment \<Rightarrow> proxy \<Rightarrow> bool"
  for ext uc pq env
where
  start: "proxy_reachable ext uc pq env NewProxyStorage"
| step: "proxy_reachable ext uc pq env p \<Longrightarrow> proxy_step ext uc pq env p p' \<Longrightarrow> proxy_reachable ext uc pq env p'"

section \<open>Lemmas\<close>

inductive_cases proxy_stepE: "proxy_step ext uc pq env p p'"

text \<open>A configured state: reachable groups behind one client that requires an answer of each.\<close>

definition configured :: "externals \<Rightarrow> unicode \<Rightarrow> promql \<Rightarrow> environment \<Rightarrow> proxy_state \<Rightarrow> bool" where
  "configured ext uc pq env st \<longleftrightarrow> list_all (sg_reachable ext uc pq env) (px_sgs st) \<and> px_cfg st \<noteq> None \<and>
     (\<exists>m. px_multiAPI st = Some m \<and> ma_apiFingerprints m = replicate (length (px_sgs st)) 0 \<and>
        ma_requiredCount m = int (length (px_sgs st)))"

definition live_handle :: "proxy \<Rightarrow> nat option \<Rightarrow> bool" where
  "live_handle p h \<longleftrightarrow> (case h of None \<Rightarrow> True | Some r \<Rightarrow> r \<notin> pr_closed p \<and> r < pr_fresh p)"

definition proxy_ok :: "externals \<Rightarrow> unicode \<Rightarrow> promql \<Rightarrow> environment \<Rightarrow> proxy \<Rightarrow> bool" where
  "proxy_ok ext uc pq env p \<longleftrightarrow>
     (pr_state p = empty_state \<or> configured ext uc pq env (pr_state p) \<and> state_Ready (pr_state p)) \<and>
     (\<forall>new. pr_pending p = Some new \<longrightarrow> configured ext uc pq env new \<and> live_handle p (px_remoteStorage new)) \<and>
     live_handle p (px_remoteStorage (pr_state p)) \<and> pr_closed p \<subseteq> {..<pr_fresh p}"

lemma apply_groups_reachable:
  assumes "(Some sg, err) \<in> set (apply_groups env ro i cs)"
  shows "sg_reachable ext uc pq env sg"
  using assms
proof (induction cs arbitrary: i)
  case (Cons c cs)
  let ?r = "ServerGroup_ApplyConfig env (c\<lparr>sc_Ordinal := i\<rparr>) NewServerGroup"
  have "sg = fst ?r \<or> (Some sg, err) \<in> set (apply_groups env ro (i + 1) cs)"
    using Cons.prems by (cases ?r) (auto split: option.splits)
  with Cons.IH show ?case using sg_reachable.step [OF sg_reachable.start sg_step.apply_config] by metis
qed simp

lemma apply_groups_created: "(None, err) \<in> set (apply_groups env ro i cs) \<Longrightarrow> err \<noteq> None"
  by (induction cs arbitrary: i) (auto split: option.splits prod.splits)

lemma group_apis_keyless: "map api_fingerprint (group_apis ext pq sgs now inner) = replicate (length sgs) 0"
  by (intro replicate_eqI) (auto simp: group_apis_def ServerGroup_api_def api_fingerprint_def labels_key_def Let_def)

lemma length_group_apis [simp]: "length (group_apis ext pq sgs now inner) = length sgs"
  by (simp add: group_apis_def)

lemma groups_multiAPI:
  "\<exists>m. NewMultiAPI (group_apis ext pq sgs now inner) 0 False (int (length sgs)) False = Inr m \<and>
     ma_apiFingerprints m = replicate (length sgs) 0 \<and> ma_requiredCount m = int (length sgs)"
proof -
  have "count_list (replicate n x) x = n" for n and x :: fingerprint by (induction n) auto
  then show ?thesis by (auto simp: NewMultiAPI_def Let_def group_apis_keyless list_ex_iff)
qed

lemma ApplyConfig_Reloading:
  assumes "ApplyConfig ext pq env ro c now old fresh = Ret (Reloading new fresh')"
  shows "configured ext uc pq env new \<and> px_cfg new = Some c \<and> length (px_sgs new) = length (pc_ServerGroups c) \<and>
    remote_storage ro c old fresh = Inr (px_remoteStorage new, fresh')"
proof -
  let ?rs = "apply_groups env ro 0 (pc_ServerGroups c)"
  let ?sgs = "map (the \<circ> fst) ?rs"
  have len: "length (apply_groups env ro i cs) = length cs" for i cs by (induction cs arbitrary: i) auto
  have ok: "\<not> list_ex (\<lambda>(_, err). err \<noteq> None) ?rs"
    using assms by (auto simp: ApplyConfig_def Let_def omap_eq_Ret split: if_splits)
  have "sg_reachable ext uc pq env sg" if "sg \<in> set ?sgs" for sg
  proof -
    obtain o' err where r: "(o', err) \<in> set ?rs" "sg = the o'" using \<open>sg \<in> set ?sgs\<close> by auto
    with ok have "err = None" by (auto simp: list_ex_iff)
    with r apply_groups_created obtain sg' where "o' = Some sg'" by (cases o') blast+
    with r show ?thesis using apply_groups_reachable by auto
  qed
  moreover obtain m where "NewMultiAPI (group_apis ext pq ?sgs now (\<lambda>_. ([], None))) 0 False (int (length ?sgs)) False = Inr m"
    "ma_apiFingerprints m = replicate (length ?sgs) 0" "ma_requiredCount m = int (length ?sgs)"
    using groups_multiAPI by blast
  ultimately show ?thesis
    using assms ok by (auto simp: ApplyConfig_def Let_def configured_def list_all_iff len split: sum.splits prod.splits)
qed

lemma live_handle_simps [simp]:
  "live_handle (p\<lparr>pr_abandoned := a\<rparr>) h = live_handle p h" "live_handle (p\<lparr>pr_pending := q\<rparr>) h = live_handle p h"
  "live_handle (p\<lparr>pr_state := st\<rparr>) h = live_handle p h"
  by (cases h; simp add: live_handle_def)+

lemma remote_storage_handle:
  assumes "remote_storage ro c (pr_state p) (pr_fresh p) = Inr (h, fresh')" "live_handle p (px_remoteStorage (pr_state p))" "pr_closed p \<subseteq> {..<pr_fresh p}"
  shows "pr_fresh p \<le> fresh' \<and> live_handle (p\<lparr>pr_fresh := fresh'\<rparr>) h"
  using assms by (auto simp: remote_storage_def live_handle_def split: if_splits option.splits)

lemma configured_step:
  assumes "configured ext uc pq env st" "i < length (px_sgs st)" "sg_step ext uc pq env (px_sgs st ! i) sg"
  shows "configured ext uc pq env (st\<lparr>px_sgs := (px_sgs st)[i := sg]\<rparr>)"
proof -
  have "sg_reachable ext uc pq env sg"
    using assms by (auto simp: configured_def list_all_length intro: sg_reachable.step)
  with assms(1) show ?thesis by (auto simp: configured_def list_all_iff dest!: set_update_subset_insert [THEN subsetD])
qed

lemma state_Ready_step:
  assumes "configured ext uc pq env st" "state_Ready st" "i < length (px_sgs st)" "sg_step ext uc pq env (px_sgs st ! i) sg"
  shows "state_Ready (st\<lparr>px_sgs := (px_sgs st)[i := sg]\<rparr>)"
proof -
  have "sg_Ready sg"
    using assms by (intro sg_Ready_step [OF assms(4)]) (auto simp: configured_def state_Ready_def list_all_length)
  with assms(2) show ?thesis by (auto simp: state_Ready_def list_all_iff dest!: set_update_subset_insert [THEN subsetD])
qed

lemma proxy_ok_install:
  assumes "proxy_ok ext uc pq env p" "pr_pending p = Some new" "state_Ready new"
  shows "proxy_ok ext uc pq env (install new p)"
  using assms by (auto simp: proxy_ok_def install_def live_handle_def split: option.splits if_splits)

lemma proxy_ok_step: "proxy_step ext uc pq env p p' \<Longrightarrow> proxy_ok ext uc pq env p \<Longrightarrow> proxy_ok ext uc pq env p'"
proof (erule proxy_stepE, goal_cases)
  case (1 ro c now new fresh)
  then have live: "live_handle p (px_remoteStorage (pr_state p))" "pr_closed p \<subseteq> {..<pr_fresh p}" by (auto simp: proxy_ok_def)
  from ApplyConfig_Reloading [OF 1(4), of uc] have new: "configured ext uc pq env new"
    "remote_storage ro c (pr_state p) (pr_fresh p) = Inr (px_remoteStorage new, fresh)" by auto
  from remote_storage_handle [OF new(2) live] new(1) 1 live show ?case
    by (auto simp: proxy_ok_def live_handle_def split: option.splits)
next
  case (2 ro c now err sgs)
  then show ?case by (simp add: proxy_ok_def)
next
  case (3 new)
  then show ?case using proxy_ok_install by simp
next
  case (4 i sg)
  then have "configured ext uc pq env (pr_state p)" "state_Ready (pr_state p)"
    by (auto simp: proxy_ok_def empty_state_def)
  with 4 configured_step state_Ready_step show ?case by (simp add: proxy_ok_def)
next
  case (5 new i sg)
  then have "configured ext uc pq env (new\<lparr>px_sgs := (px_sgs new)[i := sg]\<rparr>)" by (auto simp: proxy_ok_def intro: configured_step)
  with 5 show ?case by (simp add: proxy_ok_def)
qed

lemma proxy_reachable_ok: "proxy_reachable ext uc pq env p \<Longrightarrow> proxy_ok ext uc pq env p"
  by (induction rule: proxy_reachable.induct)
     (simp add: NewProxyStorage_def proxy_ok_def live_handle_def empty_state_def, rule proxy_ok_step)

text \<open>The label sets that a series set names; a merge names those of the sets it merges.\<close>

definition label_sets :: "series_set \<Rightarrow> labelset set" where
  "label_sets ss = sr_labels ` set (ss_series ss)"

lemma MergeSeriesSets_labels:
  assumes "\<forall>s\<in>set sets. ss_err s = None \<and> labels_distinct s"
  shows "\<exists>ss. MergeSeriesSets ext aa dyn pm sets = Ret ss \<and> ss_err ss = None \<and> labels_distinct ss \<and>
    label_sets ss = (\<Union>s\<in>set sets. label_sets s)"
proof -
  consider "sets = []" | s where "sets = [s]" | "sets \<noteq> []" "length sets \<noteq> 1"
    by (cases sets; cases "tl sets") auto
  then show ?thesis
  proof cases
    case 3
    then have "2 \<le> length sets" by (cases sets; cases "tl sets") auto
    then obtain out w where out: "MergeSeriesSets ext aa dyn pm sets = Ret (NewSeriesSet out w None)"
      "merge_of (mergeAntiAffinity ext aa dyn pm) (series_of (map ss_series sets)) out"
      using MergeSeriesSets_merge_of [OF _ assms] by blast
    from out(2) set_series_of [of sets] have "sr_labels ` set out = (\<Union>s\<in>set sets. label_sets s)"
      by (auto simp: merge_of_def label_sets_def)
    moreover have "distinct (map sr_labels out)" using out(2) by (auto simp: merge_of_def strict_sorted_iff)
    ultimately show ?thesis using out(1) by (simp add: label_sets_def labels_distinct_def NewSeriesSet_def)
  qed (use assms in \<open>auto simp: MergeSeriesSets_def label_sets_def labels_distinct_def NewSeriesSet_def\<close>)
qed

lemma scatterMerge_labels:
  assumes "multi_ok m" "\<forall>i<length (ma_apis m). call (ma_apis m ! i) = Ret (vs i)"
    and "\<forall>i<length (ma_apis m). ss_err (vs i) = None \<longrightarrow> labels_distinct (vs i)"
  shows "\<exists>ss. scatterMerge ext m call (order, None) = Ret ss \<and> labels_distinct ss \<and>
    (ss_err ss = None \<longleftrightarrow> quorum m (\<lambda>i. set_answer (vs i))) \<and>
    label_sets ss = (if quorum m (\<lambda>i. set_answer (vs i)) then \<Union>i\<in>{i. i < length (ma_apis m) \<and> ss_err (vs i) = None}. label_sets (vs i) else {})"
proof (cases "quorum m (\<lambda>i. set_answer (vs i))")
  case True
  let ?sets = "map vs (filter (\<lambda>i. ss_err (vs i) = None) [0..<length (ma_apis m)])"
  have "\<forall>s\<in>set ?sets. ss_err s = None \<and> labels_distinct s" using assms(3) by auto
  from MergeSeriesSets_labels [OF this, of ext "ma_antiAffinity m" "ma_antiAffinityDynamic m" "ma_preferMax m"]
  obtain ss where ss: "MergeSeriesSets ext (ma_antiAffinity m) (ma_antiAffinityDynamic m) (ma_preferMax m) ?sets = Ret ss"
    "ss_err ss = None" "labels_distinct ss" "label_sets ss = (\<Union>s\<in>set ?sets. label_sets s)" by blast
  obtain w where "scatterMerge ext m call (order, None) = Ret (WithWarnings ss w)"
    using scatterMerge_quorum [OF assms(1,2) True, of ext order] ss(1) by auto
  with ss True show ?thesis by (auto simp: WithWarnings_def label_sets_def labels_distinct_def)
next
  case False
  from scatterMerge_no_quorum [OF assms(1,2) False] False show ?thesis
    by (fastforce simp: NewSeriesSet_def label_sets_def labels_distinct_def)
qed

text \<open>The answer of one group, given the answers of its targets.\<close>

definition group_answers :: "server_group_state \<Rightarrow> (nat \<Rightarrow> series_set) \<Rightarrow> bool" where
  "group_answers st vs \<longleftrightarrow> sc_IgnoreError (st_cfg st) \<or> sc_DowngradeError (st_cfg st) \<or>
     st_clients st = [] \<or> (\<exists>j<length (st_clients st). ss_err (vs j) = None)"

definition answered_labels :: "server_group_state \<Rightarrow> (nat \<Rightarrow> series_set) \<Rightarrow> labelset set" where
  "answered_labels st vs = (\<Union>j\<in>{j. j < length (st_clients st) \<and> ss_err (vs j) = None}. label_sets (vs j))"

lemma ServerGroup_Query_labels:
  assumes "state_ok st" "sg_state sg = Some st"
    and "\<forall>j<length (st_clients st). Query (target_api ext pq (st_cfg st) now (st_clients st ! j)) q ts = Ret (vs j) \<and>
      (ss_err (vs j) = None \<longrightarrow> labels_distinct (vs j))"
  shows "\<exists>ss. Query (ServerGroup_api ext pq sg now (order, None)) q ts = Ret ss \<and> labels_distinct ss \<and>
    (ss_err ss = None \<longleftrightarrow> group_answers st vs) \<and> label_sets ss = answered_labels st vs"
proof -
  let ?m = "state_multiAPI ext pq st now"
  have apis: "ma_apis ?m = map (target_api ext pq (st_cfg st) now) (st_clients st)" by (simp add: state_multiAPI_def)
  have "\<forall>i<length (ma_apis ?m). Query (ma_apis ?m ! i) q ts = Ret (vs i)"
    "\<forall>i<length (ma_apis ?m). ss_err (vs i) = None \<longrightarrow> labels_distinct (vs i)"
    using assms(3) by (simp_all add: apis)
  from scatterMerge_labels [OF state_multi_ok(1) [OF assms(1)], where call = "\<lambda>a. Query a q ts", OF this, of ext order]
  obtain ss where ss: "scatterMerge ext ?m (\<lambda>a. Query a q ts) (order, None) = Ret ss" "labels_distinct ss"
    "ss_err ss = None \<longleftrightarrow> quorum ?m (\<lambda>i. set_answer (vs i))"
    "label_sets ss = (if quorum ?m (\<lambda>i. set_answer (vs i)) then \<Union>i\<in>{i. i < length (ma_apis ?m) \<and> ss_err (vs i) = None}. label_sets (vs i) else {})"
    by (elim exE conjE)
  from state_apiClient_Query [OF ss(1)] obtain ss' where ss': "Query (state_apiClient ext pq st now (order, None)) q ts = Ret ss'"
    "ss_series ss' = ss_series ss" "ss_err ss' = None \<longleftrightarrow> sc_IgnoreError (st_cfg st) \<or> sc_DowngradeError (st_cfg st) \<or> ss_err ss = None"
    by (elim exE conjE)
  have q: "quorum ?m (\<lambda>i. set_answer (vs i)) \<longleftrightarrow> st_clients st = [] \<or> (\<exists>j<length (st_clients st). ss_err (vs j) = None)"
    unfolding state_multi_ok(2) [OF assms(1)] by (simp add: set_answer_def)
  have "label_sets ss' = answered_labels st vs"
    using ss(4) q ss'(2) by (auto simp: label_sets_def answered_labels_def apis)
  moreover have "ss_err ss' = None \<longleftrightarrow> group_answers st vs" using ss'(3) ss(3) q by (auto simp: group_answers_def)
  moreover have "labels_distinct ss'" using ss(2) ss'(2) by (simp add: labels_distinct_def)
  moreover have "Query (ServerGroup_api ext pq sg now (order, None)) q ts = Ret ss'"
    using ss'(1) assms(2) by (simp add: ServerGroup_api_def with_state_def)
  ultimately show ?thesis by (intro exI [of _ ss'] conjI)
qed

lemma configured_groups:
  assumes "configured ext uc pq env st" "state_Ready st" "i < length (px_sgs st)"
  shows "\<exists>s. sg_state (px_sgs st ! i) = Some s \<and> state_ok s"
proof -
  have "sg_ok (px_sgs st ! i)" "sg_Ready (px_sgs st ! i)"
    using assms sg_reachable_ok by (auto simp: configured_def state_Ready_def list_all_length)
  then show ?thesis by (auto simp: sg_ok_def)
qed

text \<open>The answer of the client over all groups, given the answers of the targets.\<close>

lemma state_client_Query:
  assumes "configured ext uc pq env st" "state_Ready st"
    and "\<forall>i<length (px_sgs st). sg_state (px_sgs st ! i) = Some (gs i)"
    and "\<forall>i<length (px_sgs st). \<forall>j<length (st_clients (gs i)).
      Query (target_api ext pq (st_cfg (gs i)) now (st_clients (gs i) ! j)) q (time_Truncate ts truncateDuration) = Ret (vs i j) \<and>
      (ss_err (vs i j) = None \<longrightarrow> labels_distinct (vs i j))"
  shows "\<exists>ss. Query (state_client ext pq st now (\<lambda>i. (inner i, None)) (outer, None)) q ts = Ret ss \<and> labels_distinct ss \<and>
    (ss_err ss = None \<longleftrightarrow> (\<forall>i<length (px_sgs st). group_answers (gs i) (vs i))) \<and>
    (ss_err ss = None \<longrightarrow> label_sets ss = (\<Union>i<length (px_sgs st). answered_labels (gs i) (vs i)))"
proof -
  let ?n = "length (px_sgs st)" and ?ts = "time_Truncate ts truncateDuration"
  let ?apis = "group_apis ext pq (px_sgs st) now (\<lambda>i. (inner i, None))"
  obtain m where m: "px_multiAPI st = Some m" "ma_apiFingerprints m = replicate ?n 0" "ma_requiredCount m = int ?n"
    using assms(1) by (auto simp: configured_def)
  let ?m = "m\<lparr>ma_apis := ?apis\<rparr>"
  have count: "count_list (replicate n x) x = n" for n and x :: fingerprint by (induction n) auto
  have mok: "multi_ok ?m" using m by (auto simp: multi_ok_def count)
  have "\<forall>i<?n. \<exists>ss. Query (?apis ! i) q ?ts = Ret ss \<and> labels_distinct ss \<and>
      (ss_err ss = None \<longleftrightarrow> group_answers (gs i) (vs i)) \<and> label_sets ss = answered_labels (gs i) (vs i)"
  proof (intro allI impI)
    fix i assume i: "i < ?n"
    then have gi: "sg_state (px_sgs st ! i) = Some (gs i)" "state_ok (gs i)"
      using assms(3) configured_groups [OF assms(1,2) i] by auto
    have "Query (?apis ! i) q ?ts = Query (ServerGroup_api ext pq (px_sgs st ! i) now (inner i, None)) q ?ts"
      using i by (simp add: group_apis_def)
    with ServerGroup_Query_labels [OF gi(2,1), of ext pq now q ?ts "vs i" "inner i"] assms(4) i
    show "\<exists>ss. Query (?apis ! i) q ?ts = Ret ss \<and> labels_distinct ss \<and>
        (ss_err ss = None \<longleftrightarrow> group_answers (gs i) (vs i)) \<and> label_sets ss = answered_labels (gs i) (vs i)" by simp
  qed
  then obtain ws where ws: "\<forall>i<?n. Query (?apis ! i) q ?ts = Ret (ws i) \<and> labels_distinct (ws i) \<and>
      (ss_err (ws i) = None \<longleftrightarrow> group_answers (gs i) (vs i)) \<and> label_sets (ws i) = answered_labels (gs i) (vs i)"
    by metis
  have "\<forall>i<length (ma_apis ?m). Query (ma_apis ?m ! i) q ?ts = Ret (ws i)"
    "\<forall>i<length (ma_apis ?m). ss_err (ws i) = None \<longrightarrow> labels_distinct (ws i)" using ws by simp_all
  from scatterMerge_labels [OF mok, where call = "\<lambda>a. Query a q ?ts", OF this, of ext outer]
  obtain ss where ss: "scatterMerge ext ?m (\<lambda>a. Query a q ?ts) (outer, None) = Ret ss" "labels_distinct ss"
    "ss_err ss = None \<longleftrightarrow> quorum ?m (\<lambda>i. set_answer (ws i))"
    "label_sets ss = (if quorum ?m (\<lambda>i. set_answer (ws i)) then \<Union>i\<in>{i. i < length (ma_apis ?m) \<and> ss_err (ws i) = None}. label_sets (ws i) else {})"
    by (elim exE conjE)
  have quorum: "quorum ?m (\<lambda>i. set_answer (ws i)) \<longleftrightarrow> (\<forall>i<?n. ss_err (ws i) = None)"
    using keyless_quorum [of ?m "\<lambda>i. set_answer (ws i)"] m by (auto simp: all_of set_answer_def group_apis_def)
  with ss(3) ws have ok: "ss_err ss = None \<longleftrightarrow> (\<forall>i<?n. group_answers (gs i) (vs i))" by auto
  moreover have "label_sets ss = (\<Union>i<?n. answered_labels (gs i) (vs i))" if "ss_err ss = None"
    using that ss(3,4) quorum ws by auto
  moreover have "Query (state_client ext pq st now (\<lambda>i. (inner i, None)) (outer, None)) q ts = Ret ss"
    using ss(1) m(1) by (simp add: state_client_def TimeTruncate_def MultiAPI_api_def MultiAPI_Query_def)
  ultimately show ?thesis using ss(2) by (intro exI [of _ ss] conjI impI)
qed

section \<open>Properties\<close>

text \<open>
  C7. The life of the storage: in every reachable state the storage either has no configuration
  yet or every group of its configuration is ready, so that no query dereferences a nil client
  or a nil group state; a reload never takes an installed configuration away, also while it
  waits for the new groups; the remote_write storage that the current state, or the state
  being waited for, appends to is never closed; and a switch closes the old one exactly when
  the new state does not reuse it.
\<close>

theorem proxy_reachable_invariant:
  assumes "proxy_reachable ext uc pq env p"
  shows "(px_cfg (pr_state p) \<noteq> None \<longrightarrow> px_multiAPI (pr_state p) \<noteq> None \<and> list_all (\<lambda>sg. sg_state sg \<noteq> None) (px_sgs (pr_state p))) \<and>
    (\<forall>p'. proxy_step ext uc pq env p p' \<longrightarrow> px_cfg (pr_state p) \<noteq> None \<longrightarrow> px_cfg (pr_state p') \<noteq> None) \<and>
    (\<forall>r. px_remoteStorage (pr_state p) = Some r \<longrightarrow> r \<notin> pr_closed p) \<and>
    (\<forall>new r. pr_pending p = Some new \<longrightarrow> px_remoteStorage new = Some r \<longrightarrow> r \<notin> pr_closed p) \<and>
    (\<forall>new r. px_remoteStorage (pr_state p) = Some r \<longrightarrow> (r \<in> pr_closed (install new p) \<longleftrightarrow> px_remoteStorage new \<noteq> Some r))"
proof -
  have ok: "proxy_ok ext uc pq env p" by (rule proxy_reachable_ok [OF assms])
  have "px_multiAPI (pr_state p) \<noteq> None \<and> list_all (\<lambda>sg. sg_state sg \<noteq> None) (px_sgs (pr_state p))" if "px_cfg (pr_state p) \<noteq> None"
  proof -
    have c: "configured ext uc pq env (pr_state p)" "state_Ready (pr_state p)" using ok that by (auto simp: proxy_ok_def empty_state_def)
    then show ?thesis using configured_groups [OF c] by (auto simp: configured_def list_all_length)
  qed
  moreover have "px_cfg (pr_state p') \<noteq> None" if "proxy_step ext uc pq env p p'" "px_cfg (pr_state p) \<noteq> None" for p'
    using that(1) by cases (use that(2) ok in \<open>auto simp: install_def proxy_ok_def configured_def\<close>)
  moreover have "r \<notin> pr_closed p" if "px_remoteStorage (pr_state p) = Some r" for r
    using ok that by (auto simp: proxy_ok_def live_handle_def)
  moreover have "r \<notin> pr_closed p" if "pr_pending p = Some new" "px_remoteStorage new = Some r" for new r
    using ok that by (auto simp: proxy_ok_def live_handle_def)
  ultimately show ?thesis by (auto simp: install_def)
qed

text \<open>
  A configuration that is refused because remote_write cannot be set up leaves the new groups
  running, and a group that cannot be created makes the clean-up panic.
\<close>

lemma refused_reload_leaks:
  assumes "apply_groups env ro 0 (pc_ServerGroups c) = map (\<lambda>sg. (Some sg, None)) sgs" "pc_RemoteWrite c"
    and "px_remoteStorage old = None" "ro_open ro = Some err"
  shows "ApplyConfig ext pq env ro c now old fresh = Ret (Refused err sgs)"
  using assms groups_multiAPI [of ext pq sgs now "\<lambda>_. ([], None)"]
  by (auto simp: ApplyConfig_def Let_def list_ex_iff remote_storage_def comp_def)

lemma failed_group_panics:
  assumes "pc_ServerGroups c \<noteq> []" "ro_NewServerGroup ro 0 = Some err"
  shows "ApplyConfig ext pq env ro c now old fresh = Panic nil_dereference"
  using assms by (cases "pc_ServerGroups c") (auto simp: ApplyConfig_def Let_def cancel_groups_def)

text \<open>For the witnesses: a storage with the group of two targets, once it is loaded.\<close>

definition fresh_group :: server_group where
  "fresh_group = NewServerGroup\<lparr>sg_client := True, sg_cfg := Some plain_cfg\<rparr>"

definition plain_pxstate :: "server_group \<Rightarrow> proxy_state" where
  "plain_pxstate sg = \<lparr>px_sgs = [sg], px_cfg = Some \<lparr>pc_ServerGroups = [plain_cfg], pc_RemoteWrite = True\<rparr>,
     px_multiAPI = Some \<lparr>ma_apis = group_apis example_ext up_pq [fresh_group] 0 (\<lambda>_. ([], None)), ma_apiFingerprints = [0],
       ma_antiAffinity = 0, ma_antiAffinityDynamic = False, ma_requiredCount = 1, ma_preferMax = False, ma_metadataRotation = 0\<rparr>,
     px_remoteStorage = Some 0\<rparr>"

definition plain_proxy :: proxy where
  "plain_proxy = \<lparr>pr_state = plain_pxstate plain_group, pr_pending = None, pr_abandoned = [], pr_closed = {}, pr_fresh = 1\<rparr>"

lemma plain_apply: "ApplyConfig example_ext up_pq plain_env \<lparr>ro_NewServerGroup = \<lambda>_. None, ro_reconfigure = None, ro_open = None\<rparr>
    \<lparr>pc_ServerGroups = [plain_cfg], pc_RemoteWrite = True\<rparr> 0 empty_state 0 = Ret (Reloading (plain_pxstate fresh_group) 1)"
proof -
  have cfg: "plain_cfg\<lparr>sc_Ordinal := 0\<rparr> = plain_cfg" by (simp add: plain_cfg_def)
  have sg: "ServerGroup_ApplyConfig plain_env plain_cfg NewServerGroup = (fresh_group, None)"
    by (simp add: ServerGroup_ApplyConfig_def plain_env_def plain_cfg_def fresh_group_def)
  show ?thesis
    using group_apis_keyless [of example_ext up_pq "[fresh_group]" 0 "\<lambda>_. ([], None)"]
    by (simp add: ApplyConfig_def cfg sg NewMultiAPI_def Let_def remote_storage_def empty_state_def plain_pxstate_def)
qed

lemma plain_proxy_reachable: "proxy_reachable example_ext ascii_only up_pq plain_env plain_proxy"
proof -
  let ?p = "\<lambda>sg. NewProxyStorage\<lparr>pr_pending := Some (plain_pxstate sg), pr_fresh := 1\<rparr>"
  have "proxy_reachable example_ext ascii_only up_pq plain_env (?p fresh_group)"
    by (rule proxy_reachable.step [OF proxy_reachable.start proxy_step.reload])
       (simp add: NewProxyStorage_def, unfold NewProxyStorage_def proxy.select_convs, rule plain_apply)
  moreover have "sg_step example_ext ascii_only up_pq plain_env fresh_group plain_group"
    unfolding fresh_group_def by (rule plain_group_step)
  then have "proxy_step example_ext ascii_only up_pq plain_env (?p fresh_group) (?p plain_group)"
    using proxy_step.new_group [of "?p fresh_group" "plain_pxstate fresh_group" 0 example_ext ascii_only up_pq plain_env plain_group]
    by (simp add: plain_pxstate_def NewProxyStorage_def)
  moreover have "proxy_step example_ext ascii_only up_pq plain_env (?p plain_group) plain_proxy"
    using proxy_step.switch [of "?p plain_group" "plain_pxstate plain_group" example_ext ascii_only up_pq plain_env]
    by (simp add: plain_pxstate_def NewProxyStorage_def state_Ready_def plain_group_def install_def empty_state_def plain_proxy_def)
  ultimately show ?thesis by (metis proxy_reachable.step)
qed

theorem proxy_reachable_invariant_witness:
  "px_multiAPI (pr_state plain_proxy) \<noteq> None \<and> 0 \<notin> pr_closed plain_proxy \<and> 0 \<in> pr_closed (install empty_state plain_proxy)"
  using proxy_reachable_invariant [OF plain_proxy_reachable] by (simp add: plain_proxy_def plain_pxstate_def empty_state_def)

end
