(* ===== verification/Promxy_Querier.thy ===== *)
theory Promxy_Querier
  imports Promxy_Storage
begin

text \<open>
  The read side that the PromQL engine and the HTTP handlers of Prometheus use: \<open>ProxyQuerier\<close>
  (\<open>src/pkg/proxyquerier/querier.go\<close>), the exemplar querier
  (\<open>src/pkg/proxystorage/exemplar_querier.go\<close>) and the metadata handler of \<open>ProxyStorage\<close>. The
  client is any API; \<open>state_client\<close> is the one of the storage.
\<close>

section \<open>Select\<close>

record select_hints =
  sh_Start :: int
  sh_End :: int
  sh_Func :: string

record proxy_querier =
  pqr_Start :: time
  pqr_End :: time
  pqr_Client :: api

text \<open>\<open>ProxyStorage.Querier\<close>.\<close>

definition Querier :: "api \<Rightarrow> int \<Rightarrow> int \<Rightarrow> proxy_querier" where
  "Querier client mint maxt = \<lparr>pqr_Start = timestamp_Time mint, pqr_End = timestamp_Time maxt, pqr_Client = client\<rparr>"

definition series_of_labels :: "labelset list \<Rightarrow> series list" where
  "series_of_labels ls = map (\<lambda>l. NewSeries l []) ls"

definition select_series :: "promql \<Rightarrow> proxy_querier \<Rightarrow> bool \<Rightarrow> matcher list \<Rightarrow> series_set outcome" where
  "select_series pq h sortSeries matchers =
     omap (\<lambda>(labelsets, w, err).
       if err \<noteq> None then NewSeriesSet [] (WarningsConvert w) err
       else NewSeriesSet ((if sortSeries then sort_key sr_labels else id) (series_of_labels labelsets)) (WarningsConvert w) None)
       (Series (pqr_Client h) [MatcherToString pq matchers] (pqr_Start h) (pqr_End h))"

definition Select :: "promql \<Rightarrow> proxy_querier \<Rightarrow> bool \<Rightarrow> select_hints option \<Rightarrow> matcher list \<Rightarrow> series_set outcome" where
  "Select pq h sortSeries hints matchers =
     (case hints of
        None \<Rightarrow> select_series pq h sortSeries matchers
      | Some hi \<Rightarrow>
          if sh_Func hi = ''series'' then select_series pq h sortSeries matchers
          else omap (\<lambda>ss. if sortSeries then SortSeriesSet ss else ss)
                 (GetValue (pqr_Client h) (timestamp_Time (sh_Start hi)) (timestamp_Time (sh_End hi)) matchers))"

definition matcher_strings :: "promql \<Rightarrow> matcher list \<Rightarrow> string list" where
  "matcher_strings pq matchers = (if matchers = [] then [] else [MatcherToString pq matchers])"

definition Querier_LabelValues ::
  "promql \<Rightarrow> proxy_querier \<Rightarrow> string \<Rightarrow> matcher list \<Rightarrow> (string list \<times> annotations \<times> go_error option) outcome"
where
  "Querier_LabelValues pq h name matchers =
     omap (\<lambda>(result, w, err). if err \<noteq> None then ([], WarningsConvert w, err) else (nilable result, WarningsConvert w, None))
       (LabelValues (pqr_Client h) name (matcher_strings pq matchers) (pqr_Start h) (pqr_End h))"

definition Querier_LabelNames ::
  "promql \<Rightarrow> proxy_querier \<Rightarrow> matcher list \<Rightarrow> (string list \<times> annotations \<times> go_error option) outcome"
where
  "Querier_LabelNames pq h matchers =
     omap (\<lambda>(v, w, err). (v, WarningsConvert w, err))
       (LabelNames (pqr_Client h) (matcher_strings pq matchers) (pqr_Start h) (pqr_End h))"

section \<open>Exemplars\<close>

text \<open>
  \<open>hash\<close> is \<open>Labels.Hash\<close>; \<open>ext_LabelString\<close> prints labels as \<open>Labels.String\<close>. The map from hashes
  is kept in the order of its keys: the result is sorted before it is returned.
\<close>

type_synonym hashed_exemplars = "(64 word, exemplar_result) smap"

definition collect_exemplars :: "externals \<Rightarrow> (labelset \<Rightarrow> 64 word) \<Rightarrow> exemplar_result \<Rightarrow> hashed_exemplars \<Rightarrow> hashed_exemplars" where
  "collect_exemplars ext hash r merged =
     (let fp = hash (er_SeriesLabels r);
          existing = (case map_of merged fp of Some x \<Rightarrow> x | None \<Rightarrow> \<lparr>er_SeriesLabels = er_SeriesLabels r, er_Exemplars = []\<rparr>)
      in smap_put fp (existing\<lparr>er_Exemplars := foldl (add_exemplar ext) (er_Exemplars existing) (er_Exemplars r)\<rparr>) merged)"

fun query_selectors ::
  "externals \<Rightarrow> promql \<Rightarrow> (labelset \<Rightarrow> 64 word) \<Rightarrow> api \<Rightarrow> time \<Rightarrow> time \<Rightarrow> matcher list list \<Rightarrow> hashed_exemplars \<Rightarrow>
   (go_error + hashed_exemplars) outcome"
where
  "query_selectors ext pq hash client startT endT [] merged = Ret (Inr merged)"
| "query_selectors ext pq hash client startT endT (ms # mss) merged =
     obind (QueryExemplars client (MatcherToString pq ms) startT endT) (\<lambda>(v, err).
       case err of
         Some e \<Rightarrow> Ret (Inl e)
       | None \<Rightarrow> query_selectors ext pq hash client startT endT mss (fold (collect_exemplars ext hash) v merged))"

definition exemplar_Select ::
  "externals \<Rightarrow> promql \<Rightarrow> (labelset \<Rightarrow> 64 word) \<Rightarrow> api \<Rightarrow> int \<Rightarrow> int \<Rightarrow> matcher list list \<Rightarrow> (go_error + exemplar_result list) outcome"
where
  "exemplar_Select ext pq hash client start stop matchers =
     omap (map_sum id (\<lambda>merged. sort_key er_SeriesLabels
         (map (\<lambda>(_, r). r\<lparr>er_Exemplars := SortExemplars ext (er_Exemplars r)\<rparr>) merged)))
       (query_selectors ext pq hash client (timestamp_Time start) (timestamp_Time stop) matchers [])"

section \<open>Metadata\<close>

definition trimMetadataToLimit :: "(string, metadata list) smap \<Rightarrow> int \<Rightarrow> (string, metadata list) smap" where
  "trimMetadataToLimit metadata limit =
     (let limit = (if limit < 0 then 0 else limit)
      in if int (length metadata) \<le> limit then metadata
         else let names = sort (map fst metadata)
              in filter (\<lambda>(name, _). name \<notin> set (drop (nat limit) names)) metadata)"

text \<open>The answer of the handler: a bad limit, the error of the lookup, or the entries. \<open>atoi\<close> is \<open>strconv.Atoi\<close>.\<close>

datatype metadata_response =
    BadLimit go_error
  | MetadataError string
  | MetadataSuccess "(string, metadata list) smap option"

definition MetadataHandler :: "(string \<Rightarrow> go_error + int) \<Rightarrow> api \<Rightarrow> string \<Rightarrow> string \<Rightarrow> metadata_response outcome" where
  "MetadataHandler atoi client metric limit =
     (case (if limit = [] then Inr None else map_sum id Some (atoi limit)) of
        Inl err \<Rightarrow> Ret (BadLimit err)
      | Inr n \<Rightarrow>
          omap (\<lambda>(md, err).
            let md = (case n of None \<Rightarrow> md | Some i \<Rightarrow> map_option (\<lambda>m. trimMetadataToLimit m i) md)
            in case err of Some e \<Rightarrow> MetadataError (error_string e) | None \<Rightarrow> MetadataSuccess md)
            (Metadata client metric limit))"

section \<open>Lemmas\<close>

lemma trim_take:
  assumes "smap_ok m"
  shows "trimMetadataToLimit m limit = take (nat limit) m"
proof -
  define k where "k = nat (if limit < 0 then 0 else limit)"
  have names: "sort (map fst m) = map fst m" using assms by (simp add: smap_ok_def sorted_sort_id strict_sorted_imp_sorted)
  have "distinct (map fst m)" using assms by (simp add: smap_ok_def strict_sorted_iff)
  then have "filter (\<lambda>(n, _). n \<notin> set (drop k (map fst m))) m = take k m"
  proof (induction m arbitrary: k)
    case (Cons x m)
    show ?case
    proof (cases k)
      case 0
      then show ?thesis by (auto simp: filter_empty_conv case_prod_beta)
    next
      case (Suc j)
      have "fst x \<notin> set (drop j (map fst m))" using Cons.prems by (auto dest: in_set_dropD)
      with Suc Cons show ?thesis by (simp add: case_prod_beta)
    qed
  qed simp
  then show ?thesis by (auto simp: trimMetadataToLimit_def Let_def names k_def)
qed

text \<open>Two exemplars with one key; an exemplar is covered by a list that holds it or one with its key.\<close>

definition same_exemplar :: "externals \<Rightarrow> exemplar \<Rightarrow> exemplar \<Rightarrow> bool" where
  "same_exemplar ext a b \<longleftrightarrow> exemplar_key_eq (newExemplarKey ext a) (newExemplarKey ext b)"

definition covered :: "externals \<Rightarrow> exemplar list \<Rightarrow> exemplar \<Rightarrow> bool" where
  "covered ext es e \<longleftrightarrow> (\<exists>x\<in>set es. x = e \<or> same_exemplar ext x e)"

lemma same_exemplar_sym: "same_exemplar ext a b \<longleftrightarrow> same_exemplar ext b a"
  by (auto simp: same_exemplar_def exemplar_key_eq_def newExemplarKey_def f64_eq_def)

abbreviation no_duplicates :: "externals \<Rightarrow> exemplar list \<Rightarrow> bool" where
  "no_duplicates ext es \<equiv> sorted_wrt (\<lambda>a b. \<not> same_exemplar ext a b) es"

lemma add_exemplars:
  assumes "no_duplicates ext es"
  shows "no_duplicates ext (foldl (add_exemplar ext) es xs) \<and> set es \<subseteq> set (foldl (add_exemplar ext) es xs) \<and>
    set (foldl (add_exemplar ext) es xs) \<subseteq> set es \<union> set xs \<and> list_all (covered ext (foldl (add_exemplar ext) es xs)) xs"
  using assms
proof (induction xs arbitrary: es)
  case (Cons x xs)
  have step: "no_duplicates ext (add_exemplar ext es x)" "set es \<subseteq> set (add_exemplar ext es x)"
    "set (add_exemplar ext es x) \<subseteq> insert x (set es)" "covered ext (add_exemplar ext es x) x"
    using Cons.prems by (auto simp: add_exemplar_def sorted_wrt_append covered_def same_exemplar_def list_ex_iff)
  have mono: "covered ext es' e" if "covered ext es e" "set es \<subseteq> set es'" for es es' e using that by (auto simp: covered_def)
  from Cons.IH [OF step(1)] step mono [OF step(4)] show ?case by fastforce
qed simp

text \<open>The map after the results \<open>R\<close>: per series seen, its exemplars without duplicates.\<close>

definition gathered_from :: "externals \<Rightarrow> exemplar_result list \<Rightarrow> exemplar_result \<Rightarrow> bool" where
  "gathered_from ext R r \<longleftrightarrow> no_duplicates ext (er_Exemplars r) \<and>
     (\<forall>r'\<in>set R. er_SeriesLabels r' = er_SeriesLabels r \<longrightarrow> list_all (covered ext (er_Exemplars r)) (er_Exemplars r')) \<and>
     (\<forall>x\<in>set (er_Exemplars r). \<exists>r'\<in>set R. er_SeriesLabels r' = er_SeriesLabels r \<and> x \<in> set (er_Exemplars r'))"

definition gathered_map :: "externals \<Rightarrow> (labelset \<Rightarrow> 64 word) \<Rightarrow> exemplar_result list \<Rightarrow> hashed_exemplars \<Rightarrow> bool" where
  "gathered_map ext hash R M \<longleftrightarrow> smap_ok M \<and>
     (\<forall>fp r. map_of M fp = Some r \<longrightarrow> fp = hash (er_SeriesLabels r) \<and> er_SeriesLabels r \<in> er_SeriesLabels ` set R \<and> gathered_from ext R r) \<and>
     (\<forall>r\<in>set R. map_of M (hash (er_SeriesLabels r)) \<noteq> None)"

lemma gathered_from_other: "gathered_from ext R r \<Longrightarrow> er_SeriesLabels q \<noteq> er_SeriesLabels r \<Longrightarrow> gathered_from ext (R @ [q]) r"
  by (auto simp: gathered_from_def)

lemma gathered_from_same:
  assumes "gathered_from ext R r" "er_SeriesLabels q = er_SeriesLabels r"
  shows "gathered_from ext (R @ [q]) (r\<lparr>er_Exemplars := foldl (add_exemplar ext) (er_Exemplars r) (er_Exemplars q)\<rparr>)"
proof -
  let ?es = "foldl (add_exemplar ext) (er_Exemplars r) (er_Exemplars q)"
  have add: "no_duplicates ext ?es" "set (er_Exemplars r) \<subseteq> set ?es" "set ?es \<subseteq> set (er_Exemplars r) \<union> set (er_Exemplars q)"
    "list_all (covered ext ?es) (er_Exemplars q)"
    using add_exemplars [of ext "er_Exemplars r" "er_Exemplars q"] assms(1) by (auto simp: gathered_from_def)
  have "covered ext ?es e" if "covered ext (er_Exemplars r) e" for e using that add(2) by (auto simp: covered_def)
  with assms add show ?thesis by (fastforce simp: gathered_from_def list_all_iff)
qed

lemma gathered_map_step:
  assumes "gathered_map ext hash R M" "inj_on hash (er_SeriesLabels ` set (R @ [q]))"
  shows "gathered_map ext hash (R @ [q]) (collect_exemplars ext hash q M)"
proof -
  define old where "old = (case map_of M (hash (er_SeriesLabels q)) of Some x \<Rightarrow> x | None \<Rightarrow> \<lparr>er_SeriesLabels = er_SeriesLabels q, er_Exemplars = []\<rparr>)"
  have same: "er_SeriesLabels old = er_SeriesLabels q" and old: "gathered_from ext R old"
  proof -
    show "er_SeriesLabels old = er_SeriesLabels q"
    proof (cases "map_of M (hash (er_SeriesLabels q))")
      case (Some x)
      then have "hash (er_SeriesLabels q) = hash (er_SeriesLabels x)" "er_SeriesLabels x \<in> er_SeriesLabels ` set R"
        using assms(1) by (auto simp: gathered_map_def)
      with assms(2) Some show ?thesis by (auto simp: old_def dest: inj_onD)
    qed (simp add: old_def)
    show "gathered_from ext R old"
      using assms(1) by (cases "map_of M (hash (er_SeriesLabels q))") (force simp: old_def gathered_map_def gathered_from_def)+
  qed
  let ?new = "old\<lparr>er_Exemplars := foldl (add_exemplar ext) (er_Exemplars old) (er_Exemplars q)\<rparr>"
  have M: "collect_exemplars ext hash q M = smap_put (hash (er_SeriesLabels q)) ?new M"
    by (simp add: collect_exemplars_def Let_def old_def)
  have new: "gathered_from ext (R @ [q]) ?new" by (rule gathered_from_same [OF old same [symmetric]])
  have "fp = hash (er_SeriesLabels r) \<and> er_SeriesLabels r \<in> er_SeriesLabels ` set (R @ [q]) \<and> gathered_from ext (R @ [q]) r"
    if "map_of (collect_exemplars ext hash q M) fp = Some r" for fp r
  proof (cases "fp = hash (er_SeriesLabels q)")
    case True
    then show ?thesis using that new same by (auto simp: M label_simps)
  next
    case False
    then have r: "fp = hash (er_SeriesLabels r)" "er_SeriesLabels r \<in> er_SeriesLabels ` set R" "gathered_from ext R r"
      using that assms(1) by (auto simp: M label_simps gathered_map_def)
    with False have "er_SeriesLabels q \<noteq> er_SeriesLabels r" by auto
    with r gathered_from_other show ?thesis by auto
  qed
  note entries = this
  have "smap_ok (collect_exemplars ext hash q M)" using assms(1) by (simp add: M gathered_map_def label_simps)
  moreover have "\<forall>r\<in>set (R @ [q]). map_of (collect_exemplars ext hash q M) (hash (er_SeriesLabels r)) \<noteq> None"
    using assms(1) by (simp add: M gathered_map_def label_simps)
  ultimately show ?thesis unfolding gathered_map_def [of ext hash "R @ [q]"] using entries by blast
qed

lemma gathered_map_fold:
  assumes "gathered_map ext hash R M" "inj_on hash (er_SeriesLabels ` set (R @ qs))"
  shows "gathered_map ext hash (R @ qs) (fold (collect_exemplars ext hash) qs M)"
  using assms
proof (induction qs arbitrary: R M)
  case (Cons q qs)
  have "inj_on hash (er_SeriesLabels ` set (R @ [q]))" using Cons.prems(2) by (rule inj_on_subset) auto
  from gathered_map_step [OF Cons.prems(1) this] Cons.IH [of "R @ [q]"] Cons.prems(2) show ?case by simp
qed simp

lemma query_selectors_gathers:
  assumes "gathered_map ext hash R M" "\<forall>ms\<in>set mss. QueryExemplars client (MatcherToString pq ms) s e = Ret (ans ms, None)"
    and "inj_on hash (er_SeriesLabels ` set (R @ concat (map ans mss)))"
  shows "\<exists>M'. query_selectors ext pq hash client s e mss M = Ret (Inr M') \<and> gathered_map ext hash (R @ concat (map ans mss)) M'"
  using assms
proof (induction mss arbitrary: R M)
  case (Cons ms mss)
  have "inj_on hash (er_SeriesLabels ` set (R @ ans ms))" using Cons.prems(3) by (rule inj_on_subset) auto
  from gathered_map_fold [OF Cons.prems(1) this] Cons.IH [of "R @ ans ms"] Cons.prems(2,3) show ?case by simp
qed simp

lemma strict_sorted_sort_key:
  fixes f :: "'a \<Rightarrow> 'b :: linorder"
  assumes "distinct (map f xs)"
  shows "sorted_wrt (<) (map f (sort_key f xs))"
proof -
  have "mset (map f (sort_key f xs)) = mset (map f xs)" by simp
  then have "distinct (map f (sort_key f xs))" using assms mset_eq_imp_distinct_iff by blast
  then show ?thesis by (simp add: strict_sorted_iff)
qed

lemma set_SortExemplars [simp]: "set (SortExemplars ext es) = set es"
  by (simp add: SortExemplars_def)

lemma no_duplicates_insort:
  "no_duplicates ext (insort_key f x xs) \<longleftrightarrow> no_duplicates ext (x # xs)"
  by (induction xs) (auto simp: set_insort_key same_exemplar_sym)

lemma no_duplicates_SortExemplars: "no_duplicates ext (SortExemplars ext es) \<longleftrightarrow> no_duplicates ext es"
proof (induction es)
  case (Cons e es)
  then show ?case
    unfolding SortExemplars_def sort_key_simps no_duplicates_insort using set_SortExemplars [of ext es, unfolded SortExemplars_def] by simp
qed (simp add: SortExemplars_def)

section \<open>Properties\<close>

text \<open>
  C9. Exemplars: when every selector of a query is answered, and the hash tells the series of the
  answers apart, the result names each series of any answer exactly once, in label order; its
  exemplars come from the answers for that series, no two of them have the same timestamp,
  value and labels, and every exemplar that was answered is among them, itself or as a
  duplicate.
\<close>

theorem exemplar_Select_correct:
  assumes "\<forall>ms\<in>set mss. QueryExemplars client (MatcherToString pq ms) (timestamp_Time start) (timestamp_Time stop) = Ret (ans ms, None)"
    and "R = concat (map ans mss)" "inj_on hash (er_SeriesLabels ` set R)"
  shows "\<exists>out. exemplar_Select ext pq hash client start stop mss = Ret (Inr out) \<and>
    sorted_wrt (<) (map er_SeriesLabels out) \<and> er_SeriesLabels ` set out = er_SeriesLabels ` set R \<and> list_all (gathered_from ext R) out"
proof -
  obtain M where q: "query_selectors ext pq hash client (timestamp_Time start) (timestamp_Time stop) mss [] = Ret (Inr M)"
    and M: "gathered_map ext hash R M"
    using query_selectors_gathers [of ext hash "[]" "[]" mss client pq "timestamp_Time start" "timestamp_Time stop" ans] assms
    by (auto simp: gathered_map_def)
  let ?f = "\<lambda>(fp :: 64 word, r). r\<lparr>er_Exemplars := SortExemplars ext (er_Exemplars r)\<rparr>"
  let ?out = "sort_key er_SeriesLabels (map ?f M)"
  have mem: "(fp, r) \<in> set M \<longleftrightarrow> map_of M fp = Some r" for fp r
    using M by (simp add: gathered_map_def smap_ok_distinct)
  have fp: "fp = hash (er_SeriesLabels r)" "er_SeriesLabels r \<in> er_SeriesLabels ` set R" "gathered_from ext R r" if "(fp, r) \<in> set M" for fp r
    using M that by (auto simp: mem gathered_map_def)
  have "er_SeriesLabels ` set ?out = er_SeriesLabels ` set R"
  proof
    show "er_SeriesLabels ` set ?out \<subseteq> er_SeriesLabels ` set R" using fp(2) by auto
    have "er_SeriesLabels r \<in> er_SeriesLabels ` snd ` set M" if "r \<in> set R" for r
    proof -
      have "map_of M (hash (er_SeriesLabels r)) \<noteq> None" using M that unfolding gathered_map_def by (elim conjE) (erule (1) bspec)
      then obtain r' where r': "(hash (er_SeriesLabels r), r') \<in> set M" by (auto simp: mem)
      with fp [OF r'] assms(3) that have "er_SeriesLabels r = er_SeriesLabels r'" by (auto dest: inj_onD)
      with r' show ?thesis by (auto intro!: rev_image_eqI)
    qed
    then show "er_SeriesLabels ` set R \<subseteq> er_SeriesLabels ` set ?out" by (force simp: image_iff)
  qed
  moreover have "distinct (map er_SeriesLabels (map ?f M))"
  proof -
    have hashes: "map hash (map er_SeriesLabels (map ?f M)) = map fst M"
      by (auto intro!: map_cong [OF refl] dest: fp(1))
    have "distinct (map hash (map er_SeriesLabels (map ?f M)))"
      unfolding hashes using M by (simp add: gathered_map_def smap_ok_distinct)
    then show ?thesis unfolding distinct_map [of hash] by (rule conjunct1)
  qed
  then have "sorted_wrt (<) (map er_SeriesLabels ?out)" by (rule strict_sorted_sort_key)
  moreover have "gathered_from ext R r" if r: "r \<in> set ?out" for r
  proof -
    obtain fp r' where "(fp, r') \<in> set M" "r = r'\<lparr>er_Exemplars := SortExemplars ext (er_Exemplars r')\<rparr>" using r by auto
    with fp(3) show ?thesis by (fastforce simp: gathered_from_def no_duplicates_SortExemplars covered_def list_all_iff)
  qed
  ultimately show ?thesis using q by (auto simp: exemplar_Select_def list_all_iff)
qed

theorem exemplar_Select_correct_witness:
  "\<exists>out. exemplar_Select example_ext example_pq (\<lambda>l. of_nat (length l))
      (const_api ([], [], None) (None, [], None) EmptySeriesSet ([], [], None) (None, None)
        ([\<lparr>er_SeriesLabels = [(''job'', ''a'')], er_Exemplars = [\<lparr>ex_Labels = [], ex_Value = 1, ex_Timestamp = 5\<rparr>]\<rparr>], None) None)
      0 10 [[], []] = Ret (Inr out) \<and> er_SeriesLabels ` set out = {[(''job'', ''a'')]}"
  using exemplar_Select_correct [of "[[], []]" "const_api ([], [], None) (None, [], None) EmptySeriesSet ([], [], None) (None, None)
        ([\<lparr>er_SeriesLabels = [(''job'', ''a'')], er_Exemplars = [\<lparr>ex_Labels = [], ex_Value = 1, ex_Timestamp = 5\<rparr>]\<rparr>], None) None"
      example_pq 0 10 "\<lambda>_. [\<lparr>er_SeriesLabels = [(''job'', ''a'')], er_Exemplars = [\<lparr>ex_Labels = [], ex_Value = 1, ex_Timestamp = 5\<rparr>]\<rparr>]"
      _ "\<lambda>l. of_nat (length l)" example_ext]
  by (auto simp: const_api_def)

text \<open>
  C8. The querier's contract with the merging of series sets: for a sorted request both the data
  and the series path return a set in strict label order with exactly the series of the
  client's answer, provided the answer names each series once; an unsorted data request is
  passed through.
\<close>

theorem Select_sorted:
  assumes "GetValue (pqr_Client h) (timestamp_Time (sh_Start hi)) (timestamp_Time (sh_End hi)) ms = Ret ss" "labels_distinct ss"
    and "Series (pqr_Client h) [MatcherToString pq ms] (pqr_Start h) (pqr_End h) = Ret (ls, w, None)" "distinct ls"
    and "sh_Func hi \<noteq> ''series''"
  shows "\<exists>data meta. Select pq h True (Some hi) ms = Ret data \<and> sorted_set (ss_series data) \<and> mset (ss_series data) = mset (ss_series ss) \<and>
      ss_err data = ss_err ss \<and> ss_warnings data = ss_warnings ss \<and> Select pq h False (Some hi) ms = Ret ss \<and>
    Select pq h True None ms = Ret meta \<and> Select pq h True (Some (hi\<lparr>sh_Func := ''series''\<rparr>)) ms = Ret meta \<and>
      sorted_set (ss_series meta) \<and> sr_labels ` set (ss_series meta) = set ls \<and> ss_err meta = None"
proof -
  let ?meta = "NewSeriesSet (sort_key sr_labels (series_of_labels ls)) (WarningsConvert w) None"
  have "distinct (map sr_labels (series_of_labels ls))" using assms(4) by (simp add: series_of_labels_def NewSeries_def comp_def)
  then have "sorted_set (ss_series ?meta)" by (simp add: NewSeriesSet_def strict_sorted_sort_key)
  moreover have "sr_labels ` set (ss_series ?meta) = set ls" by (simp add: NewSeriesSet_def series_of_labels_def NewSeries_def image_image)
  moreover have "sorted_set (ss_series (SortSeriesSet ss))" using assms(2) sorted_set_SortSeriesSet by blast
  moreover have "mset (ss_series (SortSeriesSet ss)) = mset (ss_series ss)" by (simp add: SortSeriesSet_def NewSeriesSet_def)
  ultimately show ?thesis
    using assms by (intro exI [of _ "SortSeriesSet ss"] exI [of _ ?meta]) (simp add: Select_def select_series_def NewSeriesSet_def)
qed

theorem Select_sorted_witness:
  "\<exists>data meta. Select example_pq (Querier (set_api (NewSeriesSet [NewSeries [(''job'', ''b'')] [], NewSeries [(''job'', ''a'')] []] [] None)) 0 9) True
      (Some \<lparr>sh_Start = 0, sh_End = 9, sh_Func = []\<rparr>) [] = Ret data \<and> sorted_set (ss_series data) \<and>
     Select example_pq (Querier (set_api (NewSeriesSet [NewSeries [(''job'', ''b'')] [], NewSeries [(''job'', ''a'')] []] [] None)) 0 9) True None [] = Ret meta \<and>
     sr_labels ` set (ss_series meta) = {}"
  using Select_sorted [of "Querier (set_api (NewSeriesSet [NewSeries [(''job'', ''b'')] [], NewSeries [(''job'', ''a'')] []] [] None)) 0 9"
      "\<lparr>sh_Start = 0, sh_End = 9, sh_Func = []\<rparr>" "[]" _ example_pq "[]" "[]"]
  by (auto simp: Querier_def set_api_def const_api_def labels_distinct_def NewSeriesSet_def NewSeries_def)

end
