(* ===== verification/Promxy_Federate.thy ===== *)
theory Promxy_Federate
  imports Promxy_Expfmt Promxy_Querier
begin

text \<open>
  The federation handler (\<open>src/pkg/federate/federate.go\<close>): external labels, the choice of the
  latest sample of every selected series, and the streaming of the samples to a connection that
  may fail. The negotiation of the format, the parser of selectors, the sorting of \<open>slices.SortFunc\<close>,
  which need not be stable, and the chaining of series that several selectors name
  (\<open>storage.ChainedSeriesMerge\<close>) are parameters.
\<close>

section \<open>External labels\<close>

definition InstanceLabel :: string where
  "InstanceLabel = ''instance''"

record fed_handler =
  fh_lookback :: duration
  fh_extLabels :: "(string \<times> string) list"

definition federate_New :: "duration \<Rightarrow> fed_handler" where
  "federate_New lookback = \<lparr>fh_lookback = lookback, fh_extLabels = [(InstanceLabel, [])]\<rparr>"

definition SetExternalLabels :: "labelset \<Rightarrow> fed_handler \<Rightarrow> fed_handler" where
  "SetExternalLabels ext h =
     (let m = fold (\<lambda>(n, v). smap_put n v) ext [];
          m = (if map_of m InstanceLabel = None then smap_put InstanceLabel [] m else m)
      in h\<lparr>fh_extLabels := m\<rparr>)"

section \<open>The latest sample\<close>

text \<open>
  \<open>storage.BufferedSeriesIterator\<close> on a series: the samples from the one under the cursor on, the
  buffered samples, of which only the last is looked at, and the time of the cursor. \<open>Seek\<close> of the
  underlying iterator goes to the first sample that is not before the time.
\<close>

record buffered =
  bi_rest :: "sample list"
  bi_buf :: "sample list"
  bi_lastTime :: int

definition bi_Reset :: "sample list \<Rightarrow> buffered" where
  "bi_Reset samples = \<lparr>bi_rest = samples, bi_buf = [], bi_lastTime = - (2 ^ 63)\<rparr>"

fun bi_advance :: "int \<Rightarrow> sample list \<Rightarrow> sample list \<Rightarrow> int \<Rightarrow> buffered" where
  "bi_advance t [] buf lastTime = \<lparr>bi_rest = [], bi_buf = buf, bi_lastTime = lastTime\<rparr>"
| "bi_advance t [x] buf lastTime = \<lparr>bi_rest = [], bi_buf = buf @ [x], bi_lastTime = lastTime\<rparr>"
| "bi_advance t (x # y # rest) buf lastTime =
     (if sample_T y \<ge> t then \<lparr>bi_rest = y # rest, bi_buf = buf @ [x], bi_lastTime = sample_T y\<rparr>
      else bi_advance t (y # rest) (buf @ [x]) (sample_T y))"

definition bi_Seek :: "int \<Rightarrow> int \<Rightarrow> buffered \<Rightarrow> buffered" where
  "bi_Seek delta t b =
     (let t0 = i64 (t - delta)
      in if bi_rest b \<noteq> [] \<and> t0 > bi_lastTime b
         then (let rest = dropWhile (\<lambda>x. sample_T x < t0) (bi_rest b)
               in case rest of
                    [] \<Rightarrow> b\<lparr>bi_rest := [], bi_buf := []\<rparr>
                  | x # _ \<Rightarrow>
                      if sample_T x \<ge> t then \<lparr>bi_rest = rest, bi_buf = [], bi_lastTime = sample_T x\<rparr>
                      else bi_advance t rest [] (sample_T x))
         else if bi_lastTime b \<ge> t then b
         else bi_advance t (bi_rest b) (bi_buf b) (bi_lastTime b))"

definition PeekBack1 :: "buffered \<Rightarrow> sample option" where
  "PeekBack1 b = (if bi_buf b = [] then None else Some (last (bi_buf b)))"

record float_sample =
  fs_metric :: labelset
  fs_t :: int
  fs_f :: f64

text \<open>One iteration of the loop over the merged set: the sample that the series contributes, if any.\<close>

definition federated_sample :: "int \<Rightarrow> int \<Rightarrow> series \<Rightarrow> float_sample option" where
  "federated_sample delta maxt s =
     (let b = bi_Seek delta maxt (bi_Reset (sr_samples s));
          picked = (case bi_rest b of
             FloatSample t f # _ \<Rightarrow> Some (t, f)
           | HistogramSample _ _ # _ \<Rightarrow> None
           | [] \<Rightarrow> (case PeekBack1 b of Some (FloatSample t f) \<Rightarrow> Some (t, f) | _ \<Rightarrow> None))
      in case picked of
           None \<Rightarrow> None
         | Some (t, f) \<Rightarrow> if f = StaleNaN then None else Some \<lparr>fs_metric = sr_labels s, fs_t = t, fs_f = f\<rparr>)"

section \<open>Writing the samples\<close>

fun write_loop ::
  "(f64 \<Rightarrow> string) \<Rightarrow> sink \<Rightarrow> (string \<times> string) list \<Rightarrow> float_sample list \<Rightarrow> encoder \<Rightarrow> writer \<Rightarrow> nat \<Rightarrow> (nat \<times> go_error option) \<times> writer"
where
  "write_loop fmt sink external [] enc w written = (let w = bufio_Flush sink w in ((written, wr_err w), w))"
| "write_loop fmt sink external (s # vec) enc w written =
     (let (text, enc) = WriteFloatSample fmt (labels_Get (fs_metric s) MetricName) (fs_metric s) external (fs_f s) (fs_t s) enc;
          w = bufio_WriteString sink text w
      in case ew_err w of
           Some err \<Rightarrow> ((written, Some err), w)
         | None \<Rightarrow> write_loop fmt sink external vec enc w (written + 1))"

definition writeSamples ::
  "(f64 \<Rightarrow> string) \<Rightarrow> sink \<Rightarrow> float_sample list \<Rightarrow> (string \<times> string) list \<Rightarrow> escaping_scheme \<Rightarrow> (nat \<times> go_error option) \<times> writer"
where
  "writeSamples fmt sink vec external scheme = write_loop fmt sink external vec (NewEncoder scheme) NewWriter 0"

section \<open>The handler\<close>

text \<open>The request: its negotiated format, \<open>None\<close> for one that is not text, and its form.\<close>

record fed_request =
  fq_format :: "escaping_scheme option"
  fq_form :: "go_error + string list"

datatype fed_response =
    Fallback
  | HttpError nat string
  | Federated "float_sample list" "nat \<times> go_error option" string

record fed_env =
  fe_fmt :: "f64 \<Rightarrow> string"
  fe_ParseMetricSelectors :: "string list \<Rightarrow> go_error + matcher list list"
  fe_sort :: "float_sample list \<Rightarrow> float_sample list"
  fe_chain :: "series list \<Rightarrow> series"

fun select_all :: "promql \<Rightarrow> proxy_querier \<Rightarrow> select_hints \<Rightarrow> matcher list list \<Rightarrow> series_set list outcome" where
  "select_all pq q hints [] = Ret []"
| "select_all pq q hints (ms # mss) =
     obind (Select pq q True (Some hints) ms) (\<lambda>s. omap (\<lambda>sets. s # sets) (select_all pq q hints mss))"

definition ServeHTTP :: "fed_env \<Rightarrow> promql \<Rightarrow> api \<Rightarrow> time \<Rightarrow> sink \<Rightarrow> fed_handler \<Rightarrow> fed_request \<Rightarrow> fed_response outcome" where
  "ServeHTTP env pq client now sink h req =
     (case fq_format req of
        None \<Rightarrow> Ret Fallback
      | Some scheme \<Rightarrow>
          (case fq_form req of
             Inl err \<Rightarrow> Ret (HttpError 400 (''error parsing form values: '' @ error_string err))
           | Inr matches \<Rightarrow>
               (case fe_ParseMetricSelectors env matches of
                  Inl err \<Rightarrow> Ret (HttpError 400 (error_string err))
                | Inr matcherSets \<Rightarrow>
                    let mint = FromTime (now - fh_lookback h); maxt = FromTime now;
                        q = Querier client mint maxt;
                        hints = \<lparr>sh_Start = mint, sh_End = maxt, sh_Func = []\<rparr>
                    in obind (select_all pq q hints matcherSets) (\<lambda>sets.
                         obind (NewMergeSeriesSet sets (\<lambda>xs. Ret (if xs = [] then None else Some (fe_chain env xs)))) (\<lambda>set.
                           let vec = List.map_filter (federated_sample (Milliseconds (fh_lookback h)) maxt) (ss_series set)
                           in case ss_err set of
                                Some err \<Rightarrow> Ret (HttpError 500 (error_string err))
                              | None \<Rightarrow>
                                  let vec = fe_sort env vec;
                                      (result, w) = writeSamples (fe_fmt env) sink vec (fh_extLabels h) scheme
                                  in Ret (Federated vec result (ew_out w)))))))"

section \<open>The buffered iterator finds the latest sample\<close>

lemma bi_advance_spec:
  "xs \<noteq> [] \<Longrightarrow> bi_rest (bi_advance t xs buf l) = dropWhile (\<lambda>x. sample_T x < t) (tl xs) \<and>
     bi_buf (bi_advance t xs buf l) = buf @ hd xs # takeWhile (\<lambda>x. sample_T x < t) (tl xs)"
  by (induction t xs buf l rule: bi_advance.induct) auto

lemma bi_Seek_spec:
  assumes "in_i64 (t - delta)" "- (2 ^ 63) < t - delta"
    and fresh: "fresh = dropWhile (\<lambda>x. sample_T x < t - delta) samples" "0 \<le> delta"
  shows "bi_rest (bi_Seek delta t (bi_Reset samples)) = dropWhile (\<lambda>x. sample_T x < t) fresh"
    and "bi_buf (bi_Seek delta t (bi_Reset samples)) = takeWhile (\<lambda>x. sample_T x < t) fresh"
proof -
  have "i64 (t - delta) = t - delta" using assms(1) by (simp add: i64_id in_i64_def)
  then have seek: "bi_Seek delta t (bi_Reset samples) = (case fresh of [] \<Rightarrow> (bi_Reset samples)\<lparr>bi_rest := [], bi_buf := []\<rparr>
      | x # _ \<Rightarrow> if sample_T x \<ge> t then \<lparr>bi_rest = fresh, bi_buf = [], bi_lastTime = sample_T x\<rparr> else bi_advance t fresh [] (sample_T x))"
    if "samples \<noteq> []"
    using that assms(2) by (simp add: bi_Seek_def bi_Reset_def Let_def flip: fresh(1) split: list.split)
  have b: "bi_rest (bi_Seek delta t (bi_Reset samples)) = dropWhile (\<lambda>x. sample_T x < t) fresh \<and>
      bi_buf (bi_Seek delta t (bi_Reset samples)) = takeWhile (\<lambda>x. sample_T x < t) fresh" if "samples \<noteq> []"
  proof (cases fresh)
    case (Cons x xs)
    with seek [OF that] bi_advance_spec [of fresh t "[]" "sample_T x"] show ?thesis by simp
  qed (simp add: seek [OF that])
  then show "bi_rest (bi_Seek delta t (bi_Reset samples)) = dropWhile (\<lambda>x. sample_T x < t) fresh"
    "bi_buf (bi_Seek delta t (bi_Reset samples)) = takeWhile (\<lambda>x. sample_T x < t) fresh"
    using fresh(1) by (cases "samples = []"; auto simp: bi_Seek_def bi_Reset_def Let_def)+
qed

lemma dropWhile_all: "\<forall>x\<in>set xs. P x \<Longrightarrow> dropWhile P xs = []"
  by simp

text \<open>For samples in time order that are not after \<open>maxt\<close>, it is the last one, unless it is too old.\<close>

lemma federated_sample_latest:
  assumes "in_i64 (maxt - delta)" "- (2 ^ 63) < maxt - delta" "0 \<le> delta"
    and "sorted_wrt (\<lambda>x y. sample_T x < sample_T y) (sr_samples s)" "\<forall>x\<in>set (sr_samples s). sample_T x \<le> maxt"
  shows "federated_sample delta maxt s =
    (if sr_samples s \<noteq> [] \<and> is_FloatSample (last (sr_samples s)) \<and> maxt - delta \<le> sample_T (last (sr_samples s)) \<and>
        sample_F (last (sr_samples s)) \<noteq> StaleNaN
     then Some \<lparr>fs_metric = sr_labels s, fs_t = sample_T (last (sr_samples s)), fs_f = sample_F (last (sr_samples s))\<rparr> else None)"
proof -
  define fresh where "fresh = dropWhile (\<lambda>x. sample_T x < maxt - delta) (sr_samples s)"
  let ?b = "bi_Seek delta maxt (bi_Reset (sr_samples s))"
  note b = bi_Seek_spec [OF assms(1,2) fresh_def assms(3)]
  show ?thesis
  proof (cases "fresh = []")
    case True
    then have "\<forall>x\<in>set (sr_samples s). sample_T x < maxt - delta" by (auto simp: fresh_def)
    then have "\<not> (sr_samples s \<noteq> [] \<and> maxt - delta \<le> sample_T (last (sr_samples s)))" using last_in_set by force
    with True b show ?thesis by (auto simp: federated_sample_def Let_def PeekBack1_def)
  next
    case False
    then have ne: "sr_samples s \<noteq> []" by (auto simp: fresh_def)
    have split: "sr_samples s = takeWhile (\<lambda>x. sample_T x < maxt - delta) (sr_samples s) @ fresh" by (simp add: fresh_def)
    then have last: "last (sr_samples s) = last fresh" using False by (metis last_append)
    have srt: "sorted_wrt (\<lambda>x y. sample_T x < sample_T y) fresh" using assms(4) split by (metis sorted_wrt_append)
    have le: "\<forall>x\<in>set fresh. sample_T x \<le> maxt" using assms(5) unfolding fresh_def by (blast dest: set_dropWhileD)
    have hd: "maxt - delta \<le> sample_T (hd fresh)" using False hd_dropWhile [of "\<lambda>x. sample_T x < maxt - delta" "sr_samples s"] by (simp add: fresh_def)
    obtain pre l where pre: "fresh = pre @ [l]" using False by (metis append_butlast_last_id)
    have lt: "\<forall>x\<in>set pre. sample_T x < sample_T l" using srt pre by (auto simp: sorted_wrt_append)
    then have age: "maxt - delta \<le> sample_T l" using hd pre by (cases pre) auto
    have below: "\<forall>x\<in>set pre. sample_T x < maxt" using lt le pre by fastforce
    have "dropWhile (\<lambda>x. sample_T x < maxt) fresh = (if sample_T l < maxt then [] else [l])"
      "takeWhile (\<lambda>x. sample_T x < maxt) fresh = (if sample_T l < maxt then fresh else pre)"
      using below by (simp_all add: pre dropWhile_append2 takeWhile_append2)
    with b have "bi_rest ?b = (if sample_T l < maxt then [] else [l])" "sample_T l < maxt \<Longrightarrow> bi_buf ?b = pre @ [l]"
      by (simp_all add: pre)
    moreover have "last (sr_samples s) = l" using last pre by simp
    ultimately show ?thesis using ne age by (cases l) (auto simp: federated_sample_def Let_def PeekBack1_def)
  qed
qed

section \<open>The writer delivers a prefix\<close>

text \<open>A writer that has been given the text \<open>s\<close>.\<close>

definition has_written :: "sink \<Rightarrow> string \<Rightarrow> writer \<Rightarrow> bool" where
  "has_written sink s w \<longleftrightarrow> ew_err w = wr_err w \<and> prefix (ew_out w) s \<and> (wr_err w = None \<longrightarrow> s = ew_out w @ wr_buf w) \<and>
     (\<forall>e. wr_err w = Some e \<longrightarrow> (\<exists>k n. sink k = Some (n, e)))"

lemma has_written_Flush:
  assumes "has_written sink s w"
  shows "has_written sink s (bufio_Flush sink w) \<and> (wr_err (bufio_Flush sink w) = None \<longrightarrow> wr_buf (bufio_Flush sink w) = [])"
proof (cases "wr_err w = None \<and> wr_buf w \<noteq> []")
  case True
  then have w: "ew_err w = None" "s = ew_out w @ wr_buf w" using assms by (auto simp: has_written_def)
  have "prefix (ew_out w @ take n (wr_buf w)) s" for n unfolding w(2) by (simp add: take_is_prefix)
  with True w show ?thesis
    by (auto simp: bufio_Flush_def has_written_def errWriter_Write_def split: option.splits)
qed (use assms in \<open>auto simp: bufio_Flush_def\<close>)

lemma has_written_byte: "has_written sink s w \<Longrightarrow> has_written sink (s @ [c]) (bufio_WriteByte sink c w)"
  using has_written_Flush [of sink s w]
  by (auto simp: bufio_WriteByte_def has_written_def Let_def intro: prefix_order.trans)

lemma has_written_string: "has_written sink s w \<Longrightarrow> has_written sink (s @ t) (bufio_WriteString sink t w)"
proof (induction t arbitrary: s w)
  case (Cons c t)
  from Cons.IH [OF has_written_byte [OF Cons.prems]] show ?case by (simp add: bufio_WriteString_def)
qed (simp add: bufio_WriteString_def)

text \<open>The text that an encoder writes for a list of samples.\<close>

fun encoded :: "(f64 \<Rightarrow> string) \<Rightarrow> (string \<times> string) list \<Rightarrow> float_sample list \<Rightarrow> encoder \<Rightarrow> string" where
  "encoded fmt external [] enc = []"
| "encoded fmt external (s # vec) enc =
     (let (text, enc) = WriteFloatSample fmt (labels_Get (fs_metric s) MetricName) (fs_metric s) external (fs_f s) (fs_t s) enc
      in text @ encoded fmt external vec enc)"

lemma write_loop_spec:
  assumes "has_written sink s w" "wr_err w = None" "write_loop fmt sink external vec enc w k = ((n, err), w')"
  shows "prefix (ew_out w') (s @ encoded fmt external vec enc) \<and> n \<le> k + length vec \<and>
    (err = None \<longrightarrow> n = k + length vec \<and> ew_out w' = s @ encoded fmt external vec enc) \<and>
    (\<forall>e. err = Some e \<longrightarrow> (\<exists>j m. sink j = Some (m, e)))"
  using assms
proof (induction vec arbitrary: s w enc k)
  case Nil
  then show ?case using has_written_Flush [OF Nil(1)] by (auto simp: has_written_def Let_def)
next
  case (Cons x vec)
  obtain line enc' where t: "WriteFloatSample fmt (labels_Get (fs_metric x) MetricName) (fs_metric x) external (fs_f x) (fs_t x) enc = (line, enc')"
    by (cases "WriteFloatSample fmt (labels_Get (fs_metric x) MetricName) (fs_metric x) external (fs_f x) (fs_t x) enc")
  let ?w = "bufio_WriteString sink line w"
  have w: "has_written sink (s @ line) ?w" by (rule has_written_string [OF Cons.prems(1)])
  show ?case
  proof (cases "ew_err ?w")
    case None
    with w have "wr_err ?w = None" by (simp add: has_written_def)
    from Cons.IH [OF w this, of enc' "k + 1"] Cons.prems(3) None t show ?thesis by simp
  next
    case (Some e)
    with w have pre: "prefix (ew_out ?w) (s @ line)" and "\<exists>j m. sink j = Some (m, e)" by (simp_all add: has_written_def)
    then obtain j m where "sink j = Some (m, e)" by blast
    moreover have "n = k" "err = Some e" "w' = ?w" using Some Cons.prems(3) t by simp_all
    moreover have "prefix (ew_out ?w) (s @ line @ encoded fmt external vec enc')" using pre by (metis append_assoc prefix_prefix)
    ultimately show ?thesis using t by auto
  qed
qed

section \<open>The text by runs of a name\<close>

text \<open>
  The streamed text cut where the name changes: each run of samples with one name as an untyped family. With it the
  streaming encoder is compared with the handler of Prometheus in \<open>Promxy_Upstream\<close>.
\<close>

abbreviation fs_name :: "float_sample \<Rightarrow> string" where
  "fs_name s \<equiv> labels_Get (fs_metric s) MetricName"

definition run_metric :: "(string \<times> string) list \<Rightarrow> float_sample \<Rightarrow> dto_metric" where
  "run_metric external s = \<lparr>dm_Label = line_labels (fs_metric s) external, dm_Untyped = fs_f s, dm_TimestampMs = Some (fs_t s)\<rparr>"

fun name_runs :: "(string \<times> string) list \<Rightarrow> float_sample list \<Rightarrow> metric_family list" where
  "name_runs external [] = []"
| "name_runs external (s # ss) =
     (let new = \<lparr>mf_Name = Some (fs_name s), mf_Help = None, mf_Metric = [run_metric external s]\<rparr>
      in case name_runs external ss of
           [] \<Rightarrow> [new]
         | f # fs \<Rightarrow>
             if mf_Name f = Some (fs_name s) then f\<lparr>mf_Metric := run_metric external s # mf_Metric f\<rparr> # fs
             else new # f # fs)"

lemma EscapeName_legacy: "scheme \<noteq> DotsEscaping \<Longrightarrow> IsValidLegacyMetricName n \<Longrightarrow> EscapeName n scheme = n"
  by (cases scheme) (auto simp: EscapeName_def)

lemma EscapeName_NoEscaping [simp]: "EscapeName n NoEscaping = n"
  by (simp add: EscapeName_def)

lemma EscapeName_nonempty:
  assumes "n \<noteq> []" "scheme \<noteq> DotsEscaping"
  shows "EscapeName n scheme \<noteq> []"
proof -
  have "runes 0 n \<noteq> []" using assms(1) by (cases n) (auto simp: Let_def)
  then show ?thesis using assms by (cases scheme) (auto simp: EscapeName_def)
qed

abbreviation escaped_pairs :: "escaping_scheme \<Rightarrow> (string \<times> string) list \<Rightarrow> (string \<times> string) list" where
  "escaped_pairs scheme ps \<equiv> map (\<lambda>(n, v). (EscapeName n scheme, v)) ps"

lemma metricLine_label_fold:
  assumes "ml_separator m = CHR ''{'' \<or> ml_braces m"
  shows "fold (\<lambda>(n, v). metricLine_label n v) (escaped_pairs scheme ps) m = fold (sample_label scheme) ps m"
  using assms
proof (induction ps arbitrary: m)
  case (Cons p ps)
  have "metricLine_label (EscapeName (fst p) scheme) (snd p) m = sample_label scheme p m"
    using Cons.prems by (cases p) (auto simp: metricLine_label_def sample_label_def)
  moreover have "ml_braces (sample_label scheme p m)" by (cases p) (simp add: sample_label_def)
  ultimately show ?case using Cons.IH [of "sample_label scheme p m"] by (simp add: case_prod_beta)
qed simp

text \<open>Escaping a family whose metrics carry no name label.\<close>

definition escape_metric :: "escaping_scheme \<Rightarrow> dto_metric \<Rightarrow> dto_metric" where
  "escape_metric scheme m = m\<lparr>dm_Label := escaped_pairs scheme (dm_Label m)\<rparr>"

definition unnamed :: "dto_metric \<Rightarrow> bool" where
  "unnamed m \<longleftrightarrow> MetricName \<notin> fst ` set (dm_Label m)"

lemma EscapeMetricFamily_eq:
  assumes "scheme \<noteq> DotsEscaping" "\<forall>m\<in>set (mf_Metric f). unnamed m"
  shows "EscapeMetricFamily f scheme = f\<lparr>mf_Name := map_option (\<lambda>n. EscapeName n scheme) (mf_Name f), mf_Metric := map (escape_metric scheme) (mf_Metric f)\<rparr>"
proof (cases "scheme = NoEscaping")
  case True
  have "escape_metric NoEscaping = (\<lambda>m. m)" by (intro ext) (simp add: escape_metric_def)
  with True show ?thesis by (simp add: EscapeMetricFamily_def option.map_ident)
next
  case False
  have "(if metricNeedsEscaping m then m\<lparr>dm_Label := map (escape_label scheme) (dm_Label m)\<rparr> else m) = escape_metric scheme m"
    if m: "m \<in> set (mf_Metric f)" for m
  proof -
    have "escape_label scheme p = (EscapeName (fst p) scheme, snd p)" if "p \<in> set (dm_Label m)" for p
    proof -
      have "unnamed m" using assms(2) m by blast
      then have "fst p \<noteq> MetricName" using that by (force simp: unnamed_def)
      then show ?thesis using EscapeName_legacy [OF assms(1)] by (simp add: escape_label_def case_prod_beta)
    qed
    then have "map (escape_label scheme) (dm_Label m) = escaped_pairs scheme (dm_Label m)" by (simp add: case_prod_beta)
    moreover have "escaped_pairs scheme (dm_Label m) = dm_Label m" if "\<not> metricNeedsEscaping m"
      using that EscapeName_legacy [OF assms(1)] by (auto simp: metricNeedsEscaping_def list_ex_iff intro!: map_idI)
    ultimately show ?thesis by (auto simp: escape_metric_def)
  qed
  moreover have "map_option (\<lambda>n. if IsValidLegacyMetricName n then n else EscapeName n scheme) (mf_Name f) = map_option (\<lambda>n. EscapeName n scheme) (mf_Name f)"
    using EscapeName_legacy [OF assms(1)] by (cases "mf_Name f") auto
  ultimately show ?thesis using False by (simp add: EscapeMetricFamily_def cong: map_cong)
qed

lemma metric_text_line:
  assumes "name \<noteq> []"
  shows "metric_text fmt name (escape_metric scheme (run_metric external s)) =
    sample_line fmt scheme name (fs_metric s) external (fs_f s) (fs_t s)"
proof -
  have "beginMetric name = line_start name" using assms by (simp add: beginMetric_def line_start_def)
  moreover have "ml_separator (line_start name) = CHR ''{'' \<or> ml_braces (line_start name)" by (simp add: line_start_def)
  ultimately show ?thesis
    using metricLine_label_fold [of "line_start name" scheme "line_labels (fs_metric s) external"]
    by (simp add: metric_text_def sample_line_eq escape_metric_def run_metric_def)
qed

definition family_ok :: "float_sample list \<Rightarrow> metric_family \<Rightarrow> bool" where
  "family_ok vec f \<longleftrightarrow> mf_Help f = None \<and> (\<exists>s\<in>set vec. mf_Name f = Some (fs_name s)) \<and> (\<forall>m\<in>set (mf_Metric f). unnamed m)"

lemma name_runs_ok: "\<forall>s\<in>set vec. fs_name s \<noteq> [] \<Longrightarrow> list_all (family_ok vec) (name_runs external vec)"
proof (induction vec)
  case (Cons s vec)
  have m: "unnamed (run_metric external s)"
    using Cons.prems by (auto simp: unnamed_def run_metric_def line_labels_def)
  have mono: "family_ok vec f \<Longrightarrow> family_ok (s # vec) f" for f by (auto simp: family_ok_def)
  have IH: "list_all (family_ok vec) (name_runs external vec)" using Cons by simp
  show ?case
  proof (cases "name_runs external vec")
    case Nil
    then show ?thesis using m by (simp add: Let_def family_ok_def)
  next
    case (Cons g gs)
    have old: "family_ok (s # vec) g" "list_all (family_ok (s # vec)) gs" using IH mono unfolding Cons list_all_iff by auto
    have "family_ok (s # vec) \<lparr>mf_Name = Some (fs_name s), mf_Help = None, mf_Metric = [run_metric external s]\<rparr>"
      "family_ok (s # vec) (g\<lparr>mf_Metric := run_metric external s # mf_Metric g\<rparr>)"
      using m old(1) by (simp_all add: family_ok_def)
    with old Cons show ?thesis by (simp add: Let_def)
  qed
qed simp

text \<open>The encoder's text in terms of the runs: the first one without its header when it continues the last one.\<close>

definition family_lines :: "(f64 \<Rightarrow> string) \<Rightarrow> escaping_scheme \<Rightarrow> metric_family \<Rightarrow> string" where
  "family_lines fmt scheme f = concat (map (\<lambda>m. metric_text fmt (EscapeName (GetName f) scheme) (escape_metric scheme m)) (mf_Metric f))"

abbreviation family_header :: "escaping_scheme \<Rightarrow> string \<Rightarrow> string" where
  "family_header scheme name \<equiv> ''# TYPE '' @ writeName (EscapeName name scheme) @ '' untyped'' @ [newline]"

abbreviation family_text :: "(f64 \<Rightarrow> string) \<Rightarrow> escaping_scheme \<Rightarrow> metric_family \<Rightarrow> string" where
  "family_text fmt scheme f \<equiv> MetricFamilyToText fmt (EscapeMetricFamily f scheme)"

lemma family_text_eq:
  assumes "scheme \<noteq> DotsEscaping" "family_ok vec f"
  shows "family_text fmt scheme f = family_header scheme (GetName f) @ family_lines fmt scheme f"
proof -
  obtain n where f: "mf_Name f = Some n" "mf_Help f = None" "\<forall>m\<in>set (mf_Metric f). unnamed m" using assms(2) by (auto simp: family_ok_def)
  with EscapeMetricFamily_eq [OF assms(1) f(3)] show ?thesis
    by (simp only: MetricFamilyToText_def GetName_def family_lines_def Let_def) (simp add: comp_def)
qed

lemma encoded_name_runs:
  assumes "scheme \<noteq> DotsEscaping" "\<forall>s\<in>set vec. fs_name s \<noteq> []" "inj_on (\<lambda>n. EscapeName n scheme) (fs_name ` set vec)" "en_scheme e = scheme"
  shows "encoded fmt external vec e =
    (case name_runs external vec of [] \<Rightarrow> []
     | f # fs \<Rightarrow> (if en_started e \<and> en_lastName e = EscapeName (GetName f) scheme then family_lines fmt scheme f else family_text fmt scheme f) @
         concat (map (family_text fmt scheme) fs))"
  using assms
proof (induction vec arbitrary: e)
  case (Cons s vec)
  let ?esc = "\<lambda>n. EscapeName n scheme"
  let ?e = "e\<lparr>en_lastName := ?esc (fs_name s), en_started := True\<rparr>"
  let ?line = "sample_line fmt scheme (?esc (fs_name s)) (fs_metric s) external (fs_f s) (fs_t s)"
  let ?new = "\<lparr>mf_Name = Some (fs_name s), mf_Help = None, mf_Metric = [run_metric external s]\<rparr>"
  have enc: "encoded fmt external (s # vec) e =
      (if en_started e \<and> en_lastName e = ?esc (fs_name s) then [] else family_header scheme (fs_name s)) @ ?line @ encoded fmt external vec ?e"
  proof (cases "en_started e \<and> en_lastName e = ?esc (fs_name s)")
    case True
    then have "?e = e" by (cases e) simp
    then show ?thesis using True Cons.prems(4) by (simp only:) (simp add: WriteFloatSample_def Let_def)
  next
    case False
    then show ?thesis using Cons.prems(4) by (auto simp: WriteFloatSample_def Let_def)
  qed
  have IH: "encoded fmt external vec ?e = (case name_runs external vec of [] \<Rightarrow> []
     | f # fs \<Rightarrow> (if ?esc (fs_name s) = ?esc (GetName f) then family_lines fmt scheme f else family_text fmt scheme f) @
         concat (map (family_text fmt scheme) fs))"
  proof -
    have "inj_on ?esc (fs_name ` set vec)" using Cons.prems(3) by (rule inj_on_subset) auto
    with Cons.IH [of ?e] Cons.prems show ?thesis by (cases "name_runs external vec") simp_all
  qed
  have line: "metric_text fmt (?esc (fs_name s)) (escape_metric scheme (run_metric external s)) = ?line"
    using metric_text_line EscapeName_nonempty Cons.prems(1,2) by simp
  have ok: "list_all (family_ok (s # vec)) (name_runs external (s # vec))" using name_runs_ok Cons.prems(2) by blast
  have new: "family_lines fmt scheme ?new = ?line" "GetName ?new = fs_name s" using line by (simp_all add: family_lines_def GetName_def)
  have "\<exists>g gs. name_runs external (s # vec) = g # gs \<and> GetName g = fs_name s \<and>
      ?line @ encoded fmt external vec ?e = family_lines fmt scheme g @ concat (map (family_text fmt scheme) gs)"
  proof (cases "name_runs external vec")
    case Nil
    then show ?thesis using IH new by (simp add: Let_def)
  next
    case (Cons f fs)
    have "list_all (family_ok vec) (name_runs external vec)" using name_runs_ok Cons.prems(2) by simp
    then obtain s' where s': "s' \<in> set vec" "mf_Name f = Some (fs_name s')" using Cons by (auto simp: family_ok_def)
    show ?thesis
    proof (cases "mf_Name f = Some (fs_name s)")
      case True
      let ?g = "f\<lparr>mf_Metric := run_metric external s # mf_Metric f\<rparr>"
      have "GetName f = fs_name s" "GetName ?g = fs_name s" using True by (simp_all add: GetName_def)
      moreover from this line have "family_lines fmt scheme ?g = ?line @ family_lines fmt scheme f" by (simp add: family_lines_def)
      moreover have "name_runs external (s # vec) = ?g # fs" using Cons True by (simp add: Let_def)
      ultimately show ?thesis using IH Cons by (intro exI [of _ ?g] exI [of _ fs]) simp
    next
      case False
      then have "?esc (fs_name s) \<noteq> ?esc (GetName f)" using Cons.prems(3) s' by (auto simp: GetName_def dest: inj_onD)
      moreover have "name_runs external (s # vec) = ?new # f # fs" using Cons False by (simp add: Let_def)
      ultimately show ?thesis using IH Cons new by (intro exI [of _ ?new] exI [of _ "f # fs"]) simp
    qed
  qed
  then obtain g gs where g: "name_runs external (s # vec) = g # gs" "GetName g = fs_name s"
    "?line @ encoded fmt external vec ?e = family_lines fmt scheme g @ concat (map (family_text fmt scheme) gs)" by blast
  have "family_text fmt scheme g = family_header scheme (fs_name s) @ family_lines fmt scheme g"
    using family_text_eq [OF Cons.prems(1), of "s # vec" g fmt] ok g(1,2) by simp
  then show ?case unfolding enc g(1) g(3) by (simp add: g(2))
qed simp

section \<open>Properties\<close>

lemma merge_of_single:
  assumes "sorted_set xs"
  shows "merge_of f (series_of [xs]) xs"
proof -
  have d: "distinct (map sr_labels xs)" using assms by (simp add: strict_sorted_iff)
  have "filter (\<lambda>x. sr_labels x = sr_labels s) xs = [s]" if "s \<in> set xs" for s
    using that d by (induction xs) (auto simp: filter_empty_conv image_iff)
  then have "mset [s] = filter_mset (\<lambda>x. sr_labels x = sr_labels s) (series_of [xs])" if "s \<in> set xs" for s
    using that by (simp add: series_of_def flip: mset_filter)
  moreover have "merged_from f [s] s" for s by (simp add: merged_from_def)
  ultimately show ?thesis using assms unfolding merge_of_def by (metis set_mset_mset series_of_def list.simps(8,9) concat.simps append_Nil2)
qed

abbreviation chained :: "fed_env \<Rightarrow> series list \<Rightarrow> series option outcome" where
  "chained env xs \<equiv> Ret (if xs = [] then None else Some (fe_chain env xs))"

lemma select_all_sorted:
  assumes "\<forall>ms\<in>set mss. GetValue (pqr_Client q) (timestamp_Time (sh_Start hi)) (timestamp_Time (sh_End hi)) ms = Ret (ans ms)" "sh_Func hi \<noteq> ''series''"
  shows "select_all pq q hi mss = Ret (map (\<lambda>ms. SortSeriesSet (ans ms)) mss)"
  using assms by (induction mss) (auto simp: Select_def)

lemma chained_vertical:
  assumes "\<forall>xs l. xs \<noteq> [] \<and> (\<forall>x\<in>set xs. sr_labels x = l) \<longrightarrow> sr_labels (fe_chain env xs) = l"
  shows "vertical_merge (chained env)"
  using assms by unfold_locales auto

lemma NewMergeSeriesSet_chained:
  assumes "\<forall>xs l. xs \<noteq> [] \<and> (\<forall>x\<in>set xs. sr_labels x = l) \<longrightarrow> sr_labels (fe_chain env xs) = l"
    and "\<forall>s\<in>set sets. ss_err s = None \<and> labels_distinct s"
  shows "\<exists>set. NewMergeSeriesSet (map SortSeriesSet sets) (chained env) = Ret set \<and> ss_err set = None \<and>
    merge_of (chained env) (series_of (map ss_series sets)) (ss_series set)"
proof (cases "length sets = 1")
  case True
  then obtain s where s: "sets = [s]" by (cases sets) auto
  then have "sorted_set (ss_series (SortSeriesSet s))" using assms(2) sorted_set_SortSeriesSet by simp
  from merge_of_single [OF this, of "chained env"] series_of_SortSeriesSet [of sets] s assms(2) show ?thesis
    by (simp add: NewMergeSeriesSet_def)
next
  case False
  have "\<forall>s\<in>set (map SortSeriesSet sets). ss_err s = None \<and> sorted_set (ss_series s)"
    using assms(2) sorted_set_SortSeriesSet by simp
  from NewMergeSeriesSet_spec [OF chained_vertical [OF assms(1)] _ this] False series_of_SortSeriesSet [of sets] show ?thesis
    by (auto simp: NewSeriesSet_def)
qed

lemma federated_metric: "federated_sample delta maxt s = Some x \<Longrightarrow> fs_metric x = sr_labels s"
  by (auto simp: federated_sample_def Let_def split: option.splits if_splits prod.splits)

lemma in_map_filter: "x \<in> set (List.map_filter f xs) \<longleftrightarrow> (\<exists>s\<in>set xs. f s = Some x)"
  by (force simp: map_filter_def)

lemma distinct_federated:
  assumes "distinct (map sr_labels out)"
  shows "distinct (map fs_metric (List.map_filter (federated_sample delta maxt) out))"
  using assms
proof (induction out)
  case (Cons s out)
  have "fs_metric ` set (List.map_filter (federated_sample delta maxt) out) \<subseteq> sr_labels ` set out"
    using federated_metric by (fastforce simp: in_map_filter)
  with Cons show ?case by (auto simp: List.map_filter_simps federated_metric split: option.split)
qed (simp add: List.map_filter_simps)

text \<open>
  C15. Streaming the samples: whatever the connection does, the bytes it accepted are a prefix
  of the encoded text; without an error all samples were encoded and all of the text was
  accepted; an error is one that the connection returned, and it never fails on its own.
\<close>

theorem writeSamples_prefix:
  assumes "writeSamples fmt sink vec external scheme = ((n, err), w)"
  shows "prefix (ew_out w) (encoded fmt external vec (NewEncoder scheme)) \<and> n \<le> length vec \<and>
    (err = None \<longrightarrow> n = length vec \<and> ew_out w = encoded fmt external vec (NewEncoder scheme)) \<and>
    (\<forall>e. err = Some e \<longrightarrow> (\<exists>j m. sink j = Some (m, e)))"
proof -
  have "has_written sink [] NewWriter" "wr_err NewWriter = None" by (simp_all add: has_written_def NewWriter_def)
  from write_loop_spec [OF this, of fmt external vec "NewEncoder scheme" 0 n err w] assms show ?thesis by (simp add: writeSamples_def)
qed

text \<open>
  C14. A federation request in the text format: when every selector's answer is without error and names
  each series once, and the connection accepts what is written, the response holds the samples
  that the merged series contribute, each series at most once, sorted by name, and the
  body is exactly their encoding.
\<close>

theorem ServeHTTP_correct:
  assumes "fq_format req = Some scheme" "fq_form req = Inr matches" "fe_ParseMetricSelectors env matches = Inr mss"
    and "\<forall>ms\<in>set mss. GetValue client (timestamp_Time (FromTime (now - fh_lookback h))) (timestamp_Time (FromTime now)) ms = Ret (ans ms) \<and>
      ss_err (ans ms) = None \<and> labels_distinct (ans ms)"
    and "\<forall>xs l. xs \<noteq> [] \<and> (\<forall>x\<in>set xs. sr_labels x = l) \<longrightarrow> sr_labels (fe_chain env xs) = l"
    and "\<forall>vec. mset (fe_sort env vec) = mset vec \<and> sorted (map fs_name (fe_sort env vec))"
  shows "\<exists>out vec. ServeHTTP env pq client now (\<lambda>_. None) h req =
      Ret (Federated vec (length vec, None) (encoded (fe_fmt env) (fh_extLabels h) vec (NewEncoder scheme))) \<and>
    merge_of (chained env) (series_of (map (\<lambda>ms. ss_series (ans ms)) mss)) out \<and>
    mset vec = mset (List.map_filter (federated_sample (Milliseconds (fh_lookback h)) (FromTime now)) out) \<and>
    sorted (map fs_name vec) \<and> distinct (map fs_metric vec)"
proof -
  let ?mint = "FromTime (now - fh_lookback h)" and ?maxt = "FromTime now"
  obtain set where set: "NewMergeSeriesSet (map SortSeriesSet (map ans mss)) (chained env) = Ret set" "ss_err set = None"
    "merge_of (chained env) (series_of (map ss_series (map ans mss))) (ss_series set)"
    using NewMergeSeriesSet_chained [OF assms(5), of "map ans mss"] assms(4) by auto
  let ?raw = "List.map_filter (federated_sample (Milliseconds (fh_lookback h)) ?maxt) (ss_series set)"
  let ?vec = "fe_sort env ?raw"
  obtain n err w where ws: "writeSamples (fe_fmt env) (\<lambda>_. None) ?vec (fh_extLabels h) scheme = ((n, err), w)" by (metis surj_pair)
  have "has_written (\<lambda>_. None) [] NewWriter" "wr_err NewWriter = None" by (simp_all add: has_written_def NewWriter_def)
  from write_loop_spec [OF this, of "fe_fmt env" "fh_extLabels h" ?vec "NewEncoder scheme" 0 n err w] ws
  have "n = length ?vec" "err = None" "ew_out w = encoded (fe_fmt env) (fh_extLabels h) ?vec (NewEncoder scheme)"
    by (cases err; simp add: writeSamples_def)+
  moreover have "select_all pq (Querier client ?mint ?maxt) \<lparr>sh_Start = ?mint, sh_End = ?maxt, sh_Func = []\<rparr> mss = Ret (map SortSeriesSet (map ans mss))"
    using assms(4) by (subst select_all_sorted [where ans = ans]) (simp_all add: Querier_def)
  ultimately have "ServeHTTP env pq client now (\<lambda>_. None) h req =
      Ret (Federated ?vec (length ?vec, None) (encoded (fe_fmt env) (fh_extLabels h) ?vec (NewEncoder scheme)))"
    using assms(1-3) set(1,2) ws by (simp add: ServeHTTP_def Let_def)
  moreover have "distinct (map fs_metric ?vec)"
  proof -
    have "distinct (map sr_labels (ss_series set))" using set(3) by (simp add: merge_of_def strict_sorted_iff)
    moreover have "mset (map fs_metric ?vec) = mset (map fs_metric ?raw)" using assms(6) by simp
    ultimately show ?thesis using distinct_federated mset_eq_imp_distinct_iff by blast
  qed
  ultimately show ?thesis using set(3) assms(6) by (intro exI [of _ "ss_series set"] exI [of _ ?vec]) (simp add: comp_def)
qed

definition example_fed_env :: fed_env where
  "example_fed_env = \<lparr>fe_fmt = \<lambda>_. ''0.5'', fe_ParseMetricSelectors = \<lambda>_. Inr [[]], fe_sort = sort_key fs_name, fe_chain = hd\<rparr>"

lemma legacy_up: "IsValidLegacyMetricName ''up''"
  by (simp add: IsValidLegacyMetricName_def isValidLegacyRune_def utf8_width_def utf8_expected_def rune_value_def)

lemma char_of_examples: "char_of (53 :: nat) = CHR ''5''" "char_of (97 :: nat) = CHR ''a''" "char_of (98 :: nat) = CHR ''b''"
  by (simp_all add: char_of_def bit_iff_odd)

lemma itoa_5: "itoa 5 = ''5''"
  by (subst itoa.simps) (simp add: char_of_examples)

lemmas text_simps = WriteFloatSample_def NewEncoder_def Let_def labels_Get_def MetricName_def sample_line_def writeName_def writeEscaped_def
  legacy_up itoa_5 writeFloat_def f64_eq_def f64_is_nan_def f64_exponent_def f64_mantissa_def f64_key_def writeInt_def

theorem writeSamples_prefix_witness:
  "fst (writeSamples (\<lambda>_. ''0.5'') (\<lambda>_. Some (2, ContextCanceled)) [\<lparr>fs_metric = [(''__name__'', ''up'')], fs_t = 5, fs_f = 0\<rparr>] [] NoEscaping) = (1, Some ContextCanceled) \<and>
   prefix (ew_out (snd (writeSamples (\<lambda>_. ''0.5'') (\<lambda>_. Some (2, ContextCanceled)) [\<lparr>fs_metric = [(''__name__'', ''up'')], fs_t = 5, fs_f = 0\<rparr>] [] NoEscaping)))
     (encoded (\<lambda>_. ''0.5'') [] [\<lparr>fs_metric = [(''__name__'', ''up'')], fs_t = 5, fs_f = 0\<rparr>] (NewEncoder NoEscaping))"
proof -
  let ?r = "writeSamples (\<lambda>_. ''0.5'') (\<lambda>_. Some (2, ContextCanceled)) [\<lparr>fs_metric = [(''__name__'', ''up'')], fs_t = 5, fs_f = 0\<rparr>] [] NoEscaping"
  have r: "fst ?r = (1, Some ContextCanceled)"
    by (simp add: writeSamples_def text_simps bufio_WriteString_def bufio_WriteByte_def bufio_size_def bufio_Flush_def errWriter_Write_def NewWriter_def)
  then have "?r = ((1, Some ContextCanceled), snd ?r)" by (metis prod.collapse)
  from writeSamples_prefix [OF this] r show ?thesis by simp
qed

theorem ServeHTTP_correct_witness:
  "\<exists>vec. ServeHTTP example_fed_env example_pq (set_api (NewSeriesSet [NewSeries [(''__name__'', ''up'')] [FloatSample 1 7]] [] None)) (2 * nanos_per_milli) (\<lambda>_. None)
      (federate_New (5 * nanos_per_milli)) \<lparr>fq_format = Some NoEscaping, fq_form = Inr [''up'']\<rparr> =
      Ret (Federated vec (length vec, None) (encoded (\<lambda>_. ''0.5'') [(InstanceLabel, [])] vec (NewEncoder NoEscaping))) \<and> distinct (map fs_metric vec)"
proof -
  let ?c = "set_api (NewSeriesSet [NewSeries [(''__name__'', ''up'')] [FloatSample 1 7]] [] None)"
  have sort: "\<forall>vec. mset (fe_sort example_fed_env vec) = mset vec \<and> sorted (map fs_name (fe_sort example_fed_env vec))"
    by (simp add: example_fed_env_def)
  have chain: "\<forall>xs l. xs \<noteq> [] \<and> (\<forall>x\<in>set xs. sr_labels x = l) \<longrightarrow> sr_labels (fe_chain example_fed_env xs) = l"
    by (simp add: example_fed_env_def)
  have "\<forall>ms\<in>set [[]]. GetValue ?c (timestamp_Time (FromTime (2 * nanos_per_milli - fh_lookback (federate_New (5 * nanos_per_milli)))))
      (timestamp_Time (FromTime (2 * nanos_per_milli))) ms = Ret (NewSeriesSet [NewSeries [(''__name__'', ''up'')] [FloatSample 1 7]] [] None) \<and>
      ss_err (NewSeriesSet [NewSeries [(''__name__'', ''up'')] [FloatSample 1 7]] [] None) = None \<and>
      labels_distinct (NewSeriesSet [NewSeries [(''__name__'', ''up'')] [FloatSample 1 7]] [] None)"
    by (simp add: set_api_def const_api_def NewSeriesSet_def labels_distinct_def)
  from ServeHTTP_correct [OF _ _ _ this chain sort, of "\<lparr>fq_format = Some NoEscaping, fq_form = Inr [''up'']\<rparr>" NoEscaping "[''up'']" example_pq]
  show ?thesis by (auto simp: example_fed_env_def federate_New_def)
qed

text \<open>
  The sample of a federated series: with the samples in time order and none after the
  request, it is the last one, if that is a float, not older than the lookback and not a
  staleness marker; otherwise the series is left out.
\<close>

lemma federated_sample_correct:
  assumes "in_i64 (maxt - delta)" "- (2 ^ 63) < maxt - delta" "0 \<le> delta"
    and "sorted_wrt (\<lambda>x y. sample_T x < sample_T y) (sr_samples s)" "\<forall>x\<in>set (sr_samples s). sample_T x \<le> maxt"
  shows "federated_sample delta maxt s =
    (if sr_samples s \<noteq> [] \<and> is_FloatSample (last (sr_samples s)) \<and> maxt - delta \<le> sample_T (last (sr_samples s)) \<and>
        sample_F (last (sr_samples s)) \<noteq> StaleNaN
     then Some \<lparr>fs_metric = sr_labels s, fs_t = sample_T (last (sr_samples s)), fs_f = sample_F (last (sr_samples s))\<rparr> else None)"
  by (rule federated_sample_latest [OF assms])

text \<open>
  Where it differs from the handler of Prometheus: dots escaping also changes legacy names here, and a sample without a
  name is written with an empty one instead of being dropped.
\<close>

lemma dots_escaping_differs:
  "EscapeName ''a_b'' DotsEscaping = ''a__b''"
  "EscapeMetricFamily \<lparr>mf_Name = Some ''a_b'', mf_Help = None, mf_Metric = []\<rparr> DotsEscaping = \<lparr>mf_Name = Some ''a_b'', mf_Help = None, mf_Metric = []\<rparr>"
  by (simp_all add: EscapeMetricFamily_def EscapeName_def IsValidLegacyMetricName_def isValidLegacyRune_def utf8_width_def utf8_expected_def rune_value_def char_of_examples)

lemma nameless_sample_written:
  "encoded fmt [] [\<lparr>fs_metric = [], fs_t = 5, fs_f = 0\<rparr>] (NewEncoder NoEscaping) =
     ''# TYPE '' @ [quote_char, quote_char] @ '' untyped'' @ [newline] @ ''{'' @ [quote_char, quote_char] @ ''} 0 5'' @ [newline]"
  by (simp add: text_simps IsValidLegacyMetricName_def)

end
