(* ===== verification/Promxy_Upstream.thy ===== *)
theory Promxy_Upstream
  imports Promxy_Federate
begin

text \<open>
  What the federation handler replaces: the handler of Prometheus (\<open>vendor/.../prometheus/web/federate.go\<close>) on float
  samples, and the text encoder it hands its metric families to
  (\<open>vendor/.../prometheus/common/expfmt/text_create.go\<close>), each translated from its own source. The text of promxy's
  streaming encoder is compared with theirs.
\<close>

section \<open>The encoder of \<open>common/expfmt\<close>\<close>

definition common_writeEscapedString :: "string \<Rightarrow> bool \<Rightarrow> string" where
  "common_writeEscapedString v includeDoubleQuote =
     concat (map (\<lambda>c. if c = backslash then [backslash, backslash] else if c = newline then [backslash, CHR ''n'']
       else if includeDoubleQuote \<and> c = quote_char then [backslash, quote_char] else [c]) v)"

definition common_writeName :: "string \<Rightarrow> string" where
  "common_writeName name =
     (if IsValidLegacyMetricName name then name else [quote_char] @ common_writeEscapedString name True @ [quote_char])"

definition common_writeFloat :: "(f64 \<Rightarrow> string) \<Rightarrow> f64 \<Rightarrow> string" where
  "common_writeFloat fmt f =
     (if f64_eq f 0x3ff0000000000000 then ''1''
      else if f64_eq f 0 then ''0''
      else if f64_eq f 0xbff0000000000000 then ''-1''
      else if f64_is_nan f then ''NaN''
      else if f = 0x7ff0000000000000 then ''+Inf''
      else if f = 0xfff0000000000000 then ''-Inf''
      else fmt f)"

definition common_writeInt :: "int \<Rightarrow> string" where
  "common_writeInt i = (if i < 0 then ''-'' @ itoa (nat (- i)) else itoa (nat i))"

text \<open>Without an additional label, as untyped samples are written.\<close>

definition writeNameAndLabelPairs :: "string \<Rightarrow> (string \<times> string) list \<Rightarrow> string" where
  "writeNameAndLabelPairs name pairs =
     (let metricInsideBraces = (name \<noteq> [] \<and> \<not> IsValidLegacyMetricName name);
          w = (if name = [] then [] else if metricInsideBraces then ''{'' @ common_writeName name else common_writeName name);
          separator = (if metricInsideBraces then CHR '','' else CHR ''{'')
      in if pairs = [] then (if metricInsideBraces then w @ ''}'' else w)
         else fst (fold (\<lambda>(n, v) (w, separator).
                    (w @ [separator] @ common_writeName n @ ''='' @ [quote_char] @ common_writeEscapedString v True @ [quote_char], CHR '',''))
                  pairs (w, separator)) @ ''}'')"

definition writeSample :: "(f64 \<Rightarrow> string) \<Rightarrow> string \<Rightarrow> dto_metric \<Rightarrow> string" where
  "writeSample fmt name metric =
     writeNameAndLabelPairs name (dm_Label metric) @ '' '' @ common_writeFloat fmt (dm_Untyped metric) @
     (case dm_TimestampMs metric of Some t \<Rightarrow> '' '' @ common_writeInt t | None \<Rightarrow> []) @ [newline]"

text \<open>An untyped family; \<open>None\<close> is an error, before anything is written.\<close>

definition common_MetricFamilyToText :: "(f64 \<Rightarrow> string) \<Rightarrow> metric_family \<Rightarrow> string option" where
  "common_MetricFamilyToText fmt mf =
     (if mf_Metric mf = [] then None
      else let name = GetName mf
           in if name = [] then None
              else Some ((case mf_Help mf of Some h \<Rightarrow> ''# HELP '' @ common_writeName name @ '' '' @ common_writeEscapedString h False @ [newline] | None \<Rightarrow> []) @
                ''# TYPE '' @ common_writeName name @ '' untyped'' @ [newline] @ concat (map (writeSample fmt name) (mf_Metric mf))))"

definition Encode :: "(f64 \<Rightarrow> string) \<Rightarrow> escaping_scheme \<Rightarrow> metric_family \<Rightarrow> string option" where
  "Encode fmt scheme v = common_MetricFamilyToText fmt (EscapeMetricFamily v scheme)"

section \<open>The handler of Prometheus\<close>

text \<open>
  The loop over the sorted vector: the body so far, the family under construction and its name; for one sample, whether
  its name was seen, the external labels it has of its own, and the labels collected. \<open>Inl\<close> is the body when encoding failed.
\<close>

record upstream =
  up_body :: string
  up_protMetricFam :: "metric_family option"
  up_lastMetricName :: string

record metric_scan =
  sc_nameSeen :: bool
  sc_globalUsed :: "string list"
  sc_Label :: "(string \<times> string) list"

definition ship :: "(metric_family \<Rightarrow> string option) \<Rightarrow> upstream \<Rightarrow> string + string" where
  "ship enc u =
     (case up_protMetricFam u of
        None \<Rightarrow> Inr (up_body u)
      | Some fam \<Rightarrow> (case enc fam of None \<Rightarrow> Inl (up_body u) | Some text \<Rightarrow> Inr (up_body u @ text)))"

definition federation_label ::
  "(metric_family \<Rightarrow> string option) \<Rightarrow> (string \<times> string) list \<Rightarrow> string \<times> string \<Rightarrow> upstream \<times> metric_scan \<Rightarrow> string + upstream \<times> metric_scan"
where
  "federation_label enc externalLabels = (\<lambda>(name, val) (u, sc).
     if val = [] then Inr (u, sc)
     else if name = MetricName
     then let sc = sc\<lparr>sc_nameSeen := True\<rparr>
          in if val = up_lastMetricName u then Inr (u, sc)
             else (case ship enc u of
                     Inl body \<Rightarrow> Inl body
                   | Inr body \<Rightarrow> Inr (\<lparr>up_body = body, up_protMetricFam = Some \<lparr>mf_Name = Some val, mf_Help = None, mf_Metric = []\<rparr>,
                       up_lastMetricName = val\<rparr>, sc))
     else Inr (u, sc\<lparr>sc_Label := sc_Label sc @ [(name, val)],
            sc_globalUsed := (if map_of externalLabels name \<noteq> None then sc_globalUsed sc @ [name] else sc_globalUsed sc)\<rparr>))"

fun federation_labels ::
  "(metric_family \<Rightarrow> string option) \<Rightarrow> (string \<times> string) list \<Rightarrow> labelset \<Rightarrow> upstream \<times> metric_scan \<Rightarrow> string + upstream \<times> metric_scan"
where
  "federation_labels enc externalLabels [] s = Inr s"
| "federation_labels enc externalLabels (l # ls) s =
     (case federation_label enc externalLabels l s of Inl body \<Rightarrow> Inl body | Inr s \<Rightarrow> federation_labels enc externalLabels ls s)"

definition federation_metric :: "(string \<times> string) list \<Rightarrow> float_sample \<Rightarrow> metric_scan \<Rightarrow> dto_metric" where
  "federation_metric externalLabels s sc =
     \<lparr>dm_Label = fold (\<lambda>(ln, lv) ls. if ln \<in> set (sc_globalUsed sc) then ls else ls @ [(ln, lv)]) externalLabels (sc_Label sc),
      dm_Untyped = fs_f s, dm_TimestampMs = Some (fs_t s)\<rparr>"

fun federation_loop ::
  "(metric_family \<Rightarrow> string option) \<Rightarrow> (string \<times> string) list \<Rightarrow> float_sample list \<Rightarrow> upstream \<Rightarrow> string \<times> bool"
where
  "federation_loop enc externalLabels [] u = (case ship enc u of Inl body \<Rightarrow> (body, True) | Inr body \<Rightarrow> (body, False))"
| "federation_loop enc externalLabels (s # vec) u =
     (case federation_labels enc externalLabels (fs_metric s) (u, \<lparr>sc_nameSeen = False, sc_globalUsed = [], sc_Label = []\<rparr>) of
        Inl body \<Rightarrow> (body, True)
      | Inr (u, sc) \<Rightarrow>
          if \<not> sc_nameSeen sc then federation_loop enc externalLabels vec u
          else federation_loop enc externalLabels vec
            (u\<lparr>up_protMetricFam := map_option (\<lambda>fam. fam\<lparr>mf_Metric := mf_Metric fam @ [federation_metric externalLabels s sc]\<rparr>) (up_protMetricFam u)\<rparr>))"

text \<open>The body of the response and whether it broke off; the external labels are sorted by name.\<close>

definition federation :: "(f64 \<Rightarrow> string) \<Rightarrow> escaping_scheme \<Rightarrow> (string \<times> string) list \<Rightarrow> float_sample list \<Rightarrow> string \<times> bool" where
  "federation fmt scheme externalLabels vec =
     federation_loop (Encode fmt scheme) externalLabels vec \<lparr>up_body = [], up_protMetricFam = None, up_lastMetricName = []\<rparr>"

section \<open>Both encoders write a family alike\<close>

lemma common_writeEscapedString_eq: "common_writeEscapedString v b = writeEscaped v b"
proof (cases b)
  case True
  then show ?thesis unfolding common_writeEscapedString_def by (simp only: writeEscaped_quoted) (auto simp: quotedEscaper_def escaper_def quote_char_def backslash_def newline_def intro!: arg_cong [where f = concat])
next
  case False
  then show ?thesis unfolding common_writeEscapedString_def by (simp add: writeEscaped_plain escaper_def [abs_def] cong: if_cong)
qed

lemma common_writeName_eq: "common_writeName = writeName"
  by (intro ext) (simp add: common_writeName_def writeName_def common_writeEscapedString_eq)

lemma common_numbers_eq: "common_writeFloat = writeFloat" "common_writeInt = writeInt"
  by (intro ext; simp add: common_writeFloat_def writeFloat_def common_writeInt_def writeInt_def)+

lemma metricLine_pairs:
  "ml_w (fold (\<lambda>(n, v). metricLine_label n v) pairs m) = fst (fold (\<lambda>(n, v) (w, separator).
      (w @ [separator] @ writeName n @ ''='' @ [quote_char] @ writeEscaped v True @ [quote_char], CHR '','')) pairs (ml_w m, ml_separator m))"
  by (induction pairs arbitrary: m) (auto simp: metricLine_label_def write_pair_def)

lemma metricLine_braces:
  "ml_separator m = CHR ''{'' \<or> ml_braces m \<Longrightarrow> ml_braces (fold (\<lambda>(n, v). metricLine_label n v) pairs m) = (pairs \<noteq> [] \<or> ml_braces m)"
proof (induction pairs arbitrary: m)
  case (Cons p pairs)
  have "ml_braces (metricLine_label (fst p) (snd p) m)" using Cons.prems by (auto simp: metricLine_label_def)
  then show ?case using Cons.IH [of "metricLine_label (fst p) (snd p) m"] by (simp add: case_prod_beta)
qed simp

lemma writeNameAndLabelPairs_eq:
  "writeNameAndLabelPairs name pairs = metricLine_end (fold (\<lambda>(n, v). metricLine_label n v) pairs (beginMetric name))"
proof -
  have b: "ml_separator (beginMetric name) = CHR ''{'' \<or> ml_braces (beginMetric name)" by (simp add: beginMetric_def)
  show ?thesis unfolding metricLine_end_def metricLine_pairs metricLine_braces [OF b]
    by (auto simp: writeNameAndLabelPairs_def beginMetric_def Let_def common_writeName_eq common_writeEscapedString_eq)
qed

lemma common_MetricFamilyToText_eq:
  "common_MetricFamilyToText fmt mf = (if mf_Metric mf = [] \<or> GetName mf = [] then None else Some (MetricFamilyToText fmt mf))"
proof -
  have "writeSample fmt name = metric_text fmt name" for name
    by (intro ext) (simp add: writeSample_def metric_text_def writeNameAndLabelPairs_eq common_numbers_eq split: option.split)
  then show ?thesis by (simp add: common_MetricFamilyToText_def MetricFamilyToText_def Let_def common_writeName_eq common_writeEscapedString_eq split: option.split)
qed

section \<open>The loop of Prometheus in runs\<close>

lemma federation_labels_plain:
  assumes "MetricName \<notin> fst ` set ls"
  shows "federation_labels enc ext ls (u, sc) = Inr (u, sc\<lparr>sc_Label := sc_Label sc @ filter (\<lambda>(n, v). v \<noteq> []) ls,
    sc_globalUsed := sc_globalUsed sc @ map fst (filter (\<lambda>(n, v). v \<noteq> [] \<and> map_of ext n \<noteq> None) ls)\<rparr>)"
  using assms by (induction ls arbitrary: sc) (auto simp: federation_label_def)

text \<open>A label set with the name in the middle.\<close>

lemma named_labels:
  assumes "distinct (map fst ls)" "labels_Get ls MetricName \<noteq> []"
  obtains as bs where "ls = as @ (MetricName, labels_Get ls MetricName) # bs" "MetricName \<notin> fst ` set as" "MetricName \<notin> fst ` set bs"
proof -
  have "map_of ls MetricName = Some (labels_Get ls MetricName)" using assms(2) by (auto simp: labels_Get_def split: option.splits)
  then have "(MetricName, labels_Get ls MetricName) \<in> set ls" by (rule map_of_SomeD)
  then obtain as bs where ls: "ls = as @ (MetricName, labels_Get ls MetricName) # bs" by (meson split_list)
  then have "distinct (map fst (as @ (MetricName, labels_Get ls MetricName) # bs))" using assms(1) by simp
  then have "MetricName \<notin> fst ` set as" "MetricName \<notin> fst ` set bs" by auto
  with ls show ?thesis by (rule that)
qed

lemma federation_labels_append:
  "federation_labels enc ext (as @ bs) s = (case federation_labels enc ext as s of Inl b \<Rightarrow> Inl b | Inr s \<Rightarrow> federation_labels enc ext bs s)"
  by (induction as arbitrary: s) (auto split: sum.splits)

text \<open>Of a named sample: the family is the current one or a new one, and the metric is that of promxy's line.\<close>

definition started :: "(metric_family \<Rightarrow> string option) \<Rightarrow> string \<Rightarrow> upstream \<Rightarrow> string + upstream" where
  "started enc name u =
     (if name = up_lastMetricName u then Inr u
      else case ship enc u of Inl body \<Rightarrow> Inl body
        | Inr body \<Rightarrow> Inr \<lparr>up_body = body, up_protMetricFam = Some \<lparr>mf_Name = Some name, mf_Help = None, mf_Metric = []\<rparr>, up_lastMetricName = name\<rparr>)"

lemma external_fold: "fold (\<lambda>(ln, lv) ls. if P ln then ls else ls @ [(ln, lv)]) ext ls = ls @ filter (\<lambda>(ln, _). \<not> P ln) ext"
  by (induction ext arbitrary: ls) auto

lemma federation_step:
  assumes "distinct (map fst (fs_metric s))" "fs_name s \<noteq> []" "MetricName \<notin> fst ` set ext"
  shows "federation_loop enc ext (s # vec) u =
    (case started enc (fs_name s) u of Inl body \<Rightarrow> (body, True)
     | Inr u \<Rightarrow> federation_loop enc ext vec (u\<lparr>up_protMetricFam := map_option (\<lambda>fam. fam\<lparr>mf_Metric := mf_Metric fam @ [run_metric ext s]\<rparr>) (up_protMetricFam u)\<rparr>))"
proof -
  define name where "name = fs_name s"
  obtain as bs where ls: "fs_metric s = as @ (MetricName, name) # bs" "MetricName \<notin> fst ` set as" "MetricName \<notin> fst ` set bs"
    using named_labels [OF assms(1,2)] unfolding name_def by metis
  let ?sc = "\<lparr>sc_nameSeen = False, sc_globalUsed = [], sc_Label = []\<rparr>"
  let ?used = "map fst (filter (\<lambda>(n, v). v \<noteq> [] \<and> map_of ext n \<noteq> None) (as @ bs))"
  let ?sc' = "\<lparr>sc_nameSeen = True, sc_globalUsed = ?used, sc_Label = filter (\<lambda>(n, v). v \<noteq> []) (as @ bs)\<rparr>"
  have scan: "federation_labels enc ext (fs_metric s) (u, ?sc) = (case started enc name u of Inl body \<Rightarrow> Inl body | Inr u \<Rightarrow> Inr (u, ?sc'))"
    using assms(2) [folded name_def] unfolding ls(1) federation_labels_append federation_labels_plain [OF ls(2)] federation_labels.simps sum.case
    by (auto simp: federation_label_def started_def Let_def federation_labels_plain [OF ls(3)] split: sum.split)
  have used: "labels_Get (fs_metric s) n \<noteq> [] \<longleftrightarrow> n \<in> set ?used" if n: "n \<in> fst ` set ext" for n
  proof -
    have name': "n \<noteq> MetricName" "map_of ext n \<noteq> None" using n assms(3) by (blast, simp add: map_of_eq_None_iff)
    have "(n, v) \<in> set (as @ bs) \<longleftrightarrow> (n, v) \<in> set (fs_metric s)" for v using name'(1) by (subst ls(1)) auto
    then have "(n, v) \<in> set (as @ bs) \<longleftrightarrow> map_of (fs_metric s) n = Some v" for v using assms(1) by simp
    moreover have "n \<in> set ?used \<longleftrightarrow> (\<exists>v. (n, v) \<in> set (as @ bs) \<and> v \<noteq> [])"
    proof -
      have "n \<in> set ?used \<longleftrightarrow> (\<exists>p\<in>set (as @ bs). fst p = n \<and> snd p \<noteq> [] \<and> map_of ext (fst p) \<noteq> None)" by (auto simp: case_prod_beta)
      also have "\<dots> \<longleftrightarrow> (\<exists>v. (n, v) \<in> set (as @ bs) \<and> v \<noteq> [])" using name'(2) by (metis fst_conv prod.collapse snd_conv)
      finally show ?thesis .
    qed
    ultimately show ?thesis by (simp add: labels_Get_def split: option.split)
  qed
  have "filter (\<lambda>(ln, _). ln \<notin> set used) ext = filter (\<lambda>(n, v). labels_Get (fs_metric s) n = []) ext"
    if "\<And>n. n \<in> fst ` set ext \<Longrightarrow> labels_Get (fs_metric s) n \<noteq> [] \<longleftrightarrow> n \<in> set used" for used
  proof (intro filter_cong refl)
    fix p assume "p \<in> set ext"
    then have "fst p \<in> fst ` set ext" by (rule imageI)
    from that [OF this] show "(case p of (ln, _) \<Rightarrow> ln \<notin> set used) = (case p of (n, v) \<Rightarrow> labels_Get (fs_metric s) n = [])" by (cases p) auto
  qed
  from this [OF used] have "filter (\<lambda>(ln, _). ln \<notin> set ?used) ext = filter (\<lambda>(n, v). labels_Get (fs_metric s) n = []) ext" .
  moreover have "filter (\<lambda>(n, v). n \<noteq> MetricName \<and> v \<noteq> []) (fs_metric s) = filter (\<lambda>(n, v). v \<noteq> []) (as @ bs)"
    using ls(2,3) by (subst ls(1)) (force simp: image_iff intro!: arg_cong2 [where f = append] filter_cong)
  ultimately have "federation_metric ext s ?sc' = run_metric ext s"
    by (simp only: federation_metric_def run_metric_def external_fold line_labels_def metric_scan.simps)
  then show ?thesis by (simp add: scan flip: name_def split: sum.split)
qed

text \<open>The family under construction in front of the runs still to come.\<close>

definition continue :: "metric_family \<Rightarrow> metric_family list \<Rightarrow> metric_family list" where
  "continue f fs = (case fs of [] \<Rightarrow> [f]
     | g # gs \<Rightarrow> if mf_Name g = mf_Name f then f\<lparr>mf_Metric := mf_Metric f @ mf_Metric g\<rparr> # gs else f # g # gs)"

lemma name_runs_head: "\<exists>g gs. name_runs ext (s # vec) = g # gs \<and> mf_Name g = Some (fs_name s)"
  by (auto simp: Let_def split: list.split)

lemma continue_new: "continue \<lparr>mf_Name = Some (fs_name s), mf_Help = None, mf_Metric = [run_metric ext s]\<rparr> (name_runs ext vec) = name_runs ext (s # vec)"
proof -
  have "list_all (\<lambda>f. mf_Help f = None) (name_runs ext vec)" by (induction vec) (auto simp: Let_def split: list.splits)
  then show ?thesis by (auto simp: continue_def Let_def split: list.split)
qed

lemma continue_next:
  assumes "mf_Name f = Some (fs_name s)"
  shows "continue (f\<lparr>mf_Metric := mf_Metric f @ [run_metric ext s]\<rparr>) (name_runs ext vec) = continue f (name_runs ext (s # vec))"
  using assms by (auto simp: continue_def Let_def split: list.split)

lemma federation_loop_runs:
  assumes "\<forall>s\<in>set vec. distinct (map fst (fs_metric s)) \<and> fs_name s \<noteq> []" "MetricName \<notin> fst ` set ext"
    and enc: "\<And>f. mf_Metric f \<noteq> [] \<Longrightarrow> mf_Name f \<noteq> None \<Longrightarrow> mf_Name f \<noteq> Some [] \<Longrightarrow> enc f = Some (txt f)"
    and f: "mf_Metric f \<noteq> []" "mf_Name f = Some name" "name \<noteq> []"
  shows "federation_loop enc ext vec \<lparr>up_body = body, up_protMetricFam = Some f, up_lastMetricName = name\<rparr> =
    (body @ concat (map txt (continue f (name_runs ext vec))), False)"
  using assms(1) f
proof (induction vec arbitrary: body f name)
  case Nil
  then show ?case by (simp add: ship_def enc continue_def)
next
  case (Cons s vec)
  have s: "distinct (map fst (fs_metric s))" "fs_name s \<noteq> []" and vec: "\<forall>s\<in>set vec. distinct (map fst (fs_metric s)) \<and> fs_name s \<noteq> []"
    using Cons.prems(1) by simp_all
  show ?case
  proof (cases "fs_name s = name")
    case True
    let ?f = "f\<lparr>mf_Metric := mf_Metric f @ [run_metric ext s]\<rparr>"
    have "federation_loop enc ext vec \<lparr>up_body = body, up_protMetricFam = Some ?f, up_lastMetricName = name\<rparr> =
        (body @ concat (map txt (continue ?f (name_runs ext vec))), False)"
      using Cons.prems by (intro Cons.IH [OF vec]) simp_all
    moreover have "continue ?f (name_runs ext vec) = continue f (name_runs ext (s # vec))"
      using Cons.prems(3) True by (intro continue_next) simp
    ultimately show ?thesis unfolding federation_step [OF s assms(2)] by (simp add: started_def True)
  next
    case False
    let ?f = "\<lparr>mf_Name = Some (fs_name s), mf_Help = None, mf_Metric = [run_metric ext s]\<rparr>"
    have "federation_loop enc ext vec \<lparr>up_body = body @ txt f, up_protMetricFam = Some ?f, up_lastMetricName = fs_name s\<rparr> =
        ((body @ txt f) @ concat (map txt (continue ?f (name_runs ext vec))), False)"
      using s by (intro Cons.IH [OF vec]) simp_all
    moreover have "continue f (name_runs ext (s # vec)) = f # name_runs ext (s # vec)"
      using name_runs_head [of ext s vec] False Cons.prems(3) by (auto simp: continue_def)
    moreover have "ship enc \<lparr>up_body = body, up_protMetricFam = Some f, up_lastMetricName = name\<rparr> = Inr (body @ txt f)"
      using Cons.prems enc by (simp add: ship_def)
    ultimately show ?thesis unfolding federation_step [OF s assms(2)] continue_new by (simp add: started_def False)
  qed
qed

section \<open>Properties\<close>

text \<open>
  C13. The federation endpoint writes byte for byte what Prometheus writes. For samples with a name (and each label name
  once), an escaping scheme other than dots that keeps the names of the samples apart, and external labels among which
  there is no \<open>__name__\<close>, the text that the streaming encoder produces is the body that the handler of Prometheus
  sends for the same sorted vector, with the families it builds escaped and encoded by \<open>common/expfmt\<close>, none of which
  fails to encode.
\<close>

theorem federation_text_equivalent:
  assumes "scheme \<noteq> DotsEscaping" "\<forall>s\<in>set vec. distinct (map fst (fs_metric s)) \<and> fs_name s \<noteq> []"
    and "inj_on (\<lambda>n. EscapeName n scheme) (fs_name ` set vec)" "MetricName \<notin> fst ` set external"
  shows "federation fmt scheme external vec = (encoded fmt external vec (NewEncoder scheme), False)"
proof -
  let ?enc = "Encode fmt scheme" and ?txt = "\<lambda>f. MetricFamilyToText fmt (EscapeMetricFamily f scheme)"
  have enc: "?enc f = Some (?txt f)" if full: "mf_Metric f \<noteq> []" "mf_Name f \<noteq> None" "mf_Name f \<noteq> Some []" for f
  proof -
    obtain n where n: "mf_Name f = Some n" "n \<noteq> []" using full(2,3) by auto
    then have "EscapeName n scheme \<noteq> []" using EscapeName_nonempty assms(1) by blast
    then have "GetName (EscapeMetricFamily f scheme) \<noteq> []" using n by (auto simp: GetName_def EscapeMetricFamily_def)
    moreover have "mf_Metric (EscapeMetricFamily f scheme) \<noteq> []" using full(1) by (simp add: EscapeMetricFamily_def)
    ultimately show ?thesis by (simp add: Encode_def common_MetricFamilyToText_eq)
  qed
  have "federation fmt scheme external vec = (concat (map ?txt (name_runs external vec)), False)"
  proof (cases vec)
    case Nil
    then show ?thesis by (simp add: federation_def ship_def)
  next
    case (Cons s vec')
    let ?f = "\<lparr>mf_Name = Some (fs_name s), mf_Help = None, mf_Metric = [run_metric external s]\<rparr>"
    have "federation_loop ?enc external vec' \<lparr>up_body = [], up_protMetricFam = Some ?f, up_lastMetricName = fs_name s\<rparr> =
        ([] @ concat (map ?txt (continue ?f (name_runs external vec'))), False)"
      using assms(2,4) enc Cons by (intro federation_loop_runs) simp_all
    moreover have s: "distinct (map fst (fs_metric s))" "fs_name s \<noteq> []" using assms(2) Cons by simp_all
    ultimately show ?thesis unfolding federation_def Cons federation_step [OF s assms(4)] continue_new by (simp add: started_def ship_def)
  qed
  moreover have "encoded fmt external vec (NewEncoder scheme) = concat (map ?txt (name_runs external vec))"
    using encoded_name_runs [of scheme vec "NewEncoder scheme" fmt external] assms by (simp add: NewEncoder_def split: list.split)
  ultimately show ?thesis by simp
qed

theorem federation_text_equivalent_witness:
  "federation (\<lambda>_. ''0.5'') UnderscoreEscaping [(''instance'', [])] [\<lparr>fs_metric = [(''__name__'', ''up''), (''job'', ''a'')], fs_t = 5, fs_f = 7\<rparr>,
      \<lparr>fs_metric = [(''__name__'', ''up''), (''job'', ''b'')], fs_t = 6, fs_f = 7\<rparr>] =
    (encoded (\<lambda>_. ''0.5'') [(''instance'', [])] [\<lparr>fs_metric = [(''__name__'', ''up''), (''job'', ''a'')], fs_t = 5, fs_f = 7\<rparr>,
      \<lparr>fs_metric = [(''__name__'', ''up''), (''job'', ''b'')], fs_t = 6, fs_f = 7\<rparr>] (NewEncoder UnderscoreEscaping), False)"
  by (rule federation_text_equivalent) (simp_all add: labels_Get_def MetricName_def)

text \<open>
  An external label \<open>__name__\<close> is the exception: Prometheus never counts the name of a sample among the external labels
  it has, and appends it; promxy looks it up in the sample and leaves it out.
\<close>

lemma external_name_differs:
  "federation (\<lambda>_. ''0.5'') NoEscaping [(''__name__'', ''up'')] [\<lparr>fs_metric = [(''__name__'', ''up'')], fs_t = 5, fs_f = 0\<rparr>] =
     (''# TYPE up untyped'' @ [newline] @ ''up{__name__='' @ [quote_char] @ ''up'' @ [quote_char] @ ''} 0 5'' @ [newline], False)"
  "encoded (\<lambda>_. ''0.5'') [(''__name__'', ''up'')] [\<lparr>fs_metric = [(''__name__'', ''up'')], fs_t = 5, fs_f = 0\<rparr>] (NewEncoder NoEscaping) =
     ''# TYPE up untyped'' @ [newline] @ ''up 0 5'' @ [newline]"
proof -
  have legacy: "IsValidLegacyMetricName ''__name__''"
    by (simp add: IsValidLegacyMetricName_def isValidLegacyRune_def utf8_width_def utf8_expected_def rune_value_def)
  show "encoded (\<lambda>_. ''0.5'') [(''__name__'', ''up'')] [\<lparr>fs_metric = [(''__name__'', ''up'')], fs_t = 5, fs_f = 0\<rparr>] (NewEncoder NoEscaping) =
     ''# TYPE up untyped'' @ [newline] @ ''up 0 5'' @ [newline]" by (simp add: text_simps)
  show "federation (\<lambda>_. ''0.5'') NoEscaping [(''__name__'', ''up'')] [\<lparr>fs_metric = [(''__name__'', ''up'')], fs_t = 5, fs_f = 0\<rparr>] =
     (''# TYPE up untyped'' @ [newline] @ ''up{__name__='' @ [quote_char] @ ''up'' @ [quote_char] @ ''} 0 5'' @ [newline], False)"
    by (simp add: federation_def federation_label_def federation_metric_def ship_def Encode_def common_MetricFamilyToText_eq EscapeMetricFamily_def
        MetricFamilyToText_def GetName_def metric_text_def beginMetric_def metricLine_label_def metricLine_end_def write_pair_def legacy text_simps quote_char_def backslash_def newline_def)
qed

end
