(* ===== verification/Promxy_Float.thy ===== *)
theory Promxy_Float
  imports Promxy_Prelude Complex_Main
begin

text \<open>
  Arithmetic on \<open>float64\<close>, as far as the code does any: the correctly rounded quotient of two natural
  numbers, from which the conversion of integers, the product and the quotient follow, and the conversion to
  \<open>int64\<close>. Operands are finite.
\<close>

section \<open>Rounding\<close>

fun bit_length :: "nat \<Rightarrow> nat" where
  "bit_length n = (if n = 0 then 0 else bit_length (n div 2) + 1)"

declare bit_length.simps [simp del]

text \<open>The quotient to the nearest whole number, ties to even.\<close>

definition nearest_even :: "nat \<Rightarrow> nat \<Rightarrow> nat" where
  "nearest_even n d =
     (let q = n div d; r = n mod d
      in if d < 2 * r \<or> d = 2 * r \<and> odd q then q + 1 else q)"

definition shifted :: "nat \<Rightarrow> nat \<Rightarrow> int \<Rightarrow> nat \<times> nat" where
  "shifted n d e = (if e < 0 then (n * 2 ^ nat (- e), d) else (n, d * 2 ^ nat e))"

text \<open>The exponent of the last place: 53 bits before it, unless the number is subnormal.\<close>

definition last_place :: "nat \<Rightarrow> nat \<Rightarrow> int" where
  "last_place n d =
     (let e = int (bit_length n) - int (bit_length d) - 53;
          (n', d') = shifted n d e
      in max (- 1074) (if 2 ^ 53 * d' \<le> n' then e + 1 else e))"

definition f64_round :: "bool \<Rightarrow> nat \<Rightarrow> nat \<Rightarrow> f64" where
  "f64_round neg n d =
     (if neg then 0x8000000000000000 else 0) +
     (if n = 0 then 0
      else let e = last_place n d;
               q = case_prod nearest_even (shifted n d e);
               bits = (if q < 2 ^ 52 then q else nat (e + 1075) * 2 ^ 52 + (q - 2 ^ 52))
           in of_nat (min bits (2047 * 2 ^ 52)))"

section \<open>Operations\<close>

definition f64_sign :: "f64 \<Rightarrow> bool" where
  "f64_sign x \<longleftrightarrow> bit x 63"

definition f64_neg :: "f64 \<Rightarrow> f64" where
  "f64_neg x = x + 0x8000000000000000"

text \<open>The magnitude of a finite number as a fraction.\<close>

definition f64_fraction :: "f64 \<Rightarrow> nat \<times> nat" where
  "f64_fraction x =
     (let e = f64_exponent x
      in shifted (if e = 0 then f64_mantissa x else f64_mantissa x + 2 ^ 52) 1 (1075 - int (max 1 e)))"

definition f64_of_nat :: "nat \<Rightarrow> f64" where
  "f64_of_nat n = f64_round False n 1"

definition f64_of_int :: "int \<Rightarrow> f64" where
  "f64_of_int i = f64_round (i < 0) (nat \<bar>i\<bar>) 1"

definition f64_mul :: "f64 \<Rightarrow> f64 \<Rightarrow> f64" where
  "f64_mul x y =
     (let (n, d) = f64_fraction x; (n', d') = f64_fraction y
      in f64_round (f64_sign x \<noteq> f64_sign y) (n * n') (d * d'))"

definition f64_div :: "f64 \<Rightarrow> f64 \<Rightarrow> f64" where
  "f64_div x y =
     (let (n, d) = f64_fraction x; (n', d') = f64_fraction y
      in f64_round (f64_sign x \<noteq> f64_sign y) (n * d') (d * n'))"

text \<open>
  \<open>int64(x)\<close> truncates; out of range the result is the smallest number, as on amd64 (Go leaves it to the implementation).
\<close>

definition int64_of_f64 :: "f64 \<Rightarrow> int" where
  "int64_of_f64 x =
     (let (n, d) = f64_fraction x; i = (if f64_sign x then - int (n div d) else int (n div d))
      in if f64_exponent x = 2047 \<or> i < - (2 ^ 63) \<or> 2 ^ 63 \<le> i then - (2 ^ 63) else i)"

section \<open>Rounding errors\<close>

lemma bit_length_bounds: "0 < n \<Longrightarrow> 2 ^ (bit_length n - 1) \<le> n \<and> n < 2 ^ bit_length n \<and> 0 < bit_length n"
proof (induction n rule: bit_length.induct)
  case (1 n)
  show ?case
  proof (cases "n div 2 = 0")
    case True
    then have "n = 1" using 1(2) by auto
    then show ?thesis by (simp add: bit_length.simps)
  next
    case False
    then have ih: "2 ^ (bit_length (n div 2) - 1) \<le> n div 2" "n div 2 < 2 ^ bit_length (n div 2)" "0 < bit_length (n div 2)"
      using 1 by auto
    have "bit_length n = bit_length (n div 2) + 1" using 1(2) by (subst bit_length.simps) simp
    moreover have "(2::nat) ^ bit_length (n div 2) = 2 * 2 ^ (bit_length (n div 2) - 1)" using ih(3) by (simp flip: power_Suc)
    moreover have "n = 2 * (n div 2) + n mod 2" "n mod 2 < 2" by simp_all
    ultimately show ?thesis using ih by (simp del: mult_div_mod_eq) linarith
  qed
qed

lemma bit_length_numeral [simp]:
  "bit_length 0 = 0" "bit_length (Suc 0) = 1" "bit_length 1 = 1"
  "bit_length (numeral (Num.Bit0 m)) = bit_length (numeral m) + 1" "bit_length (numeral (Num.Bit1 m)) = bit_length (numeral m) + 1"
  by (subst bit_length.simps; simp add: bit_length.simps [of 0])+

lemma shifted_real:
  assumes "shifted n d e = (n', d')"
  shows "real n' / real d' = real n / real d / 2 powi e" "0 < d \<Longrightarrow> 0 < d'"
  using assms by (auto simp: shifted_def power_int_def field_simps split: if_splits)

lemma nearest_even_error:
  assumes "0 < d"
  shows "\<bar>real (nearest_even n d) - real n / real d\<bar> \<le> 1 / 2"
proof -
  have n: "real n / real d = real (n div d) + real (n mod d) / real d"
    using assms by (simp add: field_simps flip: of_nat_mult of_nat_add)
  have r: "real (n mod d) < real d" using assms by simp
  show ?thesis
  proof (cases "d < 2 * (n mod d) \<or> d = 2 * (n mod d) \<and> odd (n div d)")
    case True
    then have "real d \<le> 2 * real (n mod d)" by linarith
    then show ?thesis using True r assms by (simp add: nearest_even_def Let_def n field_simps)
  next
    case False
    then have "2 * real (n mod d) \<le> real d" by linarith
    then show ?thesis using False assms by (simp add: nearest_even_def Let_def n field_simps)
  qed
qed

lemma nearest_even_exact: "0 < d \<Longrightarrow> d dvd n \<Longrightarrow> nearest_even n d = n div d"
  by (auto simp: nearest_even_def Let_def)

lemma nearest_even_down: "n = q * d + r \<Longrightarrow> 2 * r < d \<Longrightarrow> nearest_even n d = q"
  by (simp add: nearest_even_def)

lemma f64_round_eq:
  assumes "last_place n d = e" "shifted n d e = (n', d')" "n' = q * d' + r" "2 * r < d'" "0 < n" "2 ^ 52 \<le> q"
    "nat (e + 1075) * 2 ^ 52 + (q - 2 ^ 52) = b" "b \<le> 2047 * 2 ^ 52"
  shows "f64_round False n d = of_nat b"
  using assms(5,6,8) unfolding f64_round_def Let_def assms(1,2) prod.case nearest_even_down [OF assms(3,4)] by (simp add: min_absorb1 assms(7) [symmetric])

lemma power_int_diff_nat: "(2::real) powi (int a - int b) = 2 ^ a / 2 ^ b"
  by (simp add: power_int_diff)

lemma last_place_bounds:
  assumes "0 < n" "0 < d" "- 1074 < last_place n d"
  shows "2 ^ 52 \<le> real n / real d / 2 powi last_place n d" "real n / real d / 2 powi last_place n d < 2 ^ 53"
proof -
  define e where "e = int (bit_length n) - int (bit_length d) - 53"
  obtain n' d' where s: "shifted n d e = (n', d')" by (cases "shifted n d e")
  note x = shifted_real [OF s] and n = bit_length_bounds [OF assms(1)] and d = bit_length_bounds [OF assms(2)]
  have lp: "last_place n d = (if 2 ^ 53 * d' \<le> n' then e + 1 else e)"
    using assms(3) by (simp add: last_place_def e_def [symmetric] s split: if_splits)
  have e2: "(2::real) powi e = 2 ^ bit_length n / 2 ^ bit_length d / 2 ^ 53"
    by (simp add: e_def power_int_diff)
  define A B :: real where AB: "A = 2 ^ bit_length n" "B = 2 ^ bit_length d"
  have half: "(2::real) ^ bit_length n = 2 * 2 ^ (bit_length n - 1)" "(2::real) ^ bit_length d = 2 * 2 ^ (bit_length d - 1)"
    using n d by (simp_all flip: power_Suc)
  have "real n < 2 ^ bit_length n" "real d < 2 ^ bit_length d" "2 ^ (bit_length n - 1) \<le> real n" "2 ^ (bit_length d - 1) \<le> real d"
    using n d by (metis of_nat_less_iff of_nat_le_iff of_nat_power of_nat_numeral)+
  then have "real n < A" "real d < B" "A / 2 \<le> real n" "B / 2 \<le> real d"
    unfolding AB half by simp_all
  then have "A / B \<le> (2 * real n) / real d" "real n / real d < A / (B / 2)"
    using assms by (intro frac_le frac_less; simp add: AB)+
  then have "2 ^ bit_length n / 2 ^ bit_length d \<le> 2 * (real n / real d)" "real n / real d < 2 * (2 ^ bit_length n / 2 ^ bit_length d)"
    by (simp_all add: AB mult.commute)
  note ratio = this
  have scale: "2 ^ 52 \<le> x / (r / 2 ^ 53)" "x / (r / 2 ^ 53) < 2 ^ 54" if "r \<le> 2 * x" "x < 2 * r" "0 < r" for x r :: real
    using that by (simp_all add: field_simps)
  have range: "2 ^ 52 \<le> real n / real d / 2 powi e" "real n / real d / 2 powi e < 2 ^ 54"
    unfolding e2 by (rule scale [OF ratio], simp)+
  have test: "2 ^ 53 * d' \<le> n' \<longleftrightarrow> 2 ^ 53 \<le> real n / real d / 2 powi e"
  proof -
    have "2 ^ 53 * d' \<le> n' \<longleftrightarrow> 2 ^ 53 * real d' \<le> real n'" by (metis of_nat_le_iff of_nat_mult of_nat_numeral of_nat_power)
    then show ?thesis unfolding x(1) [symmetric] using x(2) [OF assms(2)] by (simp add: pos_le_divide_eq)
  qed
  have halves: "2 ^ 53 \<le> X \<Longrightarrow> X < 2 ^ 54 \<Longrightarrow> 2 ^ 52 \<le> X / 2 \<and> X / 2 < 2 ^ 53" for X :: real by simp
  have step: "real n / real d / (2::real) powi (e + 1) = real n / real d / 2 powi e / 2" by (simp add: power_int_add)
  have "2 ^ 52 \<le> real n / real d / 2 powi last_place n d \<and> real n / real d / 2 powi last_place n d < 2 ^ 53"
  proof (cases "2 ^ 53 * d' \<le> n'")
    case True
    then have "last_place n d = e + 1" using lp by simp
    then show ?thesis using test True halves [OF _ range(2)] by (simp only: step)
  next
    case False
    then have "last_place n d = e" using lp by simp
    then show ?thesis using test False range(1) by (auto simp only: not_le)
  qed
  then show "2 ^ 52 \<le> real n / real d / 2 powi last_place n d" "real n / real d / 2 powi last_place n d < 2 ^ 53" by blast+
qed

lemma unat_small: "n < 2 ^ 64 \<Longrightarrow> unat (of_nat n :: f64) = n"
  by (simp add: unsigned_of_nat take_bit_nat_eq_self)

lemma f64_fields_unat: "f64_exponent w = unat w div 2 ^ 52 mod 2 ^ 11" "f64_mantissa w = unat w mod 2 ^ 52" "f64_sign w \<longleftrightarrow> odd (unat w div 2 ^ 63)"
  unfolding f64_exponent_def f64_mantissa_def f64_sign_def unsigned_take_bit_eq unat_drop_bit_eq
  using bit_unsigned_iff [where 'a = nat, of w 63] by (simp_all add: take_bit_eq_mod drop_bit_eq_div bit_iff_odd [where 'a = nat])

lemma f64_fields:
  assumes "E < 2047" "M < 2 ^ 52"
  shows "f64_exponent (of_nat (E * 2 ^ 52 + M)) = E" "f64_mantissa (of_nat (E * 2 ^ 52 + M)) = M" "\<not> f64_sign (of_nat (E * 2 ^ 52 + M))"
proof -
  let ?w = "of_nat (E * 2 ^ 52 + M) :: f64"
  have b: "E * 2 ^ 52 + M < 2 ^ 63" using assms by simp
  then have u: "unat ?w = E * 2 ^ 52 + M" by (intro unat_small) simp
  show "f64_exponent ?w = E" "f64_mantissa ?w = M" "\<not> f64_sign ?w" unfolding f64_fields_unat u using assms b by simp_all
qed

text \<open>A number that is neither too small nor too large is rounded by at most half a unit in the last place.\<close>

definition f64_real :: "f64 \<Rightarrow> real" where
  "f64_real x = (case f64_fraction x of (n, d) \<Rightarrow> real n / real d)"

lemma f64_real_fields:
  assumes "0 < E" "E < 2047" "M < 2 ^ 52"
  shows "f64_real (of_nat (E * 2 ^ 52 + M)) = (2 ^ 52 + real M) * 2 powi (int E - 1075)"
proof -
  obtain n d where s: "shifted (M + 2 ^ 52) 1 (1075 - int E) = (n, d)" by (cases "shifted (M + 2 ^ 52) 1 (1075 - int E)")
  have "f64_fraction (of_nat (E * 2 ^ 52 + M)) = (n, d)"
    unfolding f64_fraction_def f64_fields [OF assms(2,3)] Let_def using assms(1) s by (simp add: max_def)
  then have "f64_real (of_nat (E * 2 ^ 52 + M)) = real (M + 2 ^ 52) / 2 powi (1075 - int E)"
    using shifted_real(1) [OF s] by (simp add: f64_real_def)
  moreover have "(2::real) powi (int E - 1075) = 1 / 2 powi (1075 - int E)"
    by (metis minus_diff_eq power_int_minus_divide)
  ultimately show ?thesis by (simp add: add.commute)
qed

lemma f64_round_value:
  assumes "0 < n" "0 < d" "- 1074 < last_place n d" "last_place n d < 900"
  defines "q \<equiv> case_prod nearest_even (shifted n d (last_place n d))"
  shows "f64_real (f64_round False n d) = real q * 2 powi last_place n d" "2 ^ 52 \<le> q" "q \<le> 2 ^ 53"
    "\<not> f64_sign (f64_round False n d)" "f64_exponent (f64_round False n d) < 2047"
    "\<bar>real q - real n / real d / 2 powi last_place n d\<bar> \<le> 1 / 2"
proof -
  let ?e = "last_place n d"
  obtain n' d' where s: "shifted n d ?e = (n', d')" by (cases "shifted n d ?e")
  note x = shifted_real [OF s]
  have q: "q = nearest_even n' d'" by (simp add: q_def s)
  show err: "\<bar>real q - real n / real d / 2 powi ?e\<bar> \<le> 1 / 2"
    unfolding q x(1) [symmetric] using nearest_even_error x(2) assms(2) by blast
  have near: "2 ^ 52 \<le> X \<Longrightarrow> X < 2 ^ 53 \<Longrightarrow> \<bar>Q - X\<bar> \<le> 1 / 2 \<Longrightarrow> 4503599627370495 < Q \<and> Q < 9007199254740993" for X Q :: real
    by (simp add: abs_le_iff [of "Q - X" "1 / 2", simplified])
  from err last_place_bounds [OF assms(1-3)] have "4503599627370495 < real q" "real q < 9007199254740993" using near by blast+
  then have "4503599627370495 < q" "q < 9007199254740993" by simp_all
  then show lo: "2 ^ 52 \<le> q" and hi: "q \<le> 2 ^ 53" by simp_all
  define E where "E = nat (?e + 1075)"
  have E: "0 < E" "E + 1 < 2047" "int E - 1075 = ?e" using assms(3,4) by (simp_all add: E_def)
  have le: "E * 2 ^ 52 + (q - 2 ^ 52) \<le> 2047 * 2 ^ 52" and "\<not> q < 2 ^ 52" "n \<noteq> 0" using E hi lo assms(1) by simp_all
  then have bits: "f64_round False n d = of_nat (E * 2 ^ 52 + (q - 2 ^ 52))"
    unfolding f64_round_def Let_def q_def [symmetric] E_def [symmetric] by (simp only: if_False min_absorb1 [OF le] add_0)
  have E': "E < 2047" "E + 1 < 2047" using E by simp_all
  have "f64_real (f64_round False n d) = real q * 2 powi ?e \<and> \<not> f64_sign (f64_round False n d) \<and> f64_exponent (f64_round False n d) < 2047"
  proof (cases "q = 2 ^ 53")
    case False
    then have M: "q - 2 ^ 52 < 2 ^ 52" using hi by simp
    have "f64_real (f64_round False n d) = real q * 2 powi ?e"
      unfolding bits f64_real_fields [OF E(1) E'(1) M] E(3) using lo by (simp add: of_nat_diff)
    then show ?thesis unfolding bits using E'(1) by (simp only: f64_fields [OF E'(1) M] not_False_eq_True simp_thms)
  next
    case True
    have bits': "f64_round False n d = of_nat ((E + 1) * 2 ^ 52 + 0)" unfolding bits True by (intro arg_cong [where f = of_nat]) simp
    have e1: "int (E + 1) - 1075 = ?e + 1" using E(3) by simp
    have "f64_real (of_nat ((E + 1) * 2 ^ 52 + 0)) = (2 ^ 52 + real 0) * 2 powi (int (E + 1) - 1075)"
      by (rule f64_real_fields) (use E'(2) in simp_all)
    then have "f64_real (f64_round False n d) = real q * 2 powi ?e"
      unfolding bits' True e1 by (simp only:) (simp add: power_int_add)
    then show ?thesis unfolding bits' using f64_fields [OF E'(2), of 0] E' by simp
  qed
  then show "f64_real (f64_round False n d) = real q * 2 powi ?e" "\<not> f64_sign (f64_round False n d)" "f64_exponent (f64_round False n d) < 2047"
    by blast+
qed

lemma last_place_range:
  assumes "0 < n" "0 < d" "d \<le> n * 2 ^ 100" "n \<le> d * 2 ^ 100"
  shows "- 1074 < last_place n d \<and> last_place n d < 900"
proof -
  note n = bit_length_bounds [OF assms(1)] and d = bit_length_bounds [OF assms(2)]
  have less: "a - 1 < b + 100" if "2 ^ (a - 1) \<le> x" "x \<le> y * 2 ^ 100" "y < 2 ^ b" for a b x y :: nat
  proof -
    have "y * 2 ^ 100 < 2 ^ b * 2 ^ 100" using that(3) by simp
    then have "(2::nat) ^ (a - 1) < 2 ^ (b + 100)" using that unfolding power_add by linarith
    then show ?thesis by simp
  qed
  have "bit_length d - 1 < bit_length n + 100" "bit_length n - 1 < bit_length d + 100"
    using less n d assms(3,4) by blast+
  then show ?thesis by (auto simp: last_place_def Let_def split: prod.splits)
qed

lemma f64_round_real:
  assumes "0 < d" "1 / 2 ^ 100 \<le> real n / real d" "real n / real d \<le> 2 ^ 100"
  shows "\<bar>f64_real (f64_round False n d) - real n / real d\<bar> \<le> real n / real d / 2 ^ 53"
    "\<not> f64_sign (f64_round False n d)" "f64_exponent (f64_round False n d) < 2047"
proof -
  have n: "0 < n" using assms(2) by (cases n) auto
  have "real d \<le> real (n * 2 ^ 100)" "real n \<le> real (d * 2 ^ 100)" using assms by (simp_all add: field_simps)
  then have "d \<le> n * 2 ^ 100" "n \<le> d * 2 ^ 100" by (simp_all only: of_nat_le_iff)
  from last_place_range [OF n assms(1) this] have e: "- 1074 < last_place n d" "last_place n d < 900" by blast+
  note r = f64_round_value [OF n assms(1) e]
  show "\<not> f64_sign (f64_round False n d)" "f64_exponent (f64_round False n d) < 2047" using r(4,5) .
  define u X Q where "u = (2::real) powi last_place n d" "X = real n / real d" "Q = real (case_prod nearest_even (shifted n d (last_place n d)))"
  have u: "0 < u" by (simp add: u_X_Q_def)
  have "\<bar>Q - X / u\<bar> \<le> 1 / 2" "2 ^ 52 \<le> X / u" using r(6) last_place_bounds(1) [OF n assms(1) e(1)] by (simp_all only: u_X_Q_def)
  then have "\<bar>Q - X / u\<bar> * u \<le> 1 / 2 * u" "2 ^ 52 * u \<le> X" using u by (simp_all add: mult_right_mono pos_le_divide_eq)
  moreover have "\<bar>Q - X / u\<bar> * u = \<bar>Q * u - X\<bar>" using u by (simp add: abs_mult_pos left_diff_distrib)
  ultimately have "\<bar>Q * u - X\<bar> \<le> X / 2 ^ 53" by simp
  then show "\<bar>f64_real (f64_round False n d) - real n / real d\<bar> \<le> real n / real d / 2 ^ 53"
    using r(1) by (simp only: u_X_Q_def)
qed

lemma f64_round_exact:
  assumes "0 < d" "0 < m" "m < 2 ^ 53"
  shows "f64_real (f64_round False (m * d) d) = real m" "\<not> f64_sign (f64_round False (m * d) d)"
proof -
  have pos: "0 < m * d" using assms by simp
  have x: "real (m * d) / real d = real m" using assms by simp
  have "d \<le> m * d * 2 ^ 100" "m * d \<le> d * 2 ^ 100" using assms by (auto simp: mult.commute intro!: mult_le_mono)
  from last_place_range [OF pos assms(1) this] have e: "- 1074 < last_place (m * d) d" "last_place (m * d) d < 900" by blast+
  note r = f64_round_value [OF pos assms(1) e]
  show "\<not> f64_sign (f64_round False (m * d) d)" by (rule r(4))
  define e where "e = last_place (m * d) d"
  have "2 ^ 52 \<le> real m / 2 powi e" using last_place_bounds(1) [OF pos assms(1) e(1)] unfolding x e_def .
  then have "2 ^ 52 * 2 powi e \<le> real m" by (simp add: pos_le_divide_eq)
  moreover have "real m < 2 ^ 53" using assms(3) by (metis of_nat_less_iff of_nat_numeral of_nat_power)
  ultimately have "(2::real) powi e < 2" by simp
  then have e0: "e \<le> 0" using power_int_increasing [of 1 e "2::real"] by (force simp: not_le)
  have "case_prod nearest_even (shifted (m * d) d e) = m * 2 ^ nat (- e)"
  proof (cases "e < 0")
    case True
    have "d dvd m * d * 2 ^ nat (- e)" by simp
    from nearest_even_exact [OF assms(1) this] True assms(1) show ?thesis by (simp add: shifted_def mult.assoc mult.left_commute [of _ d])
  qed (use e0 nearest_even_exact [OF assms(1), of "m * d"] assms(1) in \<open>simp add: shifted_def\<close>)
  then show "f64_real (f64_round False (m * d) d) = real m"
    using r(1) e0 by (simp add: e_def [symmetric] power_int_def power_one_over split: if_splits)
qed

lemma f64_round_binade:
  assumes "0 < d" "2 ^ a \<le> real n / real d" "real n / real d < 2 ^ (a + 1)" "a < 100"
  shows "\<exists>q::nat. f64_real (f64_round False n d) = real q * 2 ^ a / 2 ^ 52" "\<bar>f64_real (f64_round False n d) - real n / real d\<bar> \<le> 2 ^ a / 2 ^ 53"
proof -
  define X where "X = real n / real d"
  have "(2::real) ^ (a + 1) \<le> 2 ^ 100" using assms(4) by (intro power_increasing) auto
  moreover have "(1::real) \<le> 2 ^ a" by simp
  ultimately have X: "1 \<le> X" "X \<le> 2 ^ 100" using assms(2,3) unfolding X_def by linarith+
  have n: "0 < n" using X(1) by (cases n) (auto simp: X_def)
  have "1 \<le> X * 2 ^ 100" using X(1) mult_mono [of 1 X 1 "2 ^ 100"] by simp
  then have "real d \<le> real (n * 2 ^ 100)" "real n \<le> real (d * 2 ^ 100)" using X assms(1) by (simp_all add: X_def field_simps)
  then have "d \<le> n * 2 ^ 100" "n \<le> d * 2 ^ 100" by (simp_all only: of_nat_le_iff)
  from last_place_range [OF n assms(1) this] have e: "- 1074 < last_place n d" "last_place n d < 900" by blast+
  define l where "l = last_place n d"
  have bounds: "2 ^ 52 * 2 powi l \<le> X" "X < 2 ^ 53 * 2 powi l"
    using last_place_bounds [OF n assms(1) e(1), folded l_def X_def] by (simp_all add: pos_le_divide_eq pos_divide_less_eq)
  have pw: "(2::real) powi (l + 52) = 2 ^ 52 * 2 powi l" "(2::real) powi (l + 53) = 2 ^ 53 * 2 powi l" by (simp_all add: power_int_add)
  have "(2::real) powi (l + 52) < 2 powi (int a + 1)" "(2::real) powi int a < 2 powi (l + 53)"
    using bounds assms(2,3) unfolding pw X_def [symmetric] by (simp_all add: power_int_add)
  then have "l + 52 < int a + 1" "int a < l + 53" using power_int_increasing [of _ _ "2::real"] by (meson linorder_not_le one_le_numeral)+
  then have l: "l = int a - int 52" by simp
  have u: "(2::real) powi last_place n d = 2 ^ a / 2 ^ 52" unfolding l_def [symmetric] l by (rule power_int_diff_nat)
  note r = f64_round_value [OF n assms(1) e]
  define q where "q = case_prod nearest_even (shifted n d (last_place n d))"
  have v: "f64_real (f64_round False n d) = real q * (2 ^ a / 2 ^ 52)" using r(1) unfolding u q_def .
  then show "\<exists>q::nat. f64_real (f64_round False n d) = real q * 2 ^ a / 2 ^ 52" by auto
  have "\<bar>real q - X / (2 ^ a / 2 ^ 52)\<bar> \<le> 1 / 2" using r(6) unfolding u q_def X_def .
  then have "\<bar>real q - X / (2 ^ a / 2 ^ 52)\<bar> * (2 ^ a / 2 ^ 52) \<le> 1 / 2 * (2 ^ a / 2 ^ 52)" by (intro mult_right_mono) auto
  moreover have "\<bar>real q - X / (2 ^ a / 2 ^ 52)\<bar> * (2 ^ a / 2 ^ 52) = \<bar>real q * (2 ^ a / 2 ^ 52) - X\<bar>"
    by (simp add: abs_mult_pos left_diff_distrib flip: abs_mult)
  ultimately have "\<bar>real q * (2 ^ a / 2 ^ 52) - X\<bar> \<le> 1 / 2 * (2 ^ a / 2 ^ 52)" by linarith
  then show "\<bar>f64_real (f64_round False n d) - real n / real d\<bar> \<le> 2 ^ a / 2 ^ 53"
    unfolding v X_def [symmetric] by simp
qed

lemma f64_fraction_real: "f64_fraction x = (n, d) \<Longrightarrow> f64_real x = real n / real d \<and> 0 < d"
  using shifted_real(2) [of _ 1] by (auto simp: f64_real_def f64_fraction_def Let_def)

lemma f64_mul_real:
  assumes "\<not> f64_sign x" "\<not> f64_sign y" "1 / 2 ^ 100 \<le> f64_real x * f64_real y" "f64_real x * f64_real y \<le> 2 ^ 100"
  shows "\<bar>f64_real (f64_mul x y) - f64_real x * f64_real y\<bar> \<le> f64_real x * f64_real y / 2 ^ 53"
    "\<not> f64_sign (f64_mul x y)" "f64_exponent (f64_mul x y) < 2047"
proof -
  obtain n d n' d' where xy: "f64_fraction x = (n, d)" "f64_fraction y = (n', d')" by (cases "f64_fraction x"; cases "f64_fraction y")
  note f = f64_fraction_real [OF xy(1)] f64_fraction_real [OF xy(2)]
  have v: "f64_real x * f64_real y = real (n * n') / real (d * d')" using f by simp
  have "f64_mul x y = f64_round False (n * n') (d * d')" using assms(1,2) xy by (simp add: f64_mul_def)
  then show "\<bar>f64_real (f64_mul x y) - f64_real x * f64_real y\<bar> \<le> f64_real x * f64_real y / 2 ^ 53"
    "\<not> f64_sign (f64_mul x y)" "f64_exponent (f64_mul x y) < 2047"
    using f64_round_real [of "d * d'" "n * n'"] assms(3,4) f unfolding v by (simp_all only: nat_0_less_mult_iff simp_thms)
qed

lemma f64_div_real:
  assumes "\<not> f64_sign x" "\<not> f64_sign y" "0 < f64_real y" "1 / 2 ^ 100 \<le> f64_real x / f64_real y" "f64_real x / f64_real y \<le> 2 ^ 100"
  shows "\<bar>f64_real (f64_div x y) - f64_real x / f64_real y\<bar> \<le> f64_real x / f64_real y / 2 ^ 53"
    "\<not> f64_sign (f64_div x y)" "f64_exponent (f64_div x y) < 2047"
proof -
  obtain n d n' d' where xy: "f64_fraction x = (n, d)" "f64_fraction y = (n', d')" by (cases "f64_fraction x"; cases "f64_fraction y")
  note f = f64_fraction_real [OF xy(1)] f64_fraction_real [OF xy(2)]
  have v: "f64_real x / f64_real y = real (n * d') / real (d * n')" using f by simp
  have n': "0 < d * n'" using f assms(3) by (simp add: zero_less_divide_iff)
  have "f64_div x y = f64_round False (n * d') (d * n')" using assms(1,2) xy by (simp add: f64_div_def)
  then show "\<bar>f64_real (f64_div x y) - f64_real x / f64_real y\<bar> \<le> f64_real x / f64_real y / 2 ^ 53"
    "\<not> f64_sign (f64_div x y)" "f64_exponent (f64_div x y) < 2047"
    using f64_round_real [OF n', of "n * d'"] assms(4,5) unfolding v by (simp_all only: simp_thms)
qed

lemma f64_div_binade:
  assumes "\<not> f64_sign x" "\<not> f64_sign y" "0 < f64_real y" "2 ^ a \<le> f64_real x / f64_real y" "f64_real x / f64_real y < 2 ^ (a + 1)" "a < 100"
  shows "\<bar>f64_real (f64_div x y) - f64_real x / f64_real y\<bar> \<le> 2 ^ a / 2 ^ 53"
proof -
  obtain n d n' d' where xy: "f64_fraction x = (n, d)" "f64_fraction y = (n', d')" by (cases "f64_fraction x"; cases "f64_fraction y")
  note f = f64_fraction_real [OF xy(1)] f64_fraction_real [OF xy(2)]
  have v: "f64_real x / f64_real y = real (n * d') / real (d * n')" using f by simp
  have n': "0 < d * n'" using f assms(3) by (simp add: zero_less_divide_iff)
  have "f64_div x y = f64_round False (n * d') (d * n')" using assms(1,2) xy by (simp add: f64_div_def)
  then show ?thesis using f64_round_binade(2) [OF n', of a "n * d'"] assms(4-6) unfolding v by simp
qed

lemma f64_of_nat_exact: "0 < m \<Longrightarrow> m < 2 ^ 53 \<Longrightarrow> f64_real (f64_of_nat m) = real m \<and> \<not> f64_sign (f64_of_nat m)"
  using f64_round_exact [of 1 m] by (simp add: f64_of_nat_def)

lemma int64_of_f64_floor:
  assumes "\<not> f64_sign x" "f64_exponent x < 2047" "f64_real x < 2 ^ 63"
  shows "int64_of_f64 x = \<lfloor>f64_real x\<rfloor>"
proof -
  obtain n d where x: "f64_fraction x = (n, d)" by (cases "f64_fraction x")
  note f = f64_fraction_real [OF x]
  have fl: "\<lfloor>f64_real x\<rfloor> = int (n div d)" using f by (simp add: floor_divide_of_nat_eq)
  moreover have "\<lfloor>f64_real x\<rfloor> < 2 ^ 63" using assms(3) by (simp add: floor_less_iff)
  ultimately show ?thesis using assms(1,2) x by (simp add: int64_of_f64_def)
qed

section \<open>Seconds to milliseconds\<close>

text \<open>
  A timestamp of \<open>k\<close> milliseconds, read as \<open>k / 1000\<close> seconds and multiplied by 1000: two roundings and a
  truncation may lose the last millisecond, but no more.
\<close>

definition millis_of_seconds :: "f64 \<Rightarrow> int" where
  "millis_of_seconds ts = int64_of_f64 (f64_mul ts (f64_of_nat 1000))"

lemma millis_error:
  assumes "0 < k" "k < 2 ^ 51" "\<not> f64_sign ts" "\<bar>f64_real ts - real k / 1000\<bar> \<le> real k / 1000 / 2 ^ 53"
  shows "millis_of_seconds ts = int k \<or> millis_of_seconds ts = int k - 1"
    "f64_real ts = real k / 1000 \<Longrightarrow> millis_of_seconds ts = int k"
proof -
  have k: "1 \<le> real k" "real k \<le> 2251799813685248" using assms(1,2) by simp_all
  have c: "f64_real (f64_of_nat 1000) = 1000" "\<not> f64_sign (f64_of_nat 1000)" using f64_of_nat_exact [of 1000] by simp_all
  define T p where "T = f64_real ts * 1000" "p = f64_mul ts (f64_of_nat 1000)"
  have "\<bar>T - real k\<bar> \<le> real k / 9007199254740992" using assms(4) unfolding T_p_def abs_le_iff by (simp add: field_simps)
  then have T0: "\<bar>T - real k\<bar> \<le> 1 / 4" using k by auto
  then have T: "\<bar>T - real k\<bar> \<le> 1 / 4" "1 / 2 \<le> T" "T \<le> 2251799813685249" using k by linarith+
  have "1 / 2 ^ 100 \<le> f64_real ts * f64_real (f64_of_nat 1000)" "f64_real ts * f64_real (f64_of_nat 1000) \<le> 2 ^ 100"
    using T(2,3) unfolding c T_p_def by simp_all
  note m = f64_mul_real [OF assms(3) c(2) this, folded T_p_def(2)]
  have "\<bar>f64_real p - T\<bar> \<le> T / 9007199254740992" using m(1) by (simp add: c T_p_def)
  then have p: "\<bar>f64_real p - T\<bar> \<le> 3 / 10" using T by auto
  with T k have "\<bar>f64_real p - real k\<bar> < 1" "f64_real p < 9223372036854775808" by linarith+
  then have close: "\<bar>f64_real p - real k\<bar> < 1" "f64_real p < 2 ^ 63" by simp_all
  from close have "\<lfloor>f64_real p\<rfloor> = int k \<or> \<lfloor>f64_real p\<rfloor> = int k - 1" by (auto simp: floor_eq_iff abs_less_iff)
  then show "millis_of_seconds ts = int k \<or> millis_of_seconds ts = int k - 1"
    using int64_of_f64_floor [OF m(2,3) close(2)] by (simp add: millis_of_seconds_def T_p_def)
  show "millis_of_seconds ts = int k" if eq: "f64_real ts = real k / 1000"
  proof -
    obtain n d where f: "f64_fraction ts = (n, d)" by (cases "f64_fraction ts")
    obtain n' d' where f': "f64_fraction (f64_of_nat 1000) = (n', d')" by (cases "f64_fraction (f64_of_nat 1000)")
    note v = f64_fraction_real [OF f] f64_fraction_real [OF f']
    have "real n = f64_real ts * real d" "real n' = f64_real (f64_of_nat 1000) * real d'" using v by simp_all
    then have "real n = real k / 1000 * real d" "real n' = 1000 * real d'" unfolding eq c by simp_all
    then have "real (n * n') = real (k * (d * d'))" by simp
    then have "n * n' = k * (d * d')" by (simp only: of_nat_eq_iff)
    then have "p = f64_round False (k * (d * d')) (d * d')" using f f' assms(3) c(2) by (simp add: T_p_def f64_mul_def)
    then have "f64_real p = real k" using f64_round_exact(1) [of "d * d'" k] v assms(1,2) by simp
    then show ?thesis using int64_of_f64_floor [OF m(2,3) close(2)] by (simp add: millis_of_seconds_def T_p_def)
  qed
qed

text \<open>Between November 2004 and January 2038 nothing is lost: the product is nearer to \<open>k\<close> than to any other number.\<close>

lemma millis_exact:
  assumes "2 ^ 40 < k" "k < 2147483648000" "\<not> f64_sign ts" "\<bar>f64_real ts - real k / 1000\<bar> \<le> 1 / 8388608"
  shows "millis_of_seconds ts = int k"
proof -
  have k: "1099511627777 \<le> real k" "real k \<le> 2147483647999" using assms(1,2) by simp_all
  have c: "f64_real (f64_of_nat 1000) = 1000" "\<not> f64_sign (f64_of_nat 1000)" using f64_of_nat_exact [of 1000] by simp_all
  obtain n d n' d' where f: "f64_fraction ts = (n, d)" "f64_fraction (f64_of_nat 1000) = (n', d')"
    by (cases "f64_fraction ts"; cases "f64_fraction (f64_of_nat 1000)")
  note v = f64_fraction_real [OF f(1)] f64_fraction_real [OF f(2)]
  define T p where "T = f64_real ts * 1000" "p = f64_mul ts (f64_of_nat 1000)"
  have T: "\<bar>T - real k\<bar> \<le> 1000 / 8388608" using assms(4) unfolding T_p_def abs_le_iff by linarith
  then have Tb: "1099511627776 \<le> T" "T < 2199023255552" using k unfolding abs_le_iff by linarith+
  have "real (n * n') / real (d * d') = f64_real ts * f64_real (f64_of_nat 1000)" using v by simp
  then have nd: "real (n * n') / real (d * d') = T" "0 < d * d'" using v by (simp_all only: c T_p_def nat_0_less_mult_iff simp_thms)
  have p: "p = f64_round False (n * n') (d * d')" using f assms(3) c(2) by (simp add: T_p_def f64_mul_def)
  have "2 ^ 40 \<le> real (n * n') / real (d * d')" "real (n * n') / real (d * d') < 2 ^ (40 + 1)" unfolding nd using Tb by simp_all
  note b = f64_round_binade [OF nd(2) this, folded p]
  obtain q :: nat where "f64_real p = real q * 2 ^ 40 / 2 ^ 52" using b(1) by auto
  then have q: "f64_real p = real q / 4096" by simp
  have "\<bar>f64_real p - T\<bar> \<le> 1 / 8192" using b(2) unfolding nd by simp
  then have "\<bar>real q - real k * 4096\<bar> < 1" using T unfolding q abs_le_iff abs_less_iff by linarith
  then have "q = k * 4096" by linarith
  then have pk: "f64_real p = real k" using q by simp
  have "1 / 2 ^ 100 \<le> f64_real ts * f64_real (f64_of_nat 1000)" "f64_real ts * f64_real (f64_of_nat 1000) \<le> 2 ^ 100"
    using Tb unfolding c T_p_def by simp_all
  note m = f64_mul_real [OF assms(3) c(2) this, folded T_p_def(2)]
  show ?thesis using int64_of_f64_floor [OF m(2,3)] pk k by (simp add: millis_of_seconds_def T_p_def)
qed

lemma millis_zero: "millis_of_seconds 0 = 0"
proof -
  have "f64_mul 0 y = 0 \<or> f64_mul 0 y = 0x8000000000000000" for y
    by (simp add: f64_mul_def f64_fraction_def f64_fields_unat shifted_def f64_round_def split: prod.split)
  moreover have "int64_of_f64 0 = 0" "int64_of_f64 0x8000000000000000 = 0"
    by (simp_all add: int64_of_f64_def f64_fraction_def f64_fields_unat shifted_def)
  ultimately show ?thesis unfolding millis_of_seconds_def by metis
qed

end
