(* ===== verification/Promxy_Backfill.thy ===== *)
theory Promxy_Backfill
  imports Promxy_Querier Promxy_Float
begin

text \<open>
  The backfill of alert state (\<open>src/pkg/alertbackfill\<close>): when the series \<open>ALERTS_FOR_STATE\<close> that
  Prometheus reads to restore an alert is not stored anywhere, it is recomputed from the alert's own
  query. The rules are those of the rule manager; \<open>EngineAPI\<close> (\<open>src/pkg/promclient/engine.go\<close>), which
  runs the query on the PromQL engine, is the API that the querier calls, with the engine as a
  parameter.
\<close>

section \<open>Rules\<close>

definition AlertNameLabel :: string where
  "AlertNameLabel = ''alertname''"

record alerting_rule =
  ar_Name :: string
  ar_Labels :: labelset
  ar_Query :: string
  ar_HoldDuration :: duration

datatype rule = AlertingRule alerting_rule | OtherRule

record rule_group =
  gp_Rules :: "rule list"
  gp_Interval :: duration

text \<open>The matchers that are overwritten later; the others must accept the value of a label they name.\<close>

definition overwritten :: "matcher \<Rightarrow> bool" where
  "overwritten m \<longleftrightarrow> m_Name m = MetricName \<or> m_Name m = AlertNameLabel"

fun label_fits :: "externals \<Rightarrow> matcher list \<Rightarrow> string \<times> string \<Rightarrow> bool outcome" where
  "label_fits ext [] lbl = Ret True"
| "label_fits ext (m # ms) lbl =
     (if overwritten m then label_fits ext ms lbl
      else if fst lbl = m_Name m then Matches ext m (snd lbl)
      else label_fits ext ms lbl)"

fun rule_fits :: "externals \<Rightarrow> matcher list \<Rightarrow> labelset \<Rightarrow> bool outcome" where
  "rule_fits ext ms [] = Ret True"
| "rule_fits ext ms (lbl # lbls) = obind (label_fits ext ms lbl) (\<lambda>ok. if ok then rule_fits ext ms lbls else Ret False)"

fun find_in_group :: "externals \<Rightarrow> string \<Rightarrow> matcher list \<Rightarrow> nat \<Rightarrow> rule list \<Rightarrow> (nat \<times> alerting_rule) option outcome" where
  "find_in_group ext alertname ms ii [] = Ret None"
| "find_in_group ext alertname ms ii (r # rs) =
     (case r of
        OtherRule \<Rightarrow> find_in_group ext alertname ms (ii + 1) rs
      | AlertingRule a \<Rightarrow>
          if ar_Name a = alertname
          then obind (rule_fits ext ms (ar_Labels a)) (\<lambda>ok.
                 if ok then Ret (Some (ii, a)) else find_in_group ext alertname ms (ii + 1) rs)
          else find_in_group ext alertname ms (ii + 1) rs)"

fun find_rule ::
  "externals \<Rightarrow> string \<Rightarrow> matcher list \<Rightarrow> nat \<Rightarrow> rule_group list \<Rightarrow> (nat \<times> nat \<times> alerting_rule \<times> duration) option outcome"
where
  "find_rule ext alertname ms i [] = Ret None"
| "find_rule ext alertname ms i (g # gs) =
     obind (find_in_group ext alertname ms 0 (gp_Rules g)) (\<lambda>r.
       case r of
         Some (ii, a) \<Rightarrow> Ret (Some (i, ii, a, gp_Interval g))
       | None \<Rightarrow> find_rule ext alertname ms (i + 1) gs)"

definition rule_key :: "nat \<Rightarrow> nat \<Rightarrow> string" where
  "rule_key i ii = itoa i @ ''.'' @ itoa ii"

definition alertname_of :: "matcher list \<Rightarrow> string" where
  "alertname_of ms = (case find (\<lambda>m. m_Name m = AlertNameLabel) ms of Some m \<Rightarrow> m_Value m | None \<Rightarrow> [])"

definition FindGroupAndAlert ::
  "externals \<Rightarrow> rule_group list \<Rightarrow> matcher list \<Rightarrow> (string \<times> alerting_rule \<times> duration) option outcome"
where
  "FindGroupAndAlert ext groups ms =
     (if alertname_of ms = [] then Panic ''what''
      else omap (map_option (\<lambda>(i, ii, a, interval). (rule_key i ii, a, interval))) (find_rule ext (alertname_of ms) ms 0 groups))"

section \<open>The state series\<close>

text \<open>The labels of a state series, unless a matcher rejects them.\<close>

fun match_metric :: "externals \<Rightarrow> matcher list \<Rightarrow> labelset \<Rightarrow> labelset option outcome" where
  "match_metric ext [] metric = Ret (Some metric)"
| "match_metric ext (m # ms) metric =
     (if overwritten m then match_metric ext ms (smap_put (m_Name m) (m_Value m) metric)
      else obind (Matches ext m (labels_Get metric (m_Name m))) (\<lambda>ok.
             if ok then match_metric ext ms metric else Ret None))"

definition Time_Unix :: "int \<Rightarrow> int" where
  "Time_Unix t = t sdiv 1000"

text \<open>\<open>activeAt\<close> is a whole number of seconds throughout, 0 when it is not set.\<close>

fun active_samples :: "duration \<Rightarrow> int \<Rightarrow> time \<Rightarrow> f64 sample_pair list \<Rightarrow> f64 sample_pair list" where
  "active_samples step activeAt lastPoint [] = []"
| "active_samples step activeAt lastPoint (s # ss) =
     (let sampleTime = timestamp_Time (Timestamp s);
          activeAt = (if time_Sub sampleTime lastPoint > step then 0 else activeAt);
          activeAt = (if activeAt = 0 then Time_Unix (Timestamp s) else activeAt)
      in \<lparr>Timestamp = Timestamp s, Value = f64_of_int activeAt\<rparr> # active_samples step activeAt sampleTime ss)"

fun GenerateAlertStateMatrix :: "externals \<Rightarrow> stream list \<Rightarrow> matcher list \<Rightarrow> labelset \<Rightarrow> duration \<Rightarrow> stream list outcome" where
  "GenerateAlertStateMatrix ext [] ms alertLabels step = Ret []"
| "GenerateAlertStateMatrix ext (item # v) ms alertLabels step =
     obind (match_metric ext ms (fold (\<lambda>(n, v). smap_put n v) alertLabels (Metric item))) (\<lambda>r.
       obind (GenerateAlertStateMatrix ext v ms alertLabels step) (\<lambda>rest.
         Ret (case r of
                None \<Rightarrow> rest
              | Some metric \<Rightarrow> \<lparr>Metric = metric, Values = active_samples step 0 zero_time (Values item), Histograms = []\<rparr> # rest)))"

section \<open>The querier\<close>

record query_result =
  qr_v :: "stream list"
  qr_warnings :: annotations
  qr_err :: "go_error option"

record backfill_querier =
  bq_ruleGroups :: "rule_group list"
  bq_ruleValues :: "(string, query_result) smap"
  bq_mint :: int
  bq_maxt :: int

definition backfill_Querier :: "rule_group list \<Rightarrow> int \<Rightarrow> int \<Rightarrow> backfill_querier" where
  "backfill_Querier groups mint maxt = \<lparr>bq_ruleGroups = groups, bq_ruleValues = [], bq_mint = mint, bq_maxt = maxt\<rparr>"

definition load_rule :: "externals \<Rightarrow> api \<Rightarrow> time \<Rightarrow> string \<Rightarrow> alerting_rule \<Rightarrow> duration \<Rightarrow> backfill_querier \<Rightarrow> (query_result \<times> backfill_querier) outcome" where
  "load_rule ext a now key r interval q =
     (case map_of (bq_ruleValues q) key of
        Some result \<Rightarrow> Ret (result, q)
      | None \<Rightarrow>
          omap (\<lambda>ss. let (matrix, err) = SeriesSetToMatrix ext ss;
                         result = \<lparr>qr_v = matrix, qr_warnings = ss_warnings ss, qr_err = err\<rparr>
                     in (result, q\<lparr>bq_ruleValues := smap_put key result (bq_ruleValues q)\<rparr>))
            (QueryRange a (ar_Query r) \<lparr>rg_Start = now - ar_HoldDuration r - interval, rg_End = now, rg_Step = interval\<rparr>))"

definition backfill_Select ::
  "externals \<Rightarrow> promql \<Rightarrow> api \<Rightarrow> api \<Rightarrow> time \<Rightarrow> bool \<Rightarrow> select_hints option \<Rightarrow> matcher list \<Rightarrow> backfill_querier \<Rightarrow>
   (series_set \<times> backfill_querier) outcome"
where
  "backfill_Select ext pq client a now sortSeries hints ms q =
     obind (Select pq (Querier client (bq_mint q) (bq_maxt q)) sortSeries hints ms) (\<lambda>ret.
       if ss_series ret \<noteq> [] then Ret (NewSeriesSet (ss_series ret) (ss_warnings ret) (ss_err ret), q)
       else obind (FindGroupAndAlert ext (bq_ruleGroups q) ms) (\<lambda>found.
         case found of
           None \<Rightarrow> Ret (NewSeriesSet [] [] None, q)
         | Some (key, r, interval) \<Rightarrow>
             obind (load_rule ext a now key r interval q) (\<lambda>(result, q).
               case qr_err result of
                 Some e \<Rightarrow> Ret (NewSeriesSet [] (qr_warnings result) (Some e), q)
               | None \<Rightarrow>
                   omap (\<lambda>m. (ModelValueToSeriesSet (Matrix m) (qr_warnings result) None, q))
                     (GenerateAlertStateMatrix ext (qr_v result) ms (ar_Labels r) interval))))"

section \<open>The engine API\<close>

text \<open>
  \<open>EngineAPI\<close>: only range queries are implemented. The engine refuses a query, fails, or returns a
  value; a matrix is converted, any other value is an error.
\<close>

record engine_series =
  es_Metric :: labelset
  es_Floats :: "(int \<times> f64) list"
  es_Histograms :: "(int \<times> float_histogram option) list"

datatype engine_value = EngineMatrix "engine_series list" | EngineOther string

record engine_result =
  eg_Value :: engine_value
  eg_Warnings :: annotations
  eg_Err :: "go_error option"

definition ParserValueToModelValue :: "externals \<Rightarrow> engine_value \<Rightarrow> go_error + model_value" where
  "ParserValueToModelValue ext v =
     (case v of
        EngineOther T \<Rightarrow> Inl (OtherError (''unknown type '' @ T))
      | EngineMatrix m \<Rightarrow>
          Inr (Matrix (map (\<lambda>item.
            \<lparr>Metric = fold (\<lambda>(n, v). smap_put n v) (es_Metric item) [],
             Values = map (\<lambda>(t, f). \<lparr>Timestamp = t, Value = f\<rparr>) (es_Floats item),
             Histograms = map (\<lambda>(t, h). \<lparr>Timestamp = t, Value = floatHistogramToSampleHistogram ext h\<rparr>) (es_Histograms item)\<rparr>) m)))"

definition not_implemented :: go_error where
  "not_implemented = OtherError ''not implemented''"

definition EngineAPI :: "externals \<Rightarrow> (string \<Rightarrow> range \<Rightarrow> go_error + engine_result) \<Rightarrow> api" where
  "EngineAPI ext engine = \<lparr>
     LabelNames = \<lambda>_ _ _. Ret ([], [], Some not_implemented),
     LabelValues = \<lambda>_ _ _ _. Ret (None, [], Some not_implemented),
     Query = \<lambda>_ _. Ret (ErrSeriesSet not_implemented),
     QueryRange = \<lambda>query r.
       (case engine query r of
          Inl err \<Rightarrow> Ret (ErrSeriesSet err)
        | Inr result \<Rightarrow>
            (case eg_Err result of
               Some err \<Rightarrow> Ret (NewSeriesSet [] (eg_Warnings result) (Some err))
             | None \<Rightarrow>
                 (case ParserValueToModelValue ext (eg_Value result) of
                    Inl err \<Rightarrow> Ret (ErrSeriesSet err)
                  | Inr val \<Rightarrow> Ret (ModelValueToSeriesSet val (eg_Warnings result) None)))),
     Series = \<lambda>_ _ _. Ret ([], [], Some not_implemented),
     GetValue = \<lambda>_ _ _. Ret (ErrSeriesSet not_implemented),
     Metadata = \<lambda>_ _. Ret (None, Some not_implemented),
     QueryExemplars = \<lambda>_ _ _. Ret ([], Some not_implemented),
     api_Key = None\<rparr>"

section \<open>Lemmas\<close>

text \<open>A point starts a run when it is the first or comes more than a step after the one before.\<close>

definition starts_run :: "duration \<Rightarrow> f64 sample_pair list \<Rightarrow> nat \<Rightarrow> bool" where
  "starts_run step xs j \<longleftrightarrow> j = 0 \<or> time_Sub (timestamp_Time (Timestamp (xs ! j))) (timestamp_Time (Timestamp (xs ! (j - 1)))) > step"

lemma active_samples_timestamps: "map Timestamp (active_samples step a l xs) = map Timestamp xs"
  by (induction xs arbitrary: a l) (simp_all add: Let_def)

lemma active_samples_run:
  assumes "\<forall>x\<in>set xs. Time_Unix (Timestamp x) \<noteq> 0" "i < length xs"
  shows "(\<exists>j\<le>i. (j = 0 \<longrightarrow> time_Sub (timestamp_Time (Timestamp (xs ! 0))) l > step \<or> a = 0) \<and> starts_run step xs j \<and> (\<forall>k. j < k \<and> k \<le> i \<longrightarrow> \<not> starts_run step xs k) \<and>
      Value (active_samples step a l xs ! i) = f64_of_int (Time_Unix (Timestamp (xs ! j)))) \<or>
    a \<noteq> 0 \<and> \<not> time_Sub (timestamp_Time (Timestamp (xs ! 0))) l > step \<and> (\<forall>k. 0 < k \<and> k \<le> i \<longrightarrow> \<not> starts_run step xs k) \<and>
      Value (active_samples step a l xs ! i) = f64_of_int a"
  using assms
proof (induction xs arbitrary: a l i)
  case (Cons x xs)
  define t where "t = timestamp_Time (Timestamp x)"
  define b where "b = (if time_Sub t l > step \<or> a = 0 then Time_Unix (Timestamp x) else a)"
  have eq: "active_samples step a l (x # xs) = \<lparr>Timestamp = Timestamp x, Value = f64_of_int b\<rparr> # active_samples step b t xs"
    by (simp add: Let_def t_def b_def)
  have b: "b \<noteq> 0" using Cons.prems(1) by (simp add: b_def)
  have shift: "starts_run step (x # xs) (Suc k) \<longleftrightarrow> (if k = 0 then time_Sub (timestamp_Time (Timestamp (xs ! 0))) t > step else starts_run step xs k)" for k
    by (cases k) (simp_all add: starts_run_def t_def)
  have zero: "starts_run step (x # xs) 0" by (simp add: starts_run_def)
  show ?case
  proof (cases i)
    case 0
    then show ?thesis using zero by (auto simp del: active_samples.simps simp: eq b_def t_def)
  next
    case (Suc n)
    have val: "Value (active_samples step a l (x # xs) ! i) = Value (active_samples step b t xs ! n)" by (simp del: active_samples.simps add: eq Suc)
    have upto: "(\<forall>k. 0 < k \<and> k \<le> i \<longrightarrow> \<not> starts_run step (x # xs) k) \<longleftrightarrow> (\<forall>k\<le>n. \<not> starts_run step (x # xs) (Suc k))"
      using Suc by (metis Suc_le_mono gr0_implies_Suc zero_less_Suc)
    have "\<forall>x\<in>set xs. Time_Unix (Timestamp x) \<noteq> 0" "n < length xs" using Cons.prems Suc by auto
    from Cons.IH [OF this, of t b] consider
      (inside) j where "j \<le> n" "j = 0 \<longrightarrow> time_Sub (timestamp_Time (Timestamp (xs ! 0))) t > step" "starts_run step xs j"
        "\<forall>k. j < k \<and> k \<le> n \<longrightarrow> \<not> starts_run step xs k" "Value (active_samples step b t xs ! n) = f64_of_int (Time_Unix (Timestamp (xs ! j)))"
    | (carried) "\<not> time_Sub (timestamp_Time (Timestamp (xs ! 0))) t > step" "\<forall>k. 0 < k \<and> k \<le> n \<longrightarrow> \<not> starts_run step xs k"
        "Value (active_samples step b t xs ! n) = f64_of_int b"
      using b by blast
    then show ?thesis
    proof cases
      case inside
      have "starts_run step (x # xs) (Suc j)" using inside(2,3) shift by auto
      moreover have "\<not> starts_run step (x # xs) k" if "Suc j < k \<and> k \<le> i" for k
        using that inside(4) shift [of "k - 1"] Suc by (cases k) auto
      ultimately show ?thesis using inside(1,5) val Suc by (intro disjI1 exI [of _ "Suc j"]) auto
    next
      case carried
      have none: "\<not> starts_run step (x # xs) k" if "0 < k \<and> k \<le> i" for k
        using that carried(1,2) shift [of "k - 1"] Suc by (cases k) auto
      show ?thesis
      proof (cases "time_Sub t l > step \<or> a = 0")
        case True
        then show ?thesis using none zero carried(3) val by (intro disjI1 exI [of _ 0]) (auto simp: b_def t_def)
      next
        case False
        then show ?thesis using none carried(3) val by (auto simp: b_def t_def)
      qed
    qed
  qed
qed simp

text \<open>What the matchers make of the labels: the overwritten ones get the value of their last matcher, the others are accepted.\<close>

lemma match_metric_labels:
  assumes "match_metric ext ms metric = Ret (Some r)" "smap_ok metric" "\<forall>m\<in>set ms. matcher_ok m"
  shows "labels_Get r n = (case find (\<lambda>m. m_Name m = n \<and> overwritten m) (rev ms) of Some m \<Rightarrow> m_Value m | None \<Rightarrow> labels_Get metric n) \<and> smap_ok r"
  using assms
proof (induction ms arbitrary: metric)
  case (Cons m ms)
  have find: "find P (xs @ [y]) = (case find P xs of Some z \<Rightarrow> Some z | None \<Rightarrow> if P y then Some y else None)" for P :: "matcher \<Rightarrow> bool" and xs y
    by (induction xs) auto
  show ?case
  proof (cases "overwritten m")
    case True
    let ?metric = "smap_put (m_Name m) (m_Value m) metric"
    have "match_metric ext ms ?metric = Ret (Some r)" "smap_ok ?metric" using Cons.prems(1,2) True by (simp_all add: label_simps)
    from Cons.IH [OF this] Cons.prems(3) have "labels_Get r n = (case find (\<lambda>m. m_Name m = n \<and> overwritten m) (rev ms) of Some m \<Rightarrow> m_Value m | None \<Rightarrow> labels_Get ?metric n) \<and> smap_ok r" by simp
    moreover have "labels_Get ?metric n = (if n = m_Name m then m_Value m else labels_Get metric n)" by (simp add: labels_Get_def label_simps)
    ultimately show ?thesis using True by (auto simp: find split: option.splits)
  next
    case False
    then have "match_metric ext ms metric = Ret (Some r)" using Cons.prems(1,3) by (auto simp: Matches_ok split: if_splits)
    from Cons.IH [OF this Cons.prems(2)] Cons.prems(3) False show ?thesis by (auto simp: find split: option.splits)
  qed
qed simp

lemma match_metric_accepts:
  assumes "match_metric ext ms metric = Ret (Some r)" "smap_ok metric" "\<forall>m\<in>set ms. matcher_ok m" "m \<in> set ms" "\<not> overwritten m"
  shows "accepts ext m (labels_Get metric (m_Name m))"
  using assms
proof (induction ms arbitrary: metric)
  case (Cons m' ms)
  show ?case
  proof (cases "overwritten m'")
    case True
    let ?metric = "smap_put (m_Name m') (m_Value m') metric"
    have "m_Name m \<noteq> m_Name m'" using True Cons.prems(5) by (auto simp: overwritten_def)
    then have "labels_Get ?metric (m_Name m) = labels_Get metric (m_Name m)" by (simp add: labels_Get_def label_simps)
    moreover have "match_metric ext ms ?metric = Ret (Some r)" "smap_ok ?metric" using Cons.prems(1,2) True by (simp_all add: label_simps)
    moreover have "m \<in> set ms" using Cons.prems(4,5) True by auto
    ultimately show ?thesis using Cons.IH [of ?metric] Cons.prems(3,5) by simp
  next
    case False
    have m': "Matches ext m' (labels_Get metric (m_Name m')) = Ret (accepts ext m' (labels_Get metric (m_Name m')))"
      using Cons.prems(3) by (simp add: Matches_ok)
    with Cons.prems(1) False have "accepts ext m' (labels_Get metric (m_Name m'))" "match_metric ext ms metric = Ret (Some r)"
      by (auto split: if_splits)
    then show ?thesis using Cons.IH [of metric] Cons.prems(2-5) by auto
  qed
qed simp

lemma match_metric_total:
  assumes "smap_ok metric" "\<forall>m\<in>set ms. matcher_ok m"
  shows "\<exists>r. match_metric ext ms metric = Ret r \<and>
    (r = None \<longleftrightarrow> (\<exists>m\<in>set ms. \<not> overwritten m \<and> \<not> accepts ext m (labels_Get metric (m_Name m))))"
  using assms
proof (induction ms arbitrary: metric)
  case (Cons m ms)
  show ?case
  proof (cases "overwritten m")
    case True
    let ?metric = "smap_put (m_Name m) (m_Value m) metric"
    have "labels_Get ?metric (m_Name m') = labels_Get metric (m_Name m')" if "\<not> overwritten m'" for m'
    proof -
      have "m_Name m' \<noteq> m_Name m" using True that by (auto simp: overwritten_def)
      then show ?thesis by (simp add: labels_Get_def label_simps)
    qed
    then have "(\<exists>m'\<in>set (m # ms). \<not> overwritten m' \<and> \<not> accepts ext m' (labels_Get metric (m_Name m'))) \<longleftrightarrow>
        (\<exists>m'\<in>set ms. \<not> overwritten m' \<and> \<not> accepts ext m' (labels_Get ?metric (m_Name m')))" using True by auto
    with Cons.IH [of ?metric] Cons.prems True show ?thesis by (simp add: label_simps)
  next
    case False
    then show ?thesis using Cons by (auto simp: Matches_ok)
  qed
qed simp

text \<open>Distinct rules have distinct keys.\<close>

definition read_nat :: "string \<Rightarrow> nat" where
  "read_nat s = foldl (\<lambda>n c. n * 10 + (byte c - 48)) 0 s"

lemma read_nat_itoa: "read_nat (itoa n) = n"
proof (induction n rule: itoa.induct)
  case (1 n)
  have digit: "byte (char_of (48 + k :: nat)) - 48 = k" if "k < 10" for k
    using that by (simp only: of_char_of) (simp add: mod_less)
  have "read_nat (itoa n) = read_nat (itoa (n div 10)) * 10 + n mod 10" if "\<not> n < 10"
    using that digit [of "n mod 10"] by (subst itoa.simps) (simp add: read_nat_def)
  moreover have "read_nat (itoa n) = n" if "n < 10" using that digit [of n] by (subst itoa.simps) (simp add: read_nat_def)
  ultimately show ?case using 1 by (cases "n < 10") simp_all
qed

lemma dot_itoa: "CHR ''.'' \<notin> set (itoa n)"
proof (induction n rule: itoa.induct)
  case (1 n)
  have digit: "CHR ''.'' \<noteq> char_of (48 + k :: nat)" if "k < 10" for k
  proof
    assume "CHR ''.'' = char_of (48 + k)"
    then have "byte (CHR ''.'') = byte (char_of (48 + k))" by (rule arg_cong)
    then have "byte (CHR ''.'') = 48 + k" using that by (simp only: of_char_of) (simp add: mod_less)
    then show False by simp
  qed
  have "CHR ''.'' \<notin> set (itoa (n div 10))" if "\<not> n < 10" using 1 that by simp
  then show ?case using digit [of n] digit [of "n mod 10"] by (subst itoa.simps) simp
qed

lemma rule_key_inj: "rule_key i ii = rule_key j jj \<longleftrightarrow> i = j \<and> ii = jj"
proof
  assume eq: "rule_key i ii = rule_key j jj"
  have take: "takeWhile (\<lambda>c. c \<noteq> CHR ''.'') (rule_key i ii) = itoa i" for i ii
    using dot_itoa [of i] by (auto simp: rule_key_def takeWhile_append intro!: takeWhile_eq_all_conv [THEN iffD2])
  have drop: "dropWhile (\<lambda>c. c \<noteq> CHR ''.'') (rule_key i ii) = CHR ''.'' # itoa ii" for i ii
    using dot_itoa [of i] by (auto simp: rule_key_def dropWhile_append)
  have "itoa i = itoa j" using eq take by metis
  moreover have "itoa ii = itoa jj" using eq drop by (metis list.inject)
  ultimately show "i = j \<and> ii = jj" using read_nat_itoa by metis
qed simp

section \<open>Properties\<close>

text \<open>The state series of one series of the alert's query.\<close>

definition alert_labels :: "labelset \<Rightarrow> stream \<Rightarrow> labelset" where
  "alert_labels alertLabels item = fold (\<lambda>(n, v). smap_put n v) alertLabels (Metric item)"

definition state_series :: "externals \<Rightarrow> matcher list \<Rightarrow> labelset \<Rightarrow> duration \<Rightarrow> stream \<Rightarrow> stream \<Rightarrow> bool" where
  "state_series ext ms alertLabels step item s \<longleftrightarrow>
     (\<forall>m\<in>set ms. \<not> overwritten m \<longrightarrow> accepts ext m (labels_Get (Metric s) (m_Name m))) \<and>
     (\<forall>m\<in>set ms. overwritten m \<and> (\<forall>m'\<in>set ms. m_Name m' = m_Name m \<longrightarrow> m' = m) \<longrightarrow> labels_Get (Metric s) (m_Name m) = m_Value m) \<and>
     (\<forall>n. n \<notin> {MetricName, AlertNameLabel} \<longrightarrow> labels_Get (Metric s) n = labels_Get (alert_labels alertLabels item) n) \<and>
     map Timestamp (Values s) = map Timestamp (Values item) \<and>
     (\<forall>i<length (Values item). \<exists>j\<le>i. starts_run step (Values item) j \<and> (\<forall>k. j < k \<and> k \<le> i \<longrightarrow> \<not> starts_run step (Values item) k) \<and>
        Value (Values s ! i) = f64_of_int (Time_Unix (Timestamp (Values item ! j))))"

lemma state_series_matched:
  assumes "match_metric ext ms (alert_labels alertLabels item) = Ret (Some metric)" "smap_ok (alert_labels alertLabels item)" "\<forall>m\<in>set ms. matcher_ok m"
    and "\<forall>x\<in>set (Values item). 1000 \<le> Timestamp x"
  shows "state_series ext ms alertLabels step item \<lparr>Metric = metric, Values = active_samples step 0 zero_time (Values item), Histograms = []\<rparr>"
proof -
  let ?base = "alert_labels alertLabels item"
  note get = match_metric_labels [OF assms(1-3), THEN conjunct1]
  have same: "labels_Get metric n = labels_Get ?base n" if "n \<notin> {MetricName, AlertNameLabel}" for n
  proof -
    have "find (\<lambda>m. m_Name m = n \<and> overwritten m) (rev ms) = None" using that by (auto simp: find_None_iff overwritten_def)
    with get [of n] show ?thesis by simp
  qed
  have over: "labels_Get metric (m_Name m) = m_Value m"
    if m: "m \<in> set ms" "overwritten m" and u: "\<forall>m'\<in>set ms. m_Name m' = m_Name m \<longrightarrow> m' = m" for m
  proof -
    obtain m' where "find (\<lambda>m'. m_Name m' = m_Name m \<and> overwritten m') (rev ms) = Some m'"
      using m by (cases "find (\<lambda>m'. m_Name m' = m_Name m \<and> overwritten m') (rev ms)") (auto simp: find_None_iff)
    moreover from this have "m' = m" using u by (auto simp: find_Some_iff) (metis nth_mem set_rev length_rev)
    ultimately show ?thesis using get [of "m_Name m"] by simp
  qed
  have acc: "accepts ext m (labels_Get metric (m_Name m))" if "m \<in> set ms" "\<not> overwritten m" for m
    using match_metric_accepts [OF assms(1-3) that] same [of "m_Name m"] that(2) by (simp add: overwritten_def)
  have nz: "\<forall>x\<in>set (Values item). Time_Unix (Timestamp x) \<noteq> 0"
    using assms(4) by (auto simp: Time_Unix_def signed_divide_int_def sgn_if zdiv_eq_0_iff)
  have run: "\<exists>j\<le>i. starts_run step (Values item) j \<and> (\<forall>k. j < k \<and> k \<le> i \<longrightarrow> \<not> starts_run step (Values item) k) \<and>
      Value (active_samples step 0 zero_time (Values item) ! i) = f64_of_int (Time_Unix (Timestamp (Values item ! j)))"
    if "i < length (Values item)" for i
  proof -
    from active_samples_run [OF nz that, where l = zero_time and step = step and a = 0] obtain j where
      "j \<le> i" "starts_run step (Values item) j" "\<forall>k. j < k \<and> k \<le> i \<longrightarrow> \<not> starts_run step (Values item) k"
      "Value (active_samples step 0 zero_time (Values item) ! i) = f64_of_int (Time_Unix (Timestamp (Values item ! j)))"
      by (elim disjE exE conjE) simp_all
    then show ?thesis by (intro exI [of _ j] conjI)
  qed
  show ?thesis unfolding state_series_def sample_stream.select_convs
    by (intro conjI ballI allI impI)
       (simp add: acc, erule conjE, rule over, assumption+, rule same, assumption, rule active_samples_timestamps, rule run, assumption)
qed

text \<open>
  C17. The recomputed alert state, for points not before the first second of 1970: from every series of the alert's
  query whose labels, with those of the rule added, are accepted by the matchers on labels other than the metric name
  and \<open>alertname\<close>, and from no other, a series is made. These matchers accept it, the metric name and \<open>alertname\<close> get
  the value of their matcher where there is one matcher on them, and the other labels are kept. It has the points
  of the query, and the value of each is the Unix time of the first point of its run, the points since the last gap of
  more than a step, which is when the alert became active.
\<close>

theorem GenerateAlertStateMatrix_correct:
  assumes "\<forall>m\<in>set ms. matcher_ok m" "\<forall>item\<in>set v. smap_ok (Metric item) \<and> (\<forall>x\<in>set (Values item). 1000 \<le> Timestamp x)"
  shows "\<exists>out. GenerateAlertStateMatrix ext v ms alertLabels step = Ret out \<and>
    (\<forall>s\<in>set out. \<exists>item\<in>set v. state_series ext ms alertLabels step item s) \<and>
    (\<forall>item\<in>set v. (\<forall>m\<in>set ms. \<not> overwritten m \<longrightarrow> accepts ext m (labels_Get (alert_labels alertLabels item) (m_Name m))) \<longrightarrow>
      (\<exists>s\<in>set out. state_series ext ms alertLabels step item s))"
  using assms(2)
proof (induction v)
  case (Cons item v)
  then obtain out where out: "GenerateAlertStateMatrix ext v ms alertLabels step = Ret out"
    "\<forall>s\<in>set out. \<exists>item\<in>set v. state_series ext ms alertLabels step item s"
    "\<forall>item\<in>set v. (\<forall>m\<in>set ms. \<not> overwritten m \<longrightarrow> accepts ext m (labels_Get (alert_labels alertLabels item) (m_Name m))) \<longrightarrow>
      (\<exists>s\<in>set out. state_series ext ms alertLabels step item s)" by auto
  have ok: "smap_ok (alert_labels alertLabels item)" using Cons.prems by (simp add: alert_labels_def smap_ok_fold_put)
  obtain r where r: "match_metric ext ms (alert_labels alertLabels item) = Ret r"
    "r = None \<longleftrightarrow> (\<exists>m\<in>set ms. \<not> overwritten m \<and> \<not> accepts ext m (labels_Get (alert_labels alertLabels item) (m_Name m)))"
    using match_metric_total [OF ok assms(1)] by blast
  show ?case
  proof (cases r)
    case None
    then show ?thesis using out r by (auto simp: alert_labels_def [symmetric])
  next
    case (Some metric)
    let ?s = "\<lparr>Metric = metric, Values = active_samples step 0 zero_time (Values item), Histograms = []\<rparr>"
    have "state_series ext ms alertLabels step item ?s"
      using state_series_matched [OF _ ok assms(1)] r(1) Some Cons.prems by simp
    moreover have "GenerateAlertStateMatrix ext (item # v) ms alertLabels step = Ret (?s # out)"
      using out(1) r(1) Some by (simp add: alert_labels_def)
    ultimately show ?thesis using out(2,3) by auto
  qed
qed simp

definition example_alert :: stream where
  "example_alert = \<lparr>Metric = [(''job'', ''a'')], Values = [\<lparr>Timestamp = 60000, Value = 1\<rparr>, \<lparr>Timestamp = 120000, Value = 1\<rparr>], Histograms = []\<rparr>"

theorem GenerateAlertStateMatrix_correct_witness:
  "\<exists>out. GenerateAlertStateMatrix example_ext [example_alert] [eq_matcher ''alertname'' ''down'', eq_matcher ''job'' ''a''] [(''severity'', ''page'')] 60000000000 = Ret out \<and>
    (\<exists>s\<in>set out. state_series example_ext [eq_matcher ''alertname'' ''down'', eq_matcher ''job'' ''a''] [(''severity'', ''page'')] 60000000000 example_alert s)"
proof -
  let ?ms = "[eq_matcher ''alertname'' ''down'', eq_matcher ''job'' ''a'']"
  have "\<forall>m\<in>set ?ms. matcher_ok m" by (simp add: matcher_ok_def is_regex_def)
  moreover have "\<forall>item\<in>set [example_alert]. smap_ok (Metric item) \<and> (\<forall>x\<in>set (Values item). 1000 \<le> Timestamp x)"
    by (simp add: example_alert_def smap_ok_def)
  ultimately obtain out where "GenerateAlertStateMatrix example_ext [example_alert] ?ms [(''severity'', ''page'')] 60000000000 = Ret out"
    "\<forall>item\<in>set [example_alert]. (\<forall>m\<in>set ?ms. \<not> overwritten m \<longrightarrow> accepts example_ext m (labels_Get (alert_labels [(''severity'', ''page'')] item) (m_Name m))) \<longrightarrow>
      (\<exists>s\<in>set out. state_series example_ext ?ms [(''severity'', ''page'')] 60000000000 item s)"
    using GenerateAlertStateMatrix_correct [of ?ms "[example_alert]" example_ext "[(''severity'', ''page'')]" 60000000000] by blast
  moreover have "\<forall>m\<in>set ?ms. \<not> overwritten m \<longrightarrow> accepts example_ext m (labels_Get (alert_labels [(''severity'', ''page'')] example_alert) (m_Name m))"
    by (simp add: overwritten_def AlertNameLabel_def accepts_def alert_labels_def example_alert_def labels_Get_def label_simps)
  ultimately show ?thesis by auto
qed

text \<open>
  C18. The backfill asks once: after any call, the same call returns the same series and leaves the
  querier as it is, whatever the engine would answer by then and however late it is, and the
  answers of two rules are never kept under the same key.
\<close>

theorem backfill_Select_cached:
  assumes "backfill_Select ext pq client a now sortSeries hints ms q = Ret (ss, q')" "smap_ok (bq_ruleValues q)"
  shows "backfill_Select ext pq client a' now' sortSeries hints ms q' = Ret (ss, q') \<and> smap_ok (bq_ruleValues q') \<and>
    (\<forall>i ii j jj. rule_key i ii = rule_key j jj \<longleftrightarrow> i = j \<and> ii = jj)"
proof -
  have load: "load_rule ext a' now' key r interval q1 = Ret (result, q1) \<and> bq_ruleGroups q1 = bq_ruleGroups q \<and>
      bq_mint q1 = bq_mint q \<and> bq_maxt q1 = bq_maxt q \<and> smap_ok (bq_ruleValues q1)"
    if "load_rule ext a now key r interval q = Ret (result, q1)" for key r interval result q1
    using that assms(2) by (auto simp: load_rule_def omap_eq_Ret label_simps SeriesSetToMatrix_def Let_def split: option.splits)
  obtain ret where ret: "Select pq (Querier client (bq_mint q) (bq_maxt q)) sortSeries hints ms = Ret ret"
    using assms(1) by (cases "Select pq (Querier client (bq_mint q) (bq_maxt q)) sortSeries hints ms") (auto simp: backfill_Select_def)
  have "backfill_Select ext pq client a' now' sortSeries hints ms q' = Ret (ss, q') \<and> smap_ok (bq_ruleValues q')"
  proof (cases "ss_series ret = []")
    case False
    then show ?thesis using assms ret by (auto simp: backfill_Select_def)
  next
    case True
    then obtain found where found: "FindGroupAndAlert ext (bq_ruleGroups q) ms = Ret found"
      using assms(1) ret by (cases "FindGroupAndAlert ext (bq_ruleGroups q) ms") (auto simp: backfill_Select_def)
    show ?thesis
    proof (cases found)
      case None
      then show ?thesis using assms ret found True by (auto simp: backfill_Select_def)
    next
      case (Some k)
      obtain key r interval where k: "k = (key, r, interval)" by (cases k)
      obtain result q1 where l: "load_rule ext a now key r interval q = Ret (result, q1)"
        using assms(1) ret found True Some k by (cases "load_rule ext a now key r interval q") (auto simp: backfill_Select_def)
      note l' = load [OF l]
      have "q' = q1" using assms(1) ret found True Some k l by (auto simp: backfill_Select_def omap_eq_Ret split: option.splits)
      then show ?thesis using assms(1) ret found True Some k l l' by (simp add: backfill_Select_def)
    qed
  qed
  then show ?thesis using rule_key_inj by simp
qed

definition silent_rule :: rule_group where
  "silent_rule = \<lparr>gp_Rules = [AlertingRule \<lparr>ar_Name = ''down'', ar_Labels = [], ar_Query = ''up == 0'', ar_HoldDuration = 0\<rparr>], gp_Interval = 60000000000\<rparr>"

theorem backfill_Select_cached_witness:
  "\<exists>ss q'. backfill_Select example_ext example_pq (set_api EmptySeriesSet) (set_api (NewSeriesSet [NewSeries [(''job'', ''a'')] [FloatSample 60000 1]] [] None)) 0 False
      (Some \<lparr>sh_Start = 0, sh_End = 9, sh_Func = []\<rparr>) [eq_matcher ''alertname'' ''down''] (backfill_Querier [silent_rule] 0 9) = Ret (ss, q') \<and>
    backfill_Select example_ext example_pq (set_api EmptySeriesSet) (set_api EmptySeriesSet) 7 False
      (Some \<lparr>sh_Start = 0, sh_End = 9, sh_Func = []\<rparr>) [eq_matcher ''alertname'' ''down''] q' = Ret (ss, q')"
proof -
  let ?hi = "Some \<lparr>sh_Start = 0, sh_End = 9, sh_Func = []\<rparr>" and ?q = "backfill_Querier [silent_rule] 0 9"
  obtain ss q' where "backfill_Select example_ext example_pq (set_api EmptySeriesSet) (set_api (NewSeriesSet [NewSeries [(''job'', ''a'')] [FloatSample 60000 1]] [] None)) 0 False
      ?hi [eq_matcher ''alertname'' ''down''] ?q = Ret (ss, q')"
    by (simp add: backfill_Select_def Select_def Querier_def set_api_def const_api_def EmptySeriesSet_def NewSeriesSet_def FindGroupAndAlert_def alertname_of_def
        AlertNameLabel_def backfill_Querier_def silent_rule_def load_rule_def SeriesSetToMatrix_def overwritten_def Let_def seriesToSampleStream_def NewSeries_def)
  moreover have "smap_ok (bq_ruleValues ?q)" by (simp add: backfill_Querier_def)
  ultimately show ?thesis using backfill_Select_cached by blast
qed

text \<open>
  A selector for \<open>ALERTS_FOR_STATE\<close> without an \<open>alertname\<close> matcher stops the process, also when no rules
  are configured.
\<close>

lemma FindGroupAndAlert_no_alertname:
  assumes "\<forall>m\<in>set ms. m_Name m \<noteq> AlertNameLabel"
  shows "FindGroupAndAlert ext groups ms = Panic ''what''"
  using assms by (auto simp: FindGroupAndAlert_def alertname_of_def find_None_iff split: option.splits dest!: find_Some_iff [THEN iffD1])

text \<open>A downstream failure that comes without series is not reported: the answer is an empty success.\<close>

lemma backfill_hides_error:
  "\<exists>q'. backfill_Select example_ext example_pq (set_api (NewSeriesSet [] [] (Some (OtherError ''unreachable'')))) (set_api EmptySeriesSet) 0 False
     (Some \<lparr>sh_Start = 0, sh_End = 9, sh_Func = []\<rparr>) [eq_matcher ''alertname'' ''down''] (backfill_Querier [] 0 9) = Ret (NewSeriesSet [] [] None, q')"
  by (simp add: backfill_Select_def Select_def Querier_def set_api_def const_api_def NewSeriesSet_def FindGroupAndAlert_def alertname_of_def
      AlertNameLabel_def backfill_Querier_def)

end
