(* ===== verification/Promxy_Aggregation.thy ===== *)
theory Promxy_Aggregation
  imports Promxy_Pushdown
begin

text \<open>
  Aggregations that are pushed down: what \<open>NodeReplacer\<close> (\<open>src/pkg/proxystorage/proxy.go\<close>) asks the server groups
  for and with which aggregation it recombines their answers. Whether the recombined value is the value of the original
  aggregation is a matter of the engine's arithmetic, which is not modelled.
\<close>

section \<open>Requests and answers\<close>



section \<open>Properties\<close>







section \<open>Minima with a literal\<close>

lemma Min_concat:
  assumes "xss \<noteq> []" "\<forall>xs\<in>set xss. xs \<noteq> []"
  shows "Min (set (map (\<lambda>xs. Min (set xs)) xss)) = Min (set (concat xss) :: 'v::linorder set)"
  using assms
proof (induction xss rule: list_nonempty_induct)
  case (cons xs xss)
  then have "concat xss \<noteq> []" by (cases xss) auto
  with cons show ?case by (simp add: Min_Un)
qed simp

text \<open>
  The minimum of a query with a literal is not always recombined rightly: a binary
  expression of \<open>min\<close> and a number is sent downstream whole and \<open>min\<close> is taken over the answers,
  whatever the operator. That is exact for monotone operations but not, for instance, for
  the multiplication by -1.
\<close>

lemma binary_aggregate_pushdown:
  assumes "vs_UnexpandedSeriesSet vs = None" "vs_Timestamp vs = None" "histogramNamePredicate (ps_sgs p) = None" "st_Interval s \<le> 0"
    and "\<And>q. Query (ps_client p) q (st_Start s - vs_OriginalOffset vs) = Ret (answer q)"
    and "\<And>q. ss_err (answer q) = None" "\<And>q. \<forall>sr\<in>set (ss_series (answer q)). sr_iterErr sr = None \<and> (\<forall>x\<in>set (sr_samples sr). \<not> is_hist x)"
  shows "(\<exists>n' q. NodeReplacer pq p insp s (BinaryExpr bop (AggregateExpr Op_MIN (VectorSelector vs) None g w) (NumberLiteral c) vm b) [] =
      Ret (n', Some (AggregateExpr Op_MIN (VectorSelector
          \<lparr>vs_Name = [], vs_OriginalOffset = vs_OriginalOffset vs, vs_Timestamp = None, vs_StartOrEnd = 0, vs_LabelMatchers = [],
           vs_LookbackDelta = 0, vs_UnexpandedSeriesSet = Some (answer q)\<rparr>) None g w), None)) \<and>
    (\<forall>(f :: int \<Rightarrow> int) groups. mono f \<and> groups \<noteq> [] \<and> (\<forall>V\<in>set groups. V \<noteq> []) \<longrightarrow>
       Min (set (map (\<lambda>V. f (Min (set V))) groups)) = f (Min (set (concat groups) :: int set))) \<and>
    Min (set (map (\<lambda>V. - Min (set V)) [[1], [2]])) \<noteq> - Min (set (concat [[1], [2]]) :: int set)"
proof (intro conjI allI impI)
  have lossy: "containsLossyHistogram (answer q) = Ret (answer q, False)" for q
    using containsLossyHistogram_ok [of "answer q"] assms(7) by simp
  have fd: "find_nodes None (BinaryExpr bop (AggregateExpr Op_MIN (VectorSelector vs) None g w) (NumberLiteral c) vm b) =
     Ret (nothing_found\<lparr>fd_agg := 1, fd_offset := Some (vs_OriginalOffset vs), fd_vec := 1\<rparr>)"
    using assms(2) by (simp add: find_nodes_eq finder_defs)
  show "\<exists>n' q. NodeReplacer pq p insp s (BinaryExpr bop (AggregateExpr Op_MIN (VectorSelector vs) None g w) (NumberLiteral c) vm b) [] =
      Ret (n', Some (AggregateExpr Op_MIN (VectorSelector
          \<lparr>vs_Name = [], vs_OriginalOffset = vs_OriginalOffset vs, vs_Timestamp = None, vs_StartOrEnd = 0, vs_LabelMatchers = [],
           vs_LookbackDelta = 0, vs_UnexpandedSeriesSet = Some (answer q)\<rparr>) None g w), None)"
    using assms lossy
    by (auto simp: NodeReplacer_def fd nothing_found_def pathHasHistogramOnlyCall_def isAgg_def isBinaryExpr_def isSubQuery_def
        replace_context_def Let_def replace_binary_def replace_side_def pushable_side_def ExprIsLiteral_def UnwrapExpr_def with_expr_def
        fetched_def queryDownstream_def step_lookback_def synth_selector_def unshifted_def)
next
  fix f :: "int \<Rightarrow> int" and groups :: "int list list"
  assume "mono f \<and> groups \<noteq> [] \<and> (\<forall>V\<in>set groups. V \<noteq> [])"
  then have f: "mono f" and ne: "groups \<noteq> []" "\<forall>V\<in>set groups. V \<noteq> []" by auto
  have "f (Min (set (map (\<lambda>V. Min (set V)) groups))) = Min (f ` set (map (\<lambda>V. Min (set V)) groups))"
    using f ne(1) by (intro mono_Min_commute) auto
  then show "Min (set (map (\<lambda>V. f (Min (set V))) groups)) = f (Min (set (concat groups)))"
    using Min_concat [OF ne] by (simp add: image_image)
qed simp

end
