(* ===== verification/Promxy_Inspect.thy ===== *)
theory Promxy_Inspect
  imports Promxy_Pushdown
begin

text \<open>
  The walk of \<open>parser.Walk\<close> with \<open>NodeReplacer\<close> ends. Replacing a node other than \<open>avg\<close> never makes the tree deeper,
  and the children of a node are less deep than the node. An \<open>avg\<close> is replaced by what the parser reads of a printed
  quotient, which may be deeper, but holds no \<open>avg\<close> any more; and below a subquery nothing is replaced.
\<close>

section \<open>Depth and averages\<close>

fun walk_depth :: "expr \<Rightarrow> nat" where
  "walk_depth (AggregateExpr op e p g w) = 1 + max (walk_depth e) (case p of None \<Rightarrow> 0 | Some q \<Rightarrow> walk_depth q)"
| "walk_depth (BinaryExpr op l r vm b) = 1 + max (walk_depth l) (walk_depth r)"
| "walk_depth (Call f args) = 2 + fold max (map walk_depth args) 1"
| "walk_depth (MatrixSelector vs r) = 2"
| "walk_depth (SubqueryExpr e sq) = 1 + walk_depth e"
| "walk_depth (ParenExpr e) = 1 + walk_depth e"
| "walk_depth (UnaryExpr op e) = 1 + walk_depth e"
| "walk_depth (StepInvariantExpr e) = 1 + walk_depth e"
| "walk_depth _ = 1"

lemma fold_max_le: "fold max (xs :: nat list) a \<le> n \<longleftrightarrow> a \<le> n \<and> (\<forall>x\<in>set xs. x \<le> n)"
  by (induction xs arbitrary: a) auto

lemma walk_depth_pos [simp]: "0 < walk_depth e" "walk_depth e \<noteq> 0"
  by (cases e; simp)+

lemma walk_depth_child: "c \<in> set (children e) \<Longrightarrow> walk_depth c < walk_depth e"
  using fold_max_le [of "map walk_depth args" 1 "fold max (map walk_depth args) 1" for args]
  by (cases e) (auto simp: children_def less_Suc_eq_le le_SucI split: option.splits)

lemma walk_depth_strip [simp]: "walk_depth (strip e) = walk_depth e"
  by (induction e rule: strip.induct) (auto simp: o_def split: option.splits cong: map_cong)

fun no_avg :: "expr \<Rightarrow> bool" where
  "no_avg (AggregateExpr op e p g w) \<longleftrightarrow> op \<noteq> Op_AVG \<and> no_avg e \<and> (case p of None \<Rightarrow> True | Some q \<Rightarrow> no_avg q)"
| "no_avg (BinaryExpr op l r vm b) \<longleftrightarrow> no_avg l \<and> no_avg r"
| "no_avg (Call f args) \<longleftrightarrow> (\<forall>e\<in>set args. no_avg e)"
| "no_avg (SubqueryExpr e sq) = no_avg e"
| "no_avg (ParenExpr e) = no_avg e"
| "no_avg (UnaryExpr op e) = no_avg e"
| "no_avg (StepInvariantExpr e) = no_avg e"
| "no_avg _ = True"

lemma no_avg_strip [simp]: "no_avg (strip e) = no_avg e"
  by (induction e rule: strip.induct) (auto split: option.splits)

lemma no_avg_child: "no_avg e \<Longrightarrow> c \<in> set (children e) \<Longrightarrow> no_avg c"
  by (cases e) (auto simp: children_def split: option.splits)

lemma no_aggregation_no_avg:
  "filter isAgg (map fst (visits e path)) = [] \<Longrightarrow> no_avg e"
  "filter isAgg (map fst (visits_list es path)) = [] \<Longrightarrow> \<forall>e\<in>set es. no_avg e"
  "filter isAgg (map fst (visits_option eo path)) = [] \<Longrightarrow> (case eo of None \<Rightarrow> True | Some q \<Rightarrow> no_avg q)"
  by (induction e path and es path and eo path rule: visits_visits_list_visits_option.induct) (auto simp: isAgg_def)

lemma lone_aggregation:
  assumes "length (filter isAgg (nodes (AggregateExpr op e p g w))) \<le> 1"
  shows "no_avg e" "case p of None \<Rightarrow> True | Some q \<Rightarrow> no_avg q"
proof -
  let ?path = "[AggregateExpr op e p g w]"
  have "filter isAgg (map fst (visits e ?path)) = []" "filter isAgg (map fst (visits_option p ?path)) = []"
    using assms by (simp_all add: nodes_def isAgg_def filter_map)
  then show "no_avg e" "case p of None \<Rightarrow> True | Some q \<Rightarrow> no_avg q" using no_aggregation_no_avg by blast+
qed

text \<open>
  What the printer and the parser are relied on for: where the query holds an average of an expression without averages,
  the quotient put in its place, parts of which have been printed and read back, holds no average either. Its shape may
  be another one: the printer writes no parentheses around the operands of a binary expression.
\<close>

definition avg_read_back :: "promql \<Rightarrow> expr \<Rightarrow> bool" where
  "avg_read_back pq node \<longleftrightarrow>
     (\<forall>e p g w r. AggregateExpr Op_AVG e p g w \<in> set (nodes node) \<and> no_avg e \<and> (case p of None \<Rightarrow> True | Some q \<Rightarrow> no_avg q) \<and>
        replace_avg pq e p g w = Ret r \<longrightarrow> no_avg r)"

lemma visits_fst:
  "map fst (visits e path) = nodes e"
  "map fst (visits_list es path) = concat (map nodes es)"
  "map fst (visits_option eo path) = (case eo of None \<Rightarrow> [] | Some e \<Rightarrow> nodes e)"
proof -
  have "(\<forall>path'. map fst (visits e path) = map fst (visits e path')) \<and> True"
    "(\<forall>path'. map fst (visits_list es path) = map fst (visits_list es path')) \<and> map fst (visits_list es path) = concat (map nodes es)"
    "(\<forall>path'. map fst (visits_option eo path) = map fst (visits_option eo path')) \<and> True"
    by (induction e path and es path and eo path rule: visits_visits_list_visits_option.induct) (simp_all add: nodes_def, metis+)
  then show "map fst (visits e path) = nodes e" "map fst (visits_list es path) = concat (map nodes es)"
    "map fst (visits_option eo path) = (case eo of None \<Rightarrow> [] | Some e \<Rightarrow> nodes e)"
    by (auto simp: nodes_def split: option.splits)
qed

lemma nodes_child: "c \<in> set (children e) \<Longrightarrow> set (nodes c) \<subseteq> set (nodes e)"
  unfolding nodes_def [of e] by (cases e) (auto simp: children_def visits_fst nodes_def [of "VectorSelector vs" for vs] split: option.splits)

lemma avg_read_back_child: "avg_read_back pq e \<Longrightarrow> c \<in> set (children e) \<Longrightarrow> avg_read_back pq c"
  using nodes_child unfolding avg_read_back_def by blast

section \<open>Replacing does not deepen\<close>

text \<open>\<open>r\<close> in the place of \<open>e\<close>.\<close>

definition shrinks :: "expr \<Rightarrow> expr \<Rightarrow> bool" where
  "shrinks e r \<longleftrightarrow> walk_depth r \<le> walk_depth e \<and> (no_avg e \<longrightarrow> no_avg r)"

lemma shrinks_refl [simp]: "shrinks e e"
  by (simp add: shrinks_def)

lemma walk_depth_unshifted [simp]: "walk_depth (unshifted cx e) = walk_depth e" "no_avg (unshifted cx e) = no_avg e"
  by (simp_all add: unshifted_def)

lemma shrinks_unshifted: "shrinks (unshifted cx e) r = shrinks e r" "shrinks e (unshifted cx r) = shrinks e r"
  by (simp_all add: shrinks_def)

lemma shrinks_VectorSelector [simp]: "shrinks e (VectorSelector vs)"
  by (simp add: shrinks_def Suc_le_eq)

lemma fetched_keeps:
  assumes "fetched cx n n' q k = Ret (node', repl, None)" "P n'"
    and "\<And>result. k result = Ret (node', repl, None) \<Longrightarrow> P (case repl of Some r \<Rightarrow> r | None \<Rightarrow> node')"
  shows "P (case repl of Some r \<Rightarrow> r | None \<Rightarrow> node')"
  using assms by (auto simp: fetched_def no_replacement_def obind_eq_Ret split: option.splits if_splits)

lemma replace_aggregate_shrinks:
  assumes "op \<noteq> Op_AVG" "replace_aggregate pq s cx op e p g w = Ret (node', repl, None)"
  shows "shrinks (AggregateExpr op e p g w) (case repl of Some r \<Rightarrow> r | None \<Rightarrow> node')"
proof -
  let ?n = "AggregateExpr op e p g w"
  have one: "Suc 0 \<le> walk_depth e" by (simp add: Suc_le_eq)
  have u: "shrinks ?n (unshifted cx ?n)" unfolding shrinks_unshifted by simp
  have new: "shrinks ?n (AggregateExpr op' (VectorSelector vs) p' g' w')" if "op' \<noteq> Op_AVG" "p' \<in> {map_option (unshifted cx) p, None}" for op' vs p' g' w'
    using that one by (cases p) (auto simp: shrinks_def max_def)
  have sent: ?thesis if "fetched cx m n' q k = Ret (node', repl, None)" "n' \<in> {?n, unshifted cx ?n}"
      "\<And>result. k result = Ret (node', repl, None) \<Longrightarrow> shrinks ?n (case repl of Some r \<Rightarrow> r | None \<Rightarrow> node')" for m n' q k
    using fetched_keeps [where P = "shrinks ?n", OF that(1)] that(2,3) u by (auto simp del: unshifted_simps(3))
  show ?thesis
  proof (cases "(case e of VectorSelector vs \<Rightarrow> vs_UnexpandedSeriesSet vs \<noteq> None | _ \<Rightarrow> False)")
    case True
    then show ?thesis using assms(2) by (auto simp: replace_aggregate_def no_replacement_def)
  next
    case False
    note r = assms(2) [unfolded replace_aggregate_def Let_def if_not_P [OF False]]
    consider "op \<in> {Op_SUM, Op_MIN, Op_MAX, Op_TOPK, Op_BOTTOMK, Op_GROUP}" | "op = Op_COUNT" | "op = Op_COUNT_VALUES"
      | "op \<notin> {Op_SUM, Op_MIN, Op_MAX, Op_TOPK, Op_BOTTOMK, Op_GROUP, Op_AVG, Op_COUNT, Op_COUNT_VALUES}" using assms(1) by blast
    then show ?thesis
    proof cases
      case 1
      then have "fetched cx (unshifted cx ?n) (unshifted cx ?n) (pq_String pq (unshifted cx ?n)) (\<lambda>result.
          Ret (with_expr (unshifted cx ?n) op (VectorSelector (synth_selector s cx result)), Some (with_expr (unshifted cx ?n) op (VectorSelector (synth_selector s cx result))), None)) = Ret (node', repl, None)"
        using r by simp
      then show ?thesis by (rule sent) (use new 1 in \<open>auto simp: with_expr_def\<close>)
    next
      case 2
      then have "fetched cx (unshifted cx ?n) (unshifted cx ?n) (pq_String pq (unshifted cx ?n)) (\<lambda>result.
          Ret (with_expr (unshifted cx ?n) Op_SUM (VectorSelector (synth_selector s cx result)), Some (with_expr (unshifted cx ?n) Op_SUM (VectorSelector (synth_selector s cx result))), None)) = Ret (node', repl, None)"
        using r by simp
      then show ?thesis by (rule sent) (use new in \<open>auto simp: with_expr_def\<close>)
    next
      case 3
      then have "fetched cx ?n ?n (pq_String pq ?n) (\<lambda>result. case p of
          Some (StringLiteral v) \<Rightarrow> Ret (?n, Some (AggregateExpr Op_SUM (VectorSelector (synth_selector s cx result)) None (g @ [v]) w), None)
        | _ \<Rightarrow> Panic ''interface conversion'') = Ret (node', repl, None)" using r by simp
      then show ?thesis by (rule sent) (use new in \<open>auto split: option.splits expr.splits\<close>)
    next
      case 4
      then show ?thesis using r assms(1) by (auto simp: no_replacement_def)
    qed
  qed
qed

lemma walk_depth_Call_le: "walk_depth (Call f args) \<le> n \<longleftrightarrow> 3 \<le> n \<and> (\<forall>e\<in>set args. walk_depth e + 2 \<le> n)"
proof -
  have "2 + m \<le> n \<longleftrightarrow> 2 \<le> n \<and> m \<le> n - 2" for m by auto
  then show ?thesis by (auto simp: fold_max_le)
qed

lemma replace_call_shrinks:
  assumes "replace_call pq s cx off f args = Ret (node', repl, None)"
  shows "shrinks (Call f args) (case repl of Some r \<Rightarrow> r | None \<Rightarrow> node')"
proof -
  let ?n = "Call f (map (unshifted cx) args)"
  have call: "3 \<le> walk_depth (Call f args)" "\<And>e. e \<in> set (map (unshifted cx) args) \<Longrightarrow> walk_depth e + 2 \<le> walk_depth (Call f args)"
    using walk_depth_Call_le [of f args "walk_depth (Call f args)"] by auto
  have new: "shrinks (Call f args) (Call f es)" if "\<And>e. e \<in> set es \<Longrightarrow> e \<in> set (map (unshifted cx) args) \<or> (\<exists>vs. e = VectorSelector vs)" for es
    unfolding shrinks_def walk_depth_Call_le using that call by fastforce
  have upd: "e = x \<or> e \<in> set xs" if "e \<in> set (xs[0 := x])" for e x and xs :: "expr list" using that set_update_subset_insert [of xs 0 x] by auto
  have "repl = None \<and> node' \<in> {Call f args, ?n} \<or> (\<exists>vs. repl = Some (VectorSelector vs) \<or> repl = Some (Call f [VectorSelector vs]) \<or>
      repl = Some (Call f ((map (unshifted cx) args)[0 := VectorSelector vs])))"
    using assms by (auto simp: replace_call_def no_replacement_def Let_def obind_eq_Ret split: if_splits option.splits)
  then consider "repl = None" "node' \<in> {Call f args, ?n}" | vs where "repl = Some (VectorSelector vs)" | vs where "repl = Some (Call f [VectorSelector vs])"
    | vs where "repl = Some (Call f ((map (unshifted cx) args)[0 := VectorSelector vs]))" by blast
  then show ?thesis
  proof cases
    case 1
    then show ?thesis using new [of "map (unshifted cx) args"] by auto
  next
    case 2
    then show ?thesis by simp
  next
    case 3
    then show ?thesis using new [of "[VectorSelector vs]"] by simp
  next
    case 4
    have "shrinks (Call f args) (Call f ((map (unshifted cx) args)[0 := VectorSelector vs]))"
      by (rule new) (use upd in blast)
    then show ?thesis using 4 by (simp only: option.simps)
  qed
qed

lemma replace_vector_shrinks:
  assumes "replace_vector pq s cx path vs = Ret (node', repl, None)"
  shows "shrinks (VectorSelector vs) (case repl of Some r \<Rightarrow> r | None \<Rightarrow> node')"
  using assms unfolding replace_vector_def Let_def
  by (auto simp: no_replacement_def split: if_splits elim!: fetched_keeps)

lemma replace_side_shrinks:
  assumes "replace_side pq s cx n side put = Ret (node', repl, None)" "shrinks node n" "walk_depth side \<le> walk_depth node" "no_avg node \<Longrightarrow> no_avg side"
    and "\<And>vs vs'. side = VectorSelector vs \<Longrightarrow> shrinks node (put (VectorSelector vs'))"
  shows "shrinks node (case repl of Some r \<Rightarrow> r | None \<Rightarrow> node')"
proof (cases side)
  case (VectorSelector vs)
  let ?n = "put (VectorSelector (vs\<lparr>vs_LookbackDelta := step_lookback s (vs_LookbackDelta vs)\<rparr>))"
  have "fetched cx ?n ?n (pq_String pq ?n) (\<lambda>result. Ret (?n, Some (VectorSelector (synth_selector s cx result)), None)) = Ret (node', repl, None)"
    using assms(1) VectorSelector by (simp add: replace_side_def Let_def)
  then show ?thesis by (rule fetched_keeps) (use assms(5) [OF VectorSelector] in auto)
next
  case (AggregateExpr op e p g w)
  have "shrinks node (AggregateExpr op (VectorSelector vs) p g w)" for vs
    using assms(3,4) AggregateExpr walk_depth_pos [of e]
    by (cases p) (auto simp: shrinks_def Suc_le_eq max_def split: if_splits simp del: walk_depth_pos)
  then show ?thesis using assms(1,2) AggregateExpr
    by (auto simp: replace_side_def with_expr_def no_replacement_def split: if_splits elim!: fetched_keeps)
qed (use assms(1,2) in \<open>auto simp: replace_side_def no_replacement_def\<close>)

lemma replace_binary_shrinks:
  assumes "replace_binary pq s cx op l r vm b = Ret (node', repl, None)"
  shows "shrinks (BinaryExpr op l r vm b) (case repl of Some r \<Rightarrow> r | None \<Rightarrow> node')"
proof -
  let ?n = "BinaryExpr op (unshifted cx l) (unshifted cx r) vm b"
  have n: "shrinks (BinaryExpr op l r vm b) ?n" by (simp add: shrinks_def)
  have put: "shrinks (BinaryExpr op l r vm b) (BinaryExpr op (unshifted cx l) (VectorSelector vs) vm b)"
    "shrinks (BinaryExpr op l r vm b) (BinaryExpr op (VectorSelector vs) (unshifted cx r) vm b)" for vs
    using walk_depth_pos [of l] walk_depth_pos [of r] by (simp_all add: shrinks_def Suc_le_eq max_def del: walk_depth_pos)
  consider "no_replacement (BinaryExpr op l r vm b) = Ret (node', repl, None)"
    | "replace_side pq s cx ?n (unshifted cx r) (\<lambda>r. BinaryExpr op (unshifted cx l) r vm b) = Ret (node', repl, None)"
    | "replace_side pq s cx ?n (unshifted cx l) (\<lambda>l. BinaryExpr op l (unshifted cx r) vm b) = Ret (node', repl, None)"
    using assms by (auto simp: replace_binary_def Let_def split: if_splits)
  then show ?thesis
  proof cases
    case 1
    then show ?thesis by (auto simp: no_replacement_def)
  next
    case 2
    from replace_side_shrinks [OF this n] put show ?thesis by simp
  next
    case 3
    from replace_side_shrinks [OF this n] put show ?thesis by simp
  qed
qed

text \<open>The branches of the replacer once its guards have passed.\<close>

lemma NodeReplacer_cases:
  assumes "NodeReplacer pq p f s node path = Ret (node', repl, None)"
  obtains (none) "repl = None" "node' = node"
  | (aggregate) op e pa g w cx where "node = AggregateExpr op e pa g w" "replace_aggregate pq s cx op e pa g w = Ret (node', repl, None)"
      "length (filter isAgg (nodes node)) = 1"
  | (call) fn args cx where "node = Call fn args" "replace_call pq s cx (rx_synthOffset cx) fn args = Ret (node', repl, None)"
      "filter isAgg (nodes node) = []"
  | (vector) vs cx where "node = VectorSelector vs" "replace_vector pq s cx path vs = Ret (node', repl, None)"
  | (subquery) e sq e' where "node = SubqueryExpr e sq" "f (subquery_stmt p s sq) e = Ret (e', None)" "repl = Some (SubqueryExpr e' sq)"
  | (binary) op l r vm b cx where "node = BinaryExpr op l r vm b" "replace_binary pq s cx op l r vm b = Ret (node', repl, None)"
      "length (filter isAgg (nodes node)) \<le> 1"
proof -
  obtain fd where fd: "find_nodes (histogramNamePredicate (ps_sgs p)) node = Ret fd" using find_nodes_eq by blast
  have agg: "fd_agg fd = length (filter isAgg (nodes node))" using find_nodes_spec [OF fd] by blast
  have self: "isAgg node \<longrightarrow> 0 < fd_agg fd"
  proof -
    obtain vs where "visits node [] = (node, []) # vs" by (rule visits_hd)
    then show ?thesis by (simp add: agg nodes_def)
  qed
  have kind: "isSubQuery node \<longrightarrow> \<not> isAgg node \<and> \<not> isBinaryExpr node"
    by (cases node) (auto simp: isSubQuery_def isAgg_def isBinaryExpr_def)
  define go where "go offset = (case node of
         AggregateExpr op e pa g w \<Rightarrow> replace_aggregate pq s (replace_context p s fd offset) op e pa g w
       | Call fn args \<Rightarrow> replace_call pq s (replace_context p s fd offset) (rx_synthOffset (replace_context p s fd offset)) fn args
       | VectorSelector vs \<Rightarrow> replace_vector pq s (replace_context p s fd offset) path vs
       | SubqueryExpr e sq \<Rightarrow>
           omap (\<lambda>(e', err). case err of
               Some err \<Rightarrow> (SubqueryExpr e sq, None, Some err)
             | None \<Rightarrow> (SubqueryExpr e' sq, Some (SubqueryExpr e' sq), None))
             (f (subquery_stmt p s sq) e)
       | BinaryExpr op l r vm b \<Rightarrow> replace_binary pq s (replace_context p s fd offset) op l r vm b
       | _ \<Rightarrow> no_replacement node)" for offset
  have "if list_ex isSubQuery path \<or> pathHasHistogramOnlyCall path \<or> fd_hist fd \<or> (fd_agg fd > 0 \<and> \<not> ((isAgg node \<or> isBinaryExpr node) \<and> fd_agg fd = 1) \<and> \<not> isSubQuery node)
      then no_replacement node = Ret (node', repl, None) else no_replacement node = Ret (node', repl, None) \<or> (\<exists>offset. go offset = Ret (node', repl, None))"
    using assms fd by (auto simp: NodeReplacer_def Let_def go_def split: if_splits option.splits)
  then consider "no_replacement node = Ret (node', repl, None)"
    | offset where "go offset = Ret (node', repl, None)" "isAgg node \<longrightarrow> fd_agg fd = 1"
      "isBinaryExpr node \<longrightarrow> fd_agg fd \<le> 1" "isAgg node \<or> isBinaryExpr node \<or> isSubQuery node \<or> fd_agg fd = 0"
    using kind self by (auto simp flip: neq0_conv split: if_splits)
  then show ?thesis
  proof cases
    case 1
    then show ?thesis by (intro none) (auto simp: no_replacement_def)
  next
    case 2
    note 2 = 2(1) [unfolded go_def] 2(2-4)
    show ?thesis
    proof (cases node)
      case (AggregateExpr op e pa g w)
      then show ?thesis using 2 agg by (intro aggregate) (auto simp: isAgg_def)
    next
      case (SubqueryExpr e sq)
      then show ?thesis using 2(1) subquery by (auto simp: omap_eq_Ret split: option.splits)
    next
      case (Call fn args)
      then show ?thesis using 2 agg by (intro call) (auto simp: isAgg_def isBinaryExpr_def isSubQuery_def)
    next
      case (BinaryExpr op l r vm b)
      then show ?thesis using 2 agg by (intro binary) (auto simp: isBinaryExpr_def)
    qed (use 2(1) none vector in \<open>auto simp: no_replacement_def\<close>)
  qed
qed

lemma replace_binary_no_avg:
  assumes "replace_binary pq s cx op l r vm b = Ret (node', repl, None)" "length (filter isAgg (nodes (BinaryExpr op l r vm b))) \<le> 1"
  shows "repl = None \<and> node' = BinaryExpr op l r vm b \<or> no_avg (BinaryExpr op l r vm b)"
proof (cases "ExprIsLiteral (UnwrapExpr l) \<or> ExprIsLiteral (UnwrapExpr r)")
  case True
  have lit: "no_avg e" if "ExprIsLiteral (UnwrapExpr e)" for e
    using that by (cases e) (auto simp: ExprIsLiteral_def UnwrapExpr_def split: expr.splits)
  have agg: "no_avg e" if "pushable_side e" "length (filter isAgg (nodes e)) \<le> 1" for e
    using that lone_aggregation by (cases e) (auto simp: pushable_side_def)
  have "length (filter isAgg (nodes l)) \<le> 1" "length (filter isAgg (nodes r)) \<le> 1"
    using assms(2) unfolding nodes_def [of "BinaryExpr op l r vm b"] by (simp_all add: visits_fst isAgg_def)
  then show ?thesis using assms(1) lit agg by (auto simp: replace_binary_def Let_def no_replacement_def split: if_splits)
qed (use assms(1) in \<open>simp add: replace_binary_def Let_def no_replacement_def\<close>)

lemma NodeReplacer_shrinks:
  assumes "NodeReplacer pq p f s node path = Ret (node', repl, None)" "\<nexists>e pa g w. node = AggregateExpr Op_AVG e pa g w"
    and "\<And>s e e' sq. node = SubqueryExpr e sq \<Longrightarrow> f s e = Ret (e', None) \<Longrightarrow> shrinks e e'"
  shows "shrinks node (case repl of Some r \<Rightarrow> r | None \<Rightarrow> node')"
  using assms(1)
proof (cases rule: NodeReplacer_cases)
  case (aggregate op e pa g w cx)
  then show ?thesis using assms(2) replace_aggregate_shrinks by metis
next
  case (subquery e sq e')
  then have "shrinks e e'" using assms(3) by blast
  then show ?thesis using subquery by (simp add: shrinks_def)
qed (use replace_call_shrinks replace_vector_shrinks replace_binary_shrinks in auto)

section \<open>Trees without averages\<close>

text \<open>Fuel beyond the depth changes nothing, and the walk does not make the tree deeper.\<close>

lemma inspect_list_cong: "(\<And>e. e \<in> set es \<Longrightarrow> f e = g e) \<Longrightarrow> inspect_list f es = inspect_list g es"
  by (induction es) auto

lemma inspect_list_all2: "inspect_list f es = Ret (es', None) \<Longrightarrow> list_all2 (\<lambda>e e'. f e = Ret (e', None)) es es'"
  by (induction es arbitrary: es') (auto simp: obind_eq_Ret omap_eq_Ret split: if_splits)

lemma fold_max_mono:
  fixes f :: "'a \<Rightarrow> nat"
  shows "list_all2 (\<lambda>x y. f y \<le> f x) xs ys \<Longrightarrow> a \<le> b \<Longrightarrow> fold max (map f ys) a \<le> fold max (map f xs) b"
proof (induction xs ys arbitrary: a b rule: list_all2_induct)
  case (Cons x xs y ys)
  then have "max (f y) a \<le> max (f x) b" by (intro max.mono)
  from Cons.IH [OF this] show ?case by simp
qed simp

lemma set_children_shrinks:
  assumes "list_all2 shrinks (children node) es"
  shows "shrinks node (set_children node es)"
proof (cases node)
  case (Call f args)
  then have a: "list_all2 shrinks args es" using assms by (simp add: children_def)
  then have "list_all2 (\<lambda>e e'. walk_depth e' \<le> walk_depth e) args es" by (rule list.rel_mono_strong) (simp add: shrinks_def)
  moreover have "\<forall>e\<in>set es. no_avg e" if "\<forall>e\<in>set args. no_avg e"
    using a that by (induction rule: list_all2_induct) (auto simp: shrinks_def)
  ultimately show ?thesis using Call fold_max_mono [of walk_depth args es 1 1] by (simp add: set_children_def shrinks_def)
qed (use assms in \<open>auto simp: children_def set_children_def shrinks_def list_all2_Cons1 split: option.splits\<close>)

lemma NodeReplacer_cong:
  assumes "\<And>s e sq. node = SubqueryExpr e sq \<Longrightarrow> f s e = g s e"
  shows "NodeReplacer pq p f s node path = NodeReplacer pq p g s node path"
  using assms by (cases node) (simp_all add: NodeReplacer_def Let_def cong: if_cong option.case_cong)

lemma inspect_no_avg:
  assumes "no_avg node" "walk_depth node \<le> n"
  shows "inspect out (n + k) pq p s node path = inspect out' n pq p s node path \<and>
    (\<forall>node'. inspect out n pq p s node path = Ret (node', None) \<longrightarrow> shrinks node node')"
  using assms
proof (induction n arbitrary: node s path k out out')
  case (Suc n)
  let ?f = "\<lambda>out m s e. inspect out m pq p s e []"
  have sub: "no_avg e \<and> walk_depth e \<le> n" if "node = SubqueryExpr e sq" for e sq using that Suc.prems by simp
  have rep: "NodeReplacer pq p (?f out (n + k)) s node path = NodeReplacer pq p (?f out' n) s node path"
    "NodeReplacer pq p (?f out n) s node path = NodeReplacer pq p (?f out' n) s node path"
  proof -
    show "NodeReplacer pq p (?f out (n + k)) s node path = NodeReplacer pq p (?f out' n) s node path"
      by (intro NodeReplacer_cong) (use Suc.IH sub in blast)
    show "NodeReplacer pq p (?f out n) s node path = NodeReplacer pq p (?f out' n) s node path"
      by (intro NodeReplacer_cong) (metis Suc.IH sub add_0_right)
  qed
  have keep: "shrinks node (case repl of Some r \<Rightarrow> r | None \<Rightarrow> node')"
    if "NodeReplacer pq p (?f out' n) s node path = Ret (node', repl, None)" for node' repl
    using that Suc.prems(1) by (intro NodeReplacer_shrinks) (use Suc.IH sub in \<open>auto dest: spec\<close>)
  show ?case
  proof (cases "NodeReplacer pq p (?f out' n) s node path")
    case (Ret x)
    obtain node' repl err where x: "x = (node', repl, err)" by (cases x)
    define new where "new = (case repl of Some r \<Rightarrow> r | None \<Rightarrow> node')"
    show ?thesis
    proof (cases err)
      case (Some e)
      then show ?thesis using Ret x rep by (simp add: Let_def)
    next
      case None
      have d: "shrinks node new" using keep Ret x None by (simp add: new_def)
      then have child: "no_avg c \<and> walk_depth c \<le> n" if "c \<in> set (children new)" for c
        using walk_depth_child [OF that] no_avg_child [OF _ that] Suc.prems by (simp add: shrinks_def)
      have same: "inspect_list (\<lambda>e. inspect out (n + k) pq p s e (path @ [new])) (children new) =
          inspect_list (\<lambda>e. inspect out' n pq p s e (path @ [new])) (children new)"
        by (intro inspect_list_cong) (use Suc.IH child in blast)
      have shr: "shrinks node (set_children new es)"
        if "inspect_list (\<lambda>e. inspect out n pq p s e (path @ [new])) (children new) = Ret (es, None)" for es
      proof -
        have "list_all2 shrinks (children new) es"
          using inspect_list_all2 [OF that] by (rule list.rel_mono_strong) (use Suc.IH child in blast)
        then show ?thesis using set_children_shrinks [of new es] d by (auto simp: shrinks_def)
      qed
      show ?thesis using Ret x None rep same shr by (auto simp: new_def [symmetric] omap_eq_Ret split: if_splits)
    qed
  qed (use rep in simp)
qed simp

section \<open>Every tree\<close>

text \<open>A walk settles: from some fuel on the result is the same, whatever running out of fuel would return.\<close>

definition settles :: "('o \<Rightarrow> nat \<Rightarrow> 'r) \<Rightarrow> bool" where
  "settles f \<longleftrightarrow> (\<exists>n r. \<forall>m\<ge>n. \<forall>out. f out m = r)"

lemma settles_const [simp]: "settles (\<lambda>_ _. r)"
  by (auto simp: settles_def)

lemma settles_Suc: "settles (\<lambda>out m. f out (Suc m)) \<Longrightarrow> settles f"
proof -
  assume "settles (\<lambda>out m. f out (Suc m))"
  then obtain n r where n: "\<forall>m\<ge>n. \<forall>out. f out (Suc m) = r" by (auto simp: settles_def)
  have "f out m = r" if "Suc n \<le> m" for m out using n that by (cases m) auto
  then show ?thesis unfolding settles_def by blast
qed

lemma settles_obind:
  assumes "settles f" "\<And>x. (\<exists>out m. f out m = Ret x) \<Longrightarrow> settles (\<lambda>out m. g out m x)"
  shows "settles (\<lambda>out m. obind (f out m) (g out m))"
proof -
  obtain n r where n: "\<forall>m\<ge>n. \<forall>out. f out m = r" using assms(1) by (auto simp: settles_def)
  show ?thesis
  proof (cases r)
    case (Ret x)
    then have "\<exists>out m. f out m = Ret x" using n by blast
    from assms(2) [OF this] obtain n' r' where "\<forall>m\<ge>n'. \<forall>out. g out m x = r'" by (auto simp: settles_def)
    then have "\<forall>m\<ge>max n n'. \<forall>out. obind (f out m) (g out m) = r'" using n Ret by simp
    then show ?thesis unfolding settles_def by blast
  next
    case (Panic e)
    then have "\<forall>m\<ge>n. \<forall>out. obind (f out m) (g out m) = Panic e" using n by simp
    then show ?thesis unfolding settles_def by blast
  qed
qed

lemma settles_omap: "settles f \<Longrightarrow> settles (\<lambda>out m. omap h (f out m))"
  unfolding settles_def by metis

lemma settles_list: "\<forall>e\<in>set es. settles (\<lambda>out m. f out m e) \<Longrightarrow> settles (\<lambda>out m. inspect_list (f out m) es)"
  by (induction es) (auto simp: case_prod_beta intro!: settles_obind settles_omap)

lemma settles_no_avg: "no_avg node \<Longrightarrow> settles (\<lambda>out m. inspect out m pq p s node path)"
proof -
  assume a: "no_avg node"
  have "inspect out m pq p s node path = inspect out' (walk_depth node) pq p s node path" if "walk_depth node \<le> m" for out out' m
    using inspect_no_avg [OF a order.refl, of out "m - walk_depth node" pq p s path out'] that by simp
  then show ?thesis unfolding settles_def by metis
qed

text \<open>One step: the replacer, then the children of what it left.\<close>

lemma settles_step:
  assumes "settles (\<lambda>out m. NodeReplacer pq p (\<lambda>s e. inspect out m pq p s e []) s node path)"
    and "\<And>out m node' repl c. NodeReplacer pq p (\<lambda>s e. inspect out m pq p s e []) s node path = Ret (node', repl, None) \<Longrightarrow>
      c \<in> set (children (case repl of Some r \<Rightarrow> r | None \<Rightarrow> node')) \<Longrightarrow>
      settles (\<lambda>out m. inspect out m pq p s c (path @ [case repl of Some r \<Rightarrow> r | None \<Rightarrow> node']))"
  shows "settles (\<lambda>out m. inspect out m pq p s node path)"
proof (rule settles_Suc, unfold inspect.simps, rule settles_obind [OF assms(1)])
  fix x assume x: "\<exists>out m. NodeReplacer pq p (\<lambda>s e. inspect out m pq p s e []) s node path = Ret x"
  obtain node' repl err where n: "x = (node', repl, err)" by (cases x)
  show "settles (\<lambda>out m. case x of (node', replacement, err) \<Rightarrow> let node = (case replacement of Some r \<Rightarrow> r | None \<Rightarrow> node')
       in if err \<noteq> None then Ret (node, err)
          else omap (\<lambda>(es, err). (if err = None then set_children node es else node, err))
                 (inspect_list (\<lambda>e. inspect out m pq p s e (path @ [node])) (children node)))"
  proof (cases err)
    case None
    then show ?thesis using x assms(2) by (auto simp: n Let_def intro!: settles_omap settles_list)
  qed (simp add: n Let_def)
qed

text \<open>Below a subquery nothing is replaced.\<close>

lemma settles_subquery: "list_ex isSubQuery path \<Longrightarrow> settles (\<lambda>out m. inspect out m pq p s node path)"
proof (induction "walk_depth node" arbitrary: node path rule: less_induct)
  case less
  then have none: "NodeReplacer pq p f s node path = Ret (node, None, None)" for f by (simp add: NodeReplacer_def no_replacement_def)
  show ?case by (rule settles_step) (use less walk_depth_child in \<open>auto simp: none\<close>)
qed

lemma settles_replacer:
  assumes "\<And>s e sq. node = SubqueryExpr e sq \<Longrightarrow> settles (\<lambda>out m. inspect out m pq p s e [])"
  shows "settles (\<lambda>out m. NodeReplacer pq p (\<lambda>s e. inspect out m pq p s e []) s node path)"
proof (cases "isSubQuery node")
  case False
  then have "NodeReplacer pq p (\<lambda>s e. inspect out m pq p s e []) s node path = NodeReplacer pq p (\<lambda>s e. Panic []) s node path" for out m
    by (intro NodeReplacer_cong) (auto simp: isSubQuery_def)
  then show ?thesis by simp
next
  case True
  then obtain e sq where node: "node = SubqueryExpr e sq" by (cases node) (auto simp: isSubQuery_def)
  obtain n r where r: "\<forall>m\<ge>n. \<forall>out. inspect out m pq p (subquery_stmt p s sq) e [] = r"
    using assms [OF node] unfolding settles_def by blast
  have "NodeReplacer pq p (\<lambda>s e. inspect out m pq p s e []) s node path = NodeReplacer pq p (\<lambda>_ _. r) s node path" if "n \<le> m" for out m
    using r that by (simp add: node NodeReplacer_def Let_def cong: if_cong option.case_cong)
  then show ?thesis unfolding settles_def by blast
qed

text \<open>What the replacer leaves is below a subquery, holds no average, or is the node itself.\<close>

lemma NodeReplacer_leaves:
  assumes "NodeReplacer pq p f s node path = Ret (node', repl, None)" "avg_read_back pq node"
  shows "isSubQuery (case repl of Some r \<Rightarrow> r | None \<Rightarrow> node') \<or> no_avg (case repl of Some r \<Rightarrow> r | None \<Rightarrow> node') \<or>
    (case repl of Some r \<Rightarrow> r | None \<Rightarrow> node') = node"
  using assms(1)
proof (cases rule: NodeReplacer_cases)
  case (subquery e sq e')
  then show ?thesis by (simp add: isSubQuery_def)
next
  case (aggregate op e pa g w cx)
  have e: "no_avg e" "case pa of None \<Rightarrow> True | Some q \<Rightarrow> no_avg q"
    using lone_aggregation [of op e pa g w] aggregate(1,3) by simp_all
  show ?thesis
  proof (cases "op = Op_AVG")
    case True
    have "AggregateExpr Op_AVG e pa g w \<in> set (nodes node)" using aggregate(1) True by (simp add: nodes_def)
    then have "no_avg r" if "replace_avg pq e pa g w = Ret r" for r using assms(2) that e unfolding avg_read_back_def by blast
    then show ?thesis using aggregate(1,2) True
      by (auto simp: replace_aggregate_def no_replacement_def omap_eq_Ret Let_def split: if_splits)
  next
    case False
    then show ?thesis using replace_aggregate_shrinks [OF False aggregate(2)] aggregate(1) e by (simp add: shrinks_def)
  qed
next
  case (call fn args cx)
  then show ?thesis using replace_call_shrinks [OF call(2)] no_aggregation_no_avg(1) [of node "[]"]
    by (simp add: shrinks_def nodes_def del: no_avg.simps)
next
  case (vector vs cx)
  then show ?thesis using replace_vector_shrinks [OF vector(2)] by (simp add: shrinks_def)
next
  case (binary op l r vm b cx)
  then show ?thesis using replace_binary_shrinks [OF binary(2)] replace_binary_no_avg [OF binary(2)]
    by (auto simp: shrinks_def simp del: no_avg.simps)
qed simp

lemma settles_inspect: "avg_read_back pq node \<Longrightarrow> settles (\<lambda>out m. inspect out m pq p s node path)"
proof (induction "walk_depth node" arbitrary: node s path rule: less_induct)
  case less
  have child: "settles (\<lambda>out m. inspect out m pq p s c path)" if "c \<in> set (children node)" for c s path
    using less walk_depth_child [OF that] avg_read_back_child [OF _ that] by blast
  show ?case
  proof (rule settles_step)
    show "settles (\<lambda>out m. NodeReplacer pq p (\<lambda>s e. inspect out m pq p s e []) s node path)"
      by (rule settles_replacer) (use child in \<open>simp add: children_def\<close>)
    fix out m node' repl c
    assume rep: "NodeReplacer pq p (\<lambda>s e. inspect out m pq p s e []) s node path = Ret (node', repl, None)"
      and c: "c \<in> set (children (case repl of Some r \<Rightarrow> r | None \<Rightarrow> node'))"
    from NodeReplacer_leaves [OF rep less.prems]
    show "settles (\<lambda>out m. inspect out m pq p s c (path @ [case repl of Some r \<Rightarrow> r | None \<Rightarrow> node']))"
      using c child settles_no_avg no_avg_child by (auto intro: settles_subquery)
  qed
qed

section \<open>Properties\<close>

text \<open>
  C22. The walk that pushes a query down ends, whatever the storage answers. Provided that no average
  comes back where an average of the query has been replaced by its printed and parsed quotient, there is a fuel from
  which on the walk returns the same result, and returns it whatever running out of fuel would return, so that the fuel never runs out. For a
  tree without averages, the depth of the tree is enough, and nothing is required of the parser.
\<close>

theorem inspect_terminates:
  "(avg_read_back pq node \<longrightarrow> (\<exists>n r. \<forall>m\<ge>n. \<forall>out. inspect out m pq p s node path = r)) \<and>
   (no_avg node \<longrightarrow> (\<exists>r. \<forall>m\<ge>walk_depth node. \<forall>out. inspect out m pq p s node path = r))"
proof (intro conjI impI)
  show "\<exists>n r. \<forall>m\<ge>n. \<forall>out. inspect out m pq p s node path = r" if "avg_read_back pq node"
    using settles_inspect [OF that] by (simp add: settles_def)
  assume a: "no_avg node"
  have "inspect out m pq p s node path = inspect (Panic []) (walk_depth node) pq p s node path" if "walk_depth node \<le> m" for out m
    using inspect_no_avg [OF a order.refl, of out "m - walk_depth node" pq p s path "Panic []"] that by simp
  then show "\<exists>r. \<forall>m\<ge>walk_depth node. \<forall>out. inspect out m pq p s node path = r" by blast
qed

text \<open>A parser for the one query \<open>avg(up)\<close>: it reads the printed selector back.\<close>

definition up_promql :: promql where
  "up_promql = example_pq
     \<lparr>pq_String := \<lambda>e. (case e of VectorSelector vs \<Rightarrow> ''up offset 5m'' | _ \<Rightarrow> ''avg(up offset 5m)''),
      pq_ParseExpr := \<lambda>q. if q = ''up offset 5m'' then Inr (VectorSelector up_selector) else Inl (OtherError ''parse error'')\<rparr>"

definition avg_up :: expr where
  "avg_up = AggregateExpr Op_AVG (VectorSelector up_selector) None [] False"

lemma avg_up_quotient:
  "replace_avg up_promql (VectorSelector up_selector) None [] False =
     Ret (BinaryExpr Op_DIV (AggregateExpr Op_SUM (VectorSelector up_selector) None [] False)
       (AggregateExpr Op_COUNT (VectorSelector up_selector) None [] False) (Some one_to_one) False)"
  by (simp add: replace_avg_def CloneExpr_def up_promql_def)

theorem inspect_terminates_witness:
  "(\<exists>n r. \<forall>m\<ge>n. \<forall>out. inspect out m up_promql (answering up_set) instant_stmt avg_up [] = r) \<and>
   (\<exists>r. \<forall>m\<ge>1. \<forall>out. inspect out m up_promql (answering up_set) instant_stmt (VectorSelector up_selector) [] = r)"
proof -
  have "avg_read_back up_promql avg_up"
    using avg_up_quotient by (auto simp: avg_read_back_def avg_up_def nodes_def)
  then show ?thesis
    using inspect_terminates [of up_promql avg_up "answering up_set" instant_stmt "[]"]
      inspect_terminates [of up_promql "VectorSelector up_selector" "answering up_set" instant_stmt "[]"] by simp
qed

end
