(* ===== verification/Promxy_Json.thy ===== *)
theory Promxy_Json
  imports Promxy_Float Promxy_Errors
begin

text \<open>
  The JSON iterator of \<open>github.com/json-iterator/go\<close>, with which \<open>pkg/promapi\<close> reads responses, over a
  byte string: a position in the buffer, the nesting depth of skipped values, and the latched error.
  Every read goes on after an error, as the code does; only the first error that is not the end of input is kept.
  The parsers of numbers that the fast paths leave to \<open>strconv\<close> and \<open>math/big\<close> are parameters.
\<close>

section \<open>The iterator\<close>

datatype iter_error = EOF | Reported string

record iter =
  ji_before :: string
  ji_rest :: string
  ji_depth :: int
  ji_Error :: "iter_error option"

text \<open>\<open>ji_before\<close> is the consumed part of the buffer, last byte first.\<close>

definition BorrowIterator :: "string \<Rightarrow> iter" where
  "BorrowIterator input = \<lparr>ji_before = [], ji_rest = input, ji_depth = 0, ji_Error = None\<rparr>"

definition NUL :: char where
  "NUL = CHR 0x00"

definition is_space :: "char \<Rightarrow> bool" where
  "is_space c \<longleftrightarrow> c = CHR 0x20 \<or> c = CHR 0x0A \<or> c = CHR 0x09 \<or> c = CHR 0x0D"

definition advance :: "nat \<Rightarrow> iter \<Rightarrow> iter" where
  "advance n it = it\<lparr>ji_before := rev (take n (ji_rest it)) @ ji_before it, ji_rest := drop n (ji_rest it)\<rparr>"

definition loadMore :: "iter \<Rightarrow> iter" where
  "loadMore it = (if ji_Error it = None then (advance (length (ji_rest it)) it)\<lparr>ji_Error := Some EOF\<rparr> else it)"

definition nextToken :: "iter \<Rightarrow> char \<times> iter" where
  "nextToken it =
     (let ws = length (takeWhile is_space (ji_rest it))
      in case drop ws (ji_rest it) of
           [] \<Rightarrow> (NUL, loadMore it)
         | c # _ \<Rightarrow> (c, advance (ws + 1) it))"

definition readByte :: "iter \<Rightarrow> char \<times> iter" where
  "readByte it = (case ji_rest it of [] \<Rightarrow> (NUL, loadMore it) | c # _ \<Rightarrow> (c, advance 1 it))"

definition unreadByte :: "iter \<Rightarrow> iter" where
  "unreadByte it =
     (if ji_Error it \<noteq> None then it
      else case ji_before it of [] \<Rightarrow> it | c # b \<Rightarrow> it\<lparr>ji_before := b, ji_rest := c # ji_rest it\<rparr>)"

definition failed :: "iter \<Rightarrow> bool" where
  "failed it \<longleftrightarrow> ji_Error it \<noteq> None \<and> ji_Error it \<noteq> Some EOF"

text \<open>The message quotes ten and fifty bytes on both sides of the position.\<close>

definition around :: "nat \<Rightarrow> iter \<Rightarrow> string" where
  "around n it = rev (take n (ji_before it)) @ take n (ji_rest it)"

definition ReportError :: "string \<Rightarrow> string \<Rightarrow> iter \<Rightarrow> iter" where
  "ReportError operation msg it =
     (if failed it then it
      else it\<lparr>ji_Error := Some (Reported (operation @ '': '' @ msg @ '', error found in #'' @
        itoa (min 10 (length (ji_before it))) @ '' byte of ...|'' @ around 10 it @ ''|..., bigger context ...|'' @ around 50 it @ ''|...''))\<rparr>)"

fun skip_bytes :: "string \<Rightarrow> string \<Rightarrow> string \<Rightarrow> iter \<Rightarrow> iter" where
  "skip_bytes operation whole [] it = it"
| "skip_bytes operation whole (b # bs) it =
     (let (c, it) = readByte it
      in if c \<noteq> b then ReportError operation (''expect '' @ whole) it else skip_bytes operation whole bs it)"

definition skipThreeBytes :: "string \<Rightarrow> iter \<Rightarrow> iter" where
  "skipThreeBytes bs it = skip_bytes ''skipThreeBytes'' bs bs it"

definition skipFourBytes :: "string \<Rightarrow> iter \<Rightarrow> iter" where
  "skipFourBytes bs it = skip_bytes ''skipFourBytes'' bs bs it"

section \<open>Strings\<close>

definition quote :: char where "quote = CHR 0x22"
definition backslash :: char where "backslash = CHR 0x5C"

definition hex_value :: "char \<Rightarrow> nat option" where
  "hex_value c =
     (if 48 \<le> byte c \<and> byte c \<le> 57 then Some (byte c - 48)
      else if 97 \<le> byte c \<and> byte c \<le> 102 then Some (byte c - 97 + 10)
      else if 65 \<le> byte c \<and> byte c \<le> 70 then Some (byte c - 65 + 10)
      else None)"

fun read_hex :: "nat \<Rightarrow> nat \<Rightarrow> iter \<Rightarrow> nat \<times> iter" where
  "read_hex 0 r it = (r, it)"
| "read_hex (Suc n) r it =
     (let (c, it) = readByte it
      in if ji_Error it \<noteq> None then (r, it)
         else case hex_value c of
                Some h \<Rightarrow> read_hex n (r * 16 + h) it
              | None \<Rightarrow> (r, ReportError ''readU4'' (''expects 0~9 or a~f, but found '' @ [c]) it))"

definition readU4 :: "iter \<Rightarrow> nat \<times> iter" where
  "readU4 it = read_hex 4 0 it"

definition appendRune :: "string \<Rightarrow> nat \<Rightarrow> string" where
  "appendRune p r =
     (let r = (if 0x10FFFF < r \<or> 0xD800 \<le> r \<and> r \<le> 0xDFFF then 0xFFFD else r);
          tail = \<lambda>s. char_of (0x80 + r div s mod 64)
      in p @ (if r \<le> 0x7F then [char_of r]
              else if r \<le> 0x7FF then [char_of (0xC0 + r div 64), tail 1]
              else if r \<le> 0xFFFF then [char_of (0xE0 + r div 4096), tail 64, tail 1]
              else [char_of (0xF0 + r div 262144), tail 4096, tail 64, tail 1]))"

definition is_surrogate :: "nat \<Rightarrow> bool" where
  "is_surrogate r \<longleftrightarrow> 0xD800 \<le> r \<and> r < 0xE000"

definition utf16_DecodeRune :: "nat \<Rightarrow> nat \<Rightarrow> nat" where
  "utf16_DecodeRune r1 r2 =
     (if 0xD800 \<le> r1 \<and> r1 < 0xDC00 \<and> 0xDC00 \<le> r2 \<and> r2 < 0xE000
      then (r1 - 0xD800) * 1024 + (r2 - 0xDC00) + 0x10000 else 0xFFFD)"

definition plain_escape :: "char \<Rightarrow> char option" where
  "plain_escape c = map_of
     [(quote, quote), (backslash, backslash), (CHR ''/'', CHR ''/''), (CHR ''b'', CHR 0x08), (CHR ''f'', CHR 0x0C),
      (CHR ''n'', CHR 0x0A), (CHR ''r'', CHR 0x0D), (CHR ''t'', CHR 0x09)] c"

text \<open>An escape other than \<open>\u\<close>; the string is dropped on an error.\<close>

definition read_plain_escape :: "char \<Rightarrow> string \<Rightarrow> iter \<Rightarrow> string \<times> iter" where
  "read_plain_escape c str it =
     (case plain_escape c of
        Some b \<Rightarrow> (str @ [b], it)
      | None \<Rightarrow> ([], ReportError ''readEscapedChar'' (''invalid escape char after '' @ [backslash]) it))"

definition readEscapedChar :: "char \<Rightarrow> string \<Rightarrow> iter \<Rightarrow> string \<times> iter" where
  "readEscapedChar c str it =
     (if c \<noteq> CHR ''u'' then read_plain_escape c str it
      else let (r, it) = readU4 it
           in if \<not> is_surrogate r then (appendRune str r, it)
              else let (c, it) = readByte it
                   in if ji_Error it \<noteq> None then ([], it)
                      else if c \<noteq> backslash then (appendRune str r, unreadByte it)
                      else let (c, it) = readByte it
                           in if ji_Error it \<noteq> None then ([], it)
                              else if c \<noteq> CHR ''u'' then read_plain_escape c (appendRune str r) it
                              else let (r2, it) = readU4 it
                                   in if ji_Error it \<noteq> None then ([], it)
                                      else if utf16_DecodeRune r r2 = 0xFFFD then (appendRune (appendRune str r) r2, it)
                                      else (appendRune str (utf16_DecodeRune r r2), it))"

text \<open>Reads never move back over what was there before them.\<close>

definition left :: "iter \<Rightarrow> nat" where
  "left it = length (ji_rest it)"

named_theorems left_le \<open>reads consume\<close>

lemma left_advance [simp]: "left (advance n it) = left it - n"
  by (simp add: left_def advance_def)

lemma left_ReportError [simp]: "left (ReportError operation msg it) = left it"
  by (simp add: left_def ReportError_def)

lemma left_loadMore [left_le]: "left (loadMore it) \<le> left it"
  by (simp add: loadMore_def left_def advance_def)

lemma left_readByte: "readByte it = (c, it') \<Longrightarrow> left it' \<le> left it \<and> (ji_Error it' = None \<longrightarrow> left it' < left it)"
  by (auto simp: readByte_def left_def loadMore_def advance_def split: list.splits if_splits)

lemma left_readByte_le [left_le]: "left (snd (readByte it)) \<le> left it"
  using left_readByte by (cases "readByte it") auto

lemma left_read_hex [left_le]: "left (snd (read_hex n r it)) \<le> left it"
proof (induction n arbitrary: r it)
  case (Suc n)
  obtain c it' where r: "readByte it = (c, it')" by (cases "readByte it")
  note left_readByte [OF r]
  then show ?case using Suc r by (auto split: option.split intro: order.trans)
qed simp

lemma left_plain_escape [left_le]: "left (snd (read_plain_escape c str it)) \<le> left it"
  by (simp add: read_plain_escape_def split: option.split)

lemma ji_Error_unreadByte [simp]: "ji_Error (unreadByte it) = ji_Error it"
  by (simp add: unreadByte_def split: list.split)

lemma left_unread_readByte: "readByte it = (c, it') \<Longrightarrow> left (unreadByte it') \<le> left it"
  by (auto simp: readByte_def left_def loadMore_def advance_def unreadByte_def split: list.splits if_splits)

lemma left_readEscapedChar [left_le]: "left (snd (readEscapedChar c str it)) \<le> left it"
proof -
  obtain r it1 where r: "readU4 it = (r, it1)" by (cases "readU4 it")
  obtain c1 it2 where c1: "readByte it1 = (c1, it2)" by (cases "readByte it1")
  obtain c2 it3 where c2: "readByte it2 = (c2, it3)" by (cases "readByte it2")
  obtain r2 it4 where r2: "readU4 it3 = (r2, it4)" by (cases "readU4 it3")
  have "left it1 \<le> left it" "left it4 \<le> left it3" using left_read_hex [of 4 0] r r2 by (simp_all add: readU4_def, (metis snd_conv)+)
  moreover have "left (unreadByte it2) \<le> left it1" using left_unread_readByte [OF c1] .
  moreover have "left it2 \<le> left it1" "left it3 \<le> left it2" using left_readByte [OF c1] left_readByte [OF c2] by simp_all
  moreover note left_plain_escape [of c2 "appendRune str r" it3] left_plain_escape [of c str it]
  ultimately show ?thesis by (simp add: readEscapedChar_def r c1 c2 r2 Let_def)
qed

function slow_loop :: "string \<Rightarrow> iter \<Rightarrow> string \<times> iter" where
  "slow_loop str it =
     (if ji_Error it \<noteq> None then ([], ReportError ''readStringSlowPath'' ''unexpected end of input'' it)
      else let (c, it) = readByte it
           in if c = quote then (str, it)
              else if c = backslash
              then let (c, it) = readByte it; (str, it) = readEscapedChar c str it in slow_loop str it
              else slow_loop (str @ [c]) it)"
  by pat_completeness auto

text \<open>Each turn consumes a byte or ends the input.\<close>

definition turns :: "iter \<Rightarrow> nat" where
  "turns it = left it + (if ji_Error it = None then 1 else 0)"

lemma turns_readByte: "ji_Error it = None \<Longrightarrow> readByte it = (c, it') \<Longrightarrow> turns it' < turns it"
  by (auto simp: turns_def readByte_def left_def loadMore_def advance_def split: list.splits)

lemma readByte_byte: "readByte it = (c, it') \<Longrightarrow> c \<noteq> NUL \<Longrightarrow> left it' < left it"
  by (auto simp: readByte_def left_def advance_def split: list.splits)

lemma turns_escape:
  assumes "ji_Error it = None" "readByte it = (backslash, it1)" "readByte it1 = (c2, it2)" "readEscapedChar c2 str it2 = (str', it3)"
  shows "turns it3 < turns it"
proof -
  have "backslash \<noteq> NUL" by (simp add: NUL_def backslash_def)
  from readByte_byte [OF assms(2) this] have "left it1 < left it" .
  moreover have "left it2 \<le> left it1" "left it3 \<le> left it2"
    using left_readByte_le [of it1] left_readEscapedChar [of c2 str it2] by (simp_all add: assms)
  ultimately show ?thesis using assms(1) by (simp add: turns_def)
qed

termination slow_loop
  by (relation "measure (\<lambda>(_, it). turns it)") (auto intro: turns_escape [OF _ sym sym] turns_readByte [OF _ sym] split: prod.split)

declare slow_loop.simps [simp del]

definition readStringSlowPath :: "iter \<Rightarrow> string \<times> iter" where
  "readStringSlowPath it = slow_loop [] it"

text \<open>A byte that stands for itself.\<close>

definition literal :: "char \<Rightarrow> bool" where
  "literal c \<longleftrightarrow> c \<noteq> quote \<and> c \<noteq> backslash \<and> 32 \<le> byte c"

definition ReadString :: "iter \<Rightarrow> string \<times> iter" where
  "ReadString it =
     (let (c, it) = nextToken it
      in if c = quote
         then let s = takeWhile literal (ji_rest it)
              in case drop (length s) (ji_rest it) of
                   [] \<Rightarrow> readStringSlowPath it
                 | c # _ \<Rightarrow>
                     (if c = quote then (s, advance (length s + 1) it)
                      else if c = backslash then readStringSlowPath it
                      else ([], ReportError ''ReadString'' (''invalid control character found: '' @ itoa (byte c)) it))
         else if c = CHR ''n'' then ([], skipThreeBytes ''ull'' it)
         else ([], ReportError ''ReadString'' (''expects '' @ [quote] @ '' or n, but found '' @ [c]) it))"

section \<open>Objects and arrays\<close>

definition read_field :: "iter \<Rightarrow> string \<times> iter" where
  "read_field it =
     (let (field, it) = ReadString it; (c, it) = nextToken it
      in (field, if c \<noteq> CHR '':'' then ReportError ''ReadObject'' (''expect : after object field, but found '' @ [c]) it else it))"

definition ReadObject :: "iter \<Rightarrow> string \<times> iter" where
  "ReadObject it =
     (let (c, it) = nextToken it
      in if c = CHR ''n'' then ([], skipThreeBytes ''ull'' it)
         else if c = CHR ''{''
         then let (c, it) = nextToken it
              in if c = quote then read_field (unreadByte it)
                 else if c = CHR ''}'' then ([], it)
                 else ([], ReportError ''ReadObject'' (''expect '' @ [quote] @ '' after {, but found '' @ [c]) it)
         else if c = CHR '','' then read_field it
         else if c = CHR ''}'' then ([], it)
         else ([], ReportError ''ReadObject'' (''expect { or , or } or n, but found '' @ [c]) it))"

definition ReadArray :: "iter \<Rightarrow> bool \<times> iter" where
  "ReadArray it =
     (let (c, it) = nextToken it
      in if c = CHR ''n'' then (False, skipThreeBytes ''ull'' it)
         else if c = CHR ''[''
         then let (c, it) = nextToken it in if c \<noteq> CHR '']'' then (True, unreadByte it) else (False, it)
         else if c = CHR '']'' then (False, it)
         else if c = CHR '','' then (True, it)
         else (False, ReportError ''ReadArray'' (''expect [ or , or ] or n, but found '' @ [c]) it))"

section \<open>Numbers\<close>

record number_parsers =
  np_ParseFloat :: "string \<Rightarrow> f64 \<times> string option"
  np_ParseFloat32_err :: "string \<Rightarrow> string option"
  np_BigFloat_err :: "string \<Rightarrow> string option"

definition ends_number :: "char \<Rightarrow> bool" where
  "ends_number c \<longleftrightarrow> c = CHR '','' \<or> c = CHR '']'' \<or> c = CHR ''}'' \<or> c = CHR 0x20 \<or> c = CHR 0x09 \<or> c = CHR 0x0A"

definition digit :: "char \<Rightarrow> bool" where
  "digit c \<longleftrightarrow> 48 \<le> byte c \<and> byte c \<le> 57"

definition uint64SafeToMultiple10 :: nat where
  "uint64SafeToMultiple10 = 0xffffffffffffffff div 10 - 1"

definition maxFloat64 :: nat where
  "maxFloat64 = 2 ^ 53 - 1"

text \<open>
  The fast paths of \<open>readPositiveFloat64\<close> and \<open>readPositiveFloat32\<close>: the digits after the dot, the
  digits before it. \<open>None\<close> leaves the number to the slow path; otherwise the digits as a number, the decimal
  places and the bytes read. The limit is that of \<open>float64\<close> only.
\<close>

fun decimal_digits :: "nat option \<Rightarrow> nat \<Rightarrow> nat \<Rightarrow> nat \<Rightarrow> string \<Rightarrow> (nat \<times> nat \<times> nat) option" where
  "decimal_digits limit v places i [] = None"
| "decimal_digits limit v places i (c # cs) =
     (if ends_number c then (if 0 < places \<and> places < 7 then Some (v, places, i) else None)
      else if \<not> digit c then None
      else if uint64SafeToMultiple10 < v then None
      else let v = v * 10 + (byte c - 48)
           in if (case limit of Some m \<Rightarrow> m < v | None \<Rightarrow> False) then None
              else decimal_digits limit v (places + 1) (i + 1) cs)"

fun integer_digits :: "nat option \<Rightarrow> nat \<Rightarrow> nat \<Rightarrow> string \<Rightarrow> (nat \<times> nat \<times> nat) option" where
  "integer_digits limit v i [] = None"
| "integer_digits limit v i (c # cs) =
     (if ends_number c then Some (v, 0, i)
      else if c = CHR ''.'' then decimal_digits limit v 0 (i + 1) cs
      else if \<not> digit c then None
      else if uint64SafeToMultiple10 < v then None
      else integer_digits limit (v * 10 + (byte c - 48)) (i + 1) cs)"

definition number_byte :: "char \<Rightarrow> bool" where
  "number_byte c \<longleftrightarrow> digit c \<or> c \<in> {CHR ''+'', CHR ''-'', CHR ''.'', CHR ''e'', CHR ''E''}"

definition readNumberAsString :: "iter \<Rightarrow> string \<times> iter" where
  "readNumberAsString it =
     (let str = takeWhile number_byte (ji_rest it);
          it = (if length str = length (ji_rest it) then loadMore it else advance (length str) it)
      in if failed it then ([], it)
         else if str = [] then ([], ReportError ''readNumberAsString'' ''invalid number'' it)
         else (str, it))"

definition validateFloat :: "string \<Rightarrow> string" where
  "validateFloat str =
     (case str of
        [] \<Rightarrow> ''empty number''
      | c # _ \<Rightarrow>
          if c = CHR ''-'' then ''-- is not valid''
          else case dropWhile (\<lambda>c. c \<noteq> CHR ''.'') str of
                 [] \<Rightarrow> []
               | [_] \<Rightarrow> ''dot can not be last character''
               | _ # d # _ \<Rightarrow> if digit d then [] else ''missing digit after dot'')"

definition slow_number :: "(string \<Rightarrow> string + 'v) \<Rightarrow> string \<Rightarrow> 'v \<Rightarrow> iter \<Rightarrow> 'v \<times> iter" where
  "slow_number parse operation zero it =
     (let (str, it) = readNumberAsString it
      in if failed it then (zero, it)
         else if validateFloat str \<noteq> [] then (zero, ReportError operation (validateFloat str) it)
         else case parse str of
                Inl msg \<Rightarrow> (zero, it\<lparr>ji_Error := Some (Reported msg)\<rparr>)
              | Inr v \<Rightarrow> (v, it))"

definition positive_number ::
  "nat option \<Rightarrow> string \<Rightarrow> string \<Rightarrow> (nat \<Rightarrow> nat \<Rightarrow> 'v) \<Rightarrow> (string \<Rightarrow> string + 'v) \<Rightarrow> 'v \<Rightarrow> iter \<Rightarrow> 'v \<times> iter"
where
  "positive_number limit operation slowOperation build parse zero it =
     (let slow = slow_number parse slowOperation zero it
      in case ji_rest it of
           [] \<Rightarrow> slow
         | c # cs \<Rightarrow>
             if ends_number c then (zero, ReportError operation ''empty number'' it)
             else if c = CHR ''.'' then (zero, ReportError operation ''leading dot is invalid'' it)
             else if \<not> digit c then slow
             else if c = CHR ''0'' \<and> cs = [] then slow
             else if c = CHR ''0'' \<and> digit (hd cs) then (zero, ReportError operation ''leading zero is invalid'' it)
             else case integer_digits limit (byte c - 48) 1 cs of
                    None \<Rightarrow> slow
                  | Some (v, places, i) \<Rightarrow> (build v places, advance i it))"

definition readPositiveFloat64 :: "number_parsers \<Rightarrow> iter \<Rightarrow> f64 \<times> iter" where
  "readPositiveFloat64 np it =
     positive_number (Some maxFloat64) ''readFloat64'' ''readFloat64SlowPath''
       (\<lambda>v places. if places = 0 then f64_of_nat v else f64_div (f64_of_nat v) (f64_of_nat (10 ^ places))) 
       (\<lambda>s. case np_ParseFloat np s of (f, None) \<Rightarrow> Inr f | (_, Some m) \<Rightarrow> Inl m) 0 it"

definition ReadFloat64 :: "number_parsers \<Rightarrow> iter \<Rightarrow> f64 \<times> iter" where
  "ReadFloat64 np it =
     (let (c, it) = nextToken it
      in if c = CHR ''-'' then map_prod f64_neg id (readPositiveFloat64 np it)
         else readPositiveFloat64 np (unreadByte it))"

text \<open>\<open>ReadFloat32\<close> is called only to skip a number.\<close>

definition ReadFloat32 :: "number_parsers \<Rightarrow> iter \<Rightarrow> iter" where
  "ReadFloat32 np it =
     (let (c, it) = nextToken it;
          positive = \<lambda>it. snd (positive_number None ''readFloat32'' ''readFloat32SlowPath'' (\<lambda>_ _. ())
            (\<lambda>s. case np_ParseFloat32_err np s of None \<Rightarrow> Inr () | Some m \<Rightarrow> Inl m) () it)
      in if c = CHR ''-'' then positive it else positive (unreadByte it))"

definition ReadBigFloat :: "number_parsers \<Rightarrow> iter \<Rightarrow> iter" where
  "ReadBigFloat np it =
     (let (str, it) = readNumberAsString it
      in if failed it then it
         else case np_BigFloat_err np str of None \<Rightarrow> it | Some m \<Rightarrow> it\<lparr>ji_Error := Some (Reported m)\<rparr>)"

section \<open>Skipping\<close>

fun trySkipNumber :: "bool \<Rightarrow> nat \<Rightarrow> string \<Rightarrow> iter \<Rightarrow> (bool \<times> iter)" where
  "trySkipNumber dotFound i [] it = (False, it)"
| "trySkipNumber dotFound i (c # cs) it =
     (if digit c then trySkipNumber dotFound (i + 1) cs it
      else if c = CHR ''.''
      then if dotFound then (True, ReportError ''validateNumber'' ''more than one dot found in number'' it)
           else case cs of
                  [] \<Rightarrow> (False, it)
                | d # _ \<Rightarrow> if digit d then trySkipNumber True (i + 1) cs it
                           else (True, ReportError ''validateNumber'' ''missing digit after dot'' it)
      else if ends_number c \<or> c = CHR 0x0D then (if i = 0 then (False, it) else (True, advance i it))
      else (False, it))"

definition skipNumber :: "number_parsers \<Rightarrow> iter \<Rightarrow> iter" where
  "skipNumber np it =
     (let (ok, it) = trySkipNumber False 0 (ji_rest it) it
      in if ok then it
         else let it = unreadByte it
              in if failed it then it
                 else let it = snd (ReadFloat64 np it)
                      in if failed it then ReadBigFloat np (it\<lparr>ji_Error := None\<rparr>) else it)"

definition skipString :: "iter \<Rightarrow> iter" where
  "skipString it =
     (let s = takeWhile literal (ji_rest it)
      in case drop (length s) (ji_rest it) of
           [] \<Rightarrow> snd (ReadString (unreadByte it))
         | c # _ \<Rightarrow>
             (if c = quote then advance (length s + 1) it
              else if c = backslash then snd (ReadString (unreadByte it))
              else ReportError ''trySkipString'' (''invalid control character found: '' @ itoa (byte c)) it))"

definition incrementDepth :: "iter \<Rightarrow> bool \<times> iter" where
  "incrementDepth it =
     (let it = it\<lparr>ji_depth := ji_depth it + 1\<rparr>
      in if ji_depth it \<le> 10000 then (True, it) else (False, ReportError ''incrementDepth'' ''exceeded max depth'' it))"

definition decrementDepth :: "iter \<Rightarrow> iter" where
  "decrementDepth it =
     (let it = it\<lparr>ji_depth := ji_depth it - 1\<rparr>
      in if 0 \<le> ji_depth it then it else ReportError ''decrementDepth'' ''unexpected negative nesting'' it)"

text \<open>
  \<open>ReadArrayCB\<close> and \<open>ReadObjectCB\<close> with the callback that skips, and their loops. Fuel bounds the
  values and separators still to come; the length of the input is enough.
\<close>

fun Skip :: "nat \<Rightarrow> number_parsers \<Rightarrow> iter \<Rightarrow> iter"
  and skip_elements :: "nat \<Rightarrow> number_parsers \<Rightarrow> iter \<Rightarrow> iter"
  and skip_fields :: "nat \<Rightarrow> number_parsers \<Rightarrow> iter \<Rightarrow> iter"
where
  "Skip 0 np it = ReportError ''Skip'' ''out of fuel'' it"
| "Skip (Suc n) np it =
     (let (c, it) = nextToken it
      in if c = quote then skipString it
         else if c = CHR ''n'' then skipThreeBytes ''ull'' it
         else if c = CHR ''t'' then skipThreeBytes ''rue'' it
         else if c = CHR ''f'' then skipFourBytes ''alse'' it
         else if c = CHR ''0'' then ReadFloat32 np (unreadByte it)
         else if c = CHR ''-'' \<or> digit c then skipNumber np it
         else if c = CHR ''[''
         then let (c, it) = nextToken (unreadByte it)
              in if c = CHR ''[''
                 then let (ok, it) = incrementDepth it
                      in if \<not> ok then it
                         else let (c, it) = nextToken it
                              in if c \<noteq> CHR '']'' then skip_elements n np (unreadByte it) else decrementDepth it
                 else if c = CHR ''n'' then skipThreeBytes ''ull'' it
                 else ReportError ''ReadArrayCB'' (''expect [ or n, but found '' @ [c]) it
         else if c = CHR ''{''
         then let (c, it) = nextToken (unreadByte it)
              in if c = CHR ''{''
                 then let (ok, it) = incrementDepth it
                      in if \<not> ok then it
                         else let (c, it) = nextToken it
                              in if c = quote then skip_fields n np (unreadByte it)
                                 else if c = CHR ''}'' then decrementDepth it
                                 else decrementDepth (ReportError ''ReadObjectCB'' (''expect '' @ [quote] @ '' after {, but found '' @ [c]) it)
                 else if c = CHR ''n'' then skipThreeBytes ''ull'' it
                 else ReportError ''ReadObjectCB'' (''expect { or n, but found '' @ [c]) it
         else ReportError ''Skip'' (''do not know how to skip: '' @ itoa (byte c)) it)"
| "skip_elements 0 np it = ReportError ''Skip'' ''out of fuel'' it"
| "skip_elements (Suc n) np it =
     (let (c, it) = nextToken (Skip n np it)
      in if c = CHR '','' then skip_elements n np it
         else if c = CHR '']'' then decrementDepth it
         else decrementDepth (ReportError ''ReadArrayCB'' (''expect ] in the '' @ ''end, but found '' @ [c]) it))"
| "skip_fields 0 np it = ReportError ''Skip'' ''out of fuel'' it"
| "skip_fields (Suc n) np it =
     (let (_, it) = read_field it;
          (c, it) = nextToken (Skip n np it)
      in if c = CHR '','' then skip_fields n np it
         else if c = CHR ''}'' then decrementDepth it
         else decrementDepth (ReportError ''ReadObjectCB'' ''object not ended with }'' it))"

definition skip :: "number_parsers \<Rightarrow> iter \<Rightarrow> iter" where
  "skip np it = Skip (2 * left it + 2) np it"

definition SkipAndReturnBytes :: "number_parsers \<Rightarrow> iter \<Rightarrow> string \<times> iter" where
  "SkipAndReturnBytes np it =
     (let it' = skip np it
      in (rev (take (length (ji_before it') - length (ji_before it)) (ji_before it')), it'))"

section \<open>Reads consume\<close>

lemma nextToken_left:
  assumes "nextToken it = (c, it')"
  shows "left it' \<le> left it" "c \<noteq> NUL \<Longrightarrow> left it' < left it" "left (unreadByte it') \<le> left it"
proof -
  let ?ws = "length (takeWhile is_space (ji_rest it))"
  show "left it' \<le> left it" using assms left_loadMore by (auto simp: nextToken_def Let_def split: list.splits)
  show "left it' < left it" if "c \<noteq> NUL"
  proof (cases "drop ?ws (ji_rest it)")
    case (Cons a as)
    then have "?ws < left it" by (metis drop_eq_Nil left_def list.distinct(1) not_le)
    then show ?thesis using assms Cons by (auto simp: nextToken_def Let_def)
  qed (use assms that in \<open>auto simp: nextToken_def Let_def\<close>)
  show "left (unreadByte it') \<le> left it"
  proof (cases "drop ?ws (ji_rest it)")
    case Nil
    then have "it' = loadMore it" using assms by (auto simp: nextToken_def Let_def)
    moreover have "ji_Error (loadMore it) \<noteq> None" by (simp add: loadMore_def)
    ultimately show ?thesis using left_loadMore by (simp add: unreadByte_def)
  next
    case (Cons a as)
    then have ws: "?ws < left it" by (metis drop_eq_Nil left_def list.distinct(1) not_le)
    have "it' = advance (?ws + 1) it" using assms Cons by (auto simp: nextToken_def Let_def)
    then have "left it' = left it - (?ws + 1)" by simp
    moreover have "left (unreadByte it') \<le> left it' + 1" by (simp add: unreadByte_def left_def split: list.split)
    ultimately show ?thesis using ws by simp
  qed
qed

lemma left_nextToken_le [left_le]: "left (snd (nextToken it)) \<le> left it"
  using nextToken_left(1) by (cases "nextToken it") auto

lemma left_skip_bytes [left_le]: "left (skip_bytes operation whole bs it) \<le> left it"
proof (induction bs arbitrary: it)
  case (Cons b bs)
  obtain c it' where r: "readByte it = (c, it')" by (cases "readByte it")
  from left_readByte [OF r] Cons.IH [of it'] show ?case by (auto simp: r)
qed simp

lemma left_skipThreeBytes [left_le]: "left (skipThreeBytes bs it) \<le> left it"
  by (simp add: skipThreeBytes_def left_le)

lemma left_skipFourBytes [left_le]: "left (skipFourBytes bs it) \<le> left it"
  by (simp add: skipFourBytes_def left_le)

lemma left_slow_loop [left_le]: "left (snd (slow_loop str it)) \<le> left it"
proof (induction str it rule: slow_loop.induct)
  case (1 str it)
  show ?case
  proof (cases "ji_Error it = None")
    case True
    obtain c it1 where r: "readByte it = (c, it1)" by (cases "readByte it")
    obtain c2 it2 where r2: "readByte it1 = (c2, it2)" by (cases "readByte it1")
    obtain str' it3 where r3: "readEscapedChar c2 str it2 = (str', it3)" by (cases "readEscapedChar c2 str it2")
    have "left it1 \<le> left it" "left it2 \<le> left it1" "left it3 \<le> left it2"
      using left_readByte [OF r] left_readByte [OF r2] left_readEscapedChar [of c2 str it2] r3 by simp_all
    moreover have "left (snd (slow_loop str' it3)) \<le> left it3" if "c = backslash" "c \<noteq> quote" using 1(1) True r r2 r3 that by simp
    moreover have "left (snd (slow_loop (str @ [c]) it1)) \<le> left it1" if "c \<noteq> backslash" "c \<noteq> quote" using 1(2) True r that by simp
    ultimately show ?thesis using True r r2 r3 by (subst slow_loop.simps) (auto dest: order.trans)
  qed (subst slow_loop.simps, simp)
qed

lemma left_ReadString [left_le]: "left (snd (ReadString it)) \<le> left it"
proof -
  obtain c it' where r: "nextToken it = (c, it')" by (cases "nextToken it")
  have le: "left (snd (slow_loop [] it')) \<le> left it" "left (skipThreeBytes ''ull'' it') \<le> left it" "left it' - n \<le> left it" for n
    using nextToken_left(1) [OF r] left_slow_loop [of "[]" it'] left_skipThreeBytes [of "''ull''" it'] by linarith+
  show ?thesis using le nextToken_left(1) [OF r] by (auto simp: ReadString_def r readStringSlowPath_def Let_def split: list.split)
qed

lemma left_read_field [left_le]: "left (snd (read_field it)) \<le> left it"
proof -
  obtain f it1 where r: "ReadString it = (f, it1)" by (cases "ReadString it")
  obtain c it2 where r2: "nextToken it1 = (c, it2)" by (cases "nextToken it1")
  show ?thesis using left_ReadString [of it] nextToken_left(1) [OF r2] by (simp add: read_field_def r r2)
qed

lemma ReadObject_left:
  assumes "ReadObject it = (k, it')"
  shows "left it' \<le> left it" "k \<noteq> [] \<Longrightarrow> left it' < left it"
proof -
  obtain c it1 where r: "nextToken it = (c, it1)" by (cases "nextToken it")
  obtain c2 it2 where r2: "nextToken it1 = (c2, it2)" by (cases "nextToken it1")
  have le: "left (snd (read_field (unreadByte it2))) \<le> left it1" "left (snd (read_field it1)) \<le> left it1" "left (skipThreeBytes ''ull'' it1) \<le> left it1"
    "left it2 \<le> left it1" "left it1 \<le> left it"
    using left_read_field [of "unreadByte it2"] nextToken_left(3) [OF r2] left_read_field [of it1] left_skipThreeBytes [of "''ull''" it1]
      nextToken_left(1) [OF r] nextToken_left(1) [OF r2] by linarith+
  then show "left it' \<le> left it" using assms by (auto simp: ReadObject_def r r2 Let_def split: if_splits)
  have "left it1 < left it" if "c = CHR ''{'' \<or> c = CHR '',''" using that nextToken_left(2) [OF r] by (auto simp: NUL_def)
  then show "left it' < left it" if "k \<noteq> []" using assms le that by (auto simp: ReadObject_def r r2 Let_def split: if_splits)
qed

lemma ReadArray_left:
  assumes "ReadArray it = (b, it')"
  shows "left it' \<le> left it" "b \<Longrightarrow> left it' < left it"
proof -
  obtain c it1 where r: "nextToken it = (c, it1)" by (cases "nextToken it")
  obtain c2 it2 where r2: "nextToken it1 = (c2, it2)" by (cases "nextToken it1")
  have le: "left (unreadByte it2) \<le> left it1" "left (skipThreeBytes ''ull'' it1) \<le> left it1" "left it2 \<le> left it1" "left it1 \<le> left it"
    using nextToken_left(3) [OF r2] left_skipThreeBytes [of "''ull''" it1] nextToken_left(1) [OF r] nextToken_left(1) [OF r2] by linarith+
  then show "left it' \<le> left it" using assms by (auto simp: ReadArray_def r r2 Let_def split: if_splits)
  have "left it1 < left it" if "c = CHR ''['' \<or> c = CHR '',''" using that nextToken_left(2) [OF r] by (auto simp: NUL_def)
  then show "left it' < left it" if "b" using assms le that by (auto simp: ReadArray_def r r2 Let_def split: if_splits)
qed

lemma left_readNumberAsString [left_le]: "left (snd (readNumberAsString it)) \<le> left it"
  using left_loadMore [of it] by (simp add: readNumberAsString_def Let_def)

lemma left_Error [simp]: "left (it\<lparr>ji_Error := e\<rparr>) = left it" "left (it\<lparr>ji_depth := d\<rparr>) = left it"
  by (simp_all add: left_def)

lemma left_slow_number [left_le]: "left (snd (slow_number parse operation zero it)) \<le> left it"
  using left_readNumberAsString [of it] by (cases "readNumberAsString it") (auto simp: slow_number_def split: sum.split)

lemma left_positive_number [left_le]: "left (snd (positive_number limit operation slowOperation build parse zero it)) \<le> left it"
  using left_slow_number [of parse slowOperation zero it] by (auto simp: positive_number_def Let_def split: list.split option.split)

lemma left_ReadFloat64 [left_le]: "left (snd (ReadFloat64 np it)) \<le> left it"
proof -
  obtain c it1 where r: "nextToken it = (c, it1)" by (cases "nextToken it")
  have le: "left (snd (readPositiveFloat64 np it)) \<le> left it" for it by (simp add: readPositiveFloat64_def left_le)
  have "left (snd (readPositiveFloat64 np it1)) \<le> left it" "left (snd (readPositiveFloat64 np (unreadByte it1))) \<le> left it"
    using le [of it1] le [of "unreadByte it1"] nextToken_left [OF r] by linarith+
  then show ?thesis by (simp add: ReadFloat64_def r)
qed

lemma left_ReadFloat32 [left_le]: "left (ReadFloat32 np it) \<le> left it"
proof -
  obtain c it1 where r: "nextToken it = (c, it1)" by (cases "nextToken it")
  have "left (snd (positive_number l o1 o2 b p z it1)) \<le> left it" "left (snd (positive_number l o1 o2 b p z (unreadByte it1))) \<le> left it" for l o1 o2 b p and z :: unit
    using nextToken_left [OF r] left_positive_number by (meson order.trans)+
  then show ?thesis by (simp add: ReadFloat32_def r)
qed

lemma left_ReadBigFloat [left_le]: "left (ReadBigFloat np it) \<le> left it"
  using left_readNumberAsString [of it] by (cases "readNumberAsString it") (auto simp: ReadBigFloat_def split: option.split)

lemma trySkipNumber_left: "trySkipNumber dot i cs it = (ok, it') \<Longrightarrow> left it' \<le> left it \<and> (\<not> ok \<longrightarrow> it' = it)"
  by (induction dot i cs it rule: trySkipNumber.induct) (auto split: if_splits list.splits)

lemma skipNumber_left: "left (skipNumber np it) \<le> max (left it) (left (unreadByte it))"
proof -
  obtain ok it1 where t: "trySkipNumber False 0 (ji_rest it) it = (ok, it1)" by (cases "trySkipNumber False 0 (ji_rest it) it")
  note left = trySkipNumber_left [OF t]
  let ?r = "snd (ReadFloat64 np (unreadByte it))"
  have "left ?r \<le> left (unreadByte it)" "left (ReadBigFloat np (?r\<lparr>ji_Error := None\<rparr>)) \<le> left ?r"
    using left_ReadFloat64 left_ReadBigFloat [of np "?r\<lparr>ji_Error := None\<rparr>"] by simp_all
  then show ?thesis using left by (auto simp: skipNumber_def t Let_def)
qed

lemma skipString_left: "left (skipString it) \<le> max (left it) (left (unreadByte it))"
  using left_ReadString [of "unreadByte it"] by (auto simp: skipString_def Let_def split: list.split)

lemma left_Depth [simp]: "left (decrementDepth it) = left it" "incrementDepth it = (ok, it') \<Longrightarrow> left it' = left it"
  by (auto simp: decrementDepth_def incrementDepth_def Let_def split: if_splits)

lemma Skip_left:
  "left (Skip n np it) \<le> left it"
  "left (skip_elements n np it) \<le> left it"
  "left (skip_fields n np it) \<le> left it"
proof (induction n np it and n np it and n np it rule: Skip_skip_elements_skip_fields.induct)
  case (2 n np it)
  obtain c it1 where r: "nextToken it = (c, it1)" by (cases "nextToken it")
  obtain c2 it2 where r2: "nextToken (unreadByte it1) = (c2, it2)" by (cases "nextToken (unreadByte it1)")
  obtain ok it3 where d: "incrementDepth it2 = (ok, it3)" by (cases "incrementDepth it2")
  obtain c4 it4 where r4: "nextToken it3 = (c4, it4)" by (cases "nextToken it3")
  have le: "left it1 \<le> left it" "left (unreadByte it1) \<le> left it" "left it2 \<le> left it" "left it3 \<le> left it" "left it4 \<le> left it" "left (unreadByte it4) \<le> left it"
    using nextToken_left [OF r] nextToken_left [OF r2] nextToken_left [OF r4] left_Depth(2) [OF d] by linarith+
  have le': "left (skipString it1) \<le> left it" "left (skipNumber np it1) \<le> left it" "left (skipThreeBytes bs it1) \<le> left it" "left (skipFourBytes bs it1) \<le> left it"
    "left (skipThreeBytes bs it2) \<le> left it" "left (ReadFloat32 np (unreadByte it1)) \<le> left it" for bs
    using le skipString_left [of it1] skipNumber_left [of np it1] left_skipThreeBytes [of bs it1] left_skipFourBytes [of bs it1] left_skipThreeBytes [of bs it2]
      left_ReadFloat32 [of np "unreadByte it1"] by linarith+
  have "left (skip_elements n np (unreadByte it4)) \<le> left (unreadByte it4)" if "c = CHR ''[''" "c2 = CHR ''[''" "ok" "c4 \<noteq> CHR '']''"
    using 2(1) r r2 d r4 that by (simp add: quote_def digit_def)
  then have rec: "left (skip_elements n np (unreadByte it4)) \<le> left it" if "c = CHR ''[''" "c2 = CHR ''[''" "ok" "c4 \<noteq> CHR '']''"
    using that le(6) by linarith
  have "left (skip_fields n np (unreadByte it4)) \<le> left (unreadByte it4)" if "c = CHR ''{''" "c2 = CHR ''{''" "ok" "c4 = quote"
    using 2(2) r r2 d r4 that by (simp add: quote_def digit_def)
  then have rec': "left (skip_fields n np (unreadByte it4)) \<le> left it" if "c = CHR ''{''" "c2 = CHR ''{''" "ok" "c4 = quote"
    using that le(6) by linarith
  show ?case using le le' rec rec' by (simp add: r r2 d r4 Let_def)
next
  case (4 n np it)
  obtain c it1 where r: "nextToken (Skip n np it) = (c, it1)" by (cases "nextToken (Skip n np it)")
  have "left it1 \<le> left it" using nextToken_left(1) [OF r] 4(1) by linarith
  moreover have "left (skip_elements n np it1) \<le> left it1" if "c = CHR '',''" using 4(2) r that by simp
  ultimately show ?case using r by (auto dest: order.trans)
next
  case (6 n np it)
  obtain f it0 where f: "read_field it = (f, it0)" by (cases "read_field it")
  obtain c it1 where r: "nextToken (Skip n np it0) = (c, it1)" by (cases "nextToken (Skip n np it0)")
  have "left it1 \<le> left it" using nextToken_left(1) [OF r] 6(1) left_read_field [of it] f by fastforce
  moreover have "left (skip_fields n np it1) \<le> left it1" if "c = CHR '',''" using 6(2) r f that by simp
  ultimately show ?case using r f by (auto dest: order.trans)
qed simp_all

declare Skip.simps [simp del] skip_elements.simps [simp del] skip_fields.simps [simp del]

lemma left_skip [left_le]: "left (skip np it) \<le> left it"
  unfolding skip_def by (rule Skip_left)

lemma left_SkipAndReturnBytes [left_le]: "left (snd (SkipAndReturnBytes np it)) \<le> left it"
  by (simp add: SkipAndReturnBytes_def Let_def left_le)

text \<open>The fuel that \<open>skip\<close> gives is enough: more changes nothing.\<close>

lemma Skip_fuel:
  "(\<forall>it. 2 * left it + 2 \<le> n \<longrightarrow> Skip (n + k) np it = Skip n np it) \<and>
   (\<forall>it. 2 * left it + 3 \<le> n \<longrightarrow> skip_elements (n + k) np it = skip_elements n np it) \<and>
   (\<forall>it. 2 * left it + 3 \<le> n \<longrightarrow> skip_fields (n + k) np it = skip_fields n np it)"
proof (induction n)
  case (Suc n)
  have skip_eq: "Skip (n + k) np it = Skip n np it" if "2 * left it + 2 \<le> n" for it using Suc that by blast
  have elems: "skip_elements (n + k) np it = skip_elements n np it" if "2 * left it + 3 \<le> n" for it using Suc that by blast
  have fields: "skip_fields (n + k) np it = skip_fields n np it" if "2 * left it + 3 \<le> n" for it using Suc that by blast
  have after: "left it' < left it" if "nextToken (Skip n np it) = (CHR '','', it')" for it it'
    using nextToken_left(2) [OF that] Skip_left(1) [of n np it] by (simp add: NUL_def)
  have "Skip (Suc n + k) np it = Skip (Suc n) np it" if n: "2 * left it + 2 \<le> Suc n" for it
  proof -
    obtain c it1 where r: "nextToken it = (c, it1)" by (cases "nextToken it")
    obtain c2 it2 where r2: "nextToken (unreadByte it1) = (c2, it2)" by (cases "nextToken (unreadByte it1)")
    obtain ok it3 where d: "incrementDepth it2 = (ok, it3)" by (cases "incrementDepth it2")
    obtain c4 it4 where r4: "nextToken it3 = (c4, it4)" by (cases "nextToken it3")
    have "2 * left (unreadByte it4) + 3 \<le> n" if "c2 = CHR ''['' \<or> c2 = CHR ''{''"
    proof -
      have "c2 \<noteq> NUL" using that by (auto simp: NUL_def)
      then show ?thesis using nextToken_left [OF r] nextToken_left [OF r2] nextToken_left [OF r4] left_Depth(2) [OF d] n by linarith
    qed
    then show ?thesis using elems fields by (simp add: Skip.simps r r2 d r4 Let_def)
  qed
  moreover have "skip_elements (Suc n + k) np it = skip_elements (Suc n) np it" if n: "2 * left it + 3 \<le> Suc n" for it
  proof -
    obtain c it1 where r: "nextToken (Skip n np it) = (c, it1)" by (cases "nextToken (Skip n np it)")
    have "2 * left it1 + 3 \<le> n" if "c = CHR '',''" using after r that n by fastforce
    then show ?thesis using skip_eq [of it] elems n r by (simp add: skip_elements.simps)
  qed
  moreover have "skip_fields (Suc n + k) np it = skip_fields (Suc n) np it" if n: "2 * left it + 3 \<le> Suc n" for it
  proof -
    obtain f it0 where f: "read_field it = (f, it0)" by (cases "read_field it")
    have it0: "left it0 \<le> left it" using left_read_field [of it] f by simp
    obtain c it1 where r: "nextToken (Skip n np it0) = (c, it1)" by (cases "nextToken (Skip n np it0)")
    have "2 * left it1 + 3 \<le> n" if "c = CHR '',''" using after r that n it0 by fastforce
    then show ?thesis using skip_eq [of it0] fields n r f it0 by (simp add: skip_fields.simps)
  qed
  ultimately show ?case by blast
qed simp

lemma skip_Skip: "2 * left it + 2 \<le> n \<Longrightarrow> Skip n np it = skip np it"
  unfolding skip_def using Skip_fuel [of "2 * left it + 2" "n - (2 * left it + 2)" np] by (metis le_add_diff_inverse order.refl)

section \<open>Loops\<close>

text \<open>
  \<open>for key := iter.ReadObject(); key != ""; key = iter.ReadObject()\<close> and \<open>for iter.ReadArray()\<close>. The test for
  progress always holds: a field name or an element mark consumes input, and no body of the decoder moves back.
\<close>

function for_object :: "(string \<Rightarrow> 's \<Rightarrow> iter \<Rightarrow> 's \<times> iter) \<Rightarrow> 's \<Rightarrow> iter \<Rightarrow> 's \<times> iter" where
  "for_object body s it =
     (let (key, it1) = ReadObject it
      in if key = [] then (s, it1)
         else let (s', it2) = body key s it1
              in if left it2 < left it then for_object body s' it2 else (s', it2))"
  by pat_completeness auto
termination by (relation "measure (\<lambda>(_, _, it). left it)") (auto split: prod.split)

function for_array :: "('s \<Rightarrow> iter \<Rightarrow> 's \<times> iter) \<Rightarrow> 's \<Rightarrow> iter \<Rightarrow> 's \<times> iter" where
  "for_array body s it =
     (let (b, it1) = ReadArray it
      in if \<not> b then (s, it1)
         else let (s', it2) = body s it1
              in if left it2 < left it then for_array body s' it2 else (s', it2))"
  by pat_completeness auto
termination by (relation "measure (\<lambda>(_, _, it). left it)") (auto split: prod.split)

declare for_object.simps [simp del] for_array.simps [simp del]

text \<open>When the bodies do not move back the loops are the loops of the source.\<close>

lemma for_object_left:
  assumes "\<And>k s it. left (snd (body k s it)) \<le> left it"
  shows "left (snd (for_object body s it)) \<le> left it"
  using assms
proof (induction body s it rule: for_object.induct)
  case (1 body s it)
  obtain k it1 where r: "ReadObject it = (k, it1)" by (cases "ReadObject it")
  obtain s' it2 where b: "body k s it1 = (s', it2)" by (cases "body k s it1")
  have "left it2 \<le> left it1" using 1(2) [of k s it1] b by simp
  moreover have "left (snd (for_object body s' it2)) \<le> left it2" if "k \<noteq> []" "left it2 < left it" using 1 r b that by simp
  ultimately show ?case using ReadObject_left(1) [OF r] r b by (subst for_object.simps) (auto dest: order.trans)
qed

lemma for_object_unfold:
  assumes "\<And>k s it. left (snd (body k s it)) \<le> left it"
  shows "for_object body s it =
    (let (key, it) = ReadObject it in if key = [] then (s, it) else let (s, it) = body key s it in for_object body s it)"
proof -
  obtain k it1 where r: "ReadObject it = (k, it1)" by (cases "ReadObject it")
  obtain s' it2 where b: "body k s it1 = (s', it2)" by (cases "body k s it1")
  have "left it2 < left it" if "k \<noteq> []" using ReadObject_left(2) [OF r that] assms [of k s it1] b by simp
  then show ?thesis using r b by (subst for_object.simps) simp
qed

lemma for_array_left:
  assumes "\<And>s it. left (snd (body s it)) \<le> left it"
  shows "left (snd (for_array body s it)) \<le> left it"
  using assms
proof (induction body s it rule: for_array.induct)
  case (1 body s it)
  obtain b it1 where r: "ReadArray it = (b, it1)" by (cases "ReadArray it")
  obtain s' it2 where b: "body s it1 = (s', it2)" by (cases "body s it1")
  have "left it2 \<le> left it1" using 1(2) [of s it1] b by simp
  moreover have "left (snd (for_array body s' it2)) \<le> left it2" if "b" "left it2 < left it" using 1 r b that by simp
  ultimately show ?case using ReadArray_left(1) [OF r] r b by (subst for_array.simps) (auto dest: order.trans)
qed

lemma for_array_unfold:
  assumes "\<And>s it. left (snd (body s it)) \<le> left it"
  shows "for_array body s it =
    (let (b, it) = ReadArray it in if \<not> b then (s, it) else let (s, it) = body s it in for_array body s it)"
proof -
  obtain b it1 where r: "ReadArray it = (b, it1)" by (cases "ReadArray it")
  obtain s' it2 where b: "body s it1 = (s', it2)" by (cases "body s it1")
  have "left it2 < left it" if "b" using ReadArray_left(2) [OF r that] assms [of s it1] b by simp
  then show ?thesis using r b by (subst for_array.simps) simp
qed

end
