(* ===== verification/Promxy_JsonText.thy ===== *)
theory Promxy_JsonText
  imports Promxy_Json
begin

text \<open>
  The texts a Prometheus server answers with, as a JSON tree and its printed form, and what the iterator of
  \<open>Promxy_Json\<close> does on them: every printed string, timestamp, array and object is read back, and every
  printed value is skipped whole.
\<close>

section \<open>JSON texts\<close>

text \<open>
  \<open>jsonutil.MarshalTimestamp\<close>: a time of \<open>t\<close> milliseconds as seconds with at most three decimals.
\<close>

definition millis_text :: "nat \<Rightarrow> string" where
  "millis_text t =
     itoa (t div 1000) @
     (let fraction = t mod 1000
      in if fraction = 0 then []
         else ''.'' @ (if fraction < 100 then ''0'' else []) @ (if fraction < 10 then ''0'' else []) @ itoa fraction)"

definition MarshalTimestamp :: "int \<Rightarrow> string" where
  "MarshalTimestamp t = (if t < 0 then ''-'' @ millis_text (nat (- t)) else millis_text (nat t))"

text \<open>
  \<open>stream.WriteString\<close>, byte by byte: the quote, the backslash and the control characters are escaped, nothing else.
\<close>

definition json_hex :: "nat \<Rightarrow> char" where
  "json_hex n = char_of (if n < 10 then 48 + n else 87 + n)"

definition json_escape :: "char \<Rightarrow> string" where
  "json_escape c =
     (if c = quote \<or> c = backslash then [backslash, c]
      else if c = CHR 0x0A then [backslash, CHR ''n'']
      else if c = CHR 0x0D then [backslash, CHR ''r'']
      else if c = CHR 0x09 then [backslash, CHR ''t'']
      else if byte c < 32
      then [backslash, CHR ''u'', CHR ''0'', CHR ''0'', json_hex (byte c div 16), json_hex (byte c mod 16)]
      else [c])"

definition json_string :: "string \<Rightarrow> string" where
  "json_string s = quote # concat (map json_escape s) @ [quote]"

text \<open>
  A string as an encoder may spell it: bytes as \<open>WriteString\<close> writes them, and characters by their code, which is how
  the reflecting encoder writes \<open><\<close>, \<open>>\<close>, \<open>&\<close>, U+2028, U+2029 and, as U+FFFD, bytes that are not UTF-8. A code that
  is no character of four digits is that of U+FFFD too.
\<close>

datatype piece = Plain char | Code nat

definition char_code :: "nat \<Rightarrow> nat" where
  "char_code n = (if n < 65536 \<and> \<not> is_surrogate n then n else 0xFFFD)"

fun piece_text :: "piece \<Rightarrow> string" where
  "piece_text (Plain c) = json_escape c"
| "piece_text (Code n) = [backslash, CHR ''u'', json_hex (char_code n div 4096), json_hex (char_code n div 256 mod 16),
     json_hex (char_code n div 16 mod 16), json_hex (char_code n mod 16)]"

fun piece_value :: "piece \<Rightarrow> string" where
  "piece_value (Plain c) = [c]"
| "piece_value (Code n) = appendRune [] (char_code n)"

definition spelled_body :: "piece list \<Rightarrow> string" where
  "spelled_body ps = concat (map piece_text ps)"

definition spelled_text :: "piece list \<Rightarrow> string" where
  "spelled_text ps = quote # spelled_body ps @ [quote]"

definition spelled_value :: "piece list \<Rightarrow> string" where
  "spelled_value ps = concat (map piece_value ps)"

definition plain :: "string \<Rightarrow> piece list" where
  "plain s = map Plain s"

text \<open>A JSON value in compact form; numbers are in thousandths.\<close>

datatype json = JNull | JBool bool | JNum int | JStr "piece list" | JArr "json list" | JObj "(string \<times> json) list"

fun separated :: "string list \<Rightarrow> string" where
  "separated [] = []"
| "separated [x] = x"
| "separated (x # xs) = x @ '','' @ separated xs"

fun json_text :: "json \<Rightarrow> string" where
  "json_text JNull = ''null''"
| "json_text (JBool b) = (if b then ''true'' else ''false'')"
| "json_text (JNum k) = MarshalTimestamp k"
| "json_text (JStr s) = spelled_text s"
| "json_text (JArr js) = ''['' @ separated (map json_text js) @ '']''"
| "json_text (JObj fs) = ''{'' @ separated (map (\<lambda>(k, j). json_string k @ '':'' @ json_text j) fs) @ ''}''"

section \<open>Reading tokens\<close>

lemma advance_advance [simp]: "advance n (advance m it) = advance (m + n) it"
  by (simp add: advance_def take_add drop_drop add.commute)

lemma advance_simps [simp]:
  "ji_rest (advance n it) = drop n (ji_rest it)" "ji_Error (advance n it) = ji_Error it" "ji_depth (advance n it) = ji_depth it" "advance 0 it = it"
  by (simp_all add: advance_def)

lemma nextToken_char: "ji_rest it = c # r \<Longrightarrow> \<not> is_space c \<Longrightarrow> nextToken it = (c, advance 1 it)"
  by (simp add: nextToken_def)

lemma readByte_char: "ji_rest it = c # r \<Longrightarrow> readByte it = (c, advance 1 it)"
  by (simp add: readByte_def)

lemma unreadByte_advance: "ji_rest it = c # r \<Longrightarrow> ji_Error it = None \<Longrightarrow> unreadByte (advance 1 it) = it"
  by (cases it) (simp add: unreadByte_def advance_def)

section \<open>Reading strings\<close>

lemma json_hex_value: "n < 16 \<Longrightarrow> hex_value (json_hex n) = Some n"
proof -
  assume "n < 16"
  then have "n \<in> set [0..<16]" by simp
  then show ?thesis unfolding json_hex_def hex_value_def by (simp add: upt_conv_Cons) (elim disjE; simp)
qed

lemma read_hex_step:
  assumes "ji_rest it = c # r" "ji_Error it = None" "hex_value c = Some h"
  shows "read_hex (Suc n) v it = read_hex n (v * 16 + h) (advance 1 it)"
  using assms by (simp add: readByte_char)

lemma readU4_digits:
  assumes "ji_rest it = c1 # c2 # c3 # c4 # r" "ji_Error it = None"
    and "hex_value c1 = Some h1" "hex_value c2 = Some h2" "hex_value c3 = Some h3" "hex_value c4 = Some h4"
  shows "readU4 it = (((h1 * 16 + h2) * 16 + h3) * 16 + h4, advance 4 it)"
proof -
  have four: "(4::nat) = Suc (Suc (Suc (Suc 0)))" by simp
  have rest: "ji_rest (advance 1 it) = c2 # c3 # c4 # r" "ji_rest (advance 2 it) = c3 # c4 # r" "ji_rest (advance 3 it) = c4 # r"
    using assms(1) by (simp_all add: numeral_2_eq_2 numeral_3_eq_3)
  have plus: "advance 1 (advance 1 it) = advance 2 it" "advance 1 (advance 2 it) = advance 3 it" "advance 1 (advance 3 it) = advance 4 it" by (simp_all only: advance_advance) (simp_all add: eval_nat_numeral)
  have err: "ji_Error (advance n it) = None" for n using assms(2) by simp
  note step = read_hex_step [OF assms(1,2,3)] read_hex_step [OF rest(1) err assms(4)] read_hex_step [OF rest(2) err assms(5)] read_hex_step [OF rest(3) err assms(6)]
  show ?thesis unfolding readU4_def four step(1) step(2) plus step(3) step(4) read_hex.simps(1) by simp
qed

lemma appendRune_ascii: "n < 128 \<Longrightarrow> appendRune p n = p @ [char_of n]"
  by (simp add: appendRune_def Let_def)

lemma appendRune_append: "appendRune p n = p @ appendRune [] n"
  by (simp add: appendRune_def Let_def)

lemma readEscapedChar_u:
  assumes "ji_rest it = json_hex (n div 4096) # json_hex (n div 256 mod 16) # json_hex (n div 16 mod 16) # json_hex (n mod 16) # r"
    and "ji_Error it = None" "n < 65536" "\<not> is_surrogate n"
  shows "readEscapedChar (CHR ''u'') str it = (str @ appendRune [] n, advance 4 it)"
proof -
  have h: "hex_value (json_hex (n div 4096)) = Some (n div 4096)" "hex_value (json_hex (n div 256 mod 16)) = Some (n div 256 mod 16)"
    "hex_value (json_hex (n div 16 mod 16)) = Some (n div 16 mod 16)" "hex_value (json_hex (n mod 16)) = Some (n mod 16)"
    using assms(3) by (simp_all add: json_hex_value)
  have "n = n div 16 * 16 + n mod 16" "n div 16 = n div 256 * 16 + n div 16 mod 16" "n div 256 = n div 4096 * 16 + n div 256 mod 16"
    using div_mult_mod_eq [of n 16] div_mult_mod_eq [of "n div 16" 16] div_mult_mod_eq [of "n div 256" 16] by (simp_all flip: div_mult2_eq)
  then have "((n div 4096 * 16 + n div 256 mod 16) * 16 + n div 16 mod 16) * 16 + n mod 16 = n" by metis
  then have "readU4 it = (n, advance 4 it)" using readU4_digits [OF assms(1,2) h] by simp
  then show ?thesis using assms(4) by (simp add: readEscapedChar_def appendRune_append [of str])
qed

lemma char_code: "char_code n < 65536 \<and> \<not> is_surrogate (char_code n)"
  by (simp add: char_code_def is_surrogate_def)

lemma byte_less: "byte c < 256"
  by (simp add: of_char_of)

lemma spelled_simps [simp]:
  "spelled_body [] = []" "spelled_body (p # ps) = piece_text p @ spelled_body ps"
  "spelled_value [] = []" "spelled_value (p # ps) = piece_value p @ spelled_value ps"
  by (simp_all add: spelled_body_def spelled_value_def)

lemma plain_simps [simp]: "spelled_text (plain s) = json_string s" "spelled_value (plain s) = s"
  by (induction s) (simp_all add: spelled_text_def json_string_def plain_def spelled_body_def spelled_value_def o_def)

text \<open>A piece is a literal byte, a two-byte escape or a code.\<close>

lemma piece_cases:
  obtains (literal) c where "p = Plain c" "piece_text p = [c]" "literal c"
  | (escape) c e where "p = Plain c" "piece_text p = [backslash, e]" "e \<noteq> CHR ''u''" "plain_escape e = Some c"
  | (code) n where "piece_text p = [backslash, CHR ''u'', json_hex (n div 4096), json_hex (n div 256 mod 16), json_hex (n div 16 mod 16), json_hex (n mod 16)]"
      "piece_value p = appendRune [] n" "n < 65536" "\<not> is_surrogate n"
proof (cases p)
  case (Plain c)
  have e: "plain_escape quote = Some quote" "plain_escape backslash = Some backslash" "plain_escape (CHR ''n'') = Some (CHR 0x0A)"
    "plain_escape (CHR ''r'') = Some (CHR 0x0D)" "plain_escape (CHR ''t'') = Some (CHR 0x09)"
    by (simp_all add: plain_escape_def quote_def backslash_def)
  have u: "quote \<noteq> CHR ''u''" "backslash \<noteq> CHR ''u''" by (simp_all add: quote_def backslash_def)
  consider "c = quote \<or> c = backslash" | "c = CHR 0x0A" | "c = CHR 0x0D" | "c = CHR 0x09"
    | "byte c < 32" "c \<noteq> quote" "c \<noteq> backslash" "c \<noteq> CHR 0x0A" "c \<noteq> CHR 0x0D" "c \<noteq> CHR 0x09"
    | "\<not> byte c < 32" "c \<noteq> quote" "c \<noteq> backslash" "c \<noteq> CHR 0x0A" "c \<noteq> CHR 0x0D" "c \<noteq> CHR 0x09" by blast
  then show ?thesis
  proof cases
    case 5
    have zero: "json_hex 0 = CHR ''0''" by code_simp
    have "byte c div 4096 = 0" "byte c div 256 mod 16 = 0" "byte c div 16 mod 16 = byte c div 16" using 5(1) by simp_all
    then show ?thesis using 5 by (intro code [of "byte c"]) (simp_all add: Plain json_escape_def zero appendRune_ascii is_surrogate_def)
  next
    case 6
    then show ?thesis by (intro literal [of c]) (simp_all add: Plain json_escape_def literal_def)
  next
    case 1
    then show ?thesis using e u by (intro escape [of c c]) (auto simp: Plain json_escape_def)
  next
    case 2
    then show ?thesis using e(3) by (intro escape [of c "CHR ''n''"]) (simp_all add: Plain json_escape_def quote_def backslash_def)
  next
    case 3
    then show ?thesis using e(4) by (intro escape [of c "CHR ''r''"]) (simp_all add: Plain json_escape_def quote_def backslash_def)
  next
    case 4
    then show ?thesis using e(5) by (intro escape [of c "CHR ''t''"]) (simp_all add: Plain json_escape_def quote_def backslash_def)
  qed
next
  case (Code n)
  then show ?thesis using char_code [of n] by (intro code [of "char_code n"]) simp_all
qed

lemma readByte_piece:
  assumes "ji_rest it = piece_text p @ r" "ji_Error it = None"
  shows "slow_loop str it = slow_loop (str @ piece_value p) (advance (length (piece_text p)) it)"
proof -
  have q: "quote \<noteq> backslash" by (simp add: quote_def backslash_def)
  have slow: "slow_loop str it = slow_loop str' it'" if "piece_text p = backslash # e # r'" "readEscapedChar e str (advance 2 it) = (str', it')" for e r' str' it'
  proof -
    have "readByte it = (backslash, advance 1 it)" "readByte (advance 1 it) = (e, advance 2 it)"
      using assms(1) that(1) by (simp_all add: readByte_char numeral_2_eq_2)
    then show ?thesis using assms(2) that(2) q by (subst slow_loop.simps) simp
  qed
  show ?thesis
  proof (cases p rule: piece_cases)
    case (literal c)
    then show ?thesis using assms by (subst slow_loop.simps) (simp add: readByte_char literal_def)
  next
    case (escape c e)
    then have "readEscapedChar e str (advance 2 it) = (str @ [c], advance 2 it)" by (simp add: readEscapedChar_def read_plain_escape_def)
    from slow [OF escape(2) this] show ?thesis using escape by (simp add: numeral_2_eq_2)
  next
    case (code n)
    have "readEscapedChar (CHR ''u'') str (advance 2 it) = (str @ appendRune [] n, advance 4 (advance 2 it))"
      using assms code by (intro readEscapedChar_u) simp_all
    moreover have "length (piece_text p) = 6" unfolding code(1) by simp
    ultimately show ?thesis using slow [OF code(1)] unfolding code(2) by (metis advance_advance numeral_plus_numeral add_num_simps(2) semiring_norm(6))
  qed
qed

lemma slow_loop_text:
  assumes "ji_rest it = spelled_body s @ quote # r" "ji_Error it = None"
  shows "slow_loop str it = (str @ spelled_value s, advance (length (spelled_body s) + 1) it)"
  using assms
proof (induction s arbitrary: str it)
  case Nil
  then show ?case by (subst slow_loop.simps) (simp add: readByte_char)
next
  case (Cons p s)
  have "ji_rest it = piece_text p @ spelled_body s @ quote # r" using Cons.prems(1) by simp
  from readByte_piece [OF this Cons.prems(2), of str] Cons.IH [of "advance (length (piece_text p)) it" "str @ piece_value p"] Cons.prems
  show ?case by simp
qed

lemma takeWhile_escapes:
  "takeWhile literal (spelled_body s @ quote # r) = spelled_value s \<and> spelled_body s = spelled_value s \<or>
   (\<exists>t r'. takeWhile literal (spelled_body s @ quote # r) = t \<and> drop (length t) (spelled_body s @ quote # r) = backslash # r')"
proof (induction s)
  case (Cons p s)
  show ?case
  proof (cases p rule: piece_cases)
    case (literal c)
    then show ?thesis using Cons by auto
  qed (simp_all add: literal_def)
qed (simp add: literal_def)

lemma ReadString_text:
  assumes "ji_rest it = spelled_text s @ r" "ji_Error it = None"
  shows "ReadString it = (spelled_value s, advance (length (spelled_text s)) it)"
proof -
  have t: "nextToken it = (quote, advance 1 it)" using assms(1) by (simp add: nextToken_char spelled_text_def is_space_def quote_def)
  have rest: "ji_rest (advance 1 it) = spelled_body s @ quote # r" using assms(1) by (simp add: spelled_text_def)
  have q: "quote \<noteq> backslash" by (simp add: quote_def backslash_def)
  have slow: "slow_loop [] (advance 1 it) = (spelled_value s, advance (length (spelled_text s)) it)"
    using slow_loop_text [OF rest] assms(2) by (simp add: spelled_text_def)
  from takeWhile_escapes [of s r] show ?thesis
  proof (elim disjE exE conjE)
    assume "takeWhile literal (spelled_body s @ quote # r) = spelled_value s" "spelled_body s = spelled_value s"
    then show ?thesis using t rest by (simp add: ReadString_def spelled_text_def Let_def)
  next
    fix tw r'
    assume "takeWhile literal (spelled_body s @ quote # r) = tw" "drop (length tw) (spelled_body s @ quote # r) = backslash # r'"
    then show ?thesis using t rest slow q by (simp add: ReadString_def readStringSlowPath_def Let_def)
  qed
qed

lemma ReadString_plain:
  "ji_rest it = json_string s @ r \<Longrightarrow> ji_Error it = None \<Longrightarrow> ReadString it = (s, advance (length (json_string s)) it)"
  using ReadString_text [of it "plain s"] by simp

section \<open>Reading numbers\<close>

definition add_digit :: "char \<Rightarrow> nat \<Rightarrow> nat" where
  "add_digit c v = v * 10 + (byte c - 48)"

lemma byte_digit [simp]: "n < 10 \<Longrightarrow> byte (char_of (48 + n)) = 48 + n" "n < 10 \<Longrightarrow> digit (char_of (48 + n))"
  by (simp_all add: digit_def of_char_of)

lemma digits_itoa: "(\<forall>c\<in>set (itoa n). digit c) \<and> fold add_digit (itoa n) 0 = n \<and> itoa n \<noteq> []"
proof (induction n rule: itoa.induct)
  case (1 n)
  show ?case
  proof (cases "n < 10")
    case True
    then show ?thesis by (subst (1 2 3) itoa.simps) (simp add: add_digit_def)
  next
    case False
    have "add_digit (char_of (48 + n mod 10)) v = v * 10 + n mod 10" for v by (simp add: add_digit_def)
    then show ?thesis using 1 False by (subst (1 2 3) itoa.simps) auto
  qed
qed

lemma itoa_zero: "hd (itoa n) = CHR ''0'' \<Longrightarrow> itoa n = ''0''"
proof (induction n rule: itoa.induct)
  case (1 n)
  show ?case
  proof (cases "n < 10")
    case True
    then have "itoa n = [char_of (48 + n)]" by (subst itoa.simps) simp
    then show ?thesis using 1(2) by simp
  next
    case False
    then have i: "itoa n = itoa (n div 10) @ [char_of (48 + n mod 10)]" by (subst itoa.simps) simp
    then have "hd (itoa (n div 10)) = CHR ''0''" using 1(2) digits_itoa [of "n div 10"] by simp
    then have "itoa (n div 10) = ''0''" using 1(1) False by simp
    then have "n div 10 = 0" using digits_itoa [of "n div 10"] by (simp add: add_digit_def)
    then show ?thesis using False by simp
  qed
qed

lemma fold_add_digit_ge: "v \<le> fold add_digit ds v"
proof (induction ds arbitrary: v)
  case (Cons d ds)
  have "v \<le> add_digit d v" by (simp add: add_digit_def)
  also have "\<dots> \<le> fold add_digit ds (add_digit d v)" by (rule Cons)
  finally show ?case by simp
qed simp

lemma digit_not: "digit c \<Longrightarrow> \<not> ends_number c" "digit c \<Longrightarrow> c \<noteq> CHR ''.''" "digit c \<Longrightarrow> \<not> is_space c"
  by (auto simp: digit_def ends_number_def is_space_def)

lemma integer_digits_run:
  assumes "\<forall>c\<in>set ds. digit c" "fold add_digit ds v \<le> maxFloat64"
  shows "integer_digits limit v i (ds @ r) = integer_digits limit (fold add_digit ds v) (i + length ds) r"
  using assms
proof (induction ds arbitrary: v i)
  case (Cons d ds)
  have "v \<le> add_digit d v" by (simp add: add_digit_def)
  also have "\<dots> \<le> maxFloat64" using Cons.prems(2) fold_add_digit_ge [of "add_digit d v" ds] by simp
  finally have "\<not> uint64SafeToMultiple10 < v" by (simp add: uint64SafeToMultiple10_def maxFloat64_def)
  then show ?case using Cons digit_not [of d] by (simp add: add_digit_def [symmetric])
qed simp

lemma decimal_digits_run:
  assumes "\<forall>c\<in>set ds. digit c" "fold add_digit ds v \<le> maxFloat64" "limit = None \<or> limit = Some maxFloat64"
  shows "decimal_digits limit v p i (ds @ r) = decimal_digits limit (fold add_digit ds v) (p + length ds) (i + length ds) r"
  using assms(1,2)
proof (induction ds arbitrary: v p i)
  case (Cons d ds)
  have le: "add_digit d v \<le> maxFloat64" using Cons.prems(2) fold_add_digit_ge [of "add_digit d v" ds] by simp
  moreover have "v \<le> add_digit d v" by (simp add: add_digit_def)
  ultimately have "\<not> uint64SafeToMultiple10 < v" by (simp add: uint64SafeToMultiple10_def maxFloat64_def)
  then show ?case using Cons digit_not [of d] le assms(3) by (auto simp: add_digit_def [symmetric] Let_def not_less)
qed simp

lemma fold_add_digit_start: "digit c \<Longrightarrow> fold add_digit (c # cs) 0 = fold add_digit cs (byte c - 48)"
  by (simp add: add_digit_def)

definition three_digits :: "nat \<Rightarrow> string" where
  "three_digits n = [char_of (48 + n div 100), char_of (48 + n div 10 mod 10), char_of (48 + n mod 10)]"

lemma three_digits: "n < 1000 \<Longrightarrow> (\<forall>c\<in>set (three_digits n). digit c) \<and> fold add_digit (three_digits n) v = v * 1000 + n \<and> length (three_digits n) = 3"
proof -
  assume n: "n < 1000"
  have h: "n div 100 < 10" using n by simp
  have "n = 10 * (n div 10) + n mod 10" "n div 10 = 10 * (n div 10 div 10) + n div 10 mod 10" by simp_all
  moreover have "n div 10 div 10 = n div 100" by (simp flip: div_mult2_eq)
  ultimately have "n = 100 * (n div 100) + 10 * (n div 10 mod 10) + n mod 10" by linarith
  moreover have "add_digit (char_of (48 + n div 100)) w = w * 10 + n div 100" "add_digit (char_of (48 + n div 10 mod 10)) w = w * 10 + n div 10 mod 10"
    "add_digit (char_of (48 + n mod 10)) w = w * 10 + n mod 10" for w using h by (simp_all add: add_digit_def)
  ultimately show ?thesis using h by (simp add: three_digits_def)
qed

lemma itoa_small: "n < 10 \<Longrightarrow> itoa n = [char_of (48 + n)]" "\<not> n < 10 \<Longrightarrow> itoa n = itoa (n div 10) @ [char_of (48 + n mod 10)]"
  by (subst itoa.simps, simp)+

lemma fraction_digits:
  assumes "n < 1000"
  shows "(if n < 100 then ''0'' else []) @ (if n < 10 then ''0'' else []) @ itoa n = three_digits n"
proof -
  have z: "CHR ''0'' = char_of (48::nat)" by code_simp
  have d: "n div 10 div 10 = n div 100" "n div 10 mod 10 = n div 10" if "n < 100" using that by (simp_all flip: div_mult2_eq)
  consider "n < 10" | "\<not> n < 10" "n < 100" | "\<not> n < 100" by linarith
  then show ?thesis
  proof cases
    case 1
    then show ?thesis by (simp add: three_digits_def itoa_small z)
  next
    case 2
    then show ?thesis using d by (simp add: three_digits_def itoa_small(1) itoa_small(2) [of n] z)
  next
    case 3
    then have "\<not> n div 10 < 10" "\<not> n < 10" "n div 10 div 10 < 10" using assms by simp_all
    then show ?thesis using 3 by (simp add: three_digits_def itoa_small(1) itoa_small(2) [of n] itoa_small(2) [of "n div 10"] div_mult2_eq [of n 10 10, symmetric])
  qed
qed

lemma millis_text_eq: "millis_text k = itoa (k div 1000) @ (if k mod 1000 = 0 then [] else ''.'' @ three_digits (k mod 1000))"
  using fraction_digits [of "k mod 1000"] by (simp add: millis_text_def Let_def)

lemma positive_number_itoa:
  assumes "ji_rest it = itoa s @ r" "s \<le> maxFloat64" "r = [] \<or> \<not> digit (hd r)" "r \<noteq> []"
    and "integer_digits limit s (length (itoa s)) r = Some (v, places, i)"
  shows "positive_number limit o1 o2 build parse zero it = (build v places, advance i it)"
proof -
  obtain c cs where c: "itoa s = c # cs" using digits_itoa by (cases "itoa s") auto
  have d: "digit c" "\<forall>c\<in>set cs. digit c" "fold add_digit cs (byte c - 48) = s"
    using digits_itoa [of s] c fold_add_digit_start [of c cs] by auto
  have zero: "cs = []" if "c = CHR ''0''" using itoa_zero [of s] that c by simp
  have "integer_digits limit (byte c - 48) 1 (cs @ r) = Some (v, places, i)"
    using integer_digits_run [of cs "byte c - 48" limit 1 r] d assms(2,5) c by simp
  then show ?thesis using assms(1,3,4) c d(1) zero digit_not [OF d(1)] by (auto simp: positive_number_def Let_def)
qed

text \<open>What a timestamp reads as, in seconds.\<close>

definition seconds_read :: "nat \<Rightarrow> f64" where
  "seconds_read k = (if k mod 1000 = 0 then f64_of_nat (k div 1000) else f64_div (f64_of_nat k) (f64_of_nat 1000))"

lemma millis_digits:
  assumes "k \<le> maxFloat64" "limit = None \<or> limit = Some maxFloat64" "ends_number c"
  shows "integer_digits limit (k div 1000) (length (itoa (k div 1000))) (drop (length (itoa (k div 1000))) (millis_text k) @ c # r) =
    Some (if k mod 1000 = 0 then k div 1000 else k, if k mod 1000 = 0 then 0 else 3, length (millis_text k))"
proof (cases "k mod 1000 = 0")
  case False
  let ?n = "length (itoa (k div 1000))"
  have dot: "\<not> ends_number (CHR ''.'')" by (simp add: ends_number_def)
  have t: "(\<forall>c\<in>set (three_digits (k mod 1000)). digit c)" "fold add_digit (three_digits (k mod 1000)) (k div 1000) = k" "length (three_digits (k mod 1000)) = 3"
    using three_digits [of "k mod 1000" "k div 1000"] by auto
  have "decimal_digits limit (k div 1000) 0 (?n + 1) (three_digits (k mod 1000) @ c # r) = Some (k, 3, ?n + 1 + 3)"
    using decimal_digits_run [of "three_digits (k mod 1000)" "k div 1000" limit 0 "?n + 1" "c # r"] t assms by simp
  then show ?thesis using False dot t by (simp add: millis_text_eq add.commute)
qed (use assms(3) in \<open>simp add: millis_text_eq\<close>)

lemma readPositiveFloat64_millis:
  assumes "ji_rest it = millis_text k @ t # r" "k \<le> maxFloat64" "ends_number t"
  shows "readPositiveFloat64 np it = (seconds_read k, advance (length (millis_text k)) it)"
proof -
  have rest: "ji_rest it = itoa (k div 1000) @ drop (length (itoa (k div 1000))) (millis_text k) @ t # r"
    using assms(1) by (simp add: millis_text_eq)
  have "k div 1000 \<le> maxFloat64" using assms(2) by (meson div_le_dividend order.trans)
  moreover have "\<not> digit (hd (drop (length (itoa (k div 1000))) (millis_text k) @ t # r))"
    using assms(3) digit_not(1) by (auto simp: millis_text_eq digit_def)
  ultimately have "positive_number (Some maxFloat64) o1 o2 build parse zero it =
      (build (if k mod 1000 = 0 then k div 1000 else k) (if k mod 1000 = 0 then 0 else 3), advance (length (millis_text k)) it)"
    for o1 o2 build parse and zero :: f64
    using rest millis_digits [OF assms(2) _ assms(3)] by (intro positive_number_itoa) auto
  then show ?thesis by (simp add: readPositiveFloat64_def seconds_read_def)
qed

lemma millis_hd: obtains c cs where "millis_text k = c # cs" "digit c"
proof -
  obtain c cs where c: "itoa (k div 1000) = c # cs" using digits_itoa by (cases "itoa (k div 1000)") auto
  then have "digit c" using digits_itoa [of "k div 1000"] by auto
  with c show ?thesis by (intro that) (simp_all add: millis_text_eq)
qed

lemma ReadFloat64_millis:
  assumes "ji_rest it = millis_text k @ t # r" "ji_Error it = None" "k \<le> maxFloat64" "ends_number t"
  shows "ReadFloat64 np it = (seconds_read k, advance (length (millis_text k)) it)"
proof -
  obtain c cs where c: "millis_text k = c # cs" "digit c" by (rule millis_hd)
  then have r: "ji_rest it = c # cs @ t # r" using assms(1) by simp
  have "nextToken it = (c, advance 1 it)" using r digit_not [OF c(2)] by (simp add: nextToken_char)
  moreover have "c \<noteq> CHR ''-''" using c(2) by (auto simp: digit_def)
  ultimately show ?thesis
    using unreadByte_advance [OF r assms(2)] readPositiveFloat64_millis [OF assms(1,3,4)] by (simp add: ReadFloat64_def)
qed

definition seconds_of :: "int \<Rightarrow> f64" where
  "seconds_of k = (if k < 0 then f64_neg (seconds_read (nat (- k))) else seconds_read (nat k))"

lemma ReadFloat64_time:
  assumes "ji_rest it = MarshalTimestamp k @ t # r" "ji_Error it = None" "nat \<bar>k\<bar> \<le> maxFloat64" "ends_number t"
  shows "ReadFloat64 np it = (seconds_of k, advance (length (MarshalTimestamp k)) it)"
proof (cases "k < 0")
  case False
  then show ?thesis using assms ReadFloat64_millis [of it "nat k"] by (simp add: MarshalTimestamp_def seconds_of_def)
next
  case True
  then have rest: "ji_rest it = CHR ''-'' # millis_text (nat (- k)) @ t # r" using assms(1) by (simp add: MarshalTimestamp_def)
  then have "nextToken it = (CHR ''-'', advance 1 it)" by (simp add: nextToken_char is_space_def)
  moreover have "readPositiveFloat64 np (advance 1 it) = (seconds_read (nat (- k)), advance (length (millis_text (nat (- k)))) (advance 1 it))"
    using rest assms(3,4) True by (intro readPositiveFloat64_millis [where t = t and r = r]) simp_all
  ultimately show ?thesis using True by (simp add: ReadFloat64_def MarshalTimestamp_def seconds_of_def)
qed

section \<open>Arrays and objects\<close>

definition delimited :: "string \<Rightarrow> bool" where
  "delimited r \<longleftrightarrow> (\<exists>c r'. r = c # r' \<and> c \<in> {CHR '','', CHR '']'', CHR ''}''})"

lemma delimited_simps [simp]: "delimited (CHR '','' # r)" "delimited (CHR '']'' # r)" "delimited (CHR ''}'' # r)"
  by (simp_all add: delimited_def)

definition clean :: "iter \<Rightarrow> bool" where
  "clean it \<longleftrightarrow> ji_Error it = None \<and> ji_depth it = 0"

lemma clean_advance [simp]: "clean (advance n it) = clean it"
  by (simp add: clean_def)

text \<open>\<open>f\<close> reads the text of a value, which is followed by a delimiter.\<close>

definition reads :: "(iter \<Rightarrow> 'v \<times> iter) \<Rightarrow> string \<Rightarrow> 'v \<Rightarrow> bool" where
  "reads f t v \<longleftrightarrow> t \<noteq> [] \<and> \<not> is_space (hd t) \<and> hd t \<noteq> CHR '']'' \<and>
     (\<forall>it r. clean it \<and> ji_rest it = t @ r \<and> delimited r \<longrightarrow> f it = (v, advance (length t) it))"

lemma readsD: "reads f t v \<Longrightarrow> clean it \<Longrightarrow> ji_rest it = t @ r \<Longrightarrow> delimited r \<Longrightarrow> f it = (v, advance (length t) it)"
  by (simp add: reads_def)

lemma separated_Cons: "separated (x # xs) = x @ concat (map (\<lambda>x. CHR '','' # x) xs)"
  by (induction xs arbitrary: x) auto

lemma ReadArray_comma: "ji_rest it = CHR '','' # r \<Longrightarrow> ReadArray it = (True, advance 1 it)"
  by (simp add: ReadArray_def nextToken_char is_space_def)

lemma ReadArray_close: "ji_rest it = CHR '']'' # r \<Longrightarrow> ReadArray it = (False, advance 1 it)"
  by (simp add: ReadArray_def nextToken_char is_space_def)

lemma ReadArray_open:
  assumes "ji_rest it = CHR ''['' # c # r" "ji_Error it = None" "\<not> is_space c" "c \<noteq> CHR '']''"
  shows "ReadArray it = (True, advance 1 it)"
proof -
  have "nextToken it = (CHR ''['', advance 1 it)" using assms(1) by (simp add: nextToken_char is_space_def)
  moreover have "nextToken (advance 1 it) = (c, advance 1 (advance 1 it))" using assms(1,3) by (intro nextToken_char) simp_all
  moreover have "unreadByte (advance 1 (advance 1 it)) = advance 1 it" using assms(1,2) by (intro unreadByte_advance) simp_all
  ultimately show ?thesis using assms(4) by (simp add: ReadArray_def)
qed

lemma ReadArray_empty: "ji_rest it = CHR ''['' # CHR '']'' # r \<Longrightarrow> ReadArray it = (False, advance 2 it)"
proof -
  assume r: "ji_rest it = CHR ''['' # CHR '']'' # r"
  then have "nextToken it = (CHR ''['', advance 1 it)" by (simp add: nextToken_char is_space_def)
  moreover have "nextToken (advance 1 it) = (CHR '']'', advance 1 (advance 1 it))" using r by (intro nextToken_char) (simp_all add: is_space_def)
  ultimately show ?thesis by (simp add: ReadArray_def numeral_2_eq_2)
qed

lemma for_array_rest:
  assumes "\<And>s it. left (snd (body s it)) \<le> left it" "\<And>x s. x \<in> set xs \<Longrightarrow> reads (body s) (t x) (f x s)"
    and "clean it" "ji_rest it = concat (map (\<lambda>x. CHR '','' # t x) xs) @ CHR '']'' # r"
  shows "for_array body s it = (fold f xs s, advance (length (concat (map (\<lambda>x. CHR '','' # t x) xs)) + 1) it)"
  using assms(2-4)
proof (induction xs arbitrary: s it)
  case Nil
  then show ?case by (subst for_array_unfold [OF assms(1)]) (simp add: ReadArray_close)
next
  case (Cons x xs)
  let ?rest = "concat (map (\<lambda>x. CHR '','' # t x) xs) @ CHR '']'' # r"
  have a: "ReadArray it = (True, advance 1 it)" using Cons.prems(3) by (simp add: ReadArray_comma)
  have "delimited ?rest" by (cases xs) simp_all
  then have b: "body s (advance 1 it) = (f x s, advance (length (t x)) (advance 1 it))"
    using Cons.prems by (intro readsD [of "body s" "t x" _ _ ?rest]) simp_all
  have "for_array body (f x s) (advance (length (t x)) (advance 1 it)) =
      (fold f xs (f x s), advance (length (concat (map (\<lambda>x. CHR '','' # t x) xs)) + 1) (advance (length (t x)) (advance 1 it)))"
    using Cons.prems by (intro Cons.IH) simp_all
  then show ?case using a b by (subst for_array_unfold [OF assms(1)]) (simp add: ac_simps)
qed

lemma for_array_text:
  assumes "\<And>s it. left (snd (body s it)) \<le> left it" "\<And>x s. x \<in> set xs \<Longrightarrow> reads (body s) (t x) (f x s)"
    and "clean it" "ji_rest it = ''['' @ separated (map t xs) @ '']'' @ r"
  shows "for_array body s it = (fold f xs s, advance (length (separated (map t xs)) + 2) it)"
proof (cases xs)
  case Nil
  then have "ReadArray it = (False, advance 2 it)" using assms(4) by (simp add: ReadArray_empty)
  then show ?thesis using Nil by (subst for_array_unfold [OF assms(1)]) (simp add: numeral_2_eq_2)
next
  case (Cons x xs')
  let ?rest = "concat (map (\<lambda>x. CHR '','' # t x) xs') @ CHR '']'' # r"
  have rd: "reads (body s) (t x) (f x s)" for s using assms(2) Cons by simp
  obtain c cs where c: "t x = c # cs" "\<not> is_space c" "c \<noteq> CHR '']''" using rd by (cases "t x") (auto simp: reads_def)
  have rest: "ji_rest it = CHR ''['' # t x @ ?rest" using assms(4) Cons by (simp add: separated_Cons o_def)
  have a: "ReadArray it = (True, advance 1 it)" using rest c assms(3) by (intro ReadArray_open) (simp_all add: clean_def)
  have "delimited ?rest" by (cases xs') simp_all
  then have b: "body s (advance 1 it) = (f x s, advance (length (t x)) (advance 1 it))"
    using rest assms(3) rd by (intro readsD [of "body s" "t x" _ _ ?rest]) simp_all
  have "for_array body (f x s) (advance (length (t x)) (advance 1 it)) =
      (fold f xs' (f x s), advance (length (concat (map (\<lambda>x. CHR '','' # t x) xs')) + 1) (advance (length (t x)) (advance 1 it)))"
    using rest assms(2,3) Cons by (intro for_array_rest [OF assms(1)]) simp_all
  then show ?thesis using a b Cons by (subst for_array_unfold [OF assms(1)]) (simp add: separated_Cons o_def ac_simps)
qed

lemma read_field_text:
  assumes "ji_rest it = json_string k @ CHR '':'' # r" "ji_Error it = None"
  shows "read_field it = (k, advance (length (json_string k) + 1) it)"
proof -
  have "ReadString it = (k, advance (length (json_string k)) it)" using assms by (rule ReadString_plain)
  moreover have "nextToken (advance (length (json_string k)) it) = (CHR '':'', advance 1 (advance (length (json_string k)) it))"
    using assms(1) by (intro nextToken_char) (simp_all add: is_space_def)
  ultimately show ?thesis by (simp add: read_field_def)
qed

definition field_text :: "('a \<Rightarrow> string) \<Rightarrow> string \<times> 'a \<Rightarrow> string" where
  "field_text t = (\<lambda>(k, x). json_string k @ '':'' @ t x)"

lemma ReadObject_comma:
  assumes "ji_rest it = CHR '','' # json_string k @ CHR '':'' # r" "ji_Error it = None"
  shows "ReadObject it = (k, advance (length (json_string k) + 2) it)"
proof -
  have "nextToken it = (CHR '','', advance 1 it)" using assms(1) by (simp add: nextToken_char is_space_def)
  moreover have "read_field (advance 1 it) = (k, advance (length (json_string k) + 1) (advance 1 it))"
    using assms by (intro read_field_text) simp_all
  ultimately show ?thesis by (simp add: ReadObject_def)
qed

lemma ReadObject_close: "ji_rest it = CHR ''}'' # r \<Longrightarrow> ReadObject it = ([], advance 1 it)"
  by (simp add: ReadObject_def nextToken_char is_space_def)

lemma json_string_hd: "json_string k = quote # concat (map json_escape k) @ [quote]"
  by (simp add: json_string_def)

lemma ReadObject_open:
  assumes "ji_rest it = CHR ''{'' # json_string k @ CHR '':'' # r" "ji_Error it = None"
  shows "ReadObject it = (k, advance (length (json_string k) + 2) it)"
proof -
  have "nextToken it = (CHR ''{'', advance 1 it)" using assms(1) by (simp add: nextToken_char is_space_def)
  moreover have "nextToken (advance 1 it) = (quote, advance 1 (advance 1 it))"
    using assms(1) by (intro nextToken_char) (simp_all add: is_space_def json_string_hd quote_def)
  moreover have "unreadByte (advance 1 (advance 1 it)) = advance 1 it"
    using assms by (intro unreadByte_advance [where c = quote]) (simp_all add: json_string_hd)
  moreover have "read_field (advance 1 it) = (k, advance (length (json_string k) + 1) (advance 1 it))"
    using assms by (intro read_field_text) simp_all
  ultimately show ?thesis by (simp add: ReadObject_def)
qed

lemma ReadObject_empty: "ji_rest it = CHR ''{'' # CHR ''}'' # r \<Longrightarrow> ReadObject it = ([], advance 2 it)"
proof -
  assume r: "ji_rest it = CHR ''{'' # CHR ''}'' # r"
  then have "nextToken it = (CHR ''{'', advance 1 it)" by (simp add: nextToken_char is_space_def)
  moreover have "nextToken (advance 1 it) = (CHR ''}'', advance 1 (advance 1 it))" using r by (intro nextToken_char) (simp_all add: is_space_def)
  ultimately show ?thesis by (simp add: ReadObject_def numeral_2_eq_2 quote_def)
qed

lemma for_object_rest:
  assumes "\<And>k s it. left (snd (body k s it)) \<le> left it" "\<And>k x s. (k, x) \<in> set fs \<Longrightarrow> reads (body k s) (t x) (f k x s)"
    and "clean it" "ji_rest it = concat (map (\<lambda>x. CHR '','' # field_text t x) fs) @ CHR ''}'' # r" "[] \<notin> fst ` set fs"
  shows "for_object body s it = (fold (\<lambda>(k, x). f k x) fs s, advance (length (concat (map (\<lambda>x. CHR '','' # field_text t x) fs)) + 1) it)"
  using assms(2-5)
proof (induction fs arbitrary: s it)
  case Nil
  then show ?case by (subst for_object_unfold [OF assms(1)]) (simp add: ReadObject_close)
next
  case (Cons kx fs)
  obtain k x where kx: "kx = (k, x)" by (cases kx)
  let ?rest = "concat (map (\<lambda>x. CHR '','' # field_text t x) fs) @ CHR ''}'' # r" and ?k = "length (json_string k) + 2"
  have rd: "k \<noteq> []" "reads (body k s) (t x) (f k x s)" for s using Cons.prems(1,4) kx by auto
  have rest: "ji_rest it = CHR '','' # json_string k @ CHR '':'' # t x @ ?rest" using Cons.prems(3) by (simp add: kx field_text_def)
  have a: "ReadObject it = (k, advance ?k it)" using rest Cons.prems(2) by (intro ReadObject_comma) (simp_all add: clean_def)
  have "delimited ?rest" by (cases fs) simp_all
  then have b: "body k s (advance ?k it) = (f k x s, advance (length (t x)) (advance ?k it))"
    using rest Cons.prems(2) rd by (intro readsD [of "body k s" "t x" _ _ ?rest]) simp_all
  have "for_object body (f k x s) (advance (length (t x)) (advance ?k it)) =
      (fold (\<lambda>(k, x). f k x) fs (f k x s), advance (length (concat (map (\<lambda>x. CHR '','' # field_text t x) fs)) + 1) (advance (length (t x)) (advance ?k it)))"
    using Cons.prems rest by (intro Cons.IH) simp_all
  then show ?case using a b rd(1) by (subst for_object_unfold [OF assms(1)]) (simp add: kx field_text_def ac_simps)
qed

lemma for_object_text:
  assumes "\<And>k s it. left (snd (body k s it)) \<le> left it" "\<And>k x s. (k, x) \<in> set fs \<Longrightarrow> reads (body k s) (t x) (f k x s)"
    and "clean it" "ji_rest it = ''{'' @ separated (map (field_text t) fs) @ ''}'' @ r" "[] \<notin> fst ` set fs"
  shows "for_object body s it = (fold (\<lambda>(k, x). f k x) fs s, advance (length (separated (map (field_text t) fs)) + 2) it)"
proof (cases fs)
  case Nil
  then have "ReadObject it = ([], advance 2 it)" using assms(4) by (simp add: ReadObject_empty)
  then show ?thesis using Nil by (subst for_object_unfold [OF assms(1)]) (simp add: numeral_2_eq_2)
next
  case (Cons kx fs')
  obtain k x where kx: "kx = (k, x)" by (cases kx)
  let ?rest = "concat (map (\<lambda>x. CHR '','' # field_text t x) fs') @ CHR ''}'' # r" and ?k = "length (json_string k) + 2"
  have rd: "k \<noteq> []" "reads (body k s) (t x) (f k x s)" for s using assms(2,5) Cons kx by auto
  have rest: "ji_rest it = CHR ''{'' # json_string k @ CHR '':'' # t x @ ?rest" using assms(4) Cons by (simp add: separated_Cons o_def kx field_text_def)
  have a: "ReadObject it = (k, advance ?k it)" using rest assms(3) by (intro ReadObject_open) (simp_all add: clean_def)
  have "delimited ?rest" by (cases fs') simp_all
  then have b: "body k s (advance ?k it) = (f k x s, advance (length (t x)) (advance ?k it))"
    using rest assms(3) rd by (intro readsD [of "body k s" "t x" _ _ ?rest]) simp_all
  have "for_object body (f k x s) (advance (length (t x)) (advance ?k it)) =
      (fold (\<lambda>(k, x). f k x) fs' (f k x s), advance (length (concat (map (\<lambda>x. CHR '','' # field_text t x) fs')) + 1) (advance (length (t x)) (advance ?k it)))"
    using rest assms(2,3,5) Cons by (intro for_object_rest [OF assms(1)]) simp_all
  then show ?thesis using a b rd(1) Cons by (subst for_object_unfold [OF assms(1)]) (simp add: separated_Cons o_def kx field_text_def ac_simps)
qed

section \<open>Skipping values\<close>

fun json_ok :: "json \<Rightarrow> bool" where
  "json_ok (JNum k) = (nat \<bar>k\<bar> \<le> maxFloat64)"
| "json_ok (JArr js) = list_all json_ok js"
| "json_ok (JObj fs) = list_all (\<lambda>(_, j). json_ok j) fs"
| "json_ok _ = True"

fun nesting :: "json \<Rightarrow> nat" where
  "nesting (JArr js) = Suc (foldr (\<lambda>j. max (nesting j)) js 0)"
| "nesting (JObj fs) = Suc (foldr (\<lambda>(_, j). max (nesting j)) fs 0)"
| "nesting _ = 0"

lemma nesting_member: "j \<in> set js \<Longrightarrow> nesting j < nesting (JArr js)" "(k, j) \<in> set fs \<Longrightarrow> nesting j < nesting (JObj fs)"
proof -
  show "j \<in> set js \<Longrightarrow> nesting j < nesting (JArr js)" by (induction js) (auto simp: less_Suc_eq_le)
  show "(k, j) \<in> set fs \<Longrightarrow> nesting j < nesting (JObj fs)" by (induction fs) (auto simp: less_Suc_eq_le)
qed

lemma delimited_ends: "delimited r \<Longrightarrow> \<exists>c r'. r = c # r' \<and> ends_number c \<and> \<not> is_space c"
  by (auto simp: delimited_def ends_number_def is_space_def)

lemma trySkipNumber_digits: "\<forall>c\<in>set ds. digit c \<Longrightarrow> trySkipNumber dot i (ds @ r) it = trySkipNumber dot (i + length ds) r it"
  by (induction ds arbitrary: i) auto

lemma skip_bytes_text:
  assumes "ji_rest it = bs @ r"
  shows "skip_bytes operation whole bs it = advance (length bs) it"
  using assms
proof (induction bs arbitrary: it)
  case (Cons b bs)
  then show ?case using Cons.IH [of "advance 1 it"] by (simp add: readByte_char)
qed simp

lemma skipString_text:
  assumes "ji_rest it = spelled_body s @ quote # r" "ji_Error it = None" "ji_before it = quote # b"
  shows "skipString it = advance (length (spelled_body s) + 1) it"
proof -
  let ?u = "it\<lparr>ji_before := b, ji_rest := quote # ji_rest it\<rparr>"
  have u: "unreadByte it = ?u" using assms by (simp add: unreadByte_def)
  have "ji_rest ?u = spelled_text s @ r" using assms(1) by (simp add: spelled_text_def)
  from ReadString_text [OF this] have rd: "snd (ReadString ?u) = advance (length (spelled_text s)) ?u" using assms(2) by simp
  have adv: "advance (length (spelled_text s)) ?u = advance (length (spelled_body s) + 1) it"
    using assms by (cases it) (simp add: advance_def spelled_text_def)
  have q: "quote \<noteq> backslash" by (simp add: quote_def backslash_def)
  from takeWhile_escapes [of s r] show ?thesis
  proof (elim disjE exE conjE)
    assume "takeWhile literal (spelled_body s @ quote # r) = spelled_value s" "spelled_body s = spelled_value s"
    then show ?thesis using assms(1) by (simp add: skipString_def)
  next
    fix tw r'
    assume "takeWhile literal (spelled_body s @ quote # r) = tw" "drop (length tw) (spelled_body s @ quote # r) = backslash # r'"
    then show ?thesis using assms(1) u rd adv q by (simp add: skipString_def Let_def)
  qed
qed

lemma ReadFloat32_millis:
  assumes "ji_rest it = millis_text k @ t # r" "ji_Error it = None" "k \<le> maxFloat64" "ends_number t"
  shows "ReadFloat32 np it = advance (length (millis_text k)) it"
proof -
  obtain c cs where c: "itoa (k div 1000) = c # cs" using digits_itoa by (cases "itoa (k div 1000)") auto
  have d: "digit c" using digits_itoa [of "k div 1000"] c by auto
  have rest: "ji_rest it = itoa (k div 1000) @ drop (length (itoa (k div 1000))) (millis_text k) @ t # r"
    using assms(1) by (simp add: millis_text_eq)
  have r: "ji_rest it = c # cs @ drop (length (itoa (k div 1000))) (millis_text k) @ t # r" using rest c by simp
  have tok: "nextToken it = (c, advance 1 it)" using r digit_not [OF d] by (simp add: nextToken_char)
  have "k div 1000 \<le> maxFloat64" using assms(3) by (meson div_le_dividend order.trans)
  moreover have "\<not> digit (hd (drop (length (itoa (k div 1000))) (millis_text k) @ t # r))"
    using assms(4) digit_not(1) by (auto simp: millis_text_eq digit_def)
  ultimately have "positive_number None o1 o2 build parse zero it =
      (build (if k mod 1000 = 0 then k div 1000 else k) (if k mod 1000 = 0 then 0 else 3), advance (length (millis_text k)) it)"
    for o1 o2 build parse and zero :: unit
    using rest millis_digits [OF assms(3) _ assms(4)] by (intro positive_number_itoa) auto
  moreover have "c \<noteq> CHR ''-''" using d by (auto simp: digit_def)
  ultimately show ?thesis using tok unreadByte_advance [OF r assms(2)] by (simp add: ReadFloat32_def)
qed

lemma trySkip_digits:
  assumes "\<forall>c\<in>set ds. digit c" "ends_number t"
  shows "trySkipNumber False 0 (ds @ drop (length (itoa (k div 1000))) (millis_text k) @ t # r) it =
    (let n = length ds + (length (millis_text k) - length (itoa (k div 1000))) in if n = 0 then (False, it) else (True, advance n it))"
proof -
  have t: "\<not> digit t" "t \<noteq> CHR ''.''" using assms(2) digit_not(1) by (auto simp: ends_number_def)
  define fr where "fr = drop (length (itoa (k div 1000))) (millis_text k)"
  have "trySkipNumber False (length ds) (fr @ t # r) it = trySkipNumber (fr \<noteq> []) (length ds + length fr) (t # r) it"
  proof (cases "k mod 1000 = 0")
    case False
    then have fr: "fr = CHR ''.'' # three_digits (k mod 1000)" by (simp add: fr_def millis_text_eq)
    have td: "\<forall>c\<in>set (three_digits (k mod 1000)). digit c" "length (three_digits (k mod 1000)) = 3" using three_digits [of "k mod 1000" 0] by auto
    then obtain a b where ab: "three_digits (k mod 1000) = a # b" "digit a" by (cases "three_digits (k mod 1000)") auto
    have "\<not> digit (CHR ''.'')" by (simp add: digit_def)
    then have "trySkipNumber False (length ds) (fr @ t # r) it = trySkipNumber True (Suc (length ds)) (three_digits (k mod 1000) @ t # r) it"
      using fr ab by simp
    also have "\<dots> = trySkipNumber True (Suc (length ds) + 3) (t # r) it" using trySkipNumber_digits [OF td(1)] by (simp only: td(2))
    also have "Suc (length ds) + 3 = length ds + length fr" using fr td(2) by simp
    finally show ?thesis using fr by (simp only: list.distinct not_False_eq_True)
  qed (simp add: fr_def millis_text_eq)
  then show ?thesis using trySkipNumber_digits [OF assms(1)] t assms(2) by (simp add: fr_def Let_def)
qed

lemma skipNumber_unsigned:
  assumes "ji_rest it = millis_text k @ t # r" "ends_number t"
  shows "skipNumber np it = advance (length (millis_text k)) it"
proof -
  have d: "\<forall>c\<in>set (itoa (k div 1000)). digit c" "itoa (k div 1000) \<noteq> []" using digits_itoa [of "k div 1000"] by auto
  have "ji_rest it = itoa (k div 1000) @ drop (length (itoa (k div 1000))) (millis_text k) @ t # r" using assms(1) by (simp add: millis_text_eq)
  moreover have "length (itoa (k div 1000)) \<le> length (millis_text k)" by (simp add: millis_text_eq)
  moreover have "millis_text k \<noteq> []" using d(2) by (simp add: millis_text_eq)
  ultimately show ?thesis using trySkip_digits [OF d(1) assms(2), of k r] by (simp add: skipNumber_def Let_def)
qed

lemma skipNumber_millis:
  assumes "ji_rest it = millis_text k @ t # r" "ji_Error it = None" "k \<le> maxFloat64" "ends_number t"
  shows "skipNumber np (advance 1 it) = advance (length (millis_text k)) it"
proof -
  obtain c cs where c: "itoa (k div 1000) = c # cs" using digits_itoa by (cases "itoa (k div 1000)") auto
  have d: "\<forall>c\<in>set cs. digit c" using digits_itoa [of "k div 1000"] c by auto
  let ?n = "length cs + (length (millis_text k) - length (itoa (k div 1000)))"
  have rest: "ji_rest it = c # cs @ drop (length (itoa (k div 1000))) (millis_text k) @ t # r" using assms(1) c by (simp add: millis_text_eq)
  have len: "length (millis_text k) = 1 + ?n" using c by (simp add: millis_text_eq)
  have tried: "trySkipNumber False 0 (ji_rest (advance 1 it)) it' = (if ?n = 0 then (False, it') else (True, advance ?n it'))" for it'
    using trySkip_digits [OF d assms(4), of k r it'] rest by (simp only: Let_def) simp
  show ?thesis
  proof (cases "?n = 0")
    case False
    then show ?thesis using tried len by (simp only: skipNumber_def) simp
  next
    case True
    have "snd (ReadFloat64 np it) = advance (length (millis_text k)) it" using ReadFloat64_millis [OF assms] by simp
    moreover have "unreadByte (advance 1 it) = it" using rest assms(2) by (rule unreadByte_advance)
    ultimately show ?thesis using True tried assms(2) by (simp add: skipNumber_def failed_def)
  qed
qed

text \<open>The first byte of a value.\<close>

lemma json_text_hd: "json_text j \<noteq> [] \<and> \<not> is_space (hd (json_text j)) \<and> hd (json_text j) \<noteq> CHR '']''"
proof (cases j)
  case (JNum k)
  obtain c cs where "millis_text (nat k) = c # cs" "digit c" by (rule millis_hd)
  then show ?thesis using JNum digit_not by (auto simp: MarshalTimestamp_def digit_def is_space_def)
qed (auto simp: spelled_text_def quote_def is_space_def)

definition skips :: "number_parsers \<Rightarrow> json \<Rightarrow> bool" where
  "skips np j \<longleftrightarrow> (\<forall>n it r. 2 * left it + 2 \<le> n \<and> ji_Error it = None \<and> 0 \<le> ji_depth it \<and> ji_depth it + int (nesting j) \<le> 10000 \<and>
     ji_rest it = json_text j @ r \<and> delimited r \<longrightarrow> Skip n np it = advance (length (json_text j)) it)"

lemma skipsD:
  "skips np j \<Longrightarrow> 2 * left it + 2 \<le> n \<Longrightarrow> ji_Error it = None \<Longrightarrow> 0 \<le> ji_depth it \<Longrightarrow> ji_depth it + int (nesting j) \<le> 10000 \<Longrightarrow>
     ji_rest it = json_text j @ r \<Longrightarrow> delimited r \<Longrightarrow> Skip n np it = advance (length (json_text j)) it"
  unfolding skips_def by blast

lemma advance_depth: "advance n (it\<lparr>ji_depth := d\<rparr>) = (advance n it)\<lparr>ji_depth := d\<rparr>"
  by (simp add: advance_def)

lemma decrementDepth_ok: "0 < ji_depth it \<Longrightarrow> decrementDepth it = it\<lparr>ji_depth := ji_depth it - 1\<rparr>"
  by (simp add: decrementDepth_def)

lemma skip_elements_text:
  assumes "\<forall>j\<in>set (j # js). skips np j \<and> ji_depth it + int (nesting j) \<le> 10000" "2 * left it + 3 \<le> n" "ji_Error it = None" "0 < ji_depth it"
    and "ji_rest it = json_text j @ concat (map (\<lambda>j. CHR '','' # json_text j) js) @ CHR '']'' # r"
  shows "skip_elements n np it =
    (advance (length (json_text j @ concat (map (\<lambda>j. CHR '','' # json_text j) js)) + 1) it)\<lparr>ji_depth := ji_depth it - 1\<rparr>"
  using assms
proof (induction js arbitrary: j it n)
  case Nil
  obtain m where n: "n = Suc m" using Nil.prems(2) by (cases n) auto
  have s: "Skip m np it = advance (length (json_text j)) it" using Nil.prems n by (intro skipsD [where r = "CHR '']'' # r"]) auto
  have "nextToken (advance (length (json_text j)) it) = (CHR '']'', advance 1 (advance (length (json_text j)) it))"
    using Nil.prems(5) by (intro nextToken_char) (simp_all add: is_space_def)
  then show ?case using Nil.prems(4) n s by (simp add: skip_elements.simps decrementDepth_ok)
next
  case (Cons j' js)
  let ?rest = "json_text j' @ concat (map (\<lambda>j. CHR '','' # json_text j) js) @ CHR '']'' # r" and ?it = "advance (length (json_text j) + 1) it"
  obtain m where n: "n = Suc m" using Cons.prems(2) by (cases n) auto
  have s: "Skip m np it = advance (length (json_text j)) it" using Cons.prems n by (intro skipsD [where r = "CHR '','' # ?rest"]) auto
  have t: "nextToken (advance (length (json_text j)) it) = (CHR '','', advance 1 (advance (length (json_text j)) it))"
    using Cons.prems(5) by (intro nextToken_char) (simp_all add: is_space_def)
  have l: "left ?it < left it" using Cons.prems(5) by (simp add: left_def)
  have "skip_elements m np ?it = (advance (length (json_text j' @ concat (map (\<lambda>j. CHR '','' # json_text j) js)) + 1) ?it)\<lparr>ji_depth := ji_depth ?it - 1\<rparr>"
    using Cons.prems l n by (intro Cons.IH) auto
  then show ?case using n s t by (simp add: skip_elements.simps ac_simps)
qed

lemma skip_fields_text:
  assumes "\<forall>(k, j)\<in>set (kj # fs). skips np j \<and> ji_depth it + int (nesting j) \<le> 10000" "2 * left it + 3 \<le> n" "ji_Error it = None" "0 < ji_depth it"
    and "ji_rest it = field_text json_text kj @ concat (map (\<lambda>x. CHR '','' # field_text json_text x) fs) @ CHR ''}'' # r"
  shows "skip_fields n np it =
    (advance (length (field_text json_text kj @ concat (map (\<lambda>x. CHR '','' # field_text json_text x) fs)) + 1) it)\<lparr>ji_depth := ji_depth it - 1\<rparr>"
  using assms
proof (induction fs arbitrary: kj it n)
  case Nil
  obtain k j where kj: "kj = (k, j)" by (cases kj)
  obtain m where n: "n = Suc m" using Nil.prems(2) by (cases n) auto
  let ?f = "advance (length (json_string k) + 1) it"
  have f: "read_field it = (k, ?f)" using Nil.prems kj by (intro read_field_text) (simp_all add: field_text_def)
  have s: "Skip m np ?f = advance (length (json_text j)) ?f"
    using Nil.prems n kj by (intro skipsD [where r = "CHR ''}'' # r"]) (auto simp: field_text_def)
  have "nextToken (advance (length (json_text j)) ?f) = (CHR ''}'', advance 1 (advance (length (json_text j)) ?f))"
    using Nil.prems(5) kj by (intro nextToken_char) (simp_all add: is_space_def field_text_def)
  then show ?case using Nil.prems(4) n f s kj by (simp add: skip_fields.simps decrementDepth_ok field_text_def ac_simps)
next
  case (Cons kj' fs)
  obtain k j where kj: "kj = (k, j)" by (cases kj)
  obtain m where n: "n = Suc m" using Cons.prems(2) by (cases n) auto
  let ?rest = "field_text json_text kj' @ concat (map (\<lambda>x. CHR '','' # field_text json_text x) fs) @ CHR ''}'' # r"
  let ?f = "advance (length (json_string k) + 1) it" and ?it = "advance (length (field_text json_text kj) + 1) it"
  have f: "read_field it = (k, ?f)" using Cons.prems kj by (intro read_field_text) (simp_all add: field_text_def)
  have s: "Skip m np ?f = advance (length (json_text j)) ?f"
    using Cons.prems n kj by (intro skipsD [where r = "CHR '','' # ?rest"]) (auto simp: field_text_def)
  have t: "nextToken (advance (length (json_text j)) ?f) = (CHR '','', ?it)"
    using Cons.prems(5) kj nextToken_char [of "advance (length (json_text j)) ?f" "CHR '',''" ?rest] by (simp add: is_space_def field_text_def ac_simps)
  have l: "left ?it < left it" using Cons.prems(5) by (simp add: left_def)
  have "skip_fields m np ?it = (advance (length (field_text json_text kj' @ concat (map (\<lambda>x. CHR '','' # field_text json_text x) fs)) + 1) ?it)\<lparr>ji_depth := ji_depth ?it - 1\<rparr>"
    using Cons.prems l n by (intro Cons.IH) auto
  then show ?case using n f s t by (simp add: skip_fields.simps ac_simps)
qed

lemma skips_scalar:
  assumes "ji_rest it = json_text j @ r" "ji_Error it = None" "delimited r" "json_ok j" "\<nexists>js. j = JArr js" "\<nexists>fs. j = JObj fs"
  shows "Skip (Suc n) np it = advance (length (json_text j)) it"
proof (cases j)
  case JNull
  have "nextToken it = (CHR ''n'', advance 1 it)" using assms(1) JNull by (simp add: nextToken_char is_space_def)
  moreover have "skipThreeBytes ''ull'' (advance 1 it) = advance 3 (advance 1 it)"
    using assms(1) JNull skip_bytes_text [of "advance 1 it" "''ull''" r] by (simp add: skipThreeBytes_def numeral_3_eq_3)
  moreover have "length (json_text j) = 4" using JNull by simp
  ultimately show ?thesis by (simp add: Skip.simps quote_def)
next
  case (JBool b)
  show ?thesis
  proof (cases b)
    case True
    have "nextToken it = (CHR ''t'', advance 1 it)" using assms(1) JBool True by (simp add: nextToken_char is_space_def)
    moreover have "skipThreeBytes ''rue'' (advance 1 it) = advance 3 (advance 1 it)"
      using assms(1) JBool True skip_bytes_text [of "advance 1 it" "''rue''" r] by (simp add: skipThreeBytes_def numeral_3_eq_3)
    moreover have "length (json_text j) = 4" using JBool True by simp
    ultimately show ?thesis by (simp add: Skip.simps quote_def)
  next
    case False
    have "nextToken it = (CHR ''f'', advance 1 it)" using assms(1) JBool False by (simp add: nextToken_char is_space_def)
    moreover have "skipFourBytes ''alse'' (advance 1 it) = advance 4 (advance 1 it)"
      using assms(1) JBool False skip_bytes_text [of "advance 1 it" "''alse''" r] by (simp add: skipFourBytes_def eval_nat_numeral)
    moreover have "length (json_text j) = 5" using JBool False by simp
    ultimately show ?thesis by (simp add: Skip.simps quote_def)
  qed
next
  case (JNum k)
  obtain t r' where t: "r = t # r'" "ends_number t" using delimited_ends [OF assms(3)] by blast
  have rest: "ji_rest it = MarshalTimestamp k @ t # r'" "nat \<bar>k\<bar> \<le> maxFloat64" using assms(1,4) JNum t by simp_all
  show ?thesis
  proof (cases "k < 0")
    case True
    then have rest': "ji_rest it = CHR ''-'' # millis_text (nat (- k)) @ t # r'" using rest by (simp add: MarshalTimestamp_def)
    then have "nextToken it = (CHR ''-'', advance 1 it)" by (simp add: nextToken_char is_space_def)
    moreover have "skipNumber np (advance 1 it) = advance (length (millis_text (nat (- k)))) (advance 1 it)"
      using rest' t(2) by (intro skipNumber_unsigned [where t = t and r = r']) simp_all
    ultimately show ?thesis using JNum True by (simp add: Skip.simps MarshalTimestamp_def quote_def)
  next
    case False
    then have rest': "ji_rest it = millis_text (nat k) @ t # r'" "nat k \<le> maxFloat64" using rest by (simp_all add: MarshalTimestamp_def)
    obtain c cs where c: "millis_text (nat k) = c # cs" "digit c" by (rule millis_hd)
    have tok: "nextToken it = (c, advance 1 it)" using rest' c digit_not [OF c(2)] by (simp add: nextToken_char)
    have u: "unreadByte (advance 1 it) = it" using rest' c assms(2) by (intro unreadByte_advance) simp_all
    have "c \<noteq> quote" "c \<noteq> CHR ''n''" "c \<noteq> CHR ''t''" "c \<noteq> CHR ''f''" using c(2) by (auto simp: digit_def quote_def)
    then show ?thesis
      using tok u c(2) ReadFloat32_millis [OF rest'(1) assms(2) rest'(2) t(2), of np] skipNumber_millis [OF rest'(1) assms(2) rest'(2) t(2), of np] JNum False
      by (simp add: Skip.simps MarshalTimestamp_def)
  qed
next
  case (JStr s)
  have rest: "ji_rest it = quote # spelled_body s @ quote # r" using assms(1) JStr by (simp add: spelled_text_def)
  have tok: "nextToken it = (quote, advance 1 it)" using rest by (simp add: nextToken_char is_space_def quote_def)
  have "skipString (advance 1 it) = advance (length (spelled_body s) + 1) (advance 1 it)"
    using rest assms(2) by (intro skipString_text [where b = "ji_before it" and r = r]) (simp_all, simp add: advance_def)
  then show ?thesis using tok JStr by (simp add: Skip.simps spelled_text_def)
qed (use assms(5,6) in auto)

lemma skips_array:
  assumes "\<forall>j\<in>set js. skips np j"
  shows "skips np (JArr js)"
  unfolding skips_def
proof (intro allI impI; elim conjE)
  fix n it r
  assume a: "2 * left it + 2 \<le> n" "ji_Error it = None" "0 \<le> ji_depth it" "ji_depth it + int (nesting (JArr js)) \<le> 10000"
    "ji_rest it = json_text (JArr js) @ r" "delimited r"
  obtain m where n: "n = Suc m" using a(1) by (cases n) auto
  let ?d = "it\<lparr>ji_depth := ji_depth it + 1\<rparr>"
  obtain c r' where c: "ji_rest it = CHR ''['' # c # r'" "\<not> is_space c" using a(5) json_text_hd
    by (cases js) (auto simp: separated_Cons is_space_def neq_Nil_conv, metis append_Cons json_text_hd list.exhaust_sel)
  have tok: "nextToken it = (CHR ''['', advance 1 it)" using c by (simp add: nextToken_char is_space_def)
  have u: "unreadByte (advance 1 it) = it" using c a(2) by (intro unreadByte_advance)
  have inc: "incrementDepth (advance 1 it) = (True, advance 1 ?d)" using a(4) by (simp add: incrementDepth_def advance_depth Let_def)
  have tok2: "nextToken (advance 1 ?d) = (c, advance 1 (advance 1 ?d))" using c by (intro nextToken_char) simp_all
  have u2: "unreadByte (advance 1 (advance 1 ?d)) = advance 1 ?d" using c a(2) by (intro unreadByte_advance) simp_all
  show "Skip n np it = advance (length (json_text (JArr js))) it"
  proof (cases js)
    case Nil
    then have "c = CHR '']''" using c a(5) by simp
    then show ?thesis using Nil n tok u inc tok2 a(3)
      by (simp add: Skip.simps quote_def digit_def decrementDepth_ok advance_depth numeral_2_eq_2 Let_def)
  next
    case (Cons j js')
    have "c \<noteq> CHR '']''" using c(1) a(5) Cons json_text_hd [of j] by (auto simp: separated_Cons hd_append neq_Nil_conv)
    moreover have "skip_elements m np (advance 1 ?d) =
        (advance (length (json_text j @ concat (map (\<lambda>j. CHR '','' # json_text j) js')) + 1) (advance 1 ?d))\<lparr>ji_depth := ji_depth (advance 1 ?d) - 1\<rparr>"
      using a n Cons assms nesting_member(1) [of _ js] c
      by (intro skip_elements_text [where r = r]) (fastforce simp: left_def separated_Cons o_def)+
    ultimately show ?thesis using n tok u inc tok2 u2 Cons
      by (simp add: Skip.simps quote_def digit_def advance_depth Let_def separated_Cons o_def ac_simps)
  qed
qed

lemma skips_object:
  assumes "\<forall>(k, j)\<in>set fs. skips np j"
  shows "skips np (JObj fs)"
  unfolding skips_def
proof (intro allI impI; elim conjE)
  fix n it r
  assume a: "2 * left it + 2 \<le> n" "ji_Error it = None" "0 \<le> ji_depth it" "ji_depth it + int (nesting (JObj fs)) \<le> 10000"
    "ji_rest it = json_text (JObj fs) @ r" "delimited r"
  obtain m where n: "n = Suc m" using a(1) by (cases n) auto
  let ?d = "it\<lparr>ji_depth := ji_depth it + 1\<rparr>"
  have txt_eq: "json_text (JObj fs) = ''{'' @ separated (map (field_text json_text) fs) @ ''}''" by (simp add: field_text_def)
  define c where "c = (if fs = [] then CHR ''}'' else quote)"
  obtain r' where c: "ji_rest it = CHR ''{'' # c # r'" using a(5) by (cases fs) (auto simp: c_def separated_Cons json_string_hd)
  have sp: "\<not> is_space c" by (simp add: c_def is_space_def quote_def)
  have tok: "nextToken it = (CHR ''{'', advance 1 it)" using c by (simp add: nextToken_char is_space_def)
  have u: "unreadByte (advance 1 it) = it" using c a(2) by (intro unreadByte_advance)
  have inc: "incrementDepth (advance 1 it) = (True, advance 1 ?d)" using a(4) by (simp add: incrementDepth_def advance_depth Let_def)
  have tok2: "nextToken (advance 1 ?d) = (c, advance 1 (advance 1 ?d))" using c sp by (intro nextToken_char) simp_all
  have u2: "unreadByte (advance 1 (advance 1 ?d)) = advance 1 ?d" using c a(2) by (intro unreadByte_advance) simp_all
  show "Skip n np it = advance (length (json_text (JObj fs))) it"
  proof (cases fs)
    case Nil
    then show ?thesis using n tok u inc tok2 a(3) unfolding c_def
      by (simp add: Skip.simps quote_def digit_def decrementDepth_ok advance_depth numeral_2_eq_2 Let_def)
  next
    case (Cons kj fs')
    have "skip_fields m np (advance 1 ?d) =
        (advance (length (field_text json_text kj @ concat (map (\<lambda>x. CHR '','' # field_text json_text x) fs')) + 1) (advance 1 ?d))\<lparr>ji_depth := ji_depth (advance 1 ?d) - 1\<rparr>"
      using a n Cons assms nesting_member(2) [of _ _ fs] c unfolding txt_eq
      by (intro skip_fields_text [where r = r]) (fastforce simp: left_def separated_Cons o_def)+
    then show ?thesis using n tok u inc tok2 u2 Cons unfolding c_def txt_eq
      by (simp add: Skip.simps quote_def digit_def advance_depth Let_def separated_Cons o_def ac_simps)
  qed
qed

lemma scalar_skips:
  assumes "json_ok j" "\<nexists>js. j = JArr js" "\<nexists>fs. j = JObj fs"
  shows "skips np j"
  unfolding skips_def
proof (intro allI impI; elim conjE)
  fix n it r
  assume a: "2 * left it + 2 \<le> n" "ji_Error it = None" "ji_rest it = json_text j @ r" "delimited r"
  obtain m where n: "n = Suc m" using a(1) by (cases n) auto
  show "Skip n np it = advance (length (json_text j)) it" unfolding n using a(3,2,4) assms by (rule skips_scalar)
qed

lemma json_ok_skips: "json_ok j \<Longrightarrow> skips np j"
proof (induction j rule: json_ok.induct)
  case (2 js)
  then show ?case by (intro skips_array) (auto simp: list_all_iff)
next
  case (3 fs)
  then show ?case by (intro skips_object) (auto simp: list_all_iff)
qed (rule scalar_skips; simp)+

end
