(* ===== verification/Promxy_Decode.thy ===== *)
theory Promxy_Decode
  imports Promxy_Client Promxy_JsonText
begin

text \<open>
  The decoder of query responses (\<open>src/pkg/promapi/decode.go\<close>): it reads the bytes
  of a response with the iterator straight into a series set. \<open>um\<close> is \<open>Unmarshal\<close> into a
  \<open>model.SampleHistogram\<close>. The writer of the responses is the JSON codec of Prometheus
  (\<open>vendor/.../web/api/v1/json_codec.go\<close>, \<open>vendor/.../util/jsonutil/marshal.go\<close>).
\<close>

section \<open>Samples\<close>

definition decodeSamplePair :: "number_parsers \<Rightarrow> iter \<Rightarrow> (int \<times> f64) \<times> iter" where
  "decodeSamplePair np it =
     (let (_, it) = ReadArray it;
          (ts, it) = ReadFloat64 np it;
          (_, it) = ReadArray it;
          (vs, it) = ReadString it;
          (_, it) = ReadArray it;
          (f, err) = np_ParseFloat np vs
      in ((millis_of_seconds ts, f), case err of None \<Rightarrow> it | Some e \<Rightarrow> ReportError ''decodeSamplePair'' e it))"

definition decodeHistogramPair ::
  "number_parsers \<Rightarrow> (string \<Rightarrow> string + sample_histogram) \<Rightarrow> iter \<Rightarrow> (int \<times> float_histogram option) \<times> iter"
where
  "decodeHistogramPair np um it =
     (let (_, it) = ReadArray it;
          (ts, it) = ReadFloat64 np it;
          (_, it) = ReadArray it;
          (objBytes, it) = SkipAndReturnBytes np it;
          (_, it) = ReadArray it
      in case um objBytes of
           Inl err \<Rightarrow> ((millis_of_seconds ts, None), ReportError ''decodeHistogramPair'' err it)
         | Inr sh \<Rightarrow> ((millis_of_seconds ts, promapi_sampleHistogramToFloatHistogram (Some sh)), it))"

section \<open>Results\<close>

text \<open>The labels of the builder in the order they were added.\<close>

definition readMetric :: "labelset \<Rightarrow> iter \<Rightarrow> labelset \<times> iter" where
  "readMetric b it = for_object (\<lambda>name b it. let (v, it) = ReadString it in (b @ [(name, v)], it)) b it"

definition builder_Labels :: "labelset \<Rightarrow> labelset" where
  "builder_Labels b = sort_key fst b"

definition vector_field ::
  "number_parsers \<Rightarrow> (string \<Rightarrow> string + sample_histogram) \<Rightarrow> string \<Rightarrow> labelset \<times> sample option \<Rightarrow> iter \<Rightarrow> (labelset \<times> sample option) \<times> iter"
where
  "vector_field np um k = (\<lambda>(b, sample) it.
     if k = ''metric'' then (let (b, it) = readMetric b it in ((b, sample), it))
     else if k = ''value'' then (let ((t, f), it) = decodeSamplePair np it in ((b, Some (FloatSample t f)), it))
     else if k = ''histogram'' then (let ((t, fh), it) = decodeHistogramPair np um it in ((b, Some (HistogramSample t fh)), it))
     else ((b, sample), skip np it))"

text \<open>An entry without a sample ends the loop.\<close>

function decodeVector ::
  "number_parsers \<Rightarrow> (string \<Rightarrow> string + sample_histogram) \<Rightarrow> series list \<Rightarrow> iter \<Rightarrow> series list \<times> iter"
where
  "decodeVector np um out it =
     (let (b, it1) = ReadArray it
      in if \<not> b then (out, it1)
         else let ((b, sample), it2) = for_object (vector_field np um) ([], None) it1
              in case sample of
                   None \<Rightarrow> ([], ReportError ''decodeVector'' (''result entry has neither a '' @ [quote] @ ''value'' @ [quote] @ '' nor a '' @ [quote] @ ''histogram'' @ [quote]) it2)
                 | Some s \<Rightarrow>
                     let out = out @ [NewSeries (builder_Labels b) [s]]
                     in if left it2 < left it then decodeVector np um out it2 else (out, it2))"
  by pat_completeness auto
termination by (relation "measure (\<lambda>(_, _, _, it). left it)") (auto split: prod.split)

declare decodeVector.simps [simp del]

definition matrix_field ::
  "number_parsers \<Rightarrow> (string \<Rightarrow> string + sample_histogram) \<Rightarrow> string \<Rightarrow> labelset \<times> sample list \<times> bool \<Rightarrow> iter \<Rightarrow> (labelset \<times> sample list \<times> bool) \<times> iter"
where
  "matrix_field np um k = (\<lambda>(b, samples, hadHist) it.
     if k = ''metric'' then (let (b, it) = readMetric b it in ((b, samples, hadHist), it))
     else if k = ''values''
     then (let (samples, it) = for_array (\<lambda>samples it. let ((t, f), it) = decodeSamplePair np it in (samples @ [FloatSample t f], it)) samples it
           in ((b, samples, hadHist), it))
     else if k = ''histograms''
     then (let (samples, it) = for_array (\<lambda>samples it. let ((t, fh), it) = decodeHistogramPair np um it in (samples @ [HistogramSample t fh], it)) samples it
           in ((b, samples, True), it))
     else ((b, samples, hadHist), skip np it))"

definition matrix_entry ::
  "number_parsers \<Rightarrow> (string \<Rightarrow> string + sample_histogram) \<Rightarrow> series list \<Rightarrow> iter \<Rightarrow> series list \<times> iter"
where
  "matrix_entry np um out it =
     (let ((b, samples, hadHist), it) = for_object (matrix_field np um) ([], [], False) it;
          samples = (if hadHist then sort_key sample_T samples else samples)
      in (out @ [NewSeries (builder_Labels b) samples], it))"

definition decodeMatrix :: "number_parsers \<Rightarrow> (string \<Rightarrow> string + sample_histogram) \<Rightarrow> iter \<Rightarrow> series list \<times> iter" where
  "decodeMatrix np um it = for_array (matrix_entry np um) [] it"

text \<open>\<open>iter.Error\<close> as the error of the call.\<close>

definition iter_go_error :: "iter \<Rightarrow> go_error option" where
  "iter_go_error it = map_option (\<lambda>e. case e of EOF \<Rightarrow> OtherError ''EOF'' | Reported m \<Rightarrow> OtherError m) (ji_Error it)"

definition decodeResult ::
  "number_parsers \<Rightarrow> (string \<Rightarrow> string + sample_histogram) \<Rightarrow> (string \<Rightarrow> bool) \<Rightarrow> string \<Rightarrow> string \<Rightarrow> series list \<times> go_error option"
where
  "decodeResult np um isPrint resultType body =
     (if body = [] then ([], None)
      else let it = BorrowIterator body
           in if resultType = ''vector'' then map_prod id iter_go_error (decodeVector np um [] it)
              else if resultType = ''matrix'' then map_prod id iter_go_error (decodeMatrix np um it)
              else if resultType = ''scalar''
              then (let ((t, f), it) = decodeSamplePair np it in ([NewSeries [] [FloatSample t f]], iter_go_error it))
              else if resultType = ''string'' then ([], None)
              else ([], Some (OtherError (''unknown result type '' @ Quote isPrint resultType))))"

section \<open>Responses\<close>

record response =
  rs_status :: string
  rs_errType :: string
  rs_errMsg :: string
  rs_resultType :: string
  rs_result :: string
  rs_anns :: annotations

definition no_response :: response where
  "no_response = \<lparr>rs_status = [], rs_errType = [], rs_errMsg = [], rs_resultType = [], rs_result = [], rs_anns = []\<rparr>"

definition read_annotations :: "annotations \<Rightarrow> iter \<Rightarrow> annotations \<times> iter" where
  "read_annotations anns it =
     for_array (\<lambda>anns it. let (s, it) = ReadString it in (annotations_Add (toAnnotationError s) anns, it)) anns it"

definition data_field :: "number_parsers \<Rightarrow> string \<Rightarrow> response \<Rightarrow> iter \<Rightarrow> response \<times> iter" where
  "data_field np dk rs it =
     (if dk = ''resultType'' then (let (s, it) = ReadString it in (rs\<lparr>rs_resultType := s\<rparr>, it))
      else if dk = ''result'' then (let (bs, it) = SkipAndReturnBytes np it in (rs\<lparr>rs_result := bs\<rparr>, it))
      else (rs, skip np it))"

definition response_field :: "number_parsers \<Rightarrow> string \<Rightarrow> response \<Rightarrow> iter \<Rightarrow> response \<times> iter" where
  "response_field np key rs it =
     (if key = ''status'' then (let (s, it) = ReadString it in (rs\<lparr>rs_status := s\<rparr>, it))
      else if key = ''errorType'' then (let (s, it) = ReadString it in (rs\<lparr>rs_errType := s\<rparr>, it))
      else if key = ''error'' then (let (s, it) = ReadString it in (rs\<lparr>rs_errMsg := s\<rparr>, it))
      else if key = ''warnings'' \<or> key = ''infos''
      then (let (anns, it) = read_annotations (rs_anns rs) it in (rs\<lparr>rs_anns := anns\<rparr>, it))
      else if key = ''data'' then for_object (data_field np) rs it
      else (rs, skip np it))"

definition DecodeSeriesSet ::
  "number_parsers \<Rightarrow> (string \<Rightarrow> string + sample_histogram) \<Rightarrow> (string \<Rightarrow> bool) \<Rightarrow> string \<Rightarrow> series_set"
where
  "DecodeSeriesSet np um isPrint body =
     (let (rs, it) = for_object (response_field np) no_response (BorrowIterator body)
      in case ji_Error it of
           Some (Reported m) \<Rightarrow> NewSeriesSet [] (rs_anns rs) (Some (ResponseError badResponse m))
         | _ \<Rightarrow>
             if rs_status rs = ''error'' then NewSeriesSet [] (rs_anns rs) (Some (ResponseError (rs_errType rs) (rs_errMsg rs)))
             else (case decodeResult np um isPrint (rs_resultType rs) (rs_result rs) of
                     (series, None) \<Rightarrow> NewSeriesSet series (rs_anns rs) None
                   | (_, Some err) \<Rightarrow> NewSeriesSet [] (rs_anns rs) (Some err)))"

section \<open>No body of the decoder moves back\<close>

lemma left_ReadArray [left_le]: "left (snd (ReadArray it)) \<le> left it"
  using ReadArray_left(1) by (cases "ReadArray it") auto

lemma left_decodeSamplePair [left_le]: "left (snd (decodeSamplePair np it)) \<le> left it"
proof -
  define it1 it2 it3 it4 it5 where "it1 = snd (ReadArray it)" "it2 = snd (ReadFloat64 np it1)" "it3 = snd (ReadArray it2)"
    "it4 = snd (ReadString it3)" "it5 = snd (ReadArray it4)"
  note its = this
  have "left it5 \<le> left it"
    using left_ReadArray [of it] left_ReadFloat64 [of np it1] left_ReadArray [of it2] left_ReadString [of it3] left_ReadArray [of it4] unfolding its by linarith
  then show ?thesis by (simp add: decodeSamplePair_def its case_prod_beta Let_def split: option.split)
qed

lemma left_decodeHistogramPair [left_le]: "left (snd (decodeHistogramPair np um it)) \<le> left it"
proof -
  define it1 it2 it3 it4 it5 where "it1 = snd (ReadArray it)" "it2 = snd (ReadFloat64 np it1)" "it3 = snd (ReadArray it2)"
    "it4 = snd (SkipAndReturnBytes np it3)" "it5 = snd (ReadArray it4)"
  note its = this
  have "left it5 \<le> left it"
    using left_ReadArray [of it] left_ReadFloat64 [of np it1] left_ReadArray [of it2] left_SkipAndReturnBytes [of np it3] left_ReadArray [of it4] unfolding its by linarith
  then show ?thesis by (simp add: decodeHistogramPair_def its case_prod_beta Let_def split: sum.split)
qed

lemma left_snd_case [simp]: "left (snd (case p of (x, it) \<Rightarrow> (f x, it))) = left (snd p)"
  by (simp split: prod.split)

lemma left_snd_case2 [simp]: "left (snd (case p of (x, it) \<Rightarrow> (case x of (a, b) \<Rightarrow> \<lambda>it. (f a b, it)) it)) = left (snd p)"
  by (simp split: prod.split)

lemma left_readMetric [left_le]: "left (snd (readMetric b it)) \<le> left it"
  unfolding readMetric_def by (rule for_object_left) (simp add: left_le)

lemma left_vector_field [left_le]: "left (snd (vector_field np um k s it)) \<le> left it"
  by (cases s) (simp add: vector_field_def left_le)

lemma left_float_body [left_le]: "left (snd (for_array (\<lambda>samples it. let ((t, f), it) = decodeSamplePair np it in (samples @ [FloatSample t f], it)) s it)) \<le> left it"
  by (rule for_array_left) (simp add: left_le)

lemma left_histogram_body [left_le]: "left (snd (for_array (\<lambda>samples it. let ((t, fh), it) = decodeHistogramPair np um it in (samples @ [HistogramSample t fh], it)) s it)) \<le> left it"
  by (rule for_array_left) (simp add: left_le)

lemma left_matrix_field [left_le]: "left (snd (matrix_field np um k s it)) \<le> left it"
  by (cases s) (use left_float_body left_histogram_body in \<open>simp add: matrix_field_def left_le\<close>)

lemma left_matrix_entry [left_le]: "left (snd (matrix_entry np um out it)) \<le> left it"
  using for_object_left [of "matrix_field np um" "([], [], False)" it] left_matrix_field
  by (cases "for_object (matrix_field np um) ([], [], False) it") (auto simp: matrix_entry_def)

lemma left_read_annotations [left_le]: "left (snd (read_annotations anns it)) \<le> left it"
  unfolding read_annotations_def by (rule for_array_left) (simp add: left_le)

lemma left_data_field [left_le]: "left (snd (data_field np dk rs it)) \<le> left it"
  by (simp add: data_field_def left_le)

lemma left_response_field [left_le]: "left (snd (response_field np key rs it)) \<le> left it"
  using for_object_left [of "data_field np" rs it] by (simp add: response_field_def left_le)

section \<open>Reading samples and labels\<close>

lemma skip_text: "json_ok j \<Longrightarrow> nesting j \<le> 10000 \<Longrightarrow> clean it \<Longrightarrow> ji_rest it = json_text j @ r \<Longrightarrow> delimited r \<Longrightarrow> skip np it = advance (length (json_text j)) it"
  unfolding skip_def by (rule skipsD [OF json_ok_skips]) (auto simp: clean_def)

lemma SkipAndReturnBytes_text:
  assumes "json_ok j" "nesting j \<le> 10000" "clean it" "ji_rest it = json_text j @ r" "delimited r"
  shows "SkipAndReturnBytes np it = (json_text j, advance (length (json_text j)) it)"
  using skip_text [OF assms] assms(4) by (simp add: SkipAndReturnBytes_def advance_def rev_take)

lemma time_hd: "MarshalTimestamp k = c # cs \<Longrightarrow> \<not> is_space c \<and> c \<noteq> CHR '']''"
  using json_text_hd [of "JNum k"] by simp

text \<open>The clock reading of a sample sent with the time \<open>k\<close> milliseconds.\<close>

definition decoded_time :: "int \<Rightarrow> int" where
  "decoded_time k = millis_of_seconds (seconds_of k)"

lemma decodeSamplePair_text:
  assumes "clean it" "ji_rest it = json_text (JArr [JNum k, JStr v]) @ r" "nat \<bar>k\<bar> \<le> maxFloat64" "np_ParseFloat np (spelled_value v) = (f, None)"
  shows "decodeSamplePair np it = ((decoded_time k, f), advance (length (json_text (JArr [JNum k, JStr v]))) it)"
proof -
  let ?t = "length (MarshalTimestamp k)" and ?s = "length (spelled_text v)"
  have rest: "ji_rest it = CHR ''['' # MarshalTimestamp k @ CHR '','' # spelled_text v @ CHR '']'' # r" using assms(2) by simp
  obtain c cs where c: "MarshalTimestamp k = c # cs" using json_text_hd [of "JNum k"] by (cases "MarshalTimestamp k") auto
  have e: "ji_Error (advance n it) = None" for n using assms(1) by (simp add: clean_def)
  have 1: "ReadArray it = (True, advance 1 it)" using rest c time_hd [OF c] e [of 0] by (intro ReadArray_open) auto
  have 2: "ReadFloat64 np (advance 1 it) = (seconds_of k, advance ?t (advance 1 it))"
    using rest assms(3) e by (intro ReadFloat64_time [where t = "CHR '',''"]) (simp_all add: ends_number_def)
  have 3: "ReadArray (advance ?t (advance 1 it)) = (True, advance 1 (advance ?t (advance 1 it)))"
    using rest by (intro ReadArray_comma) simp
  have 4: "ReadString (advance (Suc (Suc ?t)) it) = (spelled_value v, advance ?s (advance (Suc (Suc ?t)) it))"
    using rest e by (intro ReadString_text [where r = "CHR '']'' # r"]) simp_all
  have 5: "ReadArray (advance ?s (advance (Suc (Suc ?t)) it)) = (False, advance 1 (advance ?s (advance (Suc (Suc ?t)) it)))"
    using rest by (intro ReadArray_close) simp
  show ?thesis using 1 2 3 4 5 assms(4) by (simp add: decodeSamplePair_def decoded_time_def ac_simps)
qed

lemma decodeHistogramPair_text:
  assumes "clean it" "ji_rest it = json_text (JArr [JNum k, h]) @ r" "nat \<bar>k\<bar> \<le> maxFloat64" "json_ok h" "nesting h \<le> 10000" "um (json_text h) = Inr sh"
  shows "decodeHistogramPair np um it =
    ((decoded_time k, promapi_sampleHistogramToFloatHistogram (Some sh)), advance (length (json_text (JArr [JNum k, h]))) it)"
proof -
  let ?t = "length (MarshalTimestamp k)" and ?s = "length (json_text h)"
  have rest: "ji_rest it = CHR ''['' # MarshalTimestamp k @ CHR '','' # json_text h @ CHR '']'' # r" using assms(2) by simp
  obtain c cs where c: "MarshalTimestamp k = c # cs" using json_text_hd [of "JNum k"] by (cases "MarshalTimestamp k") auto
  have e: "ji_Error (advance n it) = None" for n using assms(1) by (simp add: clean_def)
  have 1: "ReadArray it = (True, advance 1 it)" using rest c time_hd [OF c] e [of 0] by (intro ReadArray_open) auto
  have 2: "ReadFloat64 np (advance 1 it) = (seconds_of k, advance ?t (advance 1 it))"
    using rest assms(3) e by (intro ReadFloat64_time [where t = "CHR '',''"]) (simp_all add: ends_number_def)
  have 3: "ReadArray (advance ?t (advance 1 it)) = (True, advance 1 (advance ?t (advance 1 it)))"
    using rest by (intro ReadArray_comma) simp
  have 4: "SkipAndReturnBytes np (advance (Suc (Suc ?t)) it) = (json_text h, advance ?s (advance (Suc (Suc ?t)) it))"
    using rest assms by (intro SkipAndReturnBytes_text [where r = "CHR '']'' # r"]) simp_all
  have 5: "ReadArray (advance ?s (advance (Suc (Suc ?t)) it)) = (False, advance 1 (advance ?s (advance (Suc (Suc ?t)) it)))"
    using rest by (intro ReadArray_close) simp
  show ?thesis using 1 2 3 4 5 assms(6) by (simp add: decodeHistogramPair_def decoded_time_def ac_simps)
qed

section \<open>Reading objects field by field\<close>

text \<open>The fields of an object with the text of each value and the change its reading makes.\<close>

definition object_text :: "(string \<times> string \<times> 'x) list \<Rightarrow> string" where
  "object_text fs = ''{'' @ separated (map (\<lambda>(k, t, _). json_string k @ '':'' @ t) fs) @ ''}''"

lemma for_object_fields:
  assumes "\<And>k s it. left (snd (body k s it)) \<le> left it" "\<And>k t f s. (k, t, f) \<in> set fs \<Longrightarrow> reads (body k s) t (f s)"
    and "clean it" "ji_rest it = object_text fs @ r" "[] \<notin> fst ` set fs"
  shows "for_object body s it = (fold (\<lambda>(_, _, f). f) fs s, advance (length (object_text fs)) it)"
proof -
  have eq: "object_text fs = ''{'' @ separated (map (field_text fst) fs) @ ''}''"
    by (simp add: object_text_def field_text_def) (auto intro!: arg_cong [where f = separated])
  have "for_object body s it = (fold (\<lambda>(k, x). snd x) fs s, advance (length (separated (map (field_text fst) fs)) + 2) it)"
    using assms unfolding eq by (intro for_object_text [where t = fst and f = "\<lambda>k. snd" and r = r]) auto
  moreover have "fold (\<lambda>(k, x). snd x) fs s = fold (\<lambda>(_, _, f). f) fs s" by (induction fs arbitrary: s) auto
  ultimately show ?thesis unfolding eq by simp
qed

lemma object_reads:
  assumes "\<And>k s it. left (snd (body k s it)) \<le> left it" "\<And>k t f s. (k, t, f) \<in> set fs \<Longrightarrow> reads (body k s) t (f s)" "[] \<notin> fst ` set fs"
  shows "reads (for_object body s) (object_text fs) (fold (\<lambda>(_, _, f). f) fs s)"
  unfolding reads_def using for_object_fields [where body = body and fs = fs and s = s] assms by (fastforce simp: object_text_def is_space_def)

lemma array_reads:
  assumes "\<And>s it. left (snd (body s it)) \<le> left it" "\<And>x s. x \<in> set xs \<Longrightarrow> reads (body s) (t x) (f x s)"
  shows "reads (for_array body s) (''['' @ separated (map t xs) @ '']'') (fold f xs s)"
  unfolding reads_def using for_array_text [OF assms] by (auto simp: is_space_def)

lemma string_reads: "reads ReadString (spelled_text s) (spelled_value s)"
  unfolding reads_def using ReadString_text [of _ s] by (auto simp: spelled_text_def is_space_def quote_def clean_def)

lemma plain_reads: "reads ReadString (json_string s) s"
  using string_reads [of "plain s"] by simp

lemma skip_reads: "json_ok j \<Longrightarrow> nesting j \<le> 10000 \<Longrightarrow> reads (\<lambda>it. (s, skip np it)) (json_text j) s"
  unfolding reads_def using skip_text [of j] json_text_hd [of j] by auto

lemma bytes_reads: "json_ok j \<Longrightarrow> nesting j \<le> 10000 \<Longrightarrow> reads (SkipAndReturnBytes np) (json_text j) (json_text j)"
  unfolding reads_def using SkipAndReturnBytes_text [of j] json_text_hd [of j] by auto

lemma sample_reads: "nat \<bar>k\<bar> \<le> maxFloat64 \<Longrightarrow> np_ParseFloat np (spelled_value v) = (f, None) \<Longrightarrow> reads (decodeSamplePair np) (json_text (JArr [JNum k, JStr v])) (decoded_time k, f)"
  unfolding reads_def using decodeSamplePair_text [of _ k v] json_text_hd [of "JArr [JNum k, JStr v]"] by blast

lemma histogram_reads:
  "nat \<bar>k\<bar> \<le> maxFloat64 \<Longrightarrow> json_ok h \<Longrightarrow> nesting h \<le> 10000 \<Longrightarrow> um (json_text h) = Inr sh \<Longrightarrow>
   reads (decodeHistogramPair np um) (json_text (JArr [JNum k, h])) (decoded_time k, promapi_sampleHistogramToFloatHistogram (Some sh))"
  unfolding reads_def using decodeHistogramPair_text [of _ k h _ um sh np] json_text_hd [of "JArr [JNum k, h]"] by blast

text \<open>Reading with what is done with the value.\<close>

lemma reads_map: "reads f t v \<Longrightarrow> reads (\<lambda>it. let (x, it) = f it in (g x, it)) t (g v)"
  unfolding reads_def by simp

lemma reads_map2: "reads f t (u, v) \<Longrightarrow> reads (\<lambda>it. let ((x, y), it) = f it in (g x y, it)) t (g u v)"
  unfolding reads_def by simp

lemma reads_cong: "(\<And>it. f it = f' it) \<Longrightarrow> reads f t v = reads f' t v"
  by (simp add: reads_def)

section \<open>Times\<close>

lemma f64_sign_unat: "f64_sign x \<longleftrightarrow> 2 ^ 63 \<le> unat x"
proof -
  have b: "unat x < 2 ^ 64" using unsigned_less [of x, where ?'a = nat] by simp
  have "unat x div 2 ^ 63 = (if 2 ^ 63 \<le> unat x then 1 else 0)"
  proof (cases "2 ^ 63 \<le> unat x")
    case True
    then have "unat x div 2 ^ 63 = Suc ((unat x - 2 ^ 63) div 2 ^ 63)" by (simp add: le_div_geq)
    then show ?thesis using b True by simp
  qed simp
  then show ?thesis by (simp add: f64_fields_unat(3))
qed

lemma f64_neg_fields:
  assumes "\<not> f64_sign x"
  shows "f64_fraction (f64_neg x) = f64_fraction x" "f64_sign (f64_neg x)" "f64_exponent (f64_neg x) = f64_exponent x"
proof -
  have x: "unat x < 2 ^ 63" using assms by (simp add: f64_sign_unat)
  have "unat (0x8000000000000000 :: f64) = 2 ^ 63" by simp
  then have u: "unat (f64_neg x) = unat x + 2 ^ 63" using x unfolding f64_neg_def by (subst unat_plus_simple [THEN iffD1]) (simp_all add: word_le_nat_alt unat_word_ariths)
  have e: "f64_exponent (f64_neg x) = f64_exponent x" "f64_mantissa (f64_neg x) = f64_mantissa x"
  proof -
    have q: "(unat x + m * d) div d = m + unat x div d" "(unat x + m * d) mod d = unat x mod d" if "d \<noteq> 0" for m d using that by simp_all
    have "(unat x + 2 ^ 11 * 2 ^ 52) div 2 ^ 52 mod 2 ^ 11 = unat x div 2 ^ 52 mod 2 ^ 11" "(unat x + 2 ^ 11 * 2 ^ 52) mod 2 ^ 52 = unat x mod 2 ^ 52"
      unfolding q(1) [of "2 ^ 52", OF power_not_zero [OF zero_neq_numeral [symmetric]]] by (simp, rule q(2), simp)
    then show "f64_exponent (f64_neg x) = f64_exponent x" "f64_mantissa (f64_neg x) = f64_mantissa x" unfolding f64_fields_unat u by simp_all
  qed
  then show "f64_fraction (f64_neg x) = f64_fraction x" "f64_exponent (f64_neg x) = f64_exponent x" by (simp_all add: f64_fraction_def Let_def)
  show "f64_sign (f64_neg x)" by (simp add: f64_sign_unat u)
qed

lemma f64_round_sign: "\<not> f64_sign (f64_round False n d)" "f64_round True n d = f64_neg (f64_round False n d)"
proof -
  have "\<not> f64_sign (of_nat (min b (2047 * 2 ^ 52)))" for b
    by (simp add: f64_sign_unat unat_of_nat take_bit_nat_eq_self min_def)
  moreover have "\<not> f64_sign 0" by (simp add: f64_sign_unat)
  ultimately show "\<not> f64_sign (f64_round False n d)" by (simp add: f64_round_def Let_def del: min_def)
  show "f64_round True n d = f64_neg (f64_round False n d)" by (simp add: f64_round_def f64_neg_def add.commute)
qed

lemma int64_of_f64_neg: "\<not> f64_sign p \<Longrightarrow> 0 \<le> int64_of_f64 p \<Longrightarrow> int64_of_f64 (f64_neg p) = - int64_of_f64 p"
  by (cases "f64_fraction p") (auto simp: int64_of_f64_def f64_neg_fields Let_def split: if_splits)

lemma millis_of_seconds_neg:
  assumes "\<not> f64_sign ts" "0 \<le> millis_of_seconds ts"
  shows "millis_of_seconds (f64_neg ts) = - millis_of_seconds ts"
proof -
  have c: "\<not> f64_sign (f64_of_nat 1000)" using f64_round_sign(1) by (simp add: f64_of_nat_def)
  have "f64_mul (f64_neg ts) (f64_of_nat 1000) = f64_neg (f64_mul ts (f64_of_nat 1000))" "\<not> f64_sign (f64_mul ts (f64_of_nat 1000))"
    using c assms(1) f64_neg_fields [OF assms(1)] f64_round_sign by (simp_all add: f64_mul_def split: prod.split)
  then show ?thesis using assms(2) int64_of_f64_neg by (simp add: millis_of_seconds_def)
qed

lemma seconds_read_real:
  assumes "0 < k" "k < 2 ^ 51"
  shows "\<not> f64_sign (seconds_read k)" "\<bar>f64_real (seconds_read k) - real k / 1000\<bar> \<le> real k / 1000 / 2 ^ 53"
    "1000 dvd k \<Longrightarrow> f64_real (seconds_read k) = real k / 1000"
    "2 ^ 40 < k \<Longrightarrow> k < 2147483648000 \<Longrightarrow> \<bar>f64_real (seconds_read k) - real k / 1000\<bar> \<le> 1 / 8388608"
proof -
  have c: "f64_real (f64_of_nat 1000) = 1000" "\<not> f64_sign (f64_of_nat 1000)" using f64_of_nat_exact [of 1000] by simp_all
  have x: "f64_real (f64_of_nat k) = real k" "\<not> f64_sign (f64_of_nat k)" using f64_of_nat_exact [of k] assms by simp_all
  have k: "1 \<le> real k" "real k \<le> 2251799813685248" using assms by simp_all
  have whole: "f64_real (seconds_read k) = real k / 1000 \<and> \<not> f64_sign (seconds_read k)" if d: "1000 dvd k"
  proof -
    obtain s where s: "k = 1000 * s" using d by (elim dvdE)
    then show ?thesis using f64_of_nat_exact [of s] assms by (simp add: seconds_read_def)
  qed
  have part: "\<not> f64_sign (seconds_read k)" "\<bar>f64_real (seconds_read k) - real k / 1000\<bar> \<le> real k / 1000 / 2 ^ 53" if "\<not> 1000 dvd k"
    using that f64_div_real [OF x(2) c(2)] k by (simp_all add: seconds_read_def mod_eq_0_iff_dvd x c)
  show "\<not> f64_sign (seconds_read k)" "1000 dvd k \<Longrightarrow> f64_real (seconds_read k) = real k / 1000" using whole part by blast+
  show "\<bar>f64_real (seconds_read k) - real k / 1000\<bar> \<le> real k / 1000 / 2 ^ 53" using whole part by fastforce
  assume r: "2 ^ 40 < k" "k < 2147483648000"
  show "\<bar>f64_real (seconds_read k) - real k / 1000\<bar> \<le> 1 / 8388608"
  proof (cases "1000 dvd k")
    case False
    have "1099511627776 \<le> real k" "real k < 2147483648000" using r by simp_all
    then show ?thesis using False f64_div_binade [OF x(2) c(2), of 30] by (simp add: seconds_read_def mod_eq_0_iff_dvd x c)
  qed (use whole in simp)
qed

lemma millis_read:
  assumes "k < 2 ^ 51"
  shows "millis_of_seconds (seconds_read k) = int k \<or> millis_of_seconds (seconds_read k) = int k - 1 \<and> 0 < k"
    "1000 dvd k \<Longrightarrow> millis_of_seconds (seconds_read k) = int k"
    "2 ^ 40 < k \<Longrightarrow> k < 2147483648000 \<Longrightarrow> millis_of_seconds (seconds_read k) = int k"
    "\<not> f64_sign (seconds_read k)"
proof -
  have zero: "seconds_read 0 = 0" "\<not> f64_sign 0" by (simp_all add: seconds_read_def f64_of_nat_def f64_round_def f64_sign_unat)
  note s = seconds_read_real [of k] and e = millis_error [of k "seconds_read k"]
  show "millis_of_seconds (seconds_read k) = int k \<or> millis_of_seconds (seconds_read k) = int k - 1 \<and> 0 < k"
    using zero millis_zero s e assms by (cases "k = 0") auto
  show "1000 dvd k \<Longrightarrow> millis_of_seconds (seconds_read k) = int k" using zero millis_zero s e assms by (cases "k = 0") auto
  show "2 ^ 40 < k \<Longrightarrow> k < 2147483648000 \<Longrightarrow> millis_of_seconds (seconds_read k) = int k"
    using s assms millis_exact [of k "seconds_read k"] by simp
  show "\<not> f64_sign (seconds_read k)" using zero s assms by (cases "k = 0") auto
qed

text \<open>Truncation is towards the epoch, on both sides of it.\<close>

lemma decoded_time_bounds:
  assumes "\<bar>k\<bar> < 2 ^ 51"
  shows "decoded_time k = k \<or> decoded_time k = k - sgn k" "1000 dvd k \<or> 2 ^ 40 < \<bar>k\<bar> \<and> \<bar>k\<bar> < 2 ^ 31 * 1000 \<Longrightarrow> decoded_time k = k"
proof -
  define n where "n = nat \<bar>k\<bar>"
  have n: "int n = \<bar>k\<bar>" "n < 2 ^ 51" using assms by (simp_all add: n_def nat_less_iff)
  note m = millis_read [OF n(2)]
  have "0 \<le> millis_of_seconds (seconds_read n)" using m(1) by auto
  then have d: "decoded_time k = (if k < 0 then - millis_of_seconds (seconds_read n) else millis_of_seconds (seconds_read n))"
    using m(4) n(1) by (auto simp: decoded_time_def seconds_of_def n_def millis_of_seconds_neg)
  show "decoded_time k = k \<or> decoded_time k = k - sgn k" using m(1) n(1) unfolding d by (auto simp: sgn_if split: if_splits)
  assume "1000 dvd k \<or> 2 ^ 40 < \<bar>k\<bar> \<and> \<bar>k\<bar> < 2 ^ 31 * 1000"
  moreover have "1000 dvd k \<longleftrightarrow> 1000 dvd n" using n(1) by (metis int_dvd_int_iff dvd_abs_iff of_nat_numeral)
  ultimately have "millis_of_seconds (seconds_read n) = int n" using m(2,3) unfolding n(1) [symmetric] by auto
  then show "decoded_time k = k" using n(1) unfolding d by auto
qed

text \<open>The times that are decoded to what was sent: whole seconds, and everything between 2004 and 2038.\<close>

definition time_ok :: "int \<Rightarrow> bool" where
  "time_ok k \<longleftrightarrow> \<bar>k\<bar> < 2 ^ 51 \<and> (1000 dvd k \<or> 2 ^ 40 < \<bar>k\<bar> \<and> \<bar>k\<bar> < 2 ^ 31 * 1000)"

lemma time_ok: "time_ok k \<Longrightarrow> decoded_time k = k \<and> nat \<bar>k\<bar> \<le> maxFloat64"
  using decoded_time_bounds(2) [of k] by (auto simp: time_ok_def maxFloat64_def nat_le_iff)

section \<open>What a server sends\<close>

text \<open>
  What the encoder calls outside: \<open>strconv.AppendFloat\<close> with a format and the shortest precision, and
  \<open>AllBucketIterator\<close>.
\<close>

record server =
  sv_AppendFloat :: "char \<Rightarrow> f64 \<Rightarrow> string"
  sv_AllBuckets :: "float_histogram \<Rightarrow> bucket list"

definition f64_abs :: "f64 \<Rightarrow> f64" where
  "f64_abs f = (if f64_sign f then f64_neg f else f)"

text \<open>The bounds are \<open>1e-6\<close> and \<open>1e21\<close>. The text of a number holds no byte that would need an escape.\<close>

definition MarshalFloat :: "server \<Rightarrow> f64 \<Rightarrow> json" where
  "MarshalFloat sv f =
     (let abs = f64_abs f;
          exponent = \<not> f64_eq abs 0 \<and>
            (f64_lt abs 0x3EB0C6F7A0B5ED8D \<or> f64_lt 0x444B1AE4D6E2EF50 abs \<or> f64_eq 0x444B1AE4D6E2EF50 abs)
      in JStr (plain (sv_AppendFloat sv (if exponent then CHR ''e'' else CHR ''f'') f)))"

definition exposed_buckets :: "server \<Rightarrow> float_histogram \<Rightarrow> bucket list" where
  "exposed_buckets sv h = filter (\<lambda>b. \<not> f64_eq (bk_Count b) 0) (sv_AllBuckets sv h)"

definition MarshalHistogram :: "server \<Rightarrow> float_histogram \<Rightarrow> json" where
  "MarshalHistogram sv h = JObj (
     [(''count'', MarshalFloat sv (fh_Count h)), (''sum'', MarshalFloat sv (fh_Sum h))] @
     (if exposed_buckets sv h = [] then [] else
       [(''buckets'', JArr (map (\<lambda>b. JArr [JNum (1000 * bucket_boundaries b), MarshalFloat sv (bk_Lower b), MarshalFloat sv (bk_Upper b), MarshalFloat sv (bk_Count b)])
          (exposed_buckets sv h)))]))"

record wire_series =
  ws_Metric :: labelset
  ws_Floats :: "(int \<times> f64) list"
  ws_Histograms :: "(int \<times> float_histogram) list"

definition marshalLabelsJSON :: "labelset \<Rightarrow> json" where
  "marshalLabelsJSON lbls = JObj (map (\<lambda>(n, v). (n, JStr (plain v))) lbls)"

definition marshalFPointJSON :: "server \<Rightarrow> int \<times> f64 \<Rightarrow> json" where
  "marshalFPointJSON sv = (\<lambda>(t, f). JArr [JNum t, MarshalFloat sv f])"

definition marshalHPointJSON :: "server \<Rightarrow> int \<times> float_histogram \<Rightarrow> json" where
  "marshalHPointJSON sv = (\<lambda>(t, h). JArr [JNum t, MarshalHistogram sv h])"

definition marshalSeriesJSON :: "server \<Rightarrow> wire_series \<Rightarrow> json" where
  "marshalSeriesJSON sv s = JObj ((''metric'', marshalLabelsJSON (ws_Metric s)) #
     (if ws_Floats s = [] then [] else [(''values'', JArr (map (marshalFPointJSON sv) (ws_Floats s)))]) @
     (if ws_Histograms s = [] then [] else [(''histograms'', JArr (map (marshalHPointJSON sv) (ws_Histograms s)))]))"

text \<open>
  A point that survives the wire: its time is one that is decoded exactly, and \<open>ParseFloat\<close> and \<open>Unmarshal\<close> read back
  the value and the histogram that were written. Of a histogram the wire holds the count, the sum and the buckets that
  are not empty.
\<close>

definition exposed_histogram :: "server \<Rightarrow> float_histogram \<Rightarrow> sample_histogram" where
  "exposed_histogram sv h = \<lparr>sh_Count = fh_Count h, sh_Sum = fh_Sum h,
     sh_Buckets = map (\<lambda>b. \<lparr>hb_Boundaries = bucket_boundaries b, hb_Lower = bk_Lower b, hb_Upper = bk_Upper b, hb_Count = bk_Count b\<rparr>) (exposed_buckets sv h),
     sh_pinned = None\<rparr>"

fun json_value :: "json \<Rightarrow> string" where
  "json_value (JStr s) = spelled_value s"
| "json_value _ = []"

definition float_ok :: "number_parsers \<Rightarrow> server \<Rightarrow> int \<times> f64 \<Rightarrow> bool" where
  "float_ok np sv = (\<lambda>(t, f). time_ok t \<and> np_ParseFloat np (json_value (MarshalFloat sv f)) = (f, None))"

definition histogram_ok :: "(string \<Rightarrow> string + sample_histogram) \<Rightarrow> server \<Rightarrow> int \<times> float_histogram \<Rightarrow> bool" where
  "histogram_ok um sv = (\<lambda>(t, h). time_ok t \<and> um (json_text (MarshalHistogram sv h)) = Inr (exposed_histogram sv h))"

definition wire_ok :: "number_parsers \<Rightarrow> (string \<Rightarrow> string + sample_histogram) \<Rightarrow> server \<Rightarrow> wire_series \<Rightarrow> bool" where
  "wire_ok np um sv w \<longleftrightarrow> list_all (\<lambda>(n, _). n \<noteq> []) (ws_Metric w) \<and> list_all (float_ok np sv) (ws_Floats w) \<and>
     list_all (histogram_ok um sv) (ws_Histograms w)"

text \<open>The samples as they were sent; a histogram is rebuilt from what the wire holds of it.\<close>

definition wire_float :: "int \<times> f64 \<Rightarrow> sample" where
  "wire_float = (\<lambda>(t, f). FloatSample t f)"

definition wire_histogram :: "server \<Rightarrow> int \<times> float_histogram \<Rightarrow> sample" where
  "wire_histogram sv = (\<lambda>(t, h). HistogramSample t (promapi_sampleHistogramToFloatHistogram (Some (exposed_histogram sv h))))"

definition wire_read :: "server \<Rightarrow> wire_series \<Rightarrow> series" where
  "wire_read sv w = NewSeries (sort_key fst (ws_Metric w))
     (let samples = map wire_float (ws_Floats w) @ map (wire_histogram sv) (ws_Histograms w)
      in if ws_Histograms w = [] then samples else sort_key sample_T samples)"

lemma metric_text: "json_text (marshalLabelsJSON ls) = object_text (map (\<lambda>(n, v). (n, json_string v, \<lambda>b. b @ [(n, v)])) ls)"
  by (simp add: marshalLabelsJSON_def object_text_def o_def case_prod_beta)

lemma fold_snoc: "fold (\<lambda>x b. b @ [g x]) xs b = b @ map g xs"
  by (induction xs arbitrary: b) auto

lemma metric_reads:
  assumes "list_all (\<lambda>(n, _). n \<noteq> []) ls"
  shows "reads (readMetric b) (json_text (marshalLabelsJSON ls)) (b @ ls)"
proof -
  have label: "reads (\<lambda>it. let (v, it) = ReadString it in (b @ [(n, v)], it)) (json_string v) (b @ [(n, v)])" for n v and b :: labelset
    using reads_map [OF plain_reads, of "\<lambda>v. b @ [(n, v)]" v] .
  have "reads (\<lambda>it. for_object (\<lambda>name b it. let (v, it) = ReadString it in (b @ [(name, v)], it)) b it) (json_text (marshalLabelsJSON ls))
      (fold (\<lambda>(_, _, f). f) (map (\<lambda>(n, v). (n, json_string v, \<lambda>b. b @ [(n, v)])) ls) b)"
    unfolding metric_text using assms label
    by (intro object_reads) (auto simp: left_le list_all_iff)
  moreover have "fold (\<lambda>(_, _, f). f) (map (\<lambda>(n, v). (n, json_string v, \<lambda>b. b @ [(n, v)])) ls) b = b @ ls"
    by (induction ls arbitrary: b) auto
  ultimately show ?thesis by (simp add: readMetric_def [abs_def])
qed

lemma MarshalFloat_JStr: "MarshalFloat sv f = JStr (plain (json_value (MarshalFloat sv f)))"
  by (simp add: MarshalFloat_def Let_def)

lemma float_reads:
  assumes "float_ok np sv p"
  shows "reads (\<lambda>it. let ((t, f), it) = decodeSamplePair np it in (s @ [FloatSample t f], it)) (json_text (marshalFPointJSON sv p)) (s @ [wire_float p])"
proof -
  obtain t f where p: "p = (t, f)" by (cases p)
  have ok: "time_ok t" "np_ParseFloat np (json_value (MarshalFloat sv f)) = (f, None)" using assms by (auto simp: p float_ok_def)
  have "reads (decodeSamplePair np) (json_text (JArr [JNum t, JStr (plain (json_value (MarshalFloat sv f)))])) (decoded_time t, f)"
    using ok time_ok by (intro sample_reads) simp_all
  then have "reads (decodeSamplePair np) (json_text (marshalFPointJSON sv p)) (t, f)"
    using time_ok [OF ok(1)] unfolding p marshalFPointJSON_def prod.case by (metis MarshalFloat_JStr)
  from reads_map2 [OF this, of "\<lambda>t f. s @ [FloatSample t f]"] show ?thesis unfolding p wire_float_def prod.case .
qed

lemma nesting_le:
  "\<forall>j\<in>set js. nesting j \<le> n \<Longrightarrow> nesting (JArr js) \<le> Suc n"
  "\<forall>(_, j)\<in>set fs. nesting j \<le> n \<Longrightarrow> nesting (JObj fs) \<le> Suc n"
proof -
  show "\<forall>j\<in>set js. nesting j \<le> n \<Longrightarrow> nesting (JArr js) \<le> Suc n" by (induction js) auto
  show "\<forall>(_, j)\<in>set fs. nesting j \<le> n \<Longrightarrow> nesting (JObj fs) \<le> Suc n" by (induction fs) auto
qed

lemma MarshalFloat_ok [simp]: "json_ok (MarshalFloat sv f)" "nesting (MarshalFloat sv f) = 0"
  by (subst MarshalFloat_JStr, simp)+

lemma MarshalHistogram_ok: "json_ok (MarshalHistogram sv h)" "nesting (MarshalHistogram sv h) \<le> 3"
proof -
  let ?b = "\<lambda>b. JArr [JNum (1000 * bucket_boundaries b), MarshalFloat sv (bk_Lower b), MarshalFloat sv (bk_Upper b), MarshalFloat sv (bk_Count b)]"
  have b: "json_ok (?b b)" "nesting (?b b) \<le> 1" for b by (simp_all add: bucket_boundaries_def maxFloat64_def)
  then have "json_ok (JArr (map ?b bs))" for bs by (auto simp: list_all_iff simp del: json_ok.simps(1))
  moreover have n: "nesting (JArr (map ?b bs)) \<le> Suc 1" for bs using b(2) by (intro nesting_le) (simp del: nesting.simps)
  ultimately show "json_ok (MarshalHistogram sv h)" by (simp add: MarshalHistogram_def)
  have "nesting (MarshalHistogram sv h) \<le> Suc 2" unfolding MarshalHistogram_def using n [of "exposed_buckets sv h"]
    by (intro nesting_le) (simp del: nesting.simps)
  then show "nesting (MarshalHistogram sv h) \<le> 3" by simp
qed

lemma hist_reads:
  assumes "histogram_ok um sv p"
  shows "reads (\<lambda>it. let ((t, fh), it) = decodeHistogramPair np um it in (s @ [HistogramSample t fh], it)) (json_text (marshalHPointJSON sv p))
    (s @ [wire_histogram sv p])"
proof -
  obtain t h where p: "p = (t, h)" by (cases p)
  have ok: "time_ok t" "um (json_text (MarshalHistogram sv h)) = Inr (exposed_histogram sv h)" using assms by (auto simp: p histogram_ok_def)
  have "reads (decodeHistogramPair np um) (json_text (JArr [JNum t, MarshalHistogram sv h]))
      (decoded_time t, promapi_sampleHistogramToFloatHistogram (Some (exposed_histogram sv h)))"
    using ok time_ok MarshalHistogram_ok [of sv h] by (intro histogram_reads) auto
  then have "reads (decodeHistogramPair np um) (json_text (marshalHPointJSON sv p))
      (t, promapi_sampleHistogramToFloatHistogram (Some (exposed_histogram sv h)))"
    using time_ok [OF ok(1)] by (simp add: p marshalHPointJSON_def del: json_text.simps)
  from reads_map2 [OF this, of "\<lambda>t fh. s @ [HistogramSample t fh]"] show ?thesis unfolding p wire_histogram_def prod.case .
qed

lemma floats_reads:
  assumes "list_all (float_ok np sv) ps"
  shows "reads (for_array (\<lambda>samples it. let ((t, f), it) = decodeSamplePair np it in (samples @ [FloatSample t f], it)) s)
    (json_text (JArr (map (marshalFPointJSON sv) ps))) (s @ map wire_float ps)"
proof -
  have "reads (for_array (\<lambda>samples it. let ((t, f), it) = decodeSamplePair np it in (samples @ [FloatSample t f], it)) s)
    (''['' @ separated (map (\<lambda>p. json_text (marshalFPointJSON sv p)) ps) @ '']'') (fold (\<lambda>p s. s @ [wire_float p]) ps s)"
    using float_reads assms by (intro array_reads) (auto simp: left_le list_all_iff)
  then show ?thesis by (simp add: fold_snoc o_def)
qed

lemma histograms_reads:
  assumes "list_all (histogram_ok um sv) ps"
  shows "reads (for_array (\<lambda>samples it. let ((t, fh), it) = decodeHistogramPair np um it in (samples @ [HistogramSample t fh], it)) s)
    (json_text (JArr (map (marshalHPointJSON sv) ps))) (s @ map (wire_histogram sv) ps)"
proof -
  have "reads (for_array (\<lambda>samples it. let ((t, fh), it) = decodeHistogramPair np um it in (samples @ [HistogramSample t fh], it)) s)
    (''['' @ separated (map (\<lambda>p. json_text (marshalHPointJSON sv p)) ps) @ '']'') (fold (\<lambda>p s. s @ [wire_histogram sv p]) ps s)"
    using hist_reads assms by (intro array_reads) (auto simp: left_le list_all_iff)
  then show ?thesis by (simp add: fold_snoc o_def)
qed

lemma marshalLabelsJSON_ok: "json_ok (marshalLabelsJSON ls) \<and> nesting (marshalLabelsJSON ls) \<le> 1"
proof -
  have "nesting (JObj (map (\<lambda>(n, v). (n, JStr (plain v))) ls)) \<le> Suc 0" by (rule nesting_le) auto
  then show ?thesis by (auto simp: marshalLabelsJSON_def list_all_iff simp del: nesting.simps)
qed

lemma marshalFPointJSON_ok: "float_ok np sv p \<Longrightarrow> json_ok (marshalFPointJSON sv p) \<and> nesting (marshalFPointJSON sv p) \<le> 9001"
  using time_ok by (auto simp: marshalFPointJSON_def float_ok_def)

lemma marshalHPointJSON_ok: "histogram_ok um sv p \<Longrightarrow> json_ok (marshalHPointJSON sv p) \<and> nesting (marshalHPointJSON sv p) \<le> 9001"
proof -
  assume ok: "histogram_ok um sv p"
  obtain t h where p: "p = (t, h)" by (cases p)
  have "nat \<bar>t\<bar> \<le> maxFloat64" using ok time_ok by (auto simp: p histogram_ok_def)
  then show ?thesis using MarshalHistogram_ok [of sv h] by (simp add: p marshalHPointJSON_def)
qed

lemma marshalSeriesJSON_ok:
  assumes "wire_ok np um sv w"
  shows "json_ok (marshalSeriesJSON sv w) \<and> nesting (marshalSeriesJSON sv w) \<le> 9003"
proof -
  have v: "json_ok (JArr (map (marshalFPointJSON sv) (ws_Floats w))) \<and> nesting (JArr (map (marshalFPointJSON sv) (ws_Floats w))) \<le> 9002"
    using assms marshalFPointJSON_ok [of np] nesting_le(1) [of "map (marshalFPointJSON sv) (ws_Floats w)" 9001] by (auto simp: wire_ok_def list_all_iff simp del: nesting.simps split_paired_All)
  have h: "json_ok (JArr (map (marshalHPointJSON sv) (ws_Histograms w))) \<and> nesting (JArr (map (marshalHPointJSON sv) (ws_Histograms w))) \<le> 9002"
    using assms marshalHPointJSON_ok [of um] nesting_le(1) [of "map (marshalHPointJSON sv) (ws_Histograms w)" 9001] by (auto simp: wire_ok_def list_all_iff simp del: nesting.simps split_paired_All)
  have m: "json_ok (marshalLabelsJSON (ws_Metric w))" "nesting (marshalLabelsJSON (ws_Metric w)) \<le> 9002" using marshalLabelsJSON_ok [of "ws_Metric w"] by auto
  have "nesting (marshalSeriesJSON sv w) \<le> Suc 9002" unfolding marshalSeriesJSON_def by (rule nesting_le) (use v h m in \<open>auto simp del: nesting.simps\<close>)
  moreover have "json_ok (marshalSeriesJSON sv w)" using v h m by (simp add: marshalSeriesJSON_def)
  ultimately show ?thesis by simp
qed

section \<open>Matrices\<close>

definition series_fields where
  "series_fields sv w =
     (''metric'', json_text (marshalLabelsJSON (ws_Metric w)), \<lambda>(b, s, h). (b @ ws_Metric w, s, h)) #
     (if ws_Floats w = [] then [] else [(''values'', json_text (JArr (map (marshalFPointJSON sv) (ws_Floats w))), \<lambda>(b, s, h). (b, s @ map wire_float (ws_Floats w), h))]) @
     (if ws_Histograms w = [] then [] else [(''histograms'', json_text (JArr (map (marshalHPointJSON sv) (ws_Histograms w))), \<lambda>(b, s, h). (b, s @ map (wire_histogram sv) (ws_Histograms w), True))])"

lemma series_text: "json_text (marshalSeriesJSON sv w) = object_text (series_fields sv w)"
  by (simp add: marshalSeriesJSON_def series_fields_def object_text_def)

lemma matrix_field_reads:
  assumes "wire_ok np um sv w" "(k, t, f) \<in> set (series_fields sv w)"
  shows "reads (matrix_field np um k s) t (f s)"
proof -
  obtain b sm h where s: "s = (b, sm, h)" by (cases s)
  have ok: "list_all (\<lambda>(n, _). n \<noteq> []) (ws_Metric w)" "list_all (float_ok np sv) (ws_Floats w)" "list_all (histogram_ok um sv) (ws_Histograms w)"
    using assms(1) by (auto simp: wire_ok_def)
  note reads_map [OF metric_reads [OF ok(1), of b], of "\<lambda>b. (b, sm, h)"]
    reads_map [OF floats_reads [OF ok(2), of sm], of "\<lambda>sm. (b, sm, h)"]
    reads_map [OF histograms_reads [OF ok(3), of np sm], of "\<lambda>sm. (b, sm, True)"]
  then show ?thesis using assms(2) by (auto simp: s series_fields_def matrix_field_def simp del: json_text.simps split: if_splits)
qed

lemma series_fold:
  "fold (\<lambda>(_, _, f). f) (series_fields sv w) ([], [], False) =
   (ws_Metric w, map wire_float (ws_Floats w) @ map (wire_histogram sv) (ws_Histograms w), ws_Histograms w \<noteq> [])"
  by (simp add: series_fields_def)

lemma matrix_entry_reads:
  assumes "wire_ok np um sv w"
  shows "reads (matrix_entry np um out) (json_text (marshalSeriesJSON sv w)) (out @ [wire_read sv w])"
proof -
  have "reads (for_object (matrix_field np um) ([], [], False)) (json_text (marshalSeriesJSON sv w)) (fold (\<lambda>(_, _, f). f) (series_fields sv w) ([], [], False))"
    unfolding series_text [of sv w] using assms matrix_field_reads left_matrix_field by (intro object_reads) (auto simp: series_fields_def)
  then show ?thesis unfolding series_fold reads_def matrix_entry_def wire_read_def builder_Labels_def by (auto simp: Let_def)
qed

lemma decodeMatrix_text:
  assumes "list_all (wire_ok np um sv) ws" "clean it" "ji_rest it = json_text (JArr (map (marshalSeriesJSON sv) ws)) @ r"
  shows "decodeMatrix np um it = (map (wire_read sv) ws, advance (length (json_text (JArr (map (marshalSeriesJSON sv) ws)))) it)"
proof -
  have "decodeMatrix np um it = (fold (\<lambda>w out. out @ [wire_read sv w]) ws [], advance (length (separated (map (\<lambda>w. json_text (marshalSeriesJSON sv w)) ws)) + 2) it)"
    unfolding decodeMatrix_def using assms matrix_entry_reads left_matrix_entry
    by (intro for_array_text [where r = r]) (auto simp: list_all_iff o_def)
  then show ?thesis by (simp add: fold_snoc o_def)
qed

section \<open>Vectors\<close>

text \<open>\<open>promql.Sample\<close>: a float, or a histogram when \<open>H\<close> is set.\<close>

type_synonym wire_point = "labelset \<times> ((int \<times> f64) + (int \<times> float_histogram))"

fun marshalSampleJSON :: "server \<Rightarrow> wire_point \<Rightarrow> json" where
  "marshalSampleJSON sv (ls, Inl p) = JObj [(''metric'', marshalLabelsJSON ls), (''value'', marshalFPointJSON sv p)]"
| "marshalSampleJSON sv (ls, Inr p) = JObj [(''metric'', marshalLabelsJSON ls), (''histogram'', marshalHPointJSON sv p)]"

fun point_ok :: "number_parsers \<Rightarrow> (string \<Rightarrow> string + sample_histogram) \<Rightarrow> server \<Rightarrow> wire_point \<Rightarrow> bool" where
  "point_ok np um sv (ls, Inl p) = (list_all (\<lambda>(n, _). n \<noteq> []) ls \<and> float_ok np sv p)"
| "point_ok np um sv (ls, Inr p) = (list_all (\<lambda>(n, _). n \<noteq> []) ls \<and> histogram_ok um sv p)"

fun point_sample :: "server \<Rightarrow> wire_point \<Rightarrow> sample" where
  "point_sample sv (_, Inl p) = wire_float p"
| "point_sample sv (_, Inr p) = wire_histogram sv p"

definition point_read :: "server \<Rightarrow> wire_point \<Rightarrow> series" where
  "point_read sv w = NewSeries (sort_key fst (fst w)) [point_sample sv w]"

lemma marshalSampleJSON_ok: "point_ok np um sv w \<Longrightarrow> json_ok (marshalSampleJSON sv w) \<and> nesting (marshalSampleJSON sv w) \<le> 9003"
  using marshalLabelsJSON_ok [of "fst w"]
  by (cases "(np, um, sv, w)" rule: point_ok.cases) (use marshalFPointJSON_ok marshalHPointJSON_ok in \<open>fastforce+\<close>)

lemma point_value_reads:
  "float_ok np sv p \<Longrightarrow> reads (\<lambda>it. let ((t, f), it) = decodeSamplePair np it in ((b, Some (FloatSample t f)), it)) (json_text (marshalFPointJSON sv p)) (b, Some (wire_float p))"
  "histogram_ok um sv q \<Longrightarrow> reads (\<lambda>it. let ((t, fh), it) = decodeHistogramPair np um it in ((b, Some (HistogramSample t fh)), it)) (json_text (marshalHPointJSON sv q)) (b, Some (wire_histogram sv q))"
  using float_reads [of np sv p "[]"] hist_reads [of um sv q np "[]"] unfolding reads_def by (fastforce split: prod.splits)+

lemma vector_entry_reads:
  assumes "point_ok np um sv w"
  shows "reads (for_object (vector_field np um) ([], None)) (json_text (marshalSampleJSON sv w)) (fst w, Some (point_sample sv w))"
proof -
  obtain ls v where w: "w = (ls, v)" by (cases w)
  define field where "field = (case v of Inl p \<Rightarrow> (''value'', json_text (marshalFPointJSON sv p)) | Inr p \<Rightarrow> (''histogram'', json_text (marshalHPointJSON sv p)))"
  define fs where "fs = [(''metric'', json_text (marshalLabelsJSON ls), \<lambda>(b, s). (b @ ls, s)),
    (fst field, snd field, \<lambda>(b, _). (b, Some (point_sample sv w)))]"
  have ok: "list_all (\<lambda>(n, _). n \<noteq> []) ls" using assms by (cases v) (auto simp: w)
  have "reads (vector_field np um k s) t (f s)" if "(k, t, f) \<in> set fs" for k t f s
  proof -
    obtain b sm where s: "s = (b, sm)" by (cases s)
    note reads_map [OF metric_reads [OF ok, of b], of "\<lambda>b. (b, sm)"] point_value_reads
    then show ?thesis using that assms by (cases v) (auto simp: s w fs_def field_def vector_field_def simp del: json_text.simps)
  qed
  then have "reads (for_object (vector_field np um) ([], None)) (object_text fs) (fold (\<lambda>(_, _, f). f) fs ([], None))"
    using left_vector_field by (intro object_reads) (auto simp: fs_def field_def split: sum.split)
  moreover have "object_text fs = json_text (marshalSampleJSON sv w)" by (cases v) (simp_all add: fs_def field_def object_text_def w)
  ultimately show ?thesis by (simp add: fs_def w)
qed

lemma decodeVector_step:
  assumes "point_ok np um sv w" "ReadArray it = (True, advance 1 it)" "ji_rest it = c # json_text (marshalSampleJSON sv w) @ r" "clean it" "delimited r"
  shows "decodeVector np um out it = decodeVector np um (out @ [point_read sv w]) (advance (length (json_text (marshalSampleJSON sv w)) + 1) it)"
proof -
  have "for_object (vector_field np um) ([], None) (advance 1 it) =
      ((fst w, Some (point_sample sv w)), advance (length (json_text (marshalSampleJSON sv w))) (advance 1 it))"
    using assms by (intro readsD [OF vector_entry_reads, where r = r]) simp_all
  moreover have "left (advance n (advance 1 it)) < left it" for n using assms(3) by (simp add: left_def)
  ultimately show ?thesis using assms(2) by (subst decodeVector.simps) (simp add: point_read_def builder_Labels_def)
qed

lemma decodeVector_rest:
  assumes "list_all (point_ok np um sv) ws" "clean it" "ji_rest it = concat (map (\<lambda>w. CHR '','' # json_text (marshalSampleJSON sv w)) ws) @ CHR '']'' # r"
  shows "decodeVector np um out it =
    (out @ map (point_read sv) ws, advance (length (concat (map (\<lambda>w. CHR '','' # json_text (marshalSampleJSON sv w)) ws)) + 1) it)"
  using assms
proof (induction ws arbitrary: out it)
  case Nil
  then show ?case by (subst decodeVector.simps) (simp add: ReadArray_close)
next
  case (Cons w ws)
  let ?rest = "concat (map (\<lambda>w. CHR '','' # json_text (marshalSampleJSON sv w)) ws) @ CHR '']'' # r" and ?it = "advance (length (json_text (marshalSampleJSON sv w)) + 1) it"
  have "delimited ?rest" by (cases ws) simp_all
  then have step: "decodeVector np um out it = decodeVector np um (out @ [point_read sv w]) ?it"
    using Cons.prems ReadArray_comma by (intro decodeVector_step [where c = "CHR '',''" and r = ?rest]) simp_all
  have "decodeVector np um (out @ [point_read sv w]) ?it =
      ((out @ [point_read sv w]) @ map (point_read sv) ws, advance (length (concat (map (\<lambda>w. CHR '','' # json_text (marshalSampleJSON sv w)) ws)) + 1) ?it)"
    using Cons.prems by (intro Cons.IH) simp_all
  then show ?case unfolding step by (simp add: ac_simps)
qed

lemma decodeVector_text:
  assumes "list_all (point_ok np um sv) ws" "clean it" "ji_rest it = json_text (JArr (map (marshalSampleJSON sv) ws)) @ r"
  shows "decodeVector np um [] it = (map (point_read sv) ws, advance (length (json_text (JArr (map (marshalSampleJSON sv) ws)))) it)"
proof (cases ws)
  case Nil
  then have "ReadArray it = (False, advance 2 it)" using assms(3) by (simp add: ReadArray_empty)
  then show ?thesis using Nil by (subst decodeVector.simps) (simp add: numeral_2_eq_2)
next
  case (Cons w ws')
  let ?rest = "concat (map (\<lambda>w. CHR '','' # json_text (marshalSampleJSON sv w)) ws') @ CHR '']'' # r" and ?it = "advance (length (json_text (marshalSampleJSON sv w)) + 1) it"
  have rest: "ji_rest it = CHR ''['' # json_text (marshalSampleJSON sv w) @ ?rest" using assms(3) Cons by (simp add: separated_Cons o_def)
  obtain c cs where c: "json_text (marshalSampleJSON sv w) = c # cs" "\<not> is_space c" "c \<noteq> CHR '']''"
    using json_text_hd [of "marshalSampleJSON sv w"] by (cases "json_text (marshalSampleJSON sv w)") auto
  have "ReadArray it = (True, advance 1 it)" using rest c assms(2) by (intro ReadArray_open) (simp_all add: clean_def)
  moreover have "delimited ?rest" by (cases ws') simp_all
  ultimately have step: "decodeVector np um [] it = decodeVector np um ([] @ [point_read sv w]) ?it"
    using rest assms Cons by (intro decodeVector_step) simp_all
  have "decodeVector np um ([] @ [point_read sv w]) ?it =
      (([] @ [point_read sv w]) @ map (point_read sv) ws', advance (length (concat (map (\<lambda>w. CHR '','' # json_text (marshalSampleJSON sv w)) ws')) + 1) ?it)"
    using rest assms Cons by (intro decodeVector_rest) simp_all
  then show ?thesis unfolding step by (simp add: Cons separated_Cons o_def ac_simps)
qed

section \<open>Responses\<close>

datatype wire_result = WMatrix "wire_series list" | WVector "wire_point list"

fun result_type :: "wire_result \<Rightarrow> string" where
  "result_type (WMatrix _) = ''matrix''"
| "result_type (WVector _) = ''vector''"

fun result_json :: "server \<Rightarrow> wire_result \<Rightarrow> json" where
  "result_json sv (WMatrix ws) = JArr (map (marshalSeriesJSON sv) ws)"
| "result_json sv (WVector ws) = JArr (map (marshalSampleJSON sv) ws)"

fun result_ok :: "number_parsers \<Rightarrow> (string \<Rightarrow> string + sample_histogram) \<Rightarrow> server \<Rightarrow> wire_result \<Rightarrow> bool" where
  "result_ok np um sv (WMatrix ws) = list_all (wire_ok np um sv) ws"
| "result_ok np um sv (WVector ws) = list_all (point_ok np um sv) ws"

fun result_read :: "server \<Rightarrow> wire_result \<Rightarrow> series list" where
  "result_read sv (WMatrix ws) = map (wire_read sv) ws"
| "result_read sv (WVector ws) = map (point_read sv) ws"

text \<open>
  The envelope. \<open>extra\<close> are fields of the data that the decoder does not know. Warnings, infos and messages come from
  the reflecting encoder, in whatever spelling.
\<close>

definition strings_json :: "piece list list \<Rightarrow> json" where
  "strings_json ss = JArr (map JStr ss)"

definition success_json :: "server \<Rightarrow> wire_result \<Rightarrow> (string \<times> json) list \<Rightarrow> piece list list \<Rightarrow> piece list list \<Rightarrow> json" where
  "success_json sv res extra warnings infos = JObj (
     [(''status'', JStr (plain ''success'')),
      (''data'', JObj ([(''resultType'', JStr (plain (result_type res))), (''result'', result_json sv res)] @ extra))] @
     (if warnings = [] then [] else [(''warnings'', strings_json warnings)]) @
     (if infos = [] then [] else [(''infos'', strings_json infos)]))"

definition error_json :: "piece list \<Rightarrow> piece list \<Rightarrow> piece list list \<Rightarrow> json" where
  "error_json errType errMsg warnings = JObj (
     [(''status'', JStr (plain ''error'')), (''errorType'', JStr errType), (''error'', JStr errMsg)] @
     (if warnings = [] then [] else [(''warnings'', strings_json warnings)]))"

lemma result_json_ok:
  assumes "result_ok np um sv res"
  shows "json_ok (result_json sv res) \<and> nesting (result_json sv res) \<le> 10000"
proof (cases res)
  case (WMatrix ws)
  have "nesting (JArr (map (marshalSeriesJSON sv) ws)) \<le> Suc 9003"
    using assms marshalSeriesJSON_ok [of np um] WMatrix by (intro nesting_le) (auto simp: list_all_iff)
  then show ?thesis using assms marshalSeriesJSON_ok [of np um] WMatrix by (auto simp: list_all_iff simp del: nesting.simps)
next
  case (WVector ws)
  have "nesting (JArr (map (marshalSampleJSON sv) ws)) \<le> Suc 9003"
    using assms marshalSampleJSON_ok [of np um] WVector by (intro nesting_le) (auto simp: list_all_iff simp del: split_paired_All)
  then show ?thesis using assms marshalSampleJSON_ok [of np um] WVector by (auto simp: list_all_iff simp del: nesting.simps split_paired_All)
qed

lemma result_text_nonempty: "json_text (result_json sv res) \<noteq> []"
  using json_text_hd by blast

lemma BorrowIterator_clean [simp]: "clean (BorrowIterator body)" "ji_rest (BorrowIterator body) = body"
  by (simp_all add: BorrowIterator_def clean_def)

lemma decodeResult_text:
  assumes "result_ok np um sv res"
  shows "decodeResult np um isPrint (result_type res) (json_text (result_json sv res)) = (result_read sv res, None)"
proof (cases res)
  case (WMatrix ws)
  then have "decodeMatrix np um (BorrowIterator (json_text (result_json sv res))) =
      (result_read sv res, advance (length (json_text (result_json sv res))) (BorrowIterator (json_text (result_json sv res))))"
    using assms decodeMatrix_text [of np um sv ws _ "[]"] by simp
  then show ?thesis using WMatrix result_text_nonempty [of sv res] by (simp add: decodeResult_def iter_go_error_def BorrowIterator_def)
next
  case (WVector ws)
  then have "decodeVector np um [] (BorrowIterator (json_text (result_json sv res))) =
      (result_read sv res, advance (length (json_text (result_json sv res))) (BorrowIterator (json_text (result_json sv res))))"
    using assms decodeVector_text [of np um sv ws _ "[]"] by simp
  then show ?thesis using WVector result_text_nonempty [of sv res] by (simp add: decodeResult_def iter_go_error_def BorrowIterator_def)
qed

definition annotate :: "piece list list \<Rightarrow> annotations \<Rightarrow> annotations" where
  "annotate ss = fold (\<lambda>s. annotations_Add (toAnnotationError s)) (map spelled_value ss)"

lemma annotations_reads:
  "reads (read_annotations anns) (json_text (strings_json ss)) (annotate ss anns)"
proof -
  have "reads (\<lambda>it. let (s, it) = ReadString it in (annotations_Add (toAnnotationError s) a, it)) (spelled_text s) (annotations_Add (toAnnotationError (spelled_value s)) a)" for s a
    using reads_map [OF string_reads, of "\<lambda>s. annotations_Add (toAnnotationError s) a" s] .
  then have "reads (\<lambda>it. read_annotations anns it) (''['' @ separated (map spelled_text ss) @ '']'') (fold (\<lambda>s. annotations_Add (toAnnotationError (spelled_value s))) ss anns)"
    unfolding read_annotations_def by (intro array_reads) (auto simp: left_le)
  then show ?thesis by (simp add: strings_json_def annotate_def o_def fold_map)
qed

text \<open>A field of a response whose value is read with \<open>f\<close>.\<close>

definition extra_ok :: "(string \<times> json) list \<Rightarrow> bool" where
  "extra_ok extra \<longleftrightarrow> list_all (\<lambda>(k, j). k \<notin> {[], ''resultType'', ''result''} \<and> json_ok j \<and> nesting j \<le> 10000) extra"

definition data_fields :: "server \<Rightarrow> wire_result \<Rightarrow> (string \<times> json) list \<Rightarrow> (string \<times> string \<times> (response \<Rightarrow> response)) list" where
  "data_fields sv res extra =
     [(''resultType'', json_string (result_type res), rs_resultType_update (\<lambda>_. result_type res)),
      (''result'', json_text (result_json sv res), rs_result_update (\<lambda>_. json_text (result_json sv res)))] @
     map (\<lambda>(k, j). (k, json_text j, id)) extra"

definition note_fields :: "string \<Rightarrow> piece list list \<Rightarrow> (string \<times> string \<times> (response \<Rightarrow> response)) list" where
  "note_fields key ss = (if ss = [] then [] else
     [(key, json_text (strings_json ss), \<lambda>rs. rs\<lparr>rs_anns := annotate ss (rs_anns rs)\<rparr>)])"

lemma data_field_reads:
  assumes "result_ok np um sv res" "extra_ok extra" "(k, t, f) \<in> set (data_fields sv res extra)"
  shows "reads (data_field np k rs) t (f rs)"
proof -
  have j: "json_ok (result_json sv res)" "nesting (result_json sv res) \<le> 10000" using result_json_ok [OF assms(1)] by auto
  note reads_map [OF plain_reads [of "result_type res"], of "\<lambda>s. rs\<lparr>rs_resultType := s\<rparr>"]
    reads_map [OF bytes_reads [OF j, of np], of "\<lambda>s. rs\<lparr>rs_result := s\<rparr>"] skip_reads [of _ rs np]
  then show ?thesis using assms(2,3) by (auto simp: data_fields_def data_field_def [abs_def] extra_ok_def list_all_iff)
qed

lemma data_reads:
  assumes "result_ok np um sv res" "extra_ok extra"
  shows "reads (for_object (data_field np) rs)
    (json_text (JObj ([(''resultType'', JStr (plain (result_type res))), (''result'', result_json sv res)] @ extra)))
    (rs\<lparr>rs_resultType := result_type res, rs_result := json_text (result_json sv res)\<rparr>)"
proof -
  have "json_text (JObj ([(''resultType'', JStr (plain (result_type res))), (''result'', result_json sv res)] @ extra)) = object_text (data_fields sv res extra)"
    by (simp add: object_text_def data_fields_def o_def) (auto intro!: arg_cong [where f = separated])
  moreover have "fold (\<lambda>(_, _, f). f) (map (\<lambda>(k, j). (k, json_text j, id)) extra) rs = rs" for rs :: response
    by (induction extra arbitrary: rs) auto
  then have "fold (\<lambda>(_, _, f). f) (data_fields sv res extra) rs = rs\<lparr>rs_resultType := result_type res, rs_result := json_text (result_json sv res)\<rparr>"
    by (simp add: data_fields_def)
  moreover have "reads (for_object (data_field np) rs) (object_text (data_fields sv res extra)) (fold (\<lambda>(_, _, f). f) (data_fields sv res extra) rs)"
    using assms data_field_reads left_data_field by (intro object_reads) (auto simp: data_fields_def extra_ok_def list_all_iff)
  ultimately show ?thesis by simp
qed

lemma status_reads: "reads (response_field np ''status'' rs) (spelled_text s) (rs\<lparr>rs_status := spelled_value s\<rparr>)"
  "reads (response_field np ''errorType'' rs) (spelled_text s) (rs\<lparr>rs_errType := spelled_value s\<rparr>)"
  "reads (response_field np ''error'' rs) (spelled_text s) (rs\<lparr>rs_errMsg := spelled_value s\<rparr>)"
  using reads_map [OF string_reads [of s], of "\<lambda>s. rs\<lparr>rs_status := s\<rparr>"] reads_map [OF string_reads [of s], of "\<lambda>s. rs\<lparr>rs_errType := s\<rparr>"]
    reads_map [OF string_reads [of s], of "\<lambda>s. rs\<lparr>rs_errMsg := s\<rparr>"]
  by (simp_all add: response_field_def [abs_def])

lemma note_reads:
  assumes "key = ''warnings'' \<or> key = ''infos''" "(k, t, f) \<in> set (note_fields key ss)"
  shows "reads (response_field np k rs) t (f rs)"
  using reads_map [OF annotations_reads [of "rs_anns rs" ss], of "\<lambda>anns. rs\<lparr>rs_anns := anns\<rparr>"] assms
  by (auto simp: note_fields_def response_field_def [abs_def] split: if_splits)

lemma note_fold:
  "fold (\<lambda>(_, _, f). f) (note_fields key ss) rs = rs\<lparr>rs_anns := annotate ss (rs_anns rs)\<rparr>"
  by (simp add: note_fields_def annotate_def)

lemma response_fields:
  assumes "\<And>k t f rs. (k, t, f) \<in> set fs \<Longrightarrow> reads (response_field np k rs) t (f rs)" "[] \<notin> fst ` set fs"
  shows "\<exists>it. for_object (response_field np) no_response (BorrowIterator (object_text fs)) = (fold (\<lambda>(_, _, f). f) fs no_response, it) \<and> ji_Error it = None"
  using for_object_fields [of "response_field np" fs "BorrowIterator (object_text fs)" "[]"] assms left_response_field
  by (auto simp: BorrowIterator_def clean_def)

definition example_parsers :: number_parsers where
  "example_parsers = \<lparr>np_ParseFloat = \<lambda>s. if s = ''1'' then (f64_of_nat 1, None) else (0, Some ''invalid syntax''),
     np_ParseFloat32_err = \<lambda>_. None, np_BigFloat_err = \<lambda>_. None\<rparr>"

definition example_server :: server where
  "example_server = \<lparr>sv_AppendFloat = \<lambda>_ f. if f = f64_of_nat 1 then ''1'' else ''0'',
     sv_AllBuckets = \<lambda>h. [\<lparr>bk_Lower = 0, bk_Upper = f64_of_nat 1, bk_LowerInclusive = False, bk_UpperInclusive = True, bk_Count = fh_Count h\<rparr>]\<rparr>"

definition example_histogram :: float_histogram where
  "example_histogram = empty_float_histogram\<lparr>fh_Count := f64_of_nat 1, fh_Sum := f64_of_nat 1\<rparr>"

definition example_um :: "string \<Rightarrow> string + sample_histogram" where
  "example_um s = (if s = json_text (MarshalHistogram example_server example_histogram) then Inr (exposed_histogram example_server example_histogram) else Inl ''invalid'')"

definition example_result :: wire_result where
  "example_result = WMatrix [\<lparr>ws_Metric = [(''__name__'', ''up''), (''job'', ''a<b'')], ws_Floats = [(60000, f64_of_nat 1), (1700000000123, f64_of_nat 1)],
     ws_Histograms = [(-1000, example_histogram)]\<rparr>]"

text \<open>
  C10. The response decoder inverts Prometheus's JSON codec on matrices and vectors. Let every sample time be one the
  decoder can represent (whole seconds, or any millisecond between November 2004 and January 2038, on either side of
  the epoch), every float one that \<open>ParseFloat\<close> reads back from its text, every histogram one whose count, sum and
  buckets \<open>Unmarshal\<close> reads back, and no label name empty. Then decoding the bytes of the success response gives,
  without error, one series for each series sent, in the order sent, with its labels sorted by name and its samples
  with the times and float values that were sent (histograms rebuilt from count, sum and buckets, the samples of a
  mixed series in time order), and the annotations of the warnings and infos, however these are spelled. Fields of the
  data that the decoder does not know are ignored when their numbers have at most three decimals.
\<close>

theorem DecodeSeriesSet_success:
  assumes "result_ok np um sv res" "extra_ok extra"
  shows "DecodeSeriesSet np um isPrint (json_text (success_json sv res extra warnings infos)) =
    NewSeriesSet (result_read sv res) (WarningsConvert (map spelled_value (warnings @ infos))) None"
proof -
  define fs where "fs = [(''status'', spelled_text (plain ''success''), rs_status_update (\<lambda>_. spelled_value (plain ''success''))),
    (''data'', json_text (JObj ([(''resultType'', JStr (plain (result_type res))), (''result'', result_json sv res)] @ extra)),
      (\<lambda>rs. rs\<lparr>rs_resultType := result_type res, rs_result := json_text (result_json sv res)\<rparr>))] @
    note_fields ''warnings'' warnings @ note_fields ''infos'' infos"
  have txt_eq: "json_text (success_json sv res extra warnings infos) = object_text fs"
    by (simp add: success_json_def fs_def object_text_def note_fields_def)
  have "reads (response_field np k rs) t (f rs)" if "(k, t, f) \<in> set fs" for k t f rs
    using that status_reads(1) [of np rs "plain ''success''"] data_reads [OF assms, of rs] note_reads [of "''warnings''" k t f warnings np rs] note_reads [of "''infos''" k t f infos np rs]
    by (auto simp: fs_def response_field_def [abs_def] simp del: json_text.simps)
  moreover have "[] \<notin> fst ` set fs" by (auto simp: fs_def note_fields_def)
  ultimately obtain it where it: "for_object (response_field np) no_response (BorrowIterator (object_text fs)) = (fold (\<lambda>(_, _, f). f) fs no_response, it)" "ji_Error it = None"
    using response_fields by blast
  then show ?thesis unfolding txt_eq
    by (simp add: DecodeSeriesSet_def it fs_def note_fold no_response_def decodeResult_text [OF assms(1)] WarningsConvert_def annotate_def)
qed

theorem DecodeSeriesSet_success_witness:
  "map (\<lambda>s. (sr_labels s, map sample_T (sr_samples s))) (ss_series (DecodeSeriesSet example_parsers example_um (\<lambda>_. True)
     (json_text (success_json example_server example_result [(''stats'', JNull)] [[Code 60, Plain CHR ''x'']] [])))) =
   [([(''__name__'', ''up''), (''job'', ''a<b'')], [-1000, 60000, 1700000000123])]"
proof -
  have "result_ok example_parsers example_um example_server example_result" "extra_ok [(''stats'', JNull)]"
    by (simp_all add: example_result_def example_parsers_def example_um_def wire_ok_def float_ok_def histogram_ok_def extra_ok_def time_ok_def
        MarshalFloat_def example_server_def Let_def)
  note DecodeSeriesSet_success [OF this, of "\<lambda>_. True" "[[Code 60, Plain CHR ''x'']]" "[]"]
  then show ?thesis by (simp add: NewSeriesSet_def example_result_def wire_read_def NewSeries_def wire_float_def wire_histogram_def)
qed

lemma DecodeSeriesSet_error:
  "DecodeSeriesSet np um isPrint (json_text (error_json errType errMsg warnings)) =
    NewSeriesSet [] (WarningsConvert (map spelled_value warnings)) (Some (ResponseError (spelled_value errType) (spelled_value errMsg)))"
proof -
  define fs where "fs = [(''status'', spelled_text (plain ''error''), rs_status_update (\<lambda>_. spelled_value (plain ''error''))),
    (''errorType'', spelled_text errType, rs_errType_update (\<lambda>_. spelled_value errType)), (''error'', spelled_text errMsg, rs_errMsg_update (\<lambda>_. spelled_value errMsg))] @
    note_fields ''warnings'' warnings"
  have txt_eq: "json_text (error_json errType errMsg warnings) = object_text fs"
    by (simp add: error_json_def fs_def object_text_def note_fields_def)
  have "reads (response_field np k rs) t (f rs)" if "(k, t, f) \<in> set fs" for k t f rs
    using that status_reads(1) [of np rs "plain ''error''"] status_reads(2,3) note_reads [of "''warnings''" k t f warnings np rs] by (auto simp: fs_def)
  moreover have "[] \<notin> fst ` set fs" by (auto simp: fs_def note_fields_def)
  ultimately obtain it where it: "for_object (response_field np) no_response (BorrowIterator (object_text fs)) = (fold (\<lambda>(_, _, f). f) fs no_response, it)" "ji_Error it = None"
    using response_fields by blast
  then show ?thesis unfolding txt_eq by (simp add: DecodeSeriesSet_def it fs_def note_fold no_response_def WarningsConvert_def annotate_def)
qed

text \<open>
  C12. An API error survives the decoder with its type and message and no series, whatever the HTTP status and however
  the server spells its strings: the bytes of an error envelope decode to exactly that error, and a status that is not
  2xx does not replace it, unless the server uses the type that the decoder reserves for malformed bodies.
\<close>

theorem DecodeResponse_error_envelope:
  assumes "status div 100 = 2 \<or> spelled_value errType \<noteq> badResponse"
  shows "DecodeResponse (DecodeSeriesSet np um isPrint) status (json_text (error_json errType errMsg warnings)) =
    NewSeriesSet [] (WarningsConvert (map spelled_value warnings)) (Some (ResponseError (spelled_value errType) (spelled_value errMsg)))"
  using assms by (auto simp: DecodeResponse_def Let_def DecodeSeriesSet_error NewSeriesSet_def errors_As_def)

theorem DecodeResponse_error_envelope_witness:
  "DecodeResponse (DecodeSeriesSet example_parsers example_um (\<lambda>_. True)) 422 (json_text (error_json (plain ''execution'') (plain ''timed out'') [])) =
    NewSeriesSet [] [] (Some (ResponseError ''execution'' ''timed out''))"
  using DecodeResponse_error_envelope [of 422 "plain ''execution''" example_parsers example_um "\<lambda>_. True" "plain ''timed out''" "[]"]
  by (simp add: badResponse_def WarningsConvert_def)

text \<open>
  C11. The time of a decoded sample. A sample sent with the time \<open>k\<close> milliseconds, less than \<open>2 ^ 51\<close> from the epoch, is
  read as a \<open>float64\<close> of seconds, multiplied by 1000 and truncated. The result is \<open>k\<close> or one millisecond nearer to the
  epoch; it is \<open>k\<close> for whole seconds, and for every time between November 2004 (\<open>2 ^ 40\<close> ms) and January 2038
  (\<open>2 ^ 31\<close> s), where both roundings together stay below half a unit in the last place.
\<close>

theorem decodeSamplePair_time:
  assumes "\<bar>k\<bar> < 2 ^ 51" "np_ParseFloat np (spelled_value v) = (f, None)"
  shows "\<exists>t it. decodeSamplePair np (BorrowIterator (json_text (JArr [JNum k, JStr v]))) = ((t, f), it) \<and> ji_Error it = None \<and>
    (t = k \<or> t = k - sgn k) \<and> (1000 dvd k \<or> 2 ^ 40 < \<bar>k\<bar> \<and> \<bar>k\<bar> < 2 ^ 31 * 1000 \<longrightarrow> t = k)"
proof -
  let ?it = "BorrowIterator (json_text (JArr [JNum k, JStr v]))"
  have "nat \<bar>k\<bar> \<le> maxFloat64" using assms(1) by (simp add: maxFloat64_def nat_le_iff)
  then have "decodeSamplePair np ?it = ((decoded_time k, f), advance (length (json_text (JArr [JNum k, JStr v]))) ?it)"
    using assms(2) by (simp add: decodeSamplePair_text [where r = "[]"] del: json_text.simps)
  then show ?thesis using decoded_time_bounds [OF assms(1)] by (simp add: BorrowIterator_def)
qed

theorem decodeSamplePair_time_witness:
  "\<exists>t it. decodeSamplePair example_parsers (BorrowIterator (json_text (JArr [JNum 1700000000123, JStr (plain ''1'')]))) = ((t, f64_of_nat 1), it) \<and> t = 1700000000123"
  using decodeSamplePair_time [of 1700000000123 example_parsers "plain ''1''" "f64_of_nat 1"] by (fastforce simp: example_parsers_def)

text \<open>Outside that range the truncation can lose a millisecond: 1.001 s is decoded as 1000 ms.\<close>

lemmas f64_eval = f64_round_def last_place_def shifted_def nearest_even_def Let_def

lemma example_words: "f64_of_nat 1001 = 0x408F480000000000" "f64_of_nat 1000 = 0x408F400000000000"
  by (simp_all add: f64_of_nat_def f64_eval)

lemma example_fractions: "f64_fraction 0x408F480000000000 = (0x1F480000000000, 2^43)" "f64_fraction 0x408F400000000000 = (0x1F400000000000, 2^43)"
  "f64_fraction 0x3FF004189374BC6A = (0x1004189374BC6A, 2^52)" "f64_fraction 0x408F47FFFFFFFFFF = (0x1F47FFFFFFFFFF, 2^43)"
  by (simp_all add: f64_fraction_def f64_fields_unat f64_eval)

lemma example_signs: "\<not> f64_sign 0x408F480000000000" "\<not> f64_sign 0x408F400000000000" "\<not> f64_sign 0x3FF004189374BC6A" "\<not> f64_sign 0x408F47FFFFFFFFFF" "f64_exponent 0x408F47FFFFFFFFFF \<noteq> 2047"
  by (simp_all add: f64_fields_unat)

lemma example_quotient_round: "f64_round False (0x1F480000000000 * 2^43) (2^43 * 0x1F400000000000) = of_nat 0x3FF004189374BC6A"
proof (rule f64_round_eq)
  show "last_place (0x1F480000000000 * 2^43) (2^43 * 0x1F400000000000) = -52" by (simp add: last_place_def shifted_def)
  show "shifted (0x1F480000000000 * 2^43) (2^43 * 0x1F400000000000) (-52) = (0x1F480000000000 * 2^43 * 2 ^ 52, 2^43 * 0x1F400000000000)" by (simp add: shifted_def)
  show "0x1F480000000000 * 2^43 * 2 ^ 52 = 0x1004189374BC6A * (2^43 * 0x1F400000000000) + (38376141217846788521872850944 :: nat)" by simp
qed simp_all

lemma example_product_round: "f64_round False (0x1004189374BC6A * 0x1F400000000000) (2^52 * 2^43) = of_nat 0x408F47FFFFFFFFFF"
proof (rule f64_round_eq)
  show "last_place (0x1004189374BC6A * 0x1F400000000000) (2^52 * 2^43) = -43" by (simp add: last_place_def shifted_def)
  show "shifted (0x1004189374BC6A * 0x1F400000000000) (2^52 * 2^43) (-43) = (0x1004189374BC6A * 0x1F400000000000 * 2 ^ 43, 2^52 * 2^43)" by (simp add: shifted_def)
  show "0x1004189374BC6A * 0x1F400000000000 * 2 ^ 43 = 0x1F47FFFFFFFFFF * (2^52 * 2^43) + (1237940039285380274899124224 :: nat)" by simp
qed simp_all

lemma example_operations: "f64_div 0x408F480000000000 0x408F400000000000 = 0x3FF004189374BC6A" "f64_mul 0x3FF004189374BC6A 0x408F400000000000 = 0x408F47FFFFFFFFFF"
  unfolding f64_div_def f64_mul_def example_fractions Let_def prod.case using example_quotient_round example_product_round example_signs by (simp_all only: simp_thms of_nat_numeral)

lemma decode_loses_millisecond: "decoded_time 1001 = 1000"
  by (simp add: decoded_time_def seconds_of_def seconds_read_def millis_of_seconds_def example_words example_operations int64_of_f64_def example_fractions example_signs)

end
