(* ===== verification/Spec2Isabelle.thy ===== *)
theory Spec2Isabelle
  imports Promxy_Upstream Promxy_Backfill Promxy_Aggregation Promxy_Inspect Promxy_Decode
begin

text \<open>
  A verification of promxy, a proxy that makes several groups of replicated Prometheus servers look
  like one. The source is Go; file names below are relative to \<open>src/\<close>.

  \<^bold>\<open>The program.\<close> A \<^emph>\<open>server group\<close> (\<open>pkg/servergroup\<close>) is a set of interchangeable
  Prometheus servers, found by service discovery. Each server is reached through an \<open>API\<close>
  (\<open>pkg/promclient/interface.go\<close>): an HTTP or remote_read client (\<open>api.go\<close>) inside a stack of
  wrappers that add the group's labels, inject matchers, rename labels, drop calls outside a time
  window or ruled out by a label filter, align or truncate times, and rewrite errors. \<open>MultiAPI\<close>
  (\<open>multi_api.go\<close>) fans a call out to all servers of a group, waits for a quorum per set of
  replicas and merges the answers: series by series (\<open>merge_seriesset.go\<close>), sample by sample with the
  anti-affinity merge (\<open>pkg/promhttputil/merge.go\<close>). A second \<open>MultiAPI\<close> joins the groups.
  \<open>ProxyStorage\<close> (\<open>pkg/proxystorage\<close>) owns the groups, swaps them when the configuration is reloaded,
  gives the PromQL engine its queriers (\<open>pkg/proxyquerier\<close>), and pushes parts of a query down to the
  groups while the engine walks the tree (\<open>NodeReplacer\<close>). On top of it are the federation handler
  (\<open>pkg/federate\<close>, \<open>pkg/expfmt\<close>), the exemplar and metadata handlers, and the backfill of alert state
  for the rule manager (\<open>pkg/alertbackfill\<close>).

  \<^bold>\<open>How it is modelled.\<close> Go values are HOL values: a struct is a record, an interface a record of
  functions (\<open>api\<close>), an error a value of \<open>go_error\<close> with its chain of wrapped errors, a \<open>nil\<close>
  pointer or error \<open>None\<close>, a panic the outcome \<open>Panic\<close> of the type \<open>outcome\<close>. Integers whose overflow
  matters wrap at 64 bits (\<open>int64\<close>, in \<^theory_text>\<open>Promxy_Prelude\<close>); a \<open>float64\<close> is its 64-bit pattern, with
  the order of Go. A map is an association list in key order (\<open>smap\<close>); where Go iterates a map in an
  arbitrary order, the theorems say what does not depend on it. Goroutines are schedules: the order
  in which replies arrive and the point where the context is cancelled are arguments over which the
  theorems quantify. Background loops and reloads are step relations. All definitions compute.

  \<^bold>\<open>Theories.\<close>
  \<^item> \<open>Promxy_Prelude\<close>: panics, 64-bit arithmetic, \<open>time.Time\<close> and \<open>time.Duration\<close>, \<open>float64\<close>
    comparison, ordered maps, and the collections \<open>go_arith\<close> and \<open>label_simps\<close>.
  \<^item> \<open>Promxy_Labels\<close>: label sets and the two FNV-1a fingerprints.
  \<^item> \<open>Promxy_Merge\<close> (\<open>pkg/promhttputil/merge.go\<close>): \<open>MergeSampleStream\<close> with its buffer, the
    histogram merge and \<open>preferMax\<close>. The loops with their offsets compute a declarative union; no
    point is lost beyond the buffer; timestamps stay increasing.
  \<^item> \<open>Promxy_Errors\<close> (\<open>multi_api.go\<close>, \<open>pkg/promapi/decode.go\<close>): error classes, the choice of the
    reported error, and the bounded, valid rendering of response bodies.
  \<^item> \<open>Promxy_Heap\<close>: the binary heap of \<open>container/heap\<close>; the locale \<open>min_queue\<close> is the interface the
    series merge relies on, interpreted on the heap.
  \<^item> \<open>Promxy_SeriesSet\<close> (\<open>merge_seriesset.go\<close>, \<open>seriesset_wrap.go\<close>, \<open>histogram_convert.go\<close>,
    \<open>pkg/promapi/decode.go\<close>, \<open>pkg/proxyquerier/series_set.go\<close>, the heap merge of Prometheus): series,
    cursors (locale \<open>series_cursor\<close>), conversions, and the k-way merge (locale \<open>vertical_merge\<close>).
  \<^item> \<open>Promxy_Api\<close>: the interface and \<open>ErrorWrap\<close>, \<open>IgnoreErrorAPI\<close>, \<open>DowngradeErrorAPI\<close>,
    \<open>recoverAPI\<close>, \<open>TimeTruncate\<close>, \<open>StepAlignClient\<close>.
  \<^item> \<open>Promxy_MultiApi\<close> (\<open>multi_api.go\<close>): the gathering loop, quorums, and every merge; the locales
    \<open>collects_warnings\<close> and \<open>parks_in_slots\<close> say what an accumulator keeps.
  \<^item> \<open>Promxy_Promql\<close>: matchers, syntax trees, \<open>Walk\<close> and the visitors (locale \<open>rewrites_selectors\<close>).
  \<^item> \<open>Promxy_Filters\<close> (\<open>filtermatcher.go\<close>, \<open>label.go\<close>, \<open>inject_matchers.go\<close>), \<open>Promxy_LabelFilter\<close>
    (\<open>labelfilter.go\<close>), \<open>Promxy_TimeFilter\<close> (\<open>timefilter.go\<close>) and \<open>Promxy_Relabel\<close>
    (\<open>metric_relabel.go\<close>): the wrappers that rewrite or drop calls. What they send downstream selects
    what the caller asked for; what they drop could not have matched, apart from series that lack a filtered label.
  \<^item> \<open>Promxy_Client\<close> (\<open>api.go\<close>, \<open>api_query.go\<close>): the clients at the bottom of a stack.
  \<^item> \<open>Promxy_StepSeries\<close> and \<open>Promxy_Pushdown\<close> (\<open>proxy.go\<close>, \<open>histogram_routing.go\<close>, \<open>util.go\<close>):
    step grids with stale markers, and \<open>NodeReplacer\<close>: when a node is pushed down, and for which
    times. \<open>Promxy_Aggregation\<close> shows which query is behind a pushed-down aggregation and how its answer is
    recombined, and \<open>Promxy_Inspect\<close> that the walk ends.
  \<^item> \<open>Promxy_ServerGroup\<close> (\<open>pkg/servergroup\<close>) and \<open>Promxy_Storage\<close> (\<open>proxy.go\<close>): configuration,
    construction of the stack, reloads, and the two state machines with their invariants.
  \<^item> \<open>Promxy_Querier\<close> (\<open>pkg/proxyquerier/querier.go\<close>, \<open>exemplar_querier.go\<close>, the metadata handler):
    the storage interface of the engine.
  \<^item> \<open>Promxy_Expfmt\<close> (\<open>pkg/expfmt/encode.go\<close>) and \<open>Promxy_Federate\<close> (\<open>pkg/federate/federate.go\<close>):
    the text format and the handler. \<open>Promxy_Upstream\<close> has the handler of Prometheus and the encoder of
    \<open>prometheus/common\<close> that they replace, both from the vendored sources, and the two give the same text.
  \<^item> \<open>Promxy_Backfill\<close> (\<open>pkg/alertbackfill\<close>, \<open>pkg/promclient/engine.go\<close>): the recomputed alert state.
  \<^item> \<open>Promxy_Float\<close>: \<open>float64\<close> arithmetic as correctly rounded fractions, with the error bounds from which the
    exactness of decoded times follows. \<open>Promxy_Json\<close>: the iterator of \<open>json-iterator/go\<close> on bytes, with its
    errors, escapes, numbers and depth limit, and the loops over objects and arrays. \<open>Promxy_JsonText\<close>: the texts
    a server sends (\<open>jsonutil\<close>, \<open>WriteString\<close>), and that the iterator reads each of them back and skips each of
    them whole. \<open>Promxy_Decode\<close> (\<open>pkg/promapi/decode.go\<close>): the decoder of query responses, and the vendored JSON
    codec of the server; decoding what the codec writes gives the series that were sent, the annotations or the
    error, and times are exact to the millisecond from 2004 to 2038 and for whole seconds.
  This theory joins them: an instant query on a configured storage, from the groups down to the
  client of every target.

  \<^bold>\<open>Bounds and fuel.\<close> The walk with \<open>NodeReplacer\<close> (\<open>inspect\<close>) carries fuel, because the
  children of a replacement are walked and \<open>avg\<close> is replaced by a larger tree, which has been printed and parsed;
  what running out of fuel returns is an argument. \<open>Promxy_Inspect\<close> shows that there is always enough fuel, that
  more changes nothing, and that the depth of the tree is enough when it holds no \<open>avg\<close>. For a tree with \<open>avg\<close> the
  printer and parser are relied on not to bring back an average in the quotient that replaces one.
  \<open>Skip\<close> of the JSON iterator has fuel for the bytes left, twice over; \<open>Promxy_Json\<close> shows that more changes nothing. All other loops are
  structural or have termination proofs. Theorems about times assume what keeps the 64-bit arithmetic exact where
  it is needed, and say so.

  \<^bold>\<open>Parameters.\<close> What is not in the sources is an argument: the PromQL parser and printer (\<open>promql\<close>),
  regular expressions, bucket iteration and JSON error envelopes (\<open>externals\<close>), the PromQL engine, the
  HTTP transport with the answers of the downstream servers, service discovery and
  \<open>relabel_configs\<close>, the clock, \<open>strconv.AppendFloat\<close> and \<open>ParseFloat\<close>, the reading of a
  histogram from its JSON, and the handles of the remote_write storage.

  \<^bold>\<open>Not modelled.\<close> \<open>cmd/promxy/main.go\<close>, \<open>cmd/remote_write_exporter\<close>, \<open>pkg/server\<close>,
  \<open>pkg/middleware\<close>: flags, signals, HTTP servers and process start-up, which only move data in and
  out. \<open>pkg/logging\<close>, \<open>debug.go\<close> and \<open>client_wrap.go\<close> only write logs and metrics around a call.
  \<open>pkg/config\<close>: the reading of YAML; its checks that decide anything are in the configuration
  records of the components. \<open>pkg/alerttemplate\<close>: text substitution in rule annotations by the
  template engine. \<open>appender_stub.go\<close>, \<open>chunk_querier.go\<close> and \<open>test_server.go\<close> return errors or serve
  tests. The standalone client of \<open>pkg/promapi\<close> (\<open>client.go\<close>, \<open>metadata.go\<close>), which nothing in promxy constructs. Goroutine scheduling below the level of
  replies, memory and data races, and metrics are outside the model.
\<close>

section \<open>Properties that span the components\<close>

text \<open>
  C1. A query from end to end: take a reachable state of the storage with a configuration and every server group loaded,
  targets none of whose calls panics and whose successful answers, as the target's stack of clients returns them, name
  no label set twice (the relabelling of a lone target may map two series to one, and they are not merged then), and a
  context that is not cancelled. Then, for every order in which the answers arrive, an instant query returns; it
  succeeds exactly when every server group answers, that is when the group ignores or downgrades errors, has no targets,
  or one of its targets answers (at the time truncated to milliseconds, through the whole stack of clients of the
  target); and on success its result names exactly the label sets that some target of some group answered, each once.
\<close>

theorem promxy_Query_end_to_end:
  assumes "proxy_reachable ext uc pq env p" "px_cfg (pr_state p) \<noteq> None"
    and "\<forall>i<length (px_sgs (pr_state p)). sg_state (px_sgs (pr_state p) ! i) = Some (gs i)"
    and "\<forall>i<length (px_sgs (pr_state p)). \<forall>j<length (st_clients (gs i)).
      Query (target_api ext pq (st_cfg (gs i)) now (st_clients (gs i) ! j)) q (time_Truncate ts truncateDuration) = Ret (vs i j) \<and>
      (ss_err (vs i j) = None \<longrightarrow> labels_distinct (vs i j))"
  shows "\<exists>ss. Query (state_client ext pq (pr_state p) now (\<lambda>i. (inner i, None)) (outer, None)) q ts = Ret ss \<and> labels_distinct ss \<and>
    (ss_err ss = None \<longleftrightarrow> (\<forall>i<length (px_sgs (pr_state p)). group_answers (gs i) (vs i))) \<and>
    (ss_err ss = None \<longrightarrow> label_sets ss = (\<Union>i<length (px_sgs (pr_state p)). answered_labels (gs i) (vs i)))"
proof -
  have "configured ext uc pq env (pr_state p)" "state_Ready (pr_state p)"
    using proxy_reachable_ok [OF assms(1)] assms(2) by (auto simp: proxy_ok_def empty_state_def)
  from state_client_Query [OF this assms(3,4)] show ?thesis .
qed

theorem promxy_Query_end_to_end_witness:
  "\<exists>ss. Query (state_client example_ext up_pq (pr_state plain_proxy) 0 (\<lambda>_. ([1, 0], None)) ([0], None)) ''up'' 0 = Ret ss \<and>
     labels_distinct ss \<and> ss_err ss = None"
proof -
  let ?vs = "\<lambda>_ j. if j = 0 then EmptySeriesSet
    else ErrSeriesSet (PkgWrap ''error in target=http://b:9090'' (ErrQueryTimeout ''context deadline exceeded''))"
  have st: "px_sgs (pr_state plain_proxy) = [plain_group]" "px_cfg (pr_state plain_proxy) \<noteq> None" "sg_state plain_group = Some plain_state"
    "st_clients plain_state = plain_targets" "st_cfg plain_state = plain_cfg" "length plain_targets = 2" "time_Truncate 0 truncateDuration = 0"
    by (simp_all add: plain_proxy_def plain_pxstate_def plain_group_def plain_state_def plain_targets_def time_Truncate_def zero_time_def truncateDuration_def)
  have groups: "\<forall>i<length (px_sgs (pr_state plain_proxy)). sg_state (px_sgs (pr_state plain_proxy) ! i) = Some plain_state"
    by (simp add: st)
  have ok: "group_answers plain_state (?vs 0)"
    unfolding group_answers_def st by (intro disjI2 exI [of _ 0]) (simp add: EmptySeriesSet_def NewSeriesSet_def)
  have "\<forall>i<length (px_sgs (pr_state plain_proxy)). \<forall>j<length (st_clients plain_state).
      Query (target_api example_ext up_pq (st_cfg plain_state) 0 (st_clients plain_state ! j)) ''up'' (time_Truncate 0 truncateDuration) = Ret (?vs i j) \<and>
      (ss_err (?vs i j) = None \<longrightarrow> labels_distinct (?vs i j))"
    using plain_answers
    by (simp add: st numeral_2_eq_2 All_less_Suc labels_distinct_def EmptySeriesSet_def ErrSeriesSet_def NewSeriesSet_def)
  from promxy_Query_end_to_end [OF plain_proxy_reachable st(2) groups this, of "\<lambda>_. [1, 0]" "[0]"] ok
  show ?thesis by (auto simp: st)
qed

end
